(* ===== verification/Prelude.thy ===== *)
theory Prelude
  imports Main "HOL-Library.Multiset" "HOL-Library.List_Lexorder"
begin

text \<open>
  Shared vocabulary of the development: the result type of code that may raise, a bind for it,
  reachability of a transition system with a locale that carries an invariant to every reachable
  state, and list facts the components share.
\<close>

section \<open>Code that may raise\<close>

text \<open>
  A Python function that may raise is a HOL function into \<open>'e + 'a\<close>: \<open>Inl e\<close> is the exception,
  \<open>Inr x\<close> the returned value.  \<open>rbind\<close> sequences two such computations, the second of which runs
  only when the first has not raised.
\<close>

definition rbind :: "'e + 'a \<Rightarrow> ('a \<Rightarrow> 'e + 'b) \<Rightarrow> 'e + 'b" where
  "rbind m f = (case m of Inl e \<Rightarrow> Inl e | Inr x \<Rightarrow> f x)"

definition py_assert :: "'e \<Rightarrow> bool \<Rightarrow> 'e + unit" where
  "py_assert e b = (if b then Inr () else Inl e)"

lemma rbind_simps [simp]:
  "rbind (Inl e) f = Inl e"
  "rbind (Inr x) f = f x"
  by (simp_all add: rbind_def)

lemma rbind_eq_Inr_iff: "rbind m f = Inr y \<longleftrightarrow> (\<exists>x. m = Inr x \<and> f x = Inr y)"
  by (cases m) auto

lemma rbind_eq_Inl_iff: "rbind m f = Inl e \<longleftrightarrow> m = Inl e \<or> (\<exists>x. m = Inr x \<and> f x = Inl e)"
  by (cases m) auto

lemma rbind_assoc: "rbind (rbind m f) g = rbind m (\<lambda>x. rbind (f x) g)"
  by (cases m) auto

lemma py_assert_simps [simp]:
  "py_assert e True = Inr ()"
  "py_assert e False = Inl e"
  by (simp_all add: py_assert_def)

lemma py_assert_eq_Inr_iff [simp]: "py_assert e b = Inr u \<longleftrightarrow> b"
  by (simp add: py_assert_def)

lemma rbind_cong [fundef_cong]:
  "m = m' \<Longrightarrow> (\<And>x. m' = Inr x \<Longrightarrow> f x = f' x) \<Longrightarrow> rbind m f = rbind m' f'"
  by (cases m') auto

section \<open>Reachable states and invariants\<close>

inductive reach :: "('s \<Rightarrow> bool) \<Rightarrow> ('s \<Rightarrow> 'e \<Rightarrow> 's \<Rightarrow> bool) \<Rightarrow> 's \<Rightarrow> bool"
  for init :: "'s \<Rightarrow> bool" and step :: "'s \<Rightarrow> 'e \<Rightarrow> 's \<Rightarrow> bool" where
  reach_init: "init s \<Longrightarrow> reach init step s"
| reach_step: "reach init step s \<Longrightarrow> step s e t \<Longrightarrow> reach init step t"

inductive steps :: "('s \<Rightarrow> 'e \<Rightarrow> 's \<Rightarrow> bool) \<Rightarrow> 's \<Rightarrow> 'e list \<Rightarrow> 's \<Rightarrow> bool"
  for step :: "'s \<Rightarrow> 'e \<Rightarrow> 's \<Rightarrow> bool" where
  steps_Nil: "steps step s [] s"
| steps_Cons: "step s e t \<Longrightarrow> steps step t es u \<Longrightarrow> steps step s (e # es) u"

inductive_cases steps_NilE: "steps step s [] u"
inductive_cases steps_ConsE: "steps step s (e # es) u"

lemma steps_one: "step s e t \<Longrightarrow> steps step s [e] t"
  by (rule steps_Cons[where t = t]) (auto intro: steps_Nil)

lemma reach_steps: "steps step s es t \<Longrightarrow> reach init step s \<Longrightarrow> reach init step t"
  by (induction rule: steps.induct) (auto intro: reach_step)

text \<open>
  A component whose operations keep an invariant: every reachable state satisfies it, and so does
  every state of a run from a state that does.
\<close>

locale invariant_system =
  fixes init :: "'s \<Rightarrow> bool"
    and step :: "'s \<Rightarrow> 'e \<Rightarrow> 's \<Rightarrow> bool"
    and inv :: "'s \<Rightarrow> bool"
  assumes init_inv: "init s \<Longrightarrow> inv s"
    and step_inv: "inv s \<Longrightarrow> step s e t \<Longrightarrow> inv t"
begin

lemma reach_inv: "reach init step s \<Longrightarrow> inv s"
  by (induction rule: reach.induct) (auto intro: init_inv step_inv)

lemma steps_inv: "steps step s es t \<Longrightarrow> inv s \<Longrightarrow> inv t"
  by (induction rule: steps.induct) (auto intro: step_inv)

end

text \<open>
  A component that implements a specification: an abstraction of its states under which each of its
  steps is a step of the specification, so that each of its runs is a run of the specification.
\<close>

locale refinement_system = invariant_system init step inv
  for init :: "'s \<Rightarrow> bool" and step :: "'s \<Rightarrow> 'e \<Rightarrow> 's \<Rightarrow> bool" and inv :: "'s \<Rightarrow> bool" +
  fixes abs :: "'s \<Rightarrow> 'a" and spec_step :: "'a \<Rightarrow> 'e \<Rightarrow> 'a \<Rightarrow> bool"
  assumes step_refines: "inv s \<Longrightarrow> step s e t \<Longrightarrow> spec_step (abs s) e (abs t)"
begin

lemma steps_refine: "steps step s es t \<Longrightarrow> inv s \<Longrightarrow> steps spec_step (abs s) es (abs t)"
  by (induction rule: steps.induct) (auto intro: steps_Nil steps_Cons step_refines step_inv)

end

section \<open>Python strings, bytes and the \<open>bisect\<close> module\<close>

text \<open>
  A \<open>str\<close> is the list of its code points; Python compares strings lexicographically by code point,
  which is the order of \<open>HOL-Library.List_Lexorder\<close>.  The empty string is falsy.
\<close>

type_synonym pystr = "nat list"
type_synonym bytes = "nat list"

text \<open>The decimal digits of a number.\<close>

function digits :: "nat \<Rightarrow> pystr" where
  "digits n = (if n < 10 then [48 + n] else digits (n div 10) @ [48 + n mod 10])"
  by pat_completeness auto
termination
  by (relation "measure id") auto

declare digits.simps [simp del]

text \<open>
  \<open>bisect_right(a, x)\<close> and \<open>bisect_left(a, x)\<close>, with the loops of the standard library: the
  interval \<open>[lo, hi)\<close> is halved until it is empty.
\<close>

function bisect_right_loop :: "'a::linorder list \<Rightarrow> 'a \<Rightarrow> nat \<Rightarrow> nat \<Rightarrow> nat" where
  "bisect_right_loop a x lo hi =
     (if lo < hi then
        (let mid = (lo + hi) div 2
         in if x < a ! mid then bisect_right_loop a x lo mid
            else bisect_right_loop a x (mid + 1) hi)
      else lo)"
  by pat_completeness auto
termination
  by (relation "measure (\<lambda>(a, x, lo, hi). hi - lo)") auto

function bisect_left_loop :: "'a::linorder list \<Rightarrow> 'a \<Rightarrow> nat \<Rightarrow> nat \<Rightarrow> nat" where
  "bisect_left_loop a x lo hi =
     (if lo < hi then
        (let mid = (lo + hi) div 2
         in if a ! mid < x then bisect_left_loop a x (mid + 1) hi
            else bisect_left_loop a x lo mid)
      else lo)"
  by pat_completeness auto
termination
  by (relation "measure (\<lambda>(a, x, lo, hi). hi - lo)") auto

declare bisect_right_loop.simps [simp del] bisect_left_loop.simps [simp del]

definition bisect_right :: "'a::linorder list \<Rightarrow> 'a \<Rightarrow> nat" where
  "bisect_right a x = bisect_right_loop a x 0 (length a)"

definition bisect_left :: "'a::linorder list \<Rightarrow> 'a \<Rightarrow> nat" where
  "bisect_left a x = bisect_left_loop a x 0 (length a)"

text \<open>The strictly increasing lists of the B-tree.\<close>

abbreviation strictly_sorted :: "'a::linorder list \<Rightarrow> bool" where
  "strictly_sorted \<equiv> sorted_wrt (<)"

lemma strictly_sorted_nth_le: "strictly_sorted a \<Longrightarrow> i \<le> j \<Longrightarrow> j < length a \<Longrightarrow> a ! i \<le> a ! j"
  by (metis le_less order.strict_implies_order sorted_wrt_nth_less)

lemma bisect_loop_done:
  "\<not> lo < hi \<Longrightarrow> bisect_right_loop a x lo hi = lo"
  "\<not> lo < hi \<Longrightarrow> bisect_left_loop a x lo hi = lo"
  by (subst bisect_right_loop.simps, simp) (subst bisect_left_loop.simps, simp)

lemma no_index_past_end: "(\<forall>i. n \<le> i \<and> i < n \<longrightarrow> P i) = True" for n :: nat
  by auto

lemma bisect_right_loop_bounds:
  assumes "strictly_sorted a" "hi \<le> length a" "lo \<le> hi"
    and "\<forall>i < lo. a ! i \<le> x" "\<forall>i. hi \<le> i \<and> i < length a \<longrightarrow> x < a ! i"
  shows "bisect_right_loop a x lo hi \<le> length a \<and>
    (\<forall>i < bisect_right_loop a x lo hi. a ! i \<le> x) \<and>
    (\<forall>i. bisect_right_loop a x lo hi \<le> i \<and> i < length a \<longrightarrow> x < a ! i)"
  using assms
proof (induction a x lo hi rule: bisect_right_loop.induct)
  case (1 a x lo hi)
  show ?case
  proof (cases "lo < hi")
    case False
    with "1.prems" show ?thesis by (simp add: bisect_loop_done)
  next
    case lt: True
    let ?m = "(lo + hi) div 2"
    have m: "lo \<le> ?m" "?m < hi" "?m < length a" using lt "1.prems"(2) by auto
    show ?thesis
    proof (cases "x < a ! ?m")
      case True
      have "\<forall>i. ?m \<le> i \<and> i < length a \<longrightarrow> x < a ! i"
        using True strictly_sorted_nth_le[OF "1.prems"(1), of ?m] by (metis less_le_trans)
      with "1.IH"(1)[OF lt refl True "1.prems"(1)] "1.prems" m lt True show ?thesis
        by (simp add: bisect_right_loop.simps[of a x lo hi] Let_def)
    next
      case False
      have "\<forall>i < ?m + 1. a ! i \<le> x"
        using False strictly_sorted_nth_le[OF "1.prems"(1), of _ ?m] m(3)
        by (metis Suc_eq_plus1 less_Suc_eq_le linorder_not_less order_trans)
      with "1.IH"(2)[OF lt refl False "1.prems"(1)] "1.prems" m lt False show ?thesis
        by (simp add: bisect_right_loop.simps[of a x lo hi] Let_def)
    qed
  qed
qed

lemma bisect_left_loop_bounds:
  assumes "strictly_sorted a" "hi \<le> length a" "lo \<le> hi"
    and "\<forall>i < lo. a ! i < x" "\<forall>i. hi \<le> i \<and> i < length a \<longrightarrow> x \<le> a ! i"
  shows "bisect_left_loop a x lo hi \<le> length a \<and>
    (\<forall>i < bisect_left_loop a x lo hi. a ! i < x) \<and>
    (\<forall>i. bisect_left_loop a x lo hi \<le> i \<and> i < length a \<longrightarrow> x \<le> a ! i)"
  using assms
proof (induction a x lo hi rule: bisect_left_loop.induct)
  case (1 a x lo hi)
  show ?case
  proof (cases "lo < hi")
    case False
    with "1.prems" show ?thesis by (simp add: bisect_loop_done)
  next
    case lt: True
    let ?m = "(lo + hi) div 2"
    have m: "lo \<le> ?m" "?m < hi" "?m < length a" using lt "1.prems"(2) by auto
    show ?thesis
    proof (cases "a ! ?m < x")
      case True
      have "\<forall>i < ?m + 1. a ! i < x"
        using True strictly_sorted_nth_le[OF "1.prems"(1), of _ ?m] m(3)
        by (metis Suc_eq_plus1 less_Suc_eq_le le_less_trans)
      with "1.IH"(1)[OF lt refl True "1.prems"(1)] "1.prems" m lt True show ?thesis
        by (simp add: bisect_left_loop.simps[of a x lo hi] Let_def)
    next
      case False
      have "\<forall>i. ?m \<le> i \<and> i < length a \<longrightarrow> x \<le> a ! i"
        using False strictly_sorted_nth_le[OF "1.prems"(1), of ?m]
        by (metis linorder_not_less order_trans)
      with "1.IH"(2)[OF lt refl False "1.prems"(1)] "1.prems" m lt False show ?thesis
        by (simp add: bisect_left_loop.simps[of a x lo hi] Let_def)
    qed
  qed
qed

text \<open>On a sorted list, the index is the number of elements at most (less than) the key.\<close>

lemma bisect_right_eq:
  assumes "strictly_sorted a"
  shows "bisect_right a x = length (takeWhile (\<lambda>y. y \<le> x) a)"
proof -
  let ?n = "bisect_right a x"
  have b: "?n \<le> length a" "\<forall>i < ?n. a ! i \<le> x" "\<forall>i. ?n \<le> i \<and> i < length a \<longrightarrow> x < a ! i"
    using bisect_right_loop_bounds[OF assms order.refl le0, of x] by (simp_all add: bisect_right_def no_index_past_end)
  then have "takeWhile (\<lambda>y. y \<le> x) a = take ?n a"
    by (intro takeWhile_eq_take_P_nth) (auto simp: not_le)
  with b(1) show ?thesis by simp
qed

lemma bisect_left_eq:
  assumes "strictly_sorted a"
  shows "bisect_left a x = length (takeWhile (\<lambda>y. y < x) a)"
proof -
  let ?n = "bisect_left a x"
  have b: "?n \<le> length a" "\<forall>i < ?n. a ! i < x" "\<forall>i. ?n \<le> i \<and> i < length a \<longrightarrow> x \<le> a ! i"
    using bisect_left_loop_bounds[OF assms order.refl le0, of x] by (simp_all add: bisect_left_def no_index_past_end)
  then have "takeWhile (\<lambda>y. y < x) a = take ?n a"
    by (intro takeWhile_eq_take_P_nth) (auto simp: not_less)
  with b(1) show ?thesis by simp
qed

end
