(* ===== verification/Txn_Lock.thy ===== *)
theory Txn_Lock
  imports Prelude
begin

text \<open>
  The per-state shared/exclusive lock of the state manager: class \<open>Lock\<close> of
  \<open>reboot/aio/state_managers.py\<close>.  The first part translates the class; the second part puts it
  among its callers (the coroutines that hold it, wait for it or have been granted it but not yet
  resumed) and shows that every run keeps the lock's bookkeeping equal to the holds its callers
  have, that exclusion holds, that no wakeup is lost and that waiters are served in order.
\<close>

section \<open>The lock\<close>

text \<open>
  A \<open>StateManager.Transaction\<close> is compared by identity only (set membership and \<open>is\<close>), so a
  natural number stands for the object.  \<open>None\<close> is a reader or writer outside any transaction.
  A \<open>_Waiter\<close> is an object too: \<open>wid\<close> is its identity, and \<open>resolved\<close> below holds the identities of
  the waiters whose future is resolved.
\<close>

datatype mode = SHARED | EXCLUSIVE

type_synonym txn = nat

record waiter =
  wid :: nat
  w_mode :: mode
  w_txn :: "txn option"

datatype lock_error =
    AssertionError        \<comment> \<open>an \<open>assert\<close> of the class fails\<close>
  | InvalidStateError     \<comment> \<open>\<open>future.set_result\<close> on a resolved future\<close>
  | Unavailable           \<comment> \<open>\<open>SystemAborted(Unavailable())\<close>\<close>

record lock =
  shared :: int
  exclusive :: bool
  upgrader :: "waiter option"
  exclusive_holder :: "txn option"
  shared_holders :: "txn set"
  waiters :: "waiter list"
  resolved :: "nat set"       \<comment> \<open>resolved futures\<close>
  next_wid :: nat         \<comment> \<open>identity of the next waiter object\<close>

definition lock_init :: lock where
  "lock_init = \<lparr>shared = 0, exclusive = False, upgrader = None, exclusive_holder = None,
     shared_holders = {}, waiters = [], resolved = {}, next_wid = 0\<rparr>"

definition is_shared_locked :: "lock \<Rightarrow> bool" where
  "is_shared_locked l \<longleftrightarrow> shared l > 0"

definition is_exclusive_locked :: "lock \<Rightarrow> bool" where
  "is_exclusive_locked l \<longleftrightarrow> exclusive l"

definition is_locked :: "lock \<Rightarrow> bool" where
  "is_locked l \<longleftrightarrow> is_shared_locked l \<or> is_exclusive_locked l"

text \<open>\<open>holders\<close> lists the shared holders and then the exclusive one; only membership matters.\<close>

definition holders :: "lock \<Rightarrow> txn set" where
  "holders l = shared_holders l \<union> (case exclusive_holder l of None \<Rightarrow> {} | Some t \<Rightarrow> {t})"

definition add_shared_holder :: "txn option \<Rightarrow> lock \<Rightarrow> lock_error + lock" where
  "add_shared_holder t l =
     (case t of None \<Rightarrow> Inr l
      | Some x \<Rightarrow> if x \<in> shared_holders l then Inl AssertionError
                  else Inr (l\<lparr>shared_holders := insert x (shared_holders l)\<rparr>))"

definition remove_shared_holder :: "txn option \<Rightarrow> lock \<Rightarrow> lock_error + lock" where
  "remove_shared_holder t l =
     (case t of None \<Rightarrow> Inr l
      | Some x \<Rightarrow> if x \<in> shared_holders l
                  then Inr (l\<lparr>shared_holders := shared_holders l - {x}\<rparr>)
                  else Inl AssertionError)"

definition set_exclusive_holder :: "txn option \<Rightarrow> lock \<Rightarrow> lock_error + lock" where
  "set_exclusive_holder t l =
     (if exclusive_holder l = None then Inr (l\<lparr>exclusive_holder := t\<rparr>) else Inl AssertionError)"

definition unset_exclusive_holder :: "txn option \<Rightarrow> lock \<Rightarrow> lock_error + lock" where
  "unset_exclusive_holder t l =
     (if exclusive_holder l = t then Inr (l\<lparr>exclusive_holder := None\<rparr>) else Inl AssertionError)"

definition set_result :: "waiter \<Rightarrow> lock \<Rightarrow> lock_error + lock" where
  "set_result w l =
     (if wid w \<in> resolved l then Inl InvalidStateError
      else Inr (l\<lparr>resolved := insert (wid w) (resolved l)\<rparr>))"

text \<open>\<open>try_acquire_shared\<close> and \<open>try_acquire_exclusive\<close> return whether the hold was taken.\<close>

definition try_acquire_shared :: "txn option \<Rightarrow> lock \<Rightarrow> lock_error + (bool \<times> lock)" where
  "try_acquire_shared t l =
     (if exclusive l \<or> upgrader l \<noteq> None then Inr (False, l)
      else if list_ex (\<lambda>w. w_mode w = EXCLUSIVE) (waiters l) then Inr (False, l)
      else rbind (add_shared_holder t (l\<lparr>shared := shared l + 1\<rparr>)) (\<lambda>l'. Inr (True, l')))"

definition try_acquire_exclusive :: "txn option \<Rightarrow> lock \<Rightarrow> lock_error + (bool \<times> lock)" where
  "try_acquire_exclusive t l =
     (if exclusive l \<or> shared l > 0 \<or> upgrader l \<noteq> None then Inr (False, l)
      else rbind (set_exclusive_holder t (l\<lparr>exclusive := True\<rparr>)) (\<lambda>l'. Inr (True, l')))"

text \<open>The \<open>while self._waiters\<close> loop of \<open>_maybe_grant_next\<close>, over the queue.\<close>

fun grant_waiters :: "waiter list \<Rightarrow> lock \<Rightarrow> lock_error + lock" where
  "grant_waiters [] l = Inr (l\<lparr>waiters := []\<rparr>)"
| "grant_waiters (w # ws) l =
     (if w_mode w = EXCLUSIVE then
        (if shared l > 0 then Inr (l\<lparr>waiters := w # ws\<rparr>)
         else rbind (set_exclusive_holder (w_txn w) (l\<lparr>waiters := ws, exclusive := True\<rparr>))
                (set_result w))
      else
        rbind (add_shared_holder (w_txn w) (l\<lparr>waiters := ws, shared := shared l + 1\<rparr>)) (\<lambda>l'.
        rbind (set_result w l') (\<lambda>l''.
        grant_waiters ws l'')))"

definition maybe_grant_next :: "mode \<Rightarrow> lock \<Rightarrow> lock_error + lock" where
  "maybe_grant_next released l =
     (if exclusive l then Inl AssertionError
      else case upgrader l of
        Some u \<Rightarrow>
          if released \<noteq> SHARED then Inl AssertionError
          else if shared l = 1 then
            rbind (remove_shared_holder (w_txn u)
                     (l\<lparr>upgrader := None, shared := 0, exclusive := True\<rparr>)) (\<lambda>l'.
            rbind (set_exclusive_holder (w_txn u) l') (set_result u))
          else Inr l
      | None \<Rightarrow>
          if released = SHARED \<and> shared l > 0 then Inr l
          else if released = EXCLUSIVE \<or> shared l = 0 then grant_waiters (waiters l) l
          else Inl AssertionError)"

definition downgrade :: "txn option \<Rightarrow> lock \<Rightarrow> lock_error + lock" where
  "downgrade t l =
     (if \<not> exclusive l then Inl AssertionError
      else if shared l \<noteq> 0 then Inl AssertionError
      else rbind (unset_exclusive_holder t (l\<lparr>exclusive := False, shared := 1\<rparr>)) (\<lambda>l'.
           rbind (add_shared_holder t l') (maybe_grant_next EXCLUSIVE)))"

definition release_shared :: "txn option \<Rightarrow> lock \<Rightarrow> lock_error + lock" where
  "release_shared t l =
     (if shared l > 0
      then rbind (remove_shared_holder t (l\<lparr>shared := shared l - 1\<rparr>)) (maybe_grant_next SHARED)
      else Inl AssertionError)"

definition release_exclusive :: "txn option \<Rightarrow> lock \<Rightarrow> lock_error + lock" where
  "release_exclusive t l =
     (if exclusive l
      then rbind (unset_exclusive_holder t (l\<lparr>exclusive := False\<rparr>)) (maybe_grant_next EXCLUSIVE)
      else Inl AssertionError)"

text \<open>
  \<open>_wait\<close> is cut at its \<open>await\<close>: \<open>wait_begin\<close> is what runs before the coroutine suspends,
  \<open>wait_interrupted\<close> the handler that runs when the wait ends by an exception (the deadline, a
  cancellation, or an exception of \<open>on_grace\<close>).  A wait that ends because its future was resolved
  returns without touching the lock.
\<close>

definition wait_begin :: "mode \<Rightarrow> bool \<Rightarrow> txn option \<Rightarrow> lock \<Rightarrow> lock_error + (waiter \<times> lock)" where
  "wait_begin m is_upgrade t l =
     (let w = \<lparr>wid = next_wid l, w_mode = (if is_upgrade then EXCLUSIVE else m), w_txn = t\<rparr>;
          l' = l\<lparr>next_wid := next_wid l + 1\<rparr>
      in if is_upgrade then
           (if upgrader l' \<noteq> None then Inl Unavailable
            else Inr (w, l'\<lparr>upgrader := Some w\<rparr>))
         else Inr (w, l'\<lparr>waiters := waiters l' @ [w]\<rparr>))"

datatype wait_exn = TimeoutError | CancelledError | OnGraceError | SystemAborted_Unavailable

definition wait_interrupted ::
    "waiter \<Rightarrow> bool \<Rightarrow> wait_exn \<Rightarrow> lock \<Rightarrow> lock_error + (wait_exn \<times> lock)" where
  "wait_interrupted w is_upgrade exn l =
     rbind
       (if wid w \<in> resolved l then
          (if is_upgrade then downgrade (w_txn w) l
           else if w_mode w = SHARED then release_shared (w_txn w) l
           else release_exclusive (w_txn w) l)
        else if is_upgrade then
          (if upgrader l = Some w then Inr (l\<lparr>upgrader := None\<rparr>) else Inl AssertionError)
        else Inr (l\<lparr>waiters := remove1 w (waiters l)\<rparr>))
       (\<lambda>l'. Inr (if exn = TimeoutError then SystemAborted_Unavailable else exn, l'))"

text \<open>An acquire returns \<open>None\<close> when the hold was taken at once, or the waiter it suspends on.\<close>

definition acquire_shared :: "txn option \<Rightarrow> lock \<Rightarrow> lock_error + (waiter option \<times> lock)" where
  "acquire_shared t l =
     rbind (try_acquire_shared t l) (\<lambda>(ok, l').
       if ok then Inr (None, l')
       else rbind (wait_begin SHARED False t l') (\<lambda>(w, l''). Inr (Some w, l'')))"

definition acquire_exclusive :: "txn option \<Rightarrow> lock \<Rightarrow> lock_error + (waiter option \<times> lock)" where
  "acquire_exclusive t l =
     rbind (try_acquire_exclusive t l) (\<lambda>(ok, l').
       if ok then Inr (None, l')
       else rbind (wait_begin EXCLUSIVE False t l') (\<lambda>(w, l''). Inr (Some w, l'')))"

definition upgrade :: "txn option \<Rightarrow> lock \<Rightarrow> lock_error + (waiter option \<times> lock)" where
  "upgrade t l =
     (if \<not> shared l > 0 then Inl AssertionError
      else if shared l = 1 \<and> \<not> exclusive l then
        rbind (remove_shared_holder t (l\<lparr>shared := 0, exclusive := True\<rparr>)) (\<lambda>l'.
        rbind (set_exclusive_holder t l') (\<lambda>l''. Inr (None, l'')))
      else rbind (wait_begin EXCLUSIVE True t l) (\<lambda>(w, l'). Inr (Some w, l')))"


section \<open>What the lock's fields mean\<close>

text \<open>
  \<open>lock_ok l S E\<close> relates the fields to the shared holds \<open>S\<close> and the exclusive holds \<open>E\<close> that
  callers actually have (multisets, since callers outside a transaction are anonymous): the
  count and the holder sets agree with them, an exclusive hold excludes every other, the waiting
  upgrader has one of the shared holds, nobody is queued on a free lock, an upgrader only waits
  for somebody else's shared hold, and a transaction occurs at most once.
\<close>

definition holds :: "lock \<Rightarrow> txn option multiset \<Rightarrow> txn option multiset \<Rightarrow> bool" where
  "holds l S E \<longleftrightarrow>
     shared l = int (size S) \<and> shared_holders l = {t. Some t \<in># S} \<and>
     (if exclusive l then E = {#exclusive_holder l#} \<and> S = {#}
      else E = {#} \<and> exclusive_holder l = None)"

definition waiting_ok :: "lock \<Rightarrow> bool" where
  "waiting_ok l \<longleftrightarrow>
     distinct (map wid (waiters l @ (case upgrader l of None \<Rightarrow> [] | Some u \<Rightarrow> [u]))) \<and>
     (\<forall>w \<in> set (waiters l) \<union> set_option (upgrader l). wid w < next_wid l \<and> wid w \<notin> resolved l) \<and>
     (\<forall>i \<in> resolved l. i < next_wid l) \<and>
     (\<forall>u \<in> set_option (upgrader l). w_mode u = EXCLUSIVE)"

definition lock_ok :: "lock \<Rightarrow> txn option multiset \<Rightarrow> txn option multiset \<Rightarrow> bool" where
  "lock_ok l S E \<longleftrightarrow>
     holds l S E \<and> waiting_ok l \<and>
     (waiters l \<noteq> [] \<longrightarrow> is_locked l) \<and>
     (\<forall>u \<in> set_option (upgrader l). w_txn u \<in># S \<and> shared l \<ge> 2) \<and>
     (\<forall>t. count (S + E + mset (map w_txn (waiters l))) (Some t) \<le> 1)"

text \<open>The waiters a release grants, in queue order, when some shared hold remains or none does.\<close>

fun cohort :: "bool \<Rightarrow> waiter list \<Rightarrow> waiter list" where
  "cohort held [] = []"
| "cohort held (w # ws) =
     (if w_mode w = EXCLUSIVE then (if held then [] else [w]) else w # cohort True ws)"

definition shared_of :: "waiter list \<Rightarrow> txn option multiset" where
  "shared_of ws = mset (map w_txn (filter (\<lambda>w. w_mode w = SHARED) ws))"

definition exclusive_of :: "waiter list \<Rightarrow> txn option multiset" where
  "exclusive_of ws = mset (map w_txn (filter (\<lambda>w. w_mode w = EXCLUSIVE) ws))"

lemma cohort_prefix: "\<exists>rest. ws = cohort held ws @ rest"
  by (induction held ws rule: cohort.induct) auto

lemma cohort_True_shared: "w \<in> set (cohort True ws) \<Longrightarrow> w_mode w = SHARED"
  by (induction "True" ws rule: cohort.induct) (auto split: if_splits intro: mode.exhaust)

lemma shared_of_simps [simp]:
  "shared_of [] = {#}"
  "shared_of (w # ws) = (if w_mode w = SHARED then {#w_txn w#} else {#}) + shared_of ws"
  by (simp_all add: shared_of_def)

lemma exclusive_of_simps [simp]:
  "exclusive_of [] = {#}"
  "exclusive_of (w # ws) = (if w_mode w = EXCLUSIVE then {#w_txn w#} else {#}) + exclusive_of ws"
  by (simp_all add: exclusive_of_def)

lemma not_EXCLUSIVE [simp]: "m \<noteq> EXCLUSIVE \<longleftrightarrow> m = SHARED"
  by (cases m) auto

lemma exclusive_of_cohort_True [simp]: "exclusive_of (cohort True ws) = {#}"
  by (auto simp: exclusive_of_def filter_empty_conv dest: cohort_True_shared)

text \<open>The grant loop serves exactly the cohort at the head of the queue.\<close>

lemma grant_waiters_spec:
  assumes "holds l S {#}" "\<not> exclusive l"
    and "\<forall>w \<in> set ws. wid w \<notin> resolved l" "distinct (map wid ws)"
    and "\<forall>t. count (S + mset (map w_txn ws)) (Some t) \<le> 1"
    and "g = cohort (S \<noteq> {#}) ws"
  shows "\<exists>l'. grant_waiters ws l = Inr l' \<and> waiters l' = drop (length g) ws \<and>
           resolved l' = resolved l \<union> wid ` set g \<and>
           holds l' (S + shared_of g) (exclusive_of g) \<and>
           upgrader l' = upgrader l \<and> next_wid l' = next_wid l"
  using assms
proof (induction ws arbitrary: l S g)
  case Nil
  then show ?case by (auto simp: holds_def)
next
  case (Cons w ws)
  show ?case
  proof (cases "w_mode w = EXCLUSIVE")
    case True
    with Cons.prems show ?thesis
      by (auto simp: holds_def set_exclusive_holder_def set_result_def)
  next
    case False
    let ?l = "l\<lparr>waiters := ws, shared := shared l + 1\<rparr>"
    obtain l1 where l1: "add_shared_holder (w_txn w) ?l = Inr l1" "holds l1 (S + {#w_txn w#}) {#}"
      "\<not> exclusive l1" "resolved l1 = resolved l" "upgrader l1 = upgrader l"
      "next_wid l1 = next_wid l"
    proof (cases "w_txn w")
      case None
      with Cons.prems that[of ?l] show ?thesis
        by (auto simp: holds_def add_shared_holder_def)
    next
      case (Some t)
      from Cons.prems(5) have "count (S + mset (map w_txn (w # ws))) (Some t) \<le> 1" by blast
      with Some have "Some t \<notin># S" by (auto simp: not_in_iff)
      with Some Cons.prems that[of "?l\<lparr>shared_holders := insert t (shared_holders ?l)\<rparr>"]
      show ?thesis by (auto simp: holds_def add_shared_holder_def)
    qed
    let ?l2 = "l1\<lparr>resolved := insert (wid w) (resolved l1)\<rparr>"
    have l2: "set_result w l1 = Inr ?l2"
      using Cons.prems(3) l1(4) by (simp add: set_result_def)
    have h2: "holds ?l2 (S + {#w_txn w#}) {#}" "\<not> exclusive ?l2"
      using l1(2,3) by (simp_all add: holds_def)
    have r2: "\<forall>w' \<in> set ws. wid w' \<notin> resolved ?l2"
      using Cons.prems(3,4) l1(4) by (auto simp: rev_image_eqI)
    have d2: "distinct (map wid ws)" using Cons.prems(4) by simp
    have c2: "\<forall>t. count (S + {#w_txn w#} + mset (map w_txn ws)) (Some t) \<le> 1"
      using Cons.prems(5) by (simp add: ac_simps)
    from Cons.IH[OF h2 r2 d2 c2 refl] obtain l' where l':
      "grant_waiters ws ?l2 = Inr l'" "waiters l' = drop (length (cohort True ws)) ws"
      "resolved l' = resolved ?l2 \<union> wid ` set (cohort True ws)"
      "holds l' (S + {#w_txn w#} + shared_of (cohort True ws)) (exclusive_of (cohort True ws))"
      "upgrader l' = upgrader ?l2" "next_wid l' = next_wid ?l2"
      by auto
    from False Cons.prems(6) have g: "g = w # cohort True ws" by simp
    show ?thesis
      using False l1 l2 l' g by (auto simp: ac_simps)
  qed
qed

section \<open>What a call grants\<close>

text \<open>The suspended calls (waiter, and whether it waits to upgrade) whose futures a call resolves.\<close>

definition granted_by :: "lock \<Rightarrow> lock \<Rightarrow> (waiter \<times> bool) multiset" where
  "granted_by l l' =
     mset (map (\<lambda>w. (w, False)) (filter (\<lambda>w. wid w \<in> resolved l') (waiters l))) +
     (case upgrader l of None \<Rightarrow> {#}
      | Some u \<Rightarrow> if wid u \<in> resolved l' then {#(u, True)#} else {#})"

definition shared_gain :: "(waiter \<times> bool) multiset \<Rightarrow> txn option multiset" where
  "shared_gain N = image_mset (w_txn \<circ> fst) (filter_mset (\<lambda>p. w_mode (fst p) = SHARED) N)"

definition exclusive_gain :: "(waiter \<times> bool) multiset \<Rightarrow> txn option multiset" where
  "exclusive_gain N = image_mset (w_txn \<circ> fst) (filter_mset (\<lambda>p. w_mode (fst p) = EXCLUSIVE) N)"

definition upgraded :: "(waiter \<times> bool) multiset \<Rightarrow> txn option multiset" where
  "upgraded N = image_mset (w_txn \<circ> fst) (filter_mset snd N)"

lemma gain_empty [simp]:
  "shared_gain {#} = {#}" "exclusive_gain {#} = {#}" "upgraded {#} = {#}"
  by (simp_all add: shared_gain_def exclusive_gain_def upgraded_def)

lemma gain_union [simp]:
  "shared_gain (M + N) = shared_gain M + shared_gain N"
  "exclusive_gain (M + N) = exclusive_gain M + exclusive_gain N"
  "upgraded (M + N) = upgraded M + upgraded N"
  by (simp_all add: shared_gain_def exclusive_gain_def upgraded_def)

lemma gain_add_mset [simp]:
  "shared_gain (add_mset p N) = (if w_mode (fst p) = SHARED then {#w_txn (fst p)#} else {#}) + shared_gain N"
  "exclusive_gain (add_mset p N) = (if w_mode (fst p) = EXCLUSIVE then {#w_txn (fst p)#} else {#}) + exclusive_gain N"
  "upgraded (add_mset p N) = (if snd p then {#w_txn (fst p)#} else {#}) + upgraded N"
  by (simp_all add: shared_gain_def exclusive_gain_def upgraded_def)

lemma gain_queue [simp]:
  "shared_gain (image_mset (\<lambda>w. (w, False)) (mset ws)) = shared_of ws"
  "exclusive_gain (image_mset (\<lambda>w. (w, False)) (mset ws)) = exclusive_of ws"
  "upgraded (image_mset (\<lambda>w. (w, False)) (mset ws)) = {#}"
  by (induction ws) auto

text \<open>The shared hold that a waiting upgrader keeps.\<close>

definition upgrade_hold :: "lock \<Rightarrow> txn option multiset" where
  "upgrade_hold l = (case upgrader l of None \<Rightarrow> {#} | Some u \<Rightarrow> {#w_txn u#})"

text \<open>The relation between a lock before and after its waiters were offered the holds left.\<close>

definition grants :: "lock \<Rightarrow> txn option multiset \<Rightarrow> lock \<Rightarrow> txn option multiset \<Rightarrow>
    txn option multiset \<Rightarrow> bool" where
  "grants l S l' S' E' \<longleftrightarrow>
     (let N = granted_by l l' in
      lock_ok l' S' E' \<and> S' + upgraded N = S + shared_gain N \<and> E' = exclusive_gain N \<and>
      next_wid l' = next_wid l \<and> resolved l' = resolved l \<union> (wid \<circ> fst) ` set_mset N \<and>
      upgrade_hold l = upgrade_hold l' + upgraded N \<and>
      waiters l' = filter (\<lambda>w. wid w \<notin> resolved l') (waiters l) \<and>
      waiters l = filter (\<lambda>w. wid w \<in> resolved l') (waiters l) @ waiters l')"

lemma grants_refl:
  assumes "lock_ok l S {#}"
  shows "grants l S l S {#}"
proof -
  have "granted_by l l = {#}"
    using assms by (auto simp: granted_by_def lock_ok_def waiting_ok_def filter_empty_conv split: option.splits)
  moreover have "filter (\<lambda>w. wid w \<notin> resolved l) (waiters l) = waiters l"
    "filter (\<lambda>w. wid w \<in> resolved l) (waiters l) = []"
    using assms by (auto simp: lock_ok_def waiting_ok_def filter_id_conv filter_empty_conv)
  ultimately show ?thesis using assms by (simp add: grants_def)
qed

lemma mset_txn_split:
  "image_mset w_txn (mset ws) = shared_of ws + exclusive_of ws"
  by (induction ws) auto

lemma locked_iff: "holds l S E \<Longrightarrow> is_locked l \<longleftrightarrow> S \<noteq> {#} \<or> E \<noteq> {#}"
  by (auto simp: holds_def is_locked_def is_shared_locked_def is_exclusive_locked_def
      nonempty_has_size split: if_splits)

lemma cohort_False_nonempty: "ws \<noteq> [] \<Longrightarrow> cohort False ws \<noteq> []"
  by (cases ws) auto

lemma nonempty_modes: "ws \<noteq> [] \<Longrightarrow> shared_of ws \<noteq> {#} \<or> exclusive_of ws \<noteq> {#}"
  by (cases ws) auto

text \<open>Granting the cohort at the head of the queue, with no upgrader waiting.\<close>

lemma grant_queue:
  assumes h: "holds l S {#}" "\<not> exclusive l" and w: "waiting_ok l" and u: "upgrader l = None"
    and c: "\<forall>t. count (S + mset (map w_txn (waiters l))) (Some t) \<le> 1"
  shows "\<exists>l' S' E'. grant_waiters (waiters l) l = Inr l' \<and> grants l S l' S' E'"
proof -
  let ?ws = "waiters l" and ?g = "cohort (S \<noteq> {#}) (waiters l)"
  have dist: "distinct (map wid ?ws)" and unres: "\<forall>w \<in> set ?ws. wid w \<notin> resolved l"
    using w u by (auto simp: waiting_ok_def)
  obtain l' where l': "grant_waiters ?ws l = Inr l'" "waiters l' = drop (length ?g) ?ws"
    "resolved l' = resolved l \<union> wid ` set ?g" "holds l' (S + shared_of ?g) (exclusive_of ?g)"
    "upgrader l' = upgrader l" "next_wid l' = next_wid l"
    using grant_waiters_spec[OF h unres dist c refl] by blast
  obtain rest where rest: "?ws = ?g @ rest" using cohort_prefix by blast
  have drop: "drop (length ?g) ?ws = rest" by (subst (2) rest) simp
  have disj: "wid ` set ?g \<inter> wid ` set rest = {}"
    using dist by (subst (asm) rest) auto
  have inres: "\<forall>w \<in> set ?g. wid w \<in> resolved l'" using l'(3) by auto
  have notres: "\<forall>w \<in> set rest. wid w \<notin> resolved l'"
    using l'(3) disj unres rest by (metis Un_iff disjoint_iff image_eqI set_append)
  have f1: "filter (\<lambda>w. wid w \<in> resolved l') ?ws = ?g"
    by (subst rest) (use inres notres in \<open>simp add: filter_id_conv filter_empty_conv\<close>)
  have f2: "filter (\<lambda>w. wid w \<notin> resolved l') ?ws = rest"
    by (subst rest) (use inres notres in \<open>simp add: filter_id_conv filter_empty_conv\<close>)
  have N: "granted_by l l' = mset (map (\<lambda>w. (w, False)) ?g)"
    using u f1 by (simp add: granted_by_def)
  have ms: "mset (map w_txn ?ws) = shared_of ?g + exclusive_of ?g + mset (map w_txn rest)"
    by (subst rest) (simp add: mset_txn_split)
  have cnt: "\<forall>t. count (S + shared_of ?g + exclusive_of ?g + mset (map w_txn rest)) (Some t) \<le> 1"
    using c ms by (simp add: ac_simps)
  have wok: "waiting_ok l'"
  proof -
    have sub: "set ?g \<subseteq> set ?ws" "set rest \<subseteq> set ?ws"
      using arg_cong[OF rest, of set] by auto
    have drest: "distinct (map wid rest)" using dist by (subst (asm) rest) simp
    have "\<forall>w \<in> set ?ws. wid w < next_wid l" "\<forall>i \<in> resolved l. i < next_wid l"
      using w by (auto simp: waiting_ok_def)
    with sub notres have "\<forall>w \<in> set rest. wid w < next_wid l \<and> wid w \<notin> resolved l'"
      and "\<forall>i \<in> resolved l'. i < next_wid l"
      unfolding l'(3) by blast+
    with drest show ?thesis using l' drop u by (simp add: waiting_ok_def)
  qed
  have lkd: "rest \<noteq> [] \<longrightarrow> is_locked l'"
  proof
    assume "rest \<noteq> []"
    with rest have "?ws \<noteq> []" by auto
    then have "S \<noteq> {#} \<or> ?g \<noteq> []" by (cases "S = {#}") (auto dest: cohort_False_nonempty)
    then have "S + shared_of ?g \<noteq> {#} \<or> exclusive_of ?g \<noteq> {#}"
      using nonempty_modes by fastforce
    then show "is_locked l'" using locked_iff[OF l'(4)] by simp
  qed
  have "lock_ok l' (S + shared_of ?g) (exclusive_of ?g)"
    using l' drop wok lkd cnt u by (simp add: lock_ok_def)
  moreover have "(wid \<circ> fst) ` set_mset (mset (map (\<lambda>w. (w, False)) ?g)) = wid ` set ?g"
    by (auto simp: image_image)
  ultimately have "grants l S l' (S + shared_of ?g) (exclusive_of ?g)"
    using l' drop f1 f2 u rest by (simp add: grants_def N Let_def upgrade_hold_def)
  with l'(1) show ?thesis by blast
qed

lemma grants_cong:
  assumes "grants l1 S l' S' E'"
    and "waiters l1 = waiters l" "upgrader l1 = upgrader l" "resolved l1 = resolved l"
    and "next_wid l1 = next_wid l"
  shows "grants l S l' S' E'"
proof -
  have "granted_by l1 l' = granted_by l l'" "upgrade_hold l1 = upgrade_hold l"
    using assms(2-) by (simp_all add: granted_by_def upgrade_hold_def)
  then show ?thesis using assms by (simp add: grants_def)
qed

lemma size_one_mem: "size S = 1 \<Longrightarrow> x \<in># S \<Longrightarrow> S = {#x#}"
  by (metis size_1_singleton_mset set_mset_add_mset_insert singletonD set_mset_empty)

lemma waiting_ok_upgrader_granted:
  assumes "waiting_ok l" "upgrader l = Some u"
    and "waiters l' = waiters l" "upgrader l' = None" "next_wid l' = next_wid l"
    and "resolved l' = insert (wid u) (resolved l)"
  shows "waiting_ok l'" "granted_by l l' = {#(u, True)#}"
    and "filter (\<lambda>w. wid w \<notin> resolved l') (waiters l) = waiters l"
    and "filter (\<lambda>w. wid w \<in> resolved l') (waiters l) = []"
  using assms
  by (auto simp: waiting_ok_def granted_by_def filter_empty_conv filter_id_conv rev_image_eqI)

text \<open>Offering the holds left to the waiters never fails an assertion and keeps the meaning.\<close>

lemma maybe_grant_next_spec:
  assumes h: "holds l S {#}" "\<not> exclusive l" and w: "waiting_ok l"
    and u: "\<forall>u \<in> set_option (upgrader l). w_txn u \<in># S \<and> released = SHARED"
    and c: "\<forall>t. count (S + mset (map w_txn (waiters l))) (Some t) \<le> 1"
  shows "\<exists>l' S' E'. maybe_grant_next released l = Inr l' \<and> grants l S l' S' E'"
proof (cases "upgrader l")
  case None
  show ?thesis
  proof (cases "released = SHARED \<and> shared l > 0")
    case True
    then have "lock_ok l S {#}"
      using h w c None
      by (simp add: lock_ok_def is_locked_def is_shared_locked_def)
    with True h None show ?thesis by (auto simp: maybe_grant_next_def dest: grants_refl)
  next
    case False
    moreover have "released = EXCLUSIVE \<or> shared l = 0"
      using False h by (cases released) (auto simp: holds_def)
    ultimately show ?thesis
      using grant_queue[OF h w None c] h(2) None by (auto simp: maybe_grant_next_def)
  qed
next
  case (Some v)
  with u have v: "w_txn v \<in># S" "released = SHARED" by auto
  show ?thesis
  proof (cases "size S = 1")
    case True
    then have S: "S = {#w_txn v#}" using v(1) by (rule size_one_mem)
    let ?l = "l\<lparr>upgrader := None, shared := 0, exclusive := True, shared_holders := {},
      exclusive_holder := w_txn v, resolved := insert (wid v) (resolved l)\<rparr>"
    have wv: "wid v \<notin> resolved l" using w Some by (auto simp: waiting_ok_def)
    have eq: "maybe_grant_next released l = Inr ?l"
    proof (cases "w_txn v")
      case None
      with h S v Some wv show ?thesis
        by (simp add: maybe_grant_next_def holds_def remove_shared_holder_def
            set_exclusive_holder_def set_result_def)
    next
      case t: (Some t)
      with h S v Some wv show ?thesis
        by (simp add: maybe_grant_next_def holds_def remove_shared_holder_def
            set_exclusive_holder_def set_result_def)
    qed
    note g = waiting_ok_upgrader_granted[OF w Some, of ?l, simplified]
    have "lock_ok ?l {#} {#w_txn v#}"
      using g(1) c S by (simp add: lock_ok_def holds_def is_locked_def is_exclusive_locked_def)
    moreover have "w_mode v = EXCLUSIVE" using w Some by (simp add: waiting_ok_def)
    ultimately have "grants l S ?l {#} {#w_txn v#}"
      using g(2-4) S Some by (simp add: grants_def Let_def upgrade_hold_def)
    with eq show ?thesis by blast
  next
    case False
    moreover have "S \<noteq> {#}" using v(1) by auto
    ultimately have "size S \<ge> 2"
      by (metis One_nat_def Suc_1 less_2_cases_iff not_less size_eq_0_iff_empty)
    then have "lock_ok l S {#}"
      using h w c v Some by (auto simp: lock_ok_def holds_def is_locked_def is_shared_locked_def)
    then show ?thesis
      using False h v Some grants_refl by (auto simp: maybe_grant_next_def holds_def)
  qed
qed

section \<open>The operations\<close>

lemma set_mset_diff_single:
  "count S (Some t) \<le> 1 \<Longrightarrow> {x. Some x \<in># S} - {t} = {x. Some x \<in># S - {#Some t#}}"
  by (auto simp: in_diff_count)

lemma remove_shared_holder_spec:
  assumes "shared_holders l = {x. Some x \<in># S}" "t \<in># S" "\<forall>x. count S (Some x) \<le> 1"
  shows "remove_shared_holder t l = Inr (l\<lparr>shared_holders := {x. Some x \<in># S - {#t#}}\<rparr>)"
  using assms set_mset_diff_single[of S]
  by (auto simp: remove_shared_holder_def in_diff_count split: option.splits)

lemma lock_ok_counts:
  assumes "lock_ok l S E"
  shows "count S (Some x) \<le> 1" "count (mset (map w_txn (waiters l))) (Some x) \<le> 1"
    "count (S + mset (map w_txn (waiters l))) (Some x) \<le> 1"
    "count (E + mset (map w_txn (waiters l))) (Some x) \<le> 1"
proof -
  have "count (S + E + mset (map w_txn (waiters l))) (Some x) \<le> 1"
    using assms unfolding lock_ok_def by blast
  then have "count S (Some x) + count E (Some x) + count (mset (map w_txn (waiters l))) (Some x) \<le> 1"
    unfolding count_union .
  then show "count S (Some x) \<le> 1" "count (mset (map w_txn (waiters l))) (Some x) \<le> 1"
    "count (S + mset (map w_txn (waiters l))) (Some x) \<le> 1"
    "count (E + mset (map w_txn (waiters l))) (Some x) \<le> 1"
    unfolding count_union by linarith+
qed

lemma release_shared_spec:
  assumes ok: "lock_ok l S E" and t: "t \<in># S"
    and u: "\<forall>u \<in> set_option (upgrader l). w_txn u \<in># S - {#t#}"
  shows "\<exists>l' S' E'. release_shared t l = Inr l' \<and> grants l (S - {#t#}) l' S' E'"
proof -
  have E: "E = {#}" "\<not> exclusive l" "exclusive_holder l = None"
    using ok t by (auto simp: lock_ok_def holds_def split: if_splits)
  let ?l = "l\<lparr>shared := shared l - 1, shared_holders := {x. Some x \<in># S - {#t#}}\<rparr>"
  have cS: "\<forall>x. count S (Some x) \<le> 1"
    using lock_ok_counts(1)[OF ok] by blast
  have rm: "remove_shared_holder t (l\<lparr>shared := shared l - 1\<rparr>) = Inr ?l"
    using remove_shared_holder_spec[of "l\<lparr>shared := shared l - 1\<rparr>" S t] ok t cS
    by (simp add: lock_ok_def holds_def)
  have sz: "shared l = int (size S)" "size S > 0"
    using ok t by (auto simp: lock_ok_def holds_def nonempty_has_size[symmetric])
  have h: "holds ?l (S - {#t#}) {#}"
    using ok E t sz by (auto simp: lock_ok_def holds_def size_Diff_singleton of_nat_diff)
  have w: "waiting_ok ?l" using ok by (simp add: lock_ok_def waiting_ok_def)
  have c: "\<forall>x. count (S - {#t#} + mset (map w_txn (waiters ?l))) (Some x) \<le> 1"
  proof
    fix x
    have "count (S - {#t#}) (Some x) \<le> count S (Some x)" by (simp add: count_diff)
    with lock_ok_counts(3)[OF ok, of x]
    show "count (S - {#t#} + mset (map w_txn (waiters ?l))) (Some x) \<le> 1"
      unfolding count_union by simp
  qed
  obtain l' S' E' where "maybe_grant_next SHARED ?l = Inr l'" "grants ?l (S - {#t#}) l' S' E'"
    using maybe_grant_next_spec[OF h _ w _ c, of SHARED] E u by auto
  moreover have "release_shared t l = maybe_grant_next SHARED ?l"
    using sz rm by (simp add: release_shared_def)
  ultimately show ?thesis using grants_cong[of ?l "S - {#t#}" l' S' E' l] by auto
qed

lemma exclusive_alone:
  assumes "lock_ok l S E" "t \<in># E"
  shows "exclusive l" "S = {#}" "E = {#t#}" "exclusive_holder l = t" "upgrader l = None"
    "shared l = 0" "shared_holders l = {}"
  using assms by (auto simp: lock_ok_def holds_def split: if_splits)

lemma release_exclusive_spec:
  assumes ok: "lock_ok l S E" and t: "t \<in># E"
  shows "\<exists>l' S' E'. release_exclusive t l = Inr l' \<and> grants l {#} l' S' E'"
proof -
  note x = exclusive_alone[OF assms]
  let ?l = "l\<lparr>exclusive := False, exclusive_holder := None\<rparr>"
  have h: "holds ?l {#} {#}" using x by (simp add: holds_def)
  have w: "waiting_ok ?l" using ok by (simp add: lock_ok_def waiting_ok_def)
  have c: "\<forall>y. count ({#} + mset (map w_txn (waiters ?l))) (Some y) \<le> 1"
    using lock_ok_counts(2)[OF ok] by simp
  obtain l' S' E' where "maybe_grant_next EXCLUSIVE ?l = Inr l'" "grants ?l {#} l' S' E'"
    using maybe_grant_next_spec[OF h _ w _ c, of EXCLUSIVE] x by auto
  moreover have "release_exclusive t l = maybe_grant_next EXCLUSIVE ?l"
    using x by (simp add: release_exclusive_def unset_exclusive_holder_def)
  ultimately show ?thesis using grants_cong[of ?l "{#}" l' S' E' l] by auto
qed

lemma downgrade_spec:
  assumes ok: "lock_ok l S E" and t: "t \<in># E"
  shows "\<exists>l' S' E'. downgrade t l = Inr l' \<and> grants l {#t#} l' S' E'"
proof -
  note x = exclusive_alone[OF assms]
  let ?l = "l\<lparr>exclusive := False, shared := 1, exclusive_holder := None,
    shared_holders := {y. Some y \<in># {#t#}}\<rparr>"
  have h: "holds ?l {#t#} {#}" by (simp add: holds_def)
  have w: "waiting_ok ?l" using ok by (simp add: lock_ok_def waiting_ok_def)
  have c: "\<forall>y. count ({#t#} + mset (map w_txn (waiters ?l))) (Some y) \<le> 1"
    using ok x by (simp add: lock_ok_def)
  obtain l' S' E' where "maybe_grant_next EXCLUSIVE ?l = Inr l'" "grants ?l {#t#} l' S' E'"
    using maybe_grant_next_spec[OF h _ w _ c, of EXCLUSIVE] x by auto
  moreover have "downgrade t l = maybe_grant_next EXCLUSIVE ?l"
    using x by (cases l) (auto simp: downgrade_def unset_exclusive_holder_def add_shared_holder_def
        split: option.splits)
  ultimately show ?thesis using grants_cong[of ?l "{#t#}" l' S' E' l] by auto
qed


lemma count_fresh:
  assumes "\<forall>x. t = Some x \<longrightarrow> t \<notin># M" "\<forall>x. count M (Some x) \<le> 1"
  shows "\<forall>x. count (M + {#t#}) (Some x) \<le> 1"
  using assms by (cases t) (auto simp: not_in_iff)

lemma lock_ok_enqueue:
  assumes ok: "lock_ok l S E" and lkd: "is_locked l"
    and t: "\<forall>x. t = Some x \<longrightarrow> t \<notin># S + E + mset (map w_txn (waiters l))"
    and w: "w = \<lparr>wid = next_wid l, w_mode = m, w_txn = t\<rparr>"
  shows "lock_ok (l\<lparr>next_wid := Suc (next_wid l), waiters := waiters l @ [w]\<rparr>) S E"
proof -
  let ?l = "l\<lparr>next_wid := Suc (next_wid l), waiters := waiters l @ [w]\<rparr>"
  have wo: "waiting_ok l" and h: "holds l S E"
    and c: "\<forall>x. count (S + E + mset (map w_txn (waiters l))) (Some x) \<le> 1"
    using ok unfolding lock_ok_def by blast+
  have "holds ?l S E" using h by (simp add: holds_def)
  moreover have "waiting_ok ?l"
    using wo w by (auto simp: waiting_ok_def less_Suc_eq split: option.splits)
  moreover have "is_locked ?l"
    using lkd by (simp add: is_locked_def is_shared_locked_def is_exclusive_locked_def)
  moreover have "\<forall>x. count (S + E + mset (map w_txn (waiters ?l))) (Some x) \<le> 1"
    using count_fresh[OF t c] w by (simp add: ac_simps)
  moreover have "\<forall>u \<in> set_option (upgrader l). w_txn u \<in># S \<and> shared l \<ge> 2"
    using ok unfolding lock_ok_def by blast
  ultimately show ?thesis by (simp add: lock_ok_def)
qed

lemma acquire_shared_spec:
  assumes ok: "lock_ok l S E"
    and t: "\<forall>x. t = Some x \<longrightarrow> t \<notin># S + E + mset (map w_txn (waiters l))"
  shows "(\<exists>l'. acquire_shared t l = Inr (None, l') \<and> lock_ok l' (S + {#t#}) E \<and>
            waiters l' = waiters l \<and> upgrader l' = upgrader l \<and> resolved l' = resolved l \<and>
            next_wid l' = next_wid l) \<or>
         (\<exists>l' w. acquire_shared t l = Inr (Some w, l') \<and> lock_ok l' S E \<and> w_txn w = t \<and>
            w_mode w = SHARED \<and> waiters l' = waiters l @ [w] \<and> upgrader l' = upgrader l \<and>
            resolved l' = resolved l \<and> wid w = next_wid l \<and> next_wid l' = Suc (next_wid l))"
proof (cases "exclusive l \<or> upgrader l \<noteq> None \<or> list_ex (\<lambda>w. w_mode w = EXCLUSIVE) (waiters l)")
  case True
  let ?w = "\<lparr>wid = next_wid l, w_mode = SHARED, w_txn = t\<rparr>"
  let ?l = "l\<lparr>next_wid := next_wid l + 1, waiters := waiters l @ [?w]\<rparr>"
  have eq: "acquire_shared t l = Inr (Some ?w, ?l)"
    using True by (auto simp: acquire_shared_def try_acquire_shared_def wait_begin_def Let_def)
  have lkd: "is_locked l"
    using True ok by (auto simp: lock_ok_def is_locked_def is_exclusive_locked_def
        is_shared_locked_def)
  have "lock_ok ?l S E"
    using lock_ok_enqueue[OF ok lkd t refl] by simp
  with eq show ?thesis by auto
next
  case False
  let ?l = "l\<lparr>shared := shared l + 1, shared_holders := {x. Some x \<in># S + {#t#}}\<rparr>"
  have E: "E = {#}" "exclusive_holder l = None" "shared_holders l = {x. Some x \<in># S}"
    using False ok by (auto simp: lock_ok_def holds_def)
  have eq: "acquire_shared t l = Inr (None, ?l)"
    using False t E
    by (cases t; cases l) (auto simp: acquire_shared_def try_acquire_shared_def
        add_shared_holder_def)
  have c: "\<forall>x. count (S + E + mset (map w_txn (waiters l))) (Some x) \<le> 1" and wo: "waiting_ok l"
    using ok unfolding lock_ok_def by blast+
  have "lock_ok ?l (S + {#t#}) E"
    using ok False E wo count_fresh[OF t c]
    by (auto simp: lock_ok_def waiting_ok_def holds_def is_locked_def
        is_exclusive_locked_def is_shared_locked_def)
  with eq show ?thesis by auto
qed

lemma acquire_exclusive_spec:
  assumes ok: "lock_ok l S E"
    and t: "\<forall>x. t = Some x \<longrightarrow> t \<notin># S + E + mset (map w_txn (waiters l))"
  shows "(\<exists>l'. acquire_exclusive t l = Inr (None, l') \<and> S = {#} \<and> E = {#} \<and> waiters l = [] \<and>
            lock_ok l' {#} {#t#} \<and>
            waiters l' = waiters l \<and> upgrader l' = upgrader l \<and> resolved l' = resolved l \<and>
            next_wid l' = next_wid l) \<or>
         (\<exists>l' w. acquire_exclusive t l = Inr (Some w, l') \<and> lock_ok l' S E \<and> w_txn w = t \<and>
            w_mode w = EXCLUSIVE \<and> waiters l' = waiters l @ [w] \<and> upgrader l' = upgrader l \<and>
            resolved l' = resolved l \<and> wid w = next_wid l \<and> next_wid l' = Suc (next_wid l))"
proof (cases "exclusive l \<or> shared l > 0 \<or> upgrader l \<noteq> None")
  case True
  let ?w = "\<lparr>wid = next_wid l, w_mode = EXCLUSIVE, w_txn = t\<rparr>"
  let ?l = "l\<lparr>next_wid := next_wid l + 1, waiters := waiters l @ [?w]\<rparr>"
  have eq: "acquire_exclusive t l = Inr (Some ?w, ?l)"
    using True by (auto simp: acquire_exclusive_def try_acquire_exclusive_def wait_begin_def Let_def)
  have lkd: "is_locked l"
    using True ok by (auto simp: lock_ok_def is_locked_def is_exclusive_locked_def
        is_shared_locked_def)
  have "lock_ok ?l S E"
    using lock_ok_enqueue[OF ok lkd t refl] by simp
  with eq show ?thesis by auto
next
  case False
  let ?l = "l\<lparr>exclusive := True, exclusive_holder := t\<rparr>"
  have E: "E = {#}" "S = {#}" "exclusive_holder l = None" "shared_holders l = {}" "waiters l = []"
    using False ok by (auto simp: lock_ok_def holds_def is_locked_def is_exclusive_locked_def
        is_shared_locked_def)
  have eq: "acquire_exclusive t l = Inr (None, ?l)"
    using False E by (simp add: acquire_exclusive_def try_acquire_exclusive_def
        set_exclusive_holder_def)
  have "lock_ok ?l {#} {#t#}"
    using ok False E
    by (auto simp: lock_ok_def waiting_ok_def holds_def)
  with eq E show ?thesis by auto
qed

lemma upgrade_spec:
  assumes ok: "lock_ok l S E" and t: "t \<in># S"
    and u: "\<forall>u \<in> set_option (upgrader l). w_txn u \<in># S - {#t#}"
  shows "(\<exists>l'. upgrade t l = Inr (None, l') \<and> S = {#t#} \<and> E = {#} \<and> lock_ok l' {#} {#t#} \<and>
            waiters l' = waiters l \<and> upgrader l = None \<and> upgrader l' = None \<and>
            resolved l' = resolved l \<and> next_wid l' = next_wid l) \<or>
         (upgrade t l = Inl Unavailable \<and> upgrader l \<noteq> None) \<or>
         (\<exists>l' w. upgrade t l = Inr (Some w, l') \<and> lock_ok l' S E \<and> w_txn w = t \<and>
            w_mode w = EXCLUSIVE \<and> waiters l' = waiters l \<and> upgrader l = None \<and>
            upgrader l' = Some w \<and>
            resolved l' = resolved l \<and> wid w = next_wid l \<and> next_wid l' = Suc (next_wid l))"
proof -
  have E: "E = {#}" "\<not> exclusive l" "exclusive_holder l = None" "shared l = int (size S)"
    "shared_holders l = {x. Some x \<in># S}"
    using ok t by (auto simp: lock_ok_def holds_def split: if_splits)
  have pos: "size S > 0" using t by (auto simp: nonempty_has_size[symmetric])
  show ?thesis
  proof (cases "size S = 1")
    case True
    then have S: "S = {#t#}" using t by (rule size_one_mem)
    with u have up: "upgrader l = None" by (cases "upgrader l") auto
    let ?l = "l\<lparr>shared := 0, exclusive := True, shared_holders := {}, exclusive_holder := t\<rparr>"
    have "remove_shared_holder t (l\<lparr>shared := 0, exclusive := True\<rparr>) =
        Inr (l\<lparr>shared := 0, exclusive := True, shared_holders := {}\<rparr>)"
      using remove_shared_holder_spec[of "l\<lparr>shared := 0, exclusive := True\<rparr>" S t] E S
      by simp
    then have eq: "upgrade t l = Inr (None, ?l)"
      using E S by (simp add: upgrade_def set_exclusive_holder_def)
    have "lock_ok ?l {#} {#t#}"
      using ok E S up by (simp add: lock_ok_def waiting_ok_def holds_def is_locked_def
          is_exclusive_locked_def)
    with eq S E(1) up show ?thesis by auto
  next
    case False
    with pos have two: "shared l \<ge> 2" using E(4) by linarith
    show ?thesis
    proof (cases "upgrader l")
      case None
      let ?w = "\<lparr>wid = next_wid l, w_mode = EXCLUSIVE, w_txn = t\<rparr>"
      let ?l = "l\<lparr>next_wid := next_wid l + 1, upgrader := Some ?w\<rparr>"
      have "upgrade t l = Inr (Some ?w, ?l)"
        using None two by (simp add: upgrade_def wait_begin_def Let_def)
      moreover have "lock_ok ?l S E"
        using ok two t None
        by (auto simp: lock_ok_def waiting_ok_def holds_def is_locked_def is_shared_locked_def
            is_exclusive_locked_def less_Suc_eq)
      ultimately show ?thesis using None by auto
    next
      case (Some v)
      then show ?thesis using two by (auto simp: upgrade_def wait_begin_def)
    qed
  qed
qed

section \<open>The lock among its callers\<close>

text \<open>
  The callers of one lock: \<open>sh\<close> and \<open>ex\<close> are the shared and exclusive holds of running callers,
  \<open>granted\<close> the suspended calls whose future is resolved but which have not been resumed yet (with
  whether they asked to upgrade).  The suspended calls that are not granted are the lock's own
  \<open>waiters\<close> and \<open>upgrader\<close>; an upgrader keeps the shared hold it upgrades from.
\<close>

record lock_sys =
  lk :: lock
  sh :: "txn option multiset"
  ex :: "txn option multiset"
  granted :: "(waiter \<times> bool) multiset"

definition lock_sys_init :: lock_sys where
  "lock_sys_init = \<lparr>lk = lock_init, sh = {#}, ex = {#}, granted = {#}\<rparr>"

datatype lock_event =
    AcquireShared "txn option"
  | AcquireExclusive "txn option"
  | Upgrade "txn option"
  | Downgrade "txn option"
  | ReleaseShared "txn option"
  | ReleaseExclusive "txn option"
  | Resume waiter bool
  | Interrupt waiter bool wait_exn

definition shared_holds :: "lock_sys \<Rightarrow> txn option multiset" where
  "shared_holds s = sh s + shared_gain (granted s) + upgrade_hold (lk s)"

definition exclusive_holds :: "lock_sys \<Rightarrow> txn option multiset" where
  "exclusive_holds s = ex s + exclusive_gain (granted s)"

text \<open>
  The callers' side of the contract: a transaction asks for a lock it neither holds nor waits for
  (\<open>_transaction_participant_start\<close> registers one participant per state and root transaction),
  releases, upgrades or downgrades only what it holds, and is resumed or interrupted only while
  suspended.
\<close>

definition absent :: "txn option \<Rightarrow> lock_sys \<Rightarrow> bool" where
  "absent t s \<longleftrightarrow> t = None \<or>
     t \<notin># shared_holds s + exclusive_holds s + mset (map w_txn (waiters (lk s)))"

fun enabled :: "lock_sys \<Rightarrow> lock_event \<Rightarrow> bool" where
  "enabled s (AcquireShared t) = absent t s"
| "enabled s (AcquireExclusive t) = absent t s"
| "enabled s (Upgrade t) = (t \<in># sh s)"
| "enabled s (Downgrade t) = (t \<in># ex s)"
| "enabled s (ReleaseShared t) = (t \<in># sh s)"
| "enabled s (ReleaseExclusive t) = (t \<in># ex s)"
| "enabled s (Resume w u) = ((w, u) \<in># granted s)"
| "enabled s (Interrupt w u x) =
     ((w, u) \<in># granted s \<or> (if u then upgrader (lk s) = Some w else w \<in> set (waiters (lk s))))"

text \<open>A call that released something leaves its callers' holds and the calls it granted.\<close>

definition settle :: "lock \<Rightarrow> lock \<Rightarrow> txn option multiset \<Rightarrow> txn option multiset \<Rightarrow>
    (waiter \<times> bool) multiset \<Rightarrow> lock_sys" where
  "settle l l' s e g = \<lparr>lk = l', sh = s, ex = e, granted = g + granted_by l l'\<rparr>"

fun lock_do :: "lock_sys \<Rightarrow> lock_event \<Rightarrow> lock_error + lock_sys" where
  "lock_do s (AcquireShared t) =
     rbind (acquire_shared t (lk s)) (\<lambda>(r, l'). Inr
       (if r = None then s\<lparr>lk := l', sh := sh s + {#t#}\<rparr> else s\<lparr>lk := l'\<rparr>))"
| "lock_do s (AcquireExclusive t) =
     rbind (acquire_exclusive t (lk s)) (\<lambda>(r, l'). Inr
       (if r = None then s\<lparr>lk := l', ex := ex s + {#t#}\<rparr> else s\<lparr>lk := l'\<rparr>))"
| "lock_do s (Upgrade t) =
     (case upgrade t (lk s) of
        Inl e \<Rightarrow> if e = Unavailable then Inr s else Inl e
      | Inr (r, l') \<Rightarrow> Inr
          (if r = None then s\<lparr>lk := l', sh := sh s - {#t#}, ex := ex s + {#t#}\<rparr>
           else s\<lparr>lk := l', sh := sh s - {#t#}\<rparr>))"
| "lock_do s (Downgrade t) =
     rbind (downgrade t (lk s)) (\<lambda>l'. Inr
       (settle (lk s) l' (sh s + {#t#}) (ex s - {#t#}) (granted s)))"
| "lock_do s (ReleaseShared t) =
     rbind (release_shared t (lk s)) (\<lambda>l'. Inr
       (settle (lk s) l' (sh s - {#t#}) (ex s) (granted s)))"
| "lock_do s (ReleaseExclusive t) =
     rbind (release_exclusive t (lk s)) (\<lambda>l'. Inr
       (settle (lk s) l' (sh s) (ex s - {#t#}) (granted s)))"
| "lock_do s (Resume w u) = Inr
     (s\<lparr>granted := granted s - {#(w, u)#},
        sh := sh s + (if w_mode w = SHARED then {#w_txn w#} else {#}),
        ex := ex s + (if w_mode w = SHARED then {#} else {#w_txn w#})\<rparr>)"
| "lock_do s (Interrupt w u x) =
     rbind (wait_interrupted w u x (lk s)) (\<lambda>(_, l'). Inr
       (if (w, u) \<in># granted s
        then settle (lk s) l' (sh s + (if u then {#w_txn w#} else {#})) (ex s)
               (granted s - {#(w, u)#})
        else s\<lparr>lk := l', sh := sh s + (if u then {#w_txn w#} else {#})\<rparr>))"

inductive lock_step :: "lock_sys \<Rightarrow> lock_event \<Rightarrow> lock_sys \<Rightarrow> bool" where
  lock_stepI: "enabled s e \<Longrightarrow> lock_do s e = Inr t \<Longrightarrow> lock_step s e t"

inductive_cases lock_stepE: "lock_step s e t"

definition sys_inv :: "lock_sys \<Rightarrow> bool" where
  "sys_inv s \<longleftrightarrow> lock_ok (lk s) (shared_holds s) (exclusive_holds s) \<and>
     (\<forall>p \<in># granted s. wid (fst p) \<in> resolved (lk s) \<and> (snd p \<longrightarrow> w_mode (fst p) = EXCLUSIVE))"

lemma granted_by_resolved:
  assumes "waiting_ok l"
  shows "\<forall>p \<in># granted_by l l'. wid (fst p) \<in> resolved l' \<and> (snd p \<longrightarrow> w_mode (fst p) = EXCLUSIVE)"
  using assms by (auto simp: granted_by_def waiting_ok_def split: option.splits if_splits)

lemma settle_inv:
  assumes g: "grants l (s0 + shared_gain g0 + upgrade_hold l) l' S' E'"
    and e: "e0 + exclusive_gain g0 = {#}" and w: "waiting_ok l"
    and r: "\<forall>p \<in># g0. wid (fst p) \<in> resolved l \<and> (snd p \<longrightarrow> w_mode (fst p) = EXCLUSIVE)"
  shows "sys_inv (settle l l' s0 e0 g0)"
proof -
  let ?N = "granted_by l l'" and ?s = "settle l l' s0 e0 g0"
  have a: "lock_ok l' S' E'" "S' + upgraded ?N = s0 + shared_gain g0 + upgrade_hold l + shared_gain ?N"
    "E' = exclusive_gain ?N" "upgrade_hold l = upgrade_hold l' + upgraded ?N"
    "resolved l \<subseteq> resolved l'"
    using g by (auto simp: grants_def Let_def)
  have "S' + upgraded ?N = shared_holds ?s + upgraded ?N"
    unfolding a(2) a(4) by (simp add: shared_holds_def settle_def ac_simps)
  then have "shared_holds ?s = S'" by simp
  moreover have "exclusive_holds ?s = E'"
    using e a(3) by (simp add: exclusive_holds_def settle_def)
  ultimately show ?thesis
    using a granted_by_resolved[OF w] r by (auto simp: sys_inv_def settle_def)
qed

lemma sys_invD:
  assumes "sys_inv s"
  shows "lock_ok (lk s) (shared_holds s) (exclusive_holds s)" "waiting_ok (lk s)"
    "\<forall>p \<in># granted s. wid (fst p) \<in> resolved (lk s) \<and> (snd p \<longrightarrow> w_mode (fst p) = EXCLUSIVE)"
  using assms by (auto simp: sys_inv_def lock_ok_def)

lemma upgrader_hold_kept:
  "\<forall>u \<in> set_option (upgrader (lk s)). w_txn u \<in># upgrade_hold (lk s)"
  by (auto simp: upgrade_hold_def)

lemma shared_holds_no_exclusive:
  assumes "sys_inv s" "shared_holds s \<noteq> {#}"
  shows "exclusive_holds s = {#}"
  using assms by (auto simp: sys_inv_def lock_ok_def holds_def split: if_splits)

lemma exclusive_holds_single:
  assumes "sys_inv s" "t \<in># exclusive_holds s"
  shows "exclusive_holds s = {#t#}" "shared_holds s = {#}"
  using exclusive_alone[OF sys_invD(1)[OF assms(1)] assms(2)] by simp_all

lemma absent_fresh:
  "absent t s \<Longrightarrow>
    \<forall>x. t = Some x \<longrightarrow> t \<notin># shared_holds s + exclusive_holds s + mset (map w_txn (waiters (lk s)))"
  by (auto simp: absent_def)

lemma do_acquire_shared:
  assumes i: "sys_inv s" and a: "absent t s"
  shows "\<exists>s'. lock_do s (AcquireShared t) = Inr s' \<and> sys_inv s'"
  using acquire_shared_spec[OF sys_invD(1)[OF i] absent_fresh[OF a]] sys_invD(3)[OF i]
  by (auto simp: sys_inv_def shared_holds_def exclusive_holds_def upgrade_hold_def ac_simps)

lemma do_acquire_exclusive:
  assumes i: "sys_inv s" and a: "absent t s"
  shows "\<exists>s'. lock_do s (AcquireExclusive t) = Inr s' \<and> sys_inv s'"
  using acquire_exclusive_spec[OF sys_invD(1)[OF i] absent_fresh[OF a]] sys_invD(3)[OF i]
  by (auto simp: sys_inv_def shared_holds_def exclusive_holds_def upgrade_hold_def ac_simps)

lemma do_upgrade:
  assumes i: "sys_inv s" and t: "t \<in># sh s"
  shows "\<exists>s'. lock_do s (Upgrade t) = Inr s' \<and> sys_inv s'"
proof -
  obtain M where M: "sh s = add_mset t M" using t by (metis multi_member_split)
  have t': "t \<in># shared_holds s" using t by (simp add: shared_holds_def)
  have u: "\<forall>u \<in> set_option (upgrader (lk s)). w_txn u \<in># shared_holds s - {#t#}"
    using M by (auto simp: shared_holds_def upgrade_hold_def)
  show ?thesis
    using upgrade_spec[OF sys_invD(1)[OF i] t' u] sys_invD(3)[OF i] i M
    by (auto simp: sys_inv_def shared_holds_def exclusive_holds_def upgrade_hold_def ac_simps
        add_mset_commute)
qed

lemma do_downgrade:
  assumes i: "sys_inv s" and t: "t \<in># ex s"
  shows "\<exists>s'. lock_do s (Downgrade t) = Inr s' \<and> sys_inv s'"
proof -
  have t': "t \<in># exclusive_holds s" using t by (simp add: exclusive_holds_def)
  note e = exclusive_holds_single[OF i t']
  have z: "sh s + {#t#} + shared_gain (granted s) + upgrade_hold (lk s) = {#t#}"
    "ex s - {#t#} + exclusive_gain (granted s) = {#}"
    using e t by (auto simp: shared_holds_def exclusive_holds_def add_eq_conv_ex)
  obtain l' S' E' where l': "downgrade t (lk s) = Inr l'" "grants (lk s) {#t#} l' S' E'"
    using downgrade_spec[OF sys_invD(1)[OF i] t'] by blast
  have "sys_inv (settle (lk s) l' (sh s + {#t#}) (ex s - {#t#}) (granted s))"
    by (rule settle_inv[OF _ z(2) sys_invD(2,3)[OF i]]) (unfold z(1), rule l'(2))
  with l'(1) show ?thesis by simp
qed

lemma do_release_shared:
  assumes i: "sys_inv s" and t: "t \<in># sh s"
  shows "\<exists>s'. lock_do s (ReleaseShared t) = Inr s' \<and> sys_inv s'"
proof -
  obtain M where M: "sh s = add_mset t M" using t by (metis multi_member_split)
  have t': "t \<in># shared_holds s" using t by (simp add: shared_holds_def)
  then have "shared_holds s \<noteq> {#}" by auto
  then have z: "ex s + exclusive_gain (granted s) = {#}"
    using shared_holds_no_exclusive[OF i] by (simp add: exclusive_holds_def)
  have u: "\<forall>u \<in> set_option (upgrader (lk s)). w_txn u \<in># shared_holds s - {#t#}"
    using M by (auto simp: shared_holds_def upgrade_hold_def)
  have d: "shared_holds s - {#t#} = sh s - {#t#} + shared_gain (granted s) + upgrade_hold (lk s)"
    using M by (simp add: shared_holds_def)
  obtain l' S' E' where l': "release_shared t (lk s) = Inr l'"
    "grants (lk s) (shared_holds s - {#t#}) l' S' E'"
    using release_shared_spec[OF sys_invD(1)[OF i] t' u] by blast
  have "sys_inv (settle (lk s) l' (sh s - {#t#}) (ex s) (granted s))"
    using settle_inv[OF l'(2)[unfolded d] z sys_invD(2,3)[OF i]] .
  with l'(1) show ?thesis by simp
qed

lemma do_release_exclusive:
  assumes i: "sys_inv s" and t: "t \<in># ex s"
  shows "\<exists>s'. lock_do s (ReleaseExclusive t) = Inr s' \<and> sys_inv s'"
proof -
  have t': "t \<in># exclusive_holds s" using t by (simp add: exclusive_holds_def)
  note e = exclusive_holds_single[OF i t']
  have z: "sh s + shared_gain (granted s) + upgrade_hold (lk s) = {#}"
    "ex s - {#t#} + exclusive_gain (granted s) = {#}"
    using e t by (auto simp: shared_holds_def exclusive_holds_def add_eq_conv_ex)
  obtain l' S' E' where l': "release_exclusive t (lk s) = Inr l'" "grants (lk s) {#} l' S' E'"
    using release_exclusive_spec[OF sys_invD(1)[OF i] t'] by blast
  have "sys_inv (settle (lk s) l' (sh s) (ex s - {#t#}) (granted s))"
    by (rule settle_inv[OF _ z(2) sys_invD(2,3)[OF i]]) (unfold z(1), rule l'(2))
  with l'(1) show ?thesis by simp
qed

lemma do_resume:
  assumes i: "sys_inv s" and g: "(w, u) \<in># granted s"
  shows "\<exists>s'. lock_do s (Resume w u) = Inr s' \<and> sys_inv s'"
proof -
  obtain G where G: "granted s = add_mset (w, u) G" using g by (metis multi_member_split)
  with i show ?thesis
    by (cases "w_mode w")
      (auto simp: sys_inv_def shared_holds_def exclusive_holds_def ac_simps)
qed

lemma distinct_map_remove1: "distinct (map f xs) \<Longrightarrow> distinct (map f (remove1 x xs))"
  by (induction xs) (auto dest: notin_set_remove1 in_set_remove1[THEN iffD1, rotated] set_remove1_subset[THEN subsetD])

lemma lock_ok_dequeue:
  assumes ok: "lock_ok l S E"
  shows "lock_ok (l\<lparr>waiters := remove1 w (waiters l)\<rparr>) S E"
proof -
  let ?l = "l\<lparr>waiters := remove1 w (waiters l)\<rparr>"
  have sub: "set (remove1 w (waiters l)) \<subseteq> set (waiters l)" by (rule set_remove1_subset)
  have "distinct (map wid (waiters l))" and wo: "waiting_ok l" and h: "holds l S E"
    and lkd: "waiters l \<noteq> [] \<longrightarrow> is_locked l"
    and up: "\<forall>u \<in> set_option (upgrader l). w_txn u \<in># S \<and> shared l \<ge> 2"
    using ok by (auto simp: lock_ok_def waiting_ok_def)
  then have "distinct (map wid (remove1 w (waiters l)))" by (simp add: distinct_map_remove1)
  then have "waiting_ok ?l"
    using wo sub by (auto simp: waiting_ok_def split: option.splits)
  moreover have "holds ?l S E" using h by (simp add: holds_def)
  moreover have "waiters ?l \<noteq> [] \<longrightarrow> is_locked ?l"
    using lkd by (auto simp: is_locked_def is_shared_locked_def is_exclusive_locked_def)
  moreover have "count (S + E + mset (map w_txn (waiters ?l))) (Some x) \<le> 1" for x
  proof -
    have "image_mset w_txn (mset (waiters l) - {#w#}) \<subseteq># image_mset w_txn (mset (waiters l))"
      by (intro image_mset_subseteq_mono) simp
    then have "count (image_mset w_txn (mset (waiters l) - {#w#})) (Some x)
        \<le> count (image_mset w_txn (mset (waiters l))) (Some x)"
      by (simp add: subseteq_mset_def)
    moreover have "count (S + E + mset (map w_txn (waiters l))) (Some x) \<le> 1"
      using ok unfolding lock_ok_def by blast
    ultimately show ?thesis by simp
  qed
  ultimately show ?thesis using up by (simp add: lock_ok_def)
qed

lemma lock_ok_no_upgrader: "lock_ok l S E \<Longrightarrow> lock_ok (l\<lparr>upgrader := None\<rparr>) S E"
  by (auto simp: lock_ok_def waiting_ok_def holds_def is_locked_def is_shared_locked_def
      is_exclusive_locked_def split: option.splits)

lemma do_interrupt_waiting:
  assumes i: "sys_inv s" and n: "(w, u) \<notin># granted s" and e: "enabled s (Interrupt w u x)"
  shows "\<exists>s'. lock_do s (Interrupt w u x) = Inr s' \<and> sys_inv s'"
proof -
  have un: "wid w \<notin> resolved (lk s)"
    using sys_invD(2)[OF i] n e by (auto simp: waiting_ok_def split: if_splits)
  show ?thesis
  proof (cases u)
    case True
    with un n e lock_ok_no_upgrader[OF sys_invD(1)[OF i]] sys_invD(3)[OF i] show ?thesis
      by (simp add: wait_interrupted_def sys_inv_def shared_holds_def exclusive_holds_def
          upgrade_hold_def ac_simps)
  next
    case False
    with un n lock_ok_dequeue[OF sys_invD(1)[OF i], of w] sys_invD(3)[OF i] show ?thesis
      by (simp add: wait_interrupted_def sys_inv_def shared_holds_def exclusive_holds_def
          upgrade_hold_def)
  qed
qed

lemma do_interrupt_granted:
  assumes i: "sys_inv s" and g: "(w, u) \<in># granted s"
  shows "\<exists>s'. lock_do s (Interrupt w u x) = Inr s' \<and> sys_inv s'"
proof -
  obtain G where G: "granted s = add_mset (w, u) G" using g by (metis multi_member_split)
  have r: "wid w \<in> resolved (lk s)" and um: "u \<longrightarrow> w_mode w = EXCLUSIVE"
    and rG: "\<forall>p \<in># G. wid (fst p) \<in> resolved (lk s) \<and> (snd p \<longrightarrow> w_mode (fst p) = EXCLUSIVE)"
    using sys_invD(3)[OF i] G by auto
  show ?thesis
  proof (cases "w_mode w")
    case SHARED
    with um have u: "\<not> u" by auto
    have t: "w_txn w \<in># shared_holds s" using G SHARED by (simp add: shared_holds_def)
    then have "shared_holds s \<noteq> {#}" by auto
    then have z: "ex s + exclusive_gain G = {#}"
      using shared_holds_no_exclusive[OF i] G SHARED by (simp add: exclusive_holds_def)
    have k: "\<forall>v \<in> set_option (upgrader (lk s)). w_txn v \<in># shared_holds s - {#w_txn w#}"
      using G SHARED by (auto simp: shared_holds_def upgrade_hold_def)
    have d: "shared_holds s - {#w_txn w#} = sh s + shared_gain G + upgrade_hold (lk s)"
      using G SHARED by (simp add: shared_holds_def)
    obtain l' S' E' where l': "release_shared (w_txn w) (lk s) = Inr l'"
      "grants (lk s) (shared_holds s - {#w_txn w#}) l' S' E'"
      using release_shared_spec[OF sys_invD(1)[OF i] t k] by blast
    show ?thesis
      using settle_inv[OF l'(2)[unfolded d] z sys_invD(2)[OF i] rG] l'(1) r u SHARED G
      by (simp add: wait_interrupted_def)
  next
    case EXCLUSIVE
    then have t: "w_txn w \<in># exclusive_holds s" using G by (simp add: exclusive_holds_def)
    note e = exclusive_holds_single[OF i t]
    have z: "sh s + shared_gain G + upgrade_hold (lk s) = {#}" "ex s + exclusive_gain G = {#}"
      using e G EXCLUSIVE by (auto simp: shared_holds_def exclusive_holds_def)
    show ?thesis
    proof (cases u)
      case True
      obtain l' S' E' where l': "downgrade (w_txn w) (lk s) = Inr l'"
        "grants (lk s) {#w_txn w#} l' S' E'"
        using downgrade_spec[OF sys_invD(1)[OF i] t] by blast
      have y: "grants (lk s) (sh s + {#w_txn w#} + shared_gain G + upgrade_hold (lk s)) l' S' E'"
        using z(1) l'(2) by simp
      show ?thesis
        using settle_inv[OF y z(2) sys_invD(2)[OF i] rG] l'(1) r True G
        by (simp add: wait_interrupted_def)
    next
      case False
      obtain l' S' E' where l': "release_exclusive (w_txn w) (lk s) = Inr l'"
        "grants (lk s) {#} l' S' E'"
        using release_exclusive_spec[OF sys_invD(1)[OF i] t] by blast
      have y: "grants (lk s) (sh s + shared_gain G + upgrade_hold (lk s)) l' S' E'"
        using z(1) l'(2) by simp
      show ?thesis
        using settle_inv[OF y z(2) sys_invD(2)[OF i] rG] l'(1) r False G EXCLUSIVE
        by (simp add: wait_interrupted_def)
    qed
  qed
qed

text \<open>No call a caller may make fails, and each keeps the invariant.\<close>

lemma lock_do_ok:
  assumes "sys_inv s" "enabled s e"
  shows "\<exists>s'. lock_do s e = Inr s' \<and> sys_inv s'"
proof (cases e)
  case (Interrupt w u x)
  with assms show ?thesis
    using do_interrupt_granted do_interrupt_waiting by blast
qed (use assms do_acquire_shared do_acquire_exclusive do_upgrade do_downgrade do_release_shared
       do_release_exclusive do_resume in auto)

interpretation lock_run: invariant_system "\<lambda>s. s = lock_sys_init" lock_step sys_inv
proof
  fix s assume "s = lock_sys_init"
  then show "sys_inv s"
    by (simp add: sys_inv_def lock_sys_init_def lock_init_def lock_ok_def holds_def waiting_ok_def
        shared_holds_def exclusive_holds_def upgrade_hold_def)
next
  fix s e t assume "sys_inv s" "lock_step s e t"
  then show "sys_inv t" by (metis lock_do_ok lock_stepE sum.inject(2))
qed

abbreviation lock_reach :: "lock_sys \<Rightarrow> bool" where
  "lock_reach \<equiv> reach (\<lambda>s. s = lock_sys_init) lock_step"

section \<open>Presumed deadlocks\<close>

text \<open>
  \<open>_abort_if_presumed_deadlock\<close>: a transaction whose grace period elapsed while it waits for a lock
  gives up when a holder of that lock is older.  Ages are root transaction ids, ordered by creation.
\<close>

datatype 'a should_retry = TransactionShouldRetry_PRESUMED_DEADLOCK 'a

definition abort_if_presumed_deadlock ::
    "(txn \<Rightarrow> 'a::linorder) \<Rightarrow> lock \<Rightarrow> txn \<Rightarrow> 'a should_retry option" where
  "abort_if_presumed_deadlock age l t =
     (if \<exists>h \<in> holders l. h \<noteq> t \<and> age h < age t
      then Some (TransactionShouldRetry_PRESUMED_DEADLOCK (age t)) else None)"

lemma cycle_has_descent:
  fixes a :: "nat \<Rightarrow> 'a::linorder"
  assumes "n \<ge> 2" "\<And>i. i < n \<Longrightarrow> a i \<noteq> a (Suc i mod n)"
  shows "\<exists>i < n. a (Suc i mod n) < a i"
proof (rule ccontr)
  assume neg: "\<not> ?thesis"
  have up: "a i < a (Suc i mod n)" if "i < n" for i
    using neg assms(2) that by (meson linorder_neqE)
  have mono: "i < n \<Longrightarrow> a 0 \<le> a i" for i
  proof (induction i)
    case (Suc i)
    then have "a i < a (Suc i)" using up[of i] by simp
    with Suc show ?case by simp
  qed simp
  have "a (n - 1) < a 0" using up[of "n - 1"] assms(1) by simp
  with mono[of "n - 1"] assms(1) show False by simp
qed

section \<open>Draining the holds\<close>

lemma release_not_last:
  assumes i: "sys_inv s" and M: "sh s = add_mset t M" "M \<noteq> {#}" and u: "upgrader (lk s) = None"
  shows "\<exists>s'. lock_do s (ReleaseShared t) = Inr s' \<and> sh s' = M \<and> ex s' = ex s \<and>
    granted s' = granted s \<and> waiters (lk s') = waiters (lk s) \<and> upgrader (lk s') = None"
proof -
  let ?l = "lk s" and ?S = "shared_holds s"
  have ok: "lock_ok ?l ?S (exclusive_holds s)" by (rule sys_invD(1)[OF i])
  have t: "t \<in># ?S" using M by (simp add: shared_holds_def)
  have h: "shared ?l = int (size ?S)" "shared_holders ?l = {x. Some x \<in># ?S}" "\<not> exclusive ?l"
    using ok t by (auto simp: lock_ok_def holds_def split: if_splits)
  have gt: "shared ?l > 1" using h(1) M by (simp add: shared_holds_def nonempty_has_size)
  let ?l' = "?l\<lparr>shared := shared ?l - 1, shared_holders := {x. Some x \<in># ?S - {#t#}}\<rparr>"
  have "remove_shared_holder t (?l\<lparr>shared := shared ?l - 1\<rparr>) = Inr ?l'"
    using remove_shared_holder_spec[of "?l\<lparr>shared := shared ?l - 1\<rparr>" ?S t] h t lock_ok_counts(1)[OF ok]
    by simp
  then have "release_shared t ?l = Inr ?l'"
    using gt h u by (simp add: release_shared_def maybe_grant_next_def)
  moreover have "granted_by ?l ?l' = {#}"
    using sys_invD(2)[OF i] u by (auto simp: granted_by_def waiting_ok_def filter_empty_conv)
  ultimately show ?thesis using M u by (simp add: settle_def)
qed

lemma release_last:
  assumes i: "sys_inv s" and M: "shared_holds s = {#t#}" "sh s = {#t#}"
    and u: "upgrader (lk s) = None" and w: "waiters (lk s) = w # ws"
  shows "\<exists>s'. lock_do s (ReleaseShared t) = Inr s' \<and> (w, False) \<in># granted s'"
proof -
  let ?l = "lk s"
  have ok: "lock_ok ?l {#t#} (exclusive_holds s)" using sys_invD(1)[OF i] M by simp
  have h: "shared ?l = 1" "shared_holders ?l = {x. Some x \<in># {#t#}}" "\<not> exclusive ?l"
    "exclusive_holder ?l = None"
    using ok by (auto simp: lock_ok_def holds_def split: if_splits)
  let ?l' = "?l\<lparr>shared := 0, shared_holders := {}\<rparr>"
  have "remove_shared_holder t (?l\<lparr>shared := shared ?l - 1\<rparr>) = Inr ?l'"
    using remove_shared_holder_spec[of "?l\<lparr>shared := 0\<rparr>" "{#t#}" t] h lock_ok_counts(1)[OF ok]
    by simp
  then have eq: "release_shared t ?l = grant_waiters (w # ws) ?l'"
    using h u w by (simp add: release_shared_def maybe_grant_next_def)
  have hl: "holds ?l' {#} {#}" "\<not> exclusive ?l'" using h by (simp_all add: holds_def)
  have wo: "\<forall>v \<in> set (w # ws). wid v \<notin> resolved ?l'" "distinct (map wid (w # ws))"
    using sys_invD(2)[OF i] u w by (auto simp: waiting_ok_def)
  have c: "\<forall>x. count ({#} + mset (map w_txn (w # ws))) (Some x) \<le> 1"
    using lock_ok_counts(2)[OF ok] w by simp
  obtain l'' where l'': "grant_waiters (w # ws) ?l' = Inr l''"
    "resolved l'' = resolved ?l' \<union> wid ` set (cohort False (w # ws))"
    using grant_waiters_spec[OF hl wo c refl] by auto
  have "wid w \<in> resolved l''" using l''(2) by (cases "w_mode w") auto
  then have "(w, False) \<in># granted_by ?l l''" using w by (simp add: granted_by_def)
  with eq l''(1) show ?thesis by (simp add: settle_def)
qed

lemma drain_shared:
  assumes "sys_inv s" "sh s = mset ts" "ts \<noteq> []" "ex s = {#}" "granted s = {#}"
    and "upgrader (lk s) = None" "waiters (lk s) = w # ws"
  shows "\<exists>s'. steps lock_step s (map ReleaseShared ts) s' \<and> (w, False) \<in># granted s'"
  using assms
proof (induction ts arbitrary: s)
  case (Cons t ts)
  have en: "enabled s (ReleaseShared t)" using Cons.prems by simp
  show ?case
  proof (cases "ts = []")
    case True
    then have "shared_holds s = {#t#}" "sh s = {#t#}"
      using Cons.prems by (simp_all add: shared_holds_def upgrade_hold_def)
    then obtain s' where "lock_do s (ReleaseShared t) = Inr s'" "(w, False) \<in># granted s'"
      using release_last Cons.prems by blast
    then show ?thesis using True en by (auto intro!: steps.intros lock_stepI)
  next
    case False
    then obtain s' where s': "lock_do s (ReleaseShared t) = Inr s'" "sh s' = mset ts" "ex s' = {#}"
      "granted s' = {#}" "waiters (lk s') = w # ws" "upgrader (lk s') = None"
      using release_not_last[of s t "mset ts"] Cons.prems by auto
    have st: "lock_step s (ReleaseShared t) s'" using en s'(1) by (rule lock_stepI)
    then have "sys_inv s'" using Cons.prems(1) by (rule lock_run.step_inv[rotated])
    with Cons.IH False s' obtain s'' where
      "steps lock_step s' (map ReleaseShared ts) s''" "(w, False) \<in># granted s''" by blast
    with st show ?thesis by (auto intro: steps.intros)
  qed
qed simp

section \<open>Queue order\<close>

text \<open>A step resolves the futures of a prefix of the queue.\<close>

definition serves_prefix :: "lock \<Rightarrow> lock \<Rightarrow> bool" where
  "serves_prefix l l' \<longleftrightarrow> (\<exists>g rest. waiters l = g @ rest \<and> (\<forall>w \<in> set g. wid w \<in> resolved l') \<and>
     (\<forall>w \<in> set rest. wid w \<notin> resolved l'))"

lemma grants_fifo:
  assumes "grants l S l' S' E'"
  shows "serves_prefix l l'"
proof -
  let ?g = "filter (\<lambda>w. wid w \<in> resolved l') (waiters l)"
  have "waiters l = ?g @ waiters l'" "waiters l' = filter (\<lambda>w. wid w \<notin> resolved l') (waiters l)"
    using assms unfolding grants_def Let_def by blast+
  then have "waiters l = ?g @ filter (\<lambda>w. wid w \<notin> resolved l') (waiters l)" by simp
  then show ?thesis unfolding serves_prefix_def by (intro exI conjI) auto
qed

lemma unresolved_fifo:
  assumes "waiting_ok l" "resolved l' = resolved l"
  shows "serves_prefix l l'"
  unfolding serves_prefix_def
  using assms by (intro exI[of _ "[]"] exI[of _ "waiters l"]) (auto simp: waiting_ok_def)

lemma serves_prefix_closed:
  assumes "serves_prefix l l'" "waiters l = pre @ w # post" "v \<in> set post" "wid v \<in> resolved l'"
  shows "wid w \<in> resolved l'"
proof (rule ccontr)
  assume n: "wid w \<notin> resolved l'"
  obtain g rest where g: "pre @ w # post = g @ rest" "\<forall>w \<in> set g. wid w \<in> resolved l'"
    "\<forall>w \<in> set rest. wid w \<notin> resolved l'"
    using assms(1,2) unfolding serves_prefix_def by metis
  from g(1) obtain us where "(pre = g @ us \<and> us @ w # post = rest) \<or> (pre @ us = g \<and> w # post = us @ rest)"
    using append_eq_append_conv2[of pre "w # post" g rest] by blast
  then consider "v \<in> set rest" | "w \<in> set g" using assms(3) by (cases us) auto
  then show False using n g assms(4) by cases auto
qed

lemma interrupt_fifo:
  assumes i: "sys_inv s" and e: "enabled s (Interrupt w u x)"
    and d: "wait_interrupted w u x (lk s) = Inr (y, l')"
  shows "serves_prefix (lk s) l'"
proof (cases "wid w \<in> resolved (lk s)")
  case False
  with d show ?thesis
    using unresolved_fifo[OF sys_invD(2)[OF i]] by (auto simp: wait_interrupted_def split: if_splits)
next
  case True
  have g: "(w, u) \<in># granted s"
    using e True sys_invD(2)[OF i] by (auto simp: waiting_ok_def split: if_splits)
  obtain G where G: "granted s = add_mset (w, u) G" using g by (metis multi_member_split)
  show ?thesis
  proof (cases "w_mode w")
    case SHARED
    have t: "w_txn w \<in># shared_holds s" using G SHARED by (simp add: shared_holds_def)
    have k: "\<forall>v \<in> set_option (upgrader (lk s)). w_txn v \<in># shared_holds s - {#w_txn w#}"
      using G SHARED by (auto simp: shared_holds_def upgrade_hold_def)
    have "\<not> u" using sys_invD(3)[OF i] g SHARED by auto
    then show ?thesis
      using release_shared_spec[OF sys_invD(1)[OF i] t k] d True SHARED
      by (auto simp: wait_interrupted_def dest: grants_fifo)
  next
    case EXCLUSIVE
    then have t: "w_txn w \<in># exclusive_holds s" using G by (simp add: exclusive_holds_def)
    show ?thesis
      using release_exclusive_spec[OF sys_invD(1)[OF i] t] downgrade_spec[OF sys_invD(1)[OF i] t]
        d True EXCLUSIVE
      by (auto simp: wait_interrupted_def dest: grants_fifo split: if_splits)
  qed
qed

lemma step_fifo:
  assumes i: "sys_inv s" and e: "enabled s e" and d: "lock_do s e = Inr t"
  shows "serves_prefix (lk s) (lk t)"
proof -
  note ok = sys_invD(1)[OF i] and same = unresolved_fifo[OF sys_invD(2)[OF i]]
  show ?thesis
  proof (cases e)
    case (AcquireShared q)
    with acquire_shared_spec[OF ok absent_fresh, of q] e d same show ?thesis by auto
  next
    case (AcquireExclusive q)
    with acquire_exclusive_spec[OF ok absent_fresh, of q] e d same show ?thesis by auto
  next
    case (Upgrade q)
    have "\<forall>u \<in> set_option (upgrader (lk s)). w_txn u \<in># shared_holds s - {#q#}"
      and "q \<in># shared_holds s"
      using e Upgrade by (auto simp: shared_holds_def upgrade_hold_def dest: multi_member_split)
    with upgrade_spec[OF ok, of q] Upgrade d same show ?thesis by auto
  next
    case (Downgrade q)
    with e have "q \<in># exclusive_holds s" by (simp add: exclusive_holds_def)
    from downgrade_spec[OF ok this] Downgrade d show ?thesis
      by (auto simp: settle_def dest!: grants_fifo)
  next
    case (ReleaseShared q)
    have "\<forall>u \<in> set_option (upgrader (lk s)). w_txn u \<in># shared_holds s - {#q#}"
      and "q \<in># shared_holds s"
      using e ReleaseShared by (auto simp: shared_holds_def upgrade_hold_def dest: multi_member_split)
    with release_shared_spec[OF ok, of q] ReleaseShared d show ?thesis
      by (auto simp: settle_def dest!: grants_fifo)
  next
    case (ReleaseExclusive q)
    with e have "q \<in># exclusive_holds s" by (simp add: exclusive_holds_def)
    from release_exclusive_spec[OF ok this] ReleaseExclusive d show ?thesis
      by (auto simp: settle_def dest!: grants_fifo)
  next
    case (Resume w u)
    with d same show ?thesis by auto
  next
    case (Interrupt w u x)
    with d interrupt_fifo[OF i, of w u x] e show ?thesis
      by (auto simp: rbind_eq_Inr_iff settle_def split: if_splits)
  qed
qed

section \<open>Runs\<close>

text \<open>Runs of the callers as a list of calls, for concrete executions.\<close>

fun run_events :: "lock_sys \<Rightarrow> lock_event list \<Rightarrow> lock_error + lock_sys" where
  "run_events s [] = Inr s"
| "run_events s (e # es) =
     (if enabled s e then rbind (lock_do s e) (\<lambda>t. run_events t es) else Inl AssertionError)"

lemma run_events_steps: "run_events s es = Inr t \<Longrightarrow> steps lock_step s es t"
  by (induction s es rule: run_events.induct)
    (auto simp: rbind_eq_Inr_iff split: if_splits intro: steps.intros lock_stepI)

lemma run_events_reach: "run_events lock_sys_init es = Inr t \<Longrightarrow> lock_reach t"
  by (auto intro: reach_steps[OF run_events_steps] reach_init)

lemmas lock_eval = lock_sys_init_def lock_init_def acquire_shared_def acquire_exclusive_def
  try_acquire_shared_def try_acquire_exclusive_def wait_begin_def add_shared_holder_def
  remove_shared_holder_def set_exclusive_holder_def unset_exclusive_holder_def set_result_def
  maybe_grant_next_def release_shared_def release_exclusive_def downgrade_def upgrade_def
  wait_interrupted_def settle_def granted_by_def absent_def shared_holds_def exclusive_holds_def
  upgrade_hold_def Let_def

text \<open>
  One transaction reads, a writer queues behind it, and a second reader behind the writer.
\<close>

definition contended :: lock_sys where
  "contended =
     \<lparr>lk = \<lparr>shared = 1, exclusive = False, upgrader = None, exclusive_holder = None,
             shared_holders = {1},
             waiters = [\<lparr>wid = 0, w_mode = EXCLUSIVE, w_txn = Some 2\<rparr>,
                        \<lparr>wid = 1, w_mode = SHARED, w_txn = Some 3\<rparr>],
             resolved = {}, next_wid = 2\<rparr>,
      sh = {#Some 1#}, ex = {#}, granted = {#}\<rparr>"

lemma contended_run:
  "run_events lock_sys_init [AcquireShared (Some 1), AcquireExclusive (Some 2), AcquireShared (Some 3)]
     = Inr contended"
  by (simp add: lock_eval contended_def)

lemma contended_reach: "lock_reach contended"
  by (rule run_events_reach[OF contended_run])

section \<open>Properties\<close>

text \<open>
  No call of a caller that keeps to the contract raises: in every reachable state each call a
  caller may make (acquire, upgrade, downgrade, release, resume, or being interrupted by a deadline
  or a cancellation) passes every assertion of the class, including those of \<open>_maybe_grant_next\<close>,
  and never resolves a future twice.
\<close>

theorem lock_calls_never_fail:
  assumes "lock_reach s" and "enabled s e"
  shows "\<exists>t. lock_do s e = Inr t"
  using lock_do_ok[OF lock_run.reach_inv[OF assms(1)] assms(2)] by blast

theorem lock_calls_never_fail_witness:
  "\<exists>t. lock_do contended (ReleaseShared (Some 1)) = Inr t"
  by (rule lock_calls_never_fail[OF contended_reach]) (simp add: contended_def)

text \<open>
  (C29) Exclusion and exact bookkeeping: in every reachable state \<open>_shared\<close> is the number of shared
  holds that callers have (running, granted but not resumed, or kept by a waiting upgrader), there
  is at most one exclusive hold and \<open>_exclusive\<close> says whether there is one, an exclusive hold
  excludes every shared hold, and \<open>holders\<close> is exactly the set of transactions with a hold.
\<close>

theorem lock_exclusion:
  assumes "lock_reach s"
  shows "shared (lk s) = int (size (shared_holds s)) \<and>
    (exclusive (lk s) \<longleftrightarrow> exclusive_holds s \<noteq> {#}) \<and>
    size (exclusive_holds s) \<le> 1 \<and>
    (exclusive_holds s = {#} \<or> shared_holds s = {#}) \<and>
    holders (lk s) = {t. Some t \<in># shared_holds s + exclusive_holds s}"
proof -
  have h: "holds (lk s) (shared_holds s) (exclusive_holds s)"
    using sys_invD(1)[OF lock_run.reach_inv[OF assms]] by (simp add: lock_ok_def)
  show ?thesis
  proof (cases "exclusive (lk s)")
    case True
    with h show ?thesis by (auto simp: holds_def holders_def split: option.splits)
  next
    case False
    with h show ?thesis by (auto simp: holds_def holders_def)
  qed
qed

theorem lock_exclusion_witness:
  "shared (lk contended) = 1 \<and> holders (lk contended) = {1}"
  using lock_exclusion[OF contended_reach]
  by (simp add: contended_def shared_holds_def exclusive_holds_def upgrade_hold_def holders_def)

text \<open>
  (C32) No lost wakeup: in a reachable state where nobody has a hold (none running, none granted and
  about to resume), nobody is queued and no upgrade is pending.  So every queued caller always has a
  holder whose release will reach it.
\<close>

theorem no_lost_wakeup:
  assumes "lock_reach s" and "sh s = {#}" and "ex s = {#}" and "granted s = {#}"
  shows "waiters (lk s) = [] \<and> upgrader (lk s) = None"
proof -
  have ok: "lock_ok (lk s) (upgrade_hold (lk s)) {#}"
    using sys_invD(1)[OF lock_run.reach_inv[OF assms(1)]] assms(2-)
    by (simp add: shared_holds_def exclusive_holds_def)
  have "upgrader (lk s) = None"
  proof (cases "upgrader (lk s)")
    case (Some u)
    with ok have "shared (lk s) \<ge> 2" "shared (lk s) = 1"
      by (auto simp: lock_ok_def holds_def upgrade_hold_def)
    then show ?thesis by simp
  qed simp
  with ok show ?thesis
    by (auto simp: lock_ok_def holds_def upgrade_hold_def is_locked_def is_shared_locked_def
        is_exclusive_locked_def split: if_splits)
qed

theorem no_lost_wakeup_witness:
  "waiters (lk lock_sys_init) = [] \<and> upgrader (lk lock_sys_init) = None"
  by (rule no_lost_wakeup[OF reach_init]) (simp_all add: lock_sys_init_def)

text \<open>
  Waiters make progress: with a queue and no upgrade pending, the release of the shared holds,
  in whatever order their holders release, resolves the future of the waiter at the head of the
  queue.  The run exists: none of the releases fails.
\<close>

theorem draining_grants_head:
  assumes "lock_reach s" and "waiters (lk s) = w # ws" and "upgrader (lk s) = None"
    and "ex s = {#}" and "granted s = {#}" and "mset ts = sh s" and "ts \<noteq> []"
  shows "\<exists>s'. steps lock_step s (map ReleaseShared ts) s' \<and> (w, False) \<in># granted s'"
  using drain_shared[OF lock_run.reach_inv[OF assms(1)]] assms(2-) by simp

theorem draining_grants_head_witness:
  "\<exists>s'. steps lock_step contended (map ReleaseShared [Some 1]) s' \<and>
     (\<lparr>wid = 0, w_mode = EXCLUSIVE, w_txn = Some 2\<rparr>, False) \<in># granted s'"
  by (rule draining_grants_head[OF contended_reach]) (simp_all add: contended_def)

text \<open>
  (C33) First in, first out: whatever the callers do next, a waiter is granted its hold only if every
  waiter queued ahead of it is granted too; and while an exclusive waiter is queued, a new shared
  request gains no hold, so a stream of readers does not starve it.
\<close>

theorem fifo_no_overtaking:
  assumes "lock_reach s" and "lock_step s e t" and "waiters (lk s) = pre @ w # post"
  shows "(v \<in> set post \<and> wid v \<in> resolved (lk t) \<longrightarrow> wid w \<in> resolved (lk t)) \<and>
    (e = AcquireShared u \<and> w_mode w = EXCLUSIVE \<longrightarrow> shared_holds t = shared_holds s)"
proof -
  have i: "sys_inv s" by (rule lock_run.reach_inv[OF assms(1)])
  have f: "lock_do s e = Inr t" "enabled s e" using assms(2) by (auto elim: lock_stepE)
  have "v \<in> set post \<Longrightarrow> wid v \<in> resolved (lk t) \<Longrightarrow> wid w \<in> resolved (lk t)"
    using serves_prefix_closed[OF step_fifo[OF i f(2,1)] assms(3)] by blast
  moreover have "e = AcquireShared u \<Longrightarrow> w_mode w = EXCLUSIVE \<Longrightarrow> shared_holds t = shared_holds s"
  proof -
    assume e: "e = AcquireShared u" and m: "w_mode w = EXCLUSIVE"
    have "try_acquire_shared u (lk s) = Inr (False, lk s)"
      using m assms(3) by (simp add: try_acquire_shared_def)
    with f(1) e show "shared_holds t = shared_holds s"
      by (auto simp: acquire_shared_def wait_begin_def Let_def shared_holds_def upgrade_hold_def)
  qed
  ultimately show ?thesis by blast
qed

theorem fifo_no_overtaking_witness:
  "\<exists>t. lock_step contended (AcquireShared (Some 4)) t \<and> shared_holds t = shared_holds contended"
proof -
  have en: "enabled contended (AcquireShared (Some 4))"
    by (simp add: contended_def absent_def shared_holds_def exclusive_holds_def upgrade_hold_def)
  obtain t where t: "lock_step contended (AcquireShared (Some 4)) t"
    using lock_do_ok[OF lock_run.reach_inv[OF contended_reach] en] lock_stepI[OF en] by blast
  show ?thesis
    using t fifo_no_overtaking[OF contended_reach t, of "[]" "hd (waiters (lk contended))"
        "tl (waiters (lk contended))"]
    by (auto simp: contended_def)
qed

text \<open>
  (C34) Deadlocks are broken: in a cycle of transactions each of which waits for a lock that the next
  one holds, at least one finds an older holder when its grace period elapses and aborts with
  \<open>PRESUMED_DEADLOCK\<close>, carrying its own age to the retry; a transaction older than every holder
  never aborts for this reason.
\<close>

theorem deadlock_cycle_broken:
  fixes age :: "txn \<Rightarrow> 'a::linorder"
  assumes "length ts \<ge> 2" and "length ls = length ts" and "distinct (map age ts)"
    and "\<forall>i < length ts. ts ! (Suc i mod length ts) \<in> holders (ls ! i)"
  shows "(\<exists>i < length ts. abort_if_presumed_deadlock age (ls ! i) (ts ! i) =
      Some (TransactionShouldRetry_PRESUMED_DEADLOCK (age (ts ! i)))) \<and>
    ((\<forall>h \<in> holders l. age t \<le> age h) \<longrightarrow> abort_if_presumed_deadlock age l t = None)"
proof
  let ?n = "length ts"
  have "age (ts ! i) \<noteq> age (ts ! (Suc i mod ?n))" if "i < ?n" for i
  proof -
    have "Suc i mod ?n < ?n" using assms(1) by (intro mod_less_divisor) linarith
    moreover have "i \<noteq> Suc i mod ?n"
      using that assms(1) by (cases "Suc i = ?n") auto
    ultimately show ?thesis
      using that assms(3) nth_eq_iff_index_eq[of "map age ts" i "Suc i mod ?n"] by simp
  qed
  then obtain i where i: "i < ?n" "age (ts ! (Suc i mod ?n)) < age (ts ! i)"
    using cycle_has_descent[OF assms(1), of "\<lambda>i. age (ts ! i)"] by blast
  then have "\<exists>h \<in> holders (ls ! i). h \<noteq> ts ! i \<and> age h < age (ts ! i)"
    using assms(4) by (metis less_irrefl)
  with i(1) show "\<exists>i < ?n. abort_if_presumed_deadlock age (ls ! i) (ts ! i) =
      Some (TransactionShouldRetry_PRESUMED_DEADLOCK (age (ts ! i)))"
    by (auto simp: abort_if_presumed_deadlock_def)
next
  show "(\<forall>h \<in> holders l. age t \<le> age h) \<longrightarrow> abort_if_presumed_deadlock age l t = None"
    by (metis abort_if_presumed_deadlock_def leD)
qed

theorem deadlock_cycle_broken_witness:
  "\<exists>i < 2. abort_if_presumed_deadlock id
      ([lock_init\<lparr>shared := 1, shared_holders := {8}\<rparr>,
        lock_init\<lparr>exclusive := True, exclusive_holder := Some 7\<rparr>] ! i) ([7, 8] ! i) =
      Some (TransactionShouldRetry_PRESUMED_DEADLOCK ([7, 8] ! i))"
  using deadlock_cycle_broken[of "[7, 8]" "[lock_init\<lparr>shared := 1, shared_holders := {8}\<rparr>,
        lock_init\<lparr>exclusive := True, exclusive_holder := Some 7\<rparr>]" id]
  by (simp add: holders_def lock_init_def less_Suc_eq numeral_2_eq_2)

end
