(* ===== verification/Btree_Node.thy ===== *)
theory Btree_Node
  imports Prelude
begin

text \<open>
  The node servicer of the ordered map: class \<open>NodeServicer\<close> of
  \<open>reboot/std/collections/ordered_map/v1/ordered_map.py\<close>.  Every node of the B-tree is a state of
  its own, addressed by an id; the store below maps ids to node states, and a call on a node is a
  function of the store.  A state that is not in the store has not been constructed, which is what
  \<open>context.constructor\<close> tells a method.

  Calls made concurrently (\<open>concurrently(...)\<close>) are modelled in the order in which they are
  generated; the subtrees they work on are disjoint, as the invariant of theory \<open>Btree_Tree\<close> shows.
\<close>

section \<open>State\<close>

record node =
  degree :: nat
  is_leaf :: bool
  keys :: "pystr list"
  children_ids :: "pystr list"
  vals :: "bytes list"          \<comment> \<open>\<open>values\<close>\<close>
  next_id :: pystr
  prev_id :: pystr

text \<open>
  \<open>uuid4 w n\<close> is the result of the \<open>n\<close>-th call of \<open>uuid.uuid4()\<close> (as a string) and \<open>draws w\<close> the number of
  calls made so far.
\<close>

record world =
  nodes :: "pystr \<Rightarrow> node option"
  uuid4 :: "nat \<Rightarrow> pystr"
  draws :: nat

datatype node_error =
    AssertionError
  | IndexError
  | StateAlreadyConstructed
  | StateNotConstructed       \<comment> \<open>a reader called on a state that does not exist\<close>
  | InvalidRangeError
  | Diverges                  \<comment> \<open>a loop of the source would not end\<close>
  | OutOfFuel

type_synonym entries = "(pystr \<times> bytes) list"

record insert_response =
  promoted_keys :: "pystr list"
  new_child_ids :: "pystr list"
  inserted_count :: nat

definition DEFAULT_DEGREE :: nat where
  "DEFAULT_DEGREE = 128"

definition put :: "pystr \<Rightarrow> node \<Rightarrow> world \<Rightarrow> world" where
  "put i st w = w\<lparr>nodes := (nodes w)(i \<mapsto> st)\<rparr>"

definition draw :: "world \<Rightarrow> pystr \<times> world" where
  "draw w = (uuid4 w (draws w), w\<lparr>draws := Suc (draws w)\<rparr>)"

lemma put_same [simp]: "nodes w i = Some st \<Longrightarrow> put i st w = w"
  by (simp add: put_def fun_upd_idem)

section \<open>Create\<close>

text \<open>\<open>_check_degree\<close>: \<open>True\<close> when the degree is one a node can be split at, or is not specified.\<close>

definition check_degree :: "nat option \<Rightarrow> bool" where
  "check_degree d = (case d of None \<Rightarrow> True | Some n \<Rightarrow> \<not> n < 2)"

definition create_state :: "nat \<Rightarrow> bool \<Rightarrow> pystr list \<Rightarrow> pystr list \<Rightarrow> bytes list \<Rightarrow> pystr \<Rightarrow> pystr \<Rightarrow>
    node_error + node" where
  "create_state d leaf ks cs vs nxt prv =
     (if check_degree (Some d)
      then Inr \<lparr>degree = d, is_leaf = leaf, keys = ks, children_ids = cs, vals = vs,
                next_id = nxt, prev_id = prv\<rparr>
      else Inl AssertionError)"

definition node_create :: "pystr \<Rightarrow> nat \<Rightarrow> bool \<Rightarrow> pystr list \<Rightarrow> pystr list \<Rightarrow> bytes list \<Rightarrow> pystr \<Rightarrow>
    pystr \<Rightarrow> world \<Rightarrow> node_error + world" where
  "node_create i d leaf ks cs vs nxt prv w =
     (if nodes w i \<noteq> None then Inl StateAlreadyConstructed
      else rbind (create_state d leaf ks cs vs nxt prv) (\<lambda>st. Inr (put i st w)))"

section \<open>Insert\<close>

text \<open>The sorted merge of a leaf's keys and values with the sorted new entries.\<close>

definition cons3 :: "'a \<Rightarrow> 'b \<Rightarrow> nat \<Rightarrow> 'e + ('a list \<times> 'b list \<times> nat) \<Rightarrow> 'e + ('a list \<times> 'b list \<times> nat)" where
  "cons3 k v n r = rbind r (\<lambda>(ks, vs, m). Inr (k # ks, v # vs, n + m))"

fun merge_entries :: "pystr list \<Rightarrow> bytes list \<Rightarrow> entries \<Rightarrow>
    node_error + (pystr list \<times> bytes list \<times> nat)" where
  "merge_entries (k # ks) vs ((nk, nv) # es) =
     (if k < nk then
        (case vs of [] \<Rightarrow> Inl IndexError
         | v # vs' \<Rightarrow> cons3 k v 0 (merge_entries ks vs' ((nk, nv) # es)))
      else if k = nk then cons3 nk nv 0 (merge_entries ks (tl vs) es)
      else cons3 nk nv 1 (merge_entries (k # ks) vs es))"
| "merge_entries (k # ks) vs [] =
     (case vs of [] \<Rightarrow> Inl IndexError
      | v # vs' \<Rightarrow> cons3 k v 0 (merge_entries ks vs' []))"
| "merge_entries [] vs ((nk, nv) # es) = cons3 nk nv 1 (merge_entries [] vs es)"
| "merge_entries [] vs [] = Inr ([], [], 0)"

text \<open>
  The siblings a leaf splits into: chunks of \<open>mid\<close> keys after the first \<open>mid\<close>.  With \<open>mid = 0\<close> the
  loop of the source makes no progress.
\<close>

function leaf_siblings :: "nat \<Rightarrow> pystr list \<Rightarrow> bytes list \<Rightarrow> world \<Rightarrow>
    node_error + ((pystr \<times> pystr list \<times> bytes list) list \<times> world)" where
  "leaf_siblings mid ks vs w =
     (if ks = [] then Inr ([], w)
      else if mid = 0 then Inl Diverges
      else let (i, w') = draw w in
        rbind (leaf_siblings mid (drop mid ks) (drop mid vs) w') (\<lambda>(sibs, w'').
          Inr ((i, take mid ks, take mid vs) # sibs, w'')))"
  by pat_completeness auto
termination
  by (relation "measure (\<lambda>(mid, ks, vs, w). length ks)") auto

declare leaf_siblings.simps [simp del]

text \<open>\<open>create_siblings\<close> of \<open>_insert_leaf\<close>: each new leaf points to its neighbours.\<close>

fun create_leaf_siblings :: "nat \<Rightarrow> pystr \<Rightarrow> pystr \<Rightarrow> (pystr \<times> pystr list \<times> bytes list) list \<Rightarrow>
    world \<Rightarrow> node_error + world" where
  "create_leaf_siblings d old_next prev [] w = Inr w"
| "create_leaf_siblings d old_next prev ((i, ks, vs) # rest) w =
     rbind (node_create i d True ks [] vs
              (case rest of [] \<Rightarrow> old_next | (j, _, _) # _ \<Rightarrow> j) prev w)
       (create_leaf_siblings d old_next i rest)"

definition insert_leaf :: "pystr \<Rightarrow> node \<Rightarrow> entries \<Rightarrow> world \<Rightarrow>
    node_error + (insert_response \<times> world)" where
  "insert_leaf i st es w =
     rbind (merge_entries (keys st) (vals st) (sort_key fst es)) (\<lambda>(mks, mvs, n).
       if length mks < degree st then
         Inr (\<lparr>promoted_keys = [], new_child_ids = [], inserted_count = n\<rparr>,
              put i (st\<lparr>keys := mks, vals := mvs\<rparr>) w)
       else
         let mid = degree st div 2 in
         rbind (leaf_siblings mid (drop mid mks) (drop mid mvs) w) (\<lambda>(sibs, w1).
           case sibs of [] \<Rightarrow> Inl AssertionError
           | (j, _, _) # _ \<Rightarrow>
               rbind (create_leaf_siblings (degree st) (next_id st) i sibs
                        (put i (st\<lparr>keys := take mid mks, vals := take mid mvs, next_id := j\<rparr>) w1))
                 (\<lambda>w2. Inr (\<lparr>promoted_keys = map (\<lambda>(_, ks, _). hd ks) sibs,
                            new_child_ids = map fst sibs, inserted_count = n\<rparr>, w2))))"

text \<open>
  \<open>_insert_inner\<close>: the entries of each child, the recursive inserts, the promoted keys merged
  between the existing ones, and the split into sibling inner nodes.
\<close>

definition child_entries :: "node \<Rightarrow> entries \<Rightarrow> node_error + entries list" where
  "child_entries st es =
     (if list_ex (\<lambda>e. bisect_right (keys st) (fst e) \<ge> length (children_ids st)) es
      then Inl IndexError
      else Inr (map (\<lambda>i. filter (\<lambda>e. bisect_right (keys st) (fst e) = i) es)
                  [0..<length (children_ids st)]))"

type_synonym insert_fun = "pystr \<Rightarrow> entries \<Rightarrow> nat \<Rightarrow> world \<Rightarrow> node_error + (insert_response \<times> world)"

fun insert_children :: "insert_fun \<Rightarrow> nat \<Rightarrow> pystr list \<Rightarrow> entries list \<Rightarrow> world \<Rightarrow>
    node_error + (insert_response option list \<times> nat \<times> world)" where
  "insert_children ins d (c # cs) (es # ess) w =
     (if es = [] then
        rbind (insert_children ins d cs ess w) (\<lambda>(rs, n, w'). Inr (None # rs, n, w'))
      else
        rbind (ins c es d w) (\<lambda>(r, w1).
        rbind (insert_children ins d cs ess w1) (\<lambda>(rs, n, w2).
          Inr ((if promoted_keys r = [] then None else Some r) # rs, inserted_count r + n, w2))))"
| "insert_children ins d _ _ w = Inr ([], 0, w)"

fun merge_promoted :: "pystr list \<Rightarrow> pystr list \<Rightarrow> insert_response option list \<Rightarrow>
    pystr list \<times> pystr list" where
  "merge_promoted ks (c # cs) (r # rs) =
     (let ps = (case r of None \<Rightarrow> [] | Some x \<Rightarrow> zip (promoted_keys x) (new_child_ids x));
          (nks, ncs) = merge_promoted (tl ks) cs rs
      in (map fst ps @ take 1 ks @ nks, c # map snd ps @ ncs))"
| "merge_promoted ks _ _ = ([], [])"

fun inner_siblings :: "nat \<Rightarrow> pystr list \<Rightarrow> pystr list \<Rightarrow> world \<Rightarrow>
    pystr list \<times> (pystr \<times> pystr list \<times> pystr list) list \<times> world" where
  "inner_siblings mid [] cs w = ([], [], w)"
| "inner_siblings mid (k # ks) cs w =
     (let (i, w') = draw w;
          sks = take mid ks;
          (ps, sibs, w'') = inner_siblings mid (drop mid ks) (drop (length sks) (tl cs)) w'
      in (k # ps, (i, sks, take (length sks + 1) (tl cs)) # sibs, w''))"

fun create_inner_nodes :: "nat \<Rightarrow> (pystr \<times> pystr list \<times> pystr list) list \<Rightarrow> world \<Rightarrow>
    node_error + world" where
  "create_inner_nodes d [] w = Inr w"
| "create_inner_nodes d ((i, ks, cs) # rest) w =
     rbind (node_create i d False ks cs [] [] [] w) (create_inner_nodes d rest)"

definition insert_inner :: "insert_fun \<Rightarrow> pystr \<Rightarrow> node \<Rightarrow> entries \<Rightarrow> world \<Rightarrow>
    node_error + (insert_response \<times> world)" where
  "insert_inner ins i st es w =
     rbind (child_entries st es) (\<lambda>ess.
     rbind (insert_children ins (degree st) (children_ids st) ess w) (\<lambda>(rs, n, w1).
       let (nks, ncs) = merge_promoted (keys st) (children_ids st) rs in
       if length nks < degree st then
         Inr (\<lparr>promoted_keys = [], new_child_ids = [], inserted_count = n\<rparr>,
              put i (st\<lparr>keys := nks, children_ids := ncs\<rparr>) w1)
       else
         let mid = degree st div 2;
             (ps, sibs, w2) = inner_siblings mid (drop mid nks) (drop mid ncs) w1
         in rbind (create_inner_nodes (degree st) sibs
                     (put i (st\<lparr>keys := take mid nks, children_ids := take (mid + 1) ncs\<rparr>) w2))
              (\<lambda>w3. Inr (\<lparr>promoted_keys = ps, new_child_ids = map fst sibs,
                          inserted_count = n\<rparr>, w3))))"

text \<open>
  \<open>Insert\<close>: implicit construction of a root leaf, adoption of a missing degree (both change the
  node's state), dispatch.
\<close>

definition insert_state :: "pystr \<Rightarrow> nat \<Rightarrow> world \<Rightarrow> node_error + node" where
  "insert_state i d w =
     (let d' = (if d = 0 then DEFAULT_DEGREE else d) in
      case nodes w i of
        None \<Rightarrow> create_state d' True [] [] [] [] []
      | Some st \<Rightarrow> Inr (if degree st = 0 then st\<lparr>degree := d'\<rparr> else st))"

primrec node_insert :: "nat \<Rightarrow> insert_fun" where
  "node_insert 0 = (\<lambda>i es d w. Inl OutOfFuel)"
| "node_insert (Suc fuel) = (\<lambda>i es d w.
     rbind (insert_state i d w) (\<lambda>st.
       if is_leaf st then insert_leaf i st es (put i st w)
       else insert_inner (node_insert fuel) i st es (put i st w)))"

section \<open>Search\<close>

fun leaf_search :: "pystr \<Rightarrow> pystr list \<Rightarrow> bytes list \<Rightarrow> node_error + bytes option" where
  "leaf_search k [] vs = Inr None"
| "leaf_search k (x # xs) vs =
     (if k = x then (case vs of [] \<Rightarrow> Inl IndexError | v # _ \<Rightarrow> Inr (Some v))
      else leaf_search k xs (tl vs))"

text \<open>\<open>_find_child\<close>, for an inner node.\<close>

definition find_child :: "node \<Rightarrow> pystr \<Rightarrow> node_error + pystr" where
  "find_child st k =
     (if is_leaf st then Inl AssertionError
      else let i = bisect_right (keys st) k in
        if i < length (children_ids st) then Inr (children_ids st ! i) else Inl IndexError)"

primrec node_search :: "nat \<Rightarrow> pystr \<Rightarrow> pystr \<Rightarrow> world \<Rightarrow> node_error + bytes option" where
  "node_search 0 i k w = Inl OutOfFuel"
| "node_search (Suc fuel) i k w =
     (case nodes w i of
        None \<Rightarrow> Inl StateNotConstructed
      | Some st \<Rightarrow>
          if is_leaf st then leaf_search k (keys st) (vals st)
          else rbind (find_child st k) (\<lambda>c. node_search fuel c k w))"

section \<open>Remove\<close>

fun remove_loop :: "pystr set \<Rightarrow> pystr list \<Rightarrow> bytes list \<Rightarrow>
    node_error + (pystr list \<times> bytes list \<times> nat)" where
  "remove_loop ks [] vs = Inr ([], [], 0)"
| "remove_loop ks (x # xs) vs =
     (if x \<in> ks then
        rbind (remove_loop ks xs (tl vs)) (\<lambda>(xs', vs', n). Inr (xs', vs', Suc n))
      else (case vs of [] \<Rightarrow> Inl IndexError | v # vs' \<Rightarrow> cons3 x v 0 (remove_loop ks xs vs')))"

definition remove_leaf :: "pystr \<Rightarrow> node \<Rightarrow> pystr list \<Rightarrow> world \<Rightarrow> node_error + (nat \<times> world)" where
  "remove_leaf i st ks w =
     rbind (remove_loop (set ks) (keys st) (vals st)) (\<lambda>(xs, vs, n).
       Inr (n, put i (st\<lparr>keys := xs, vals := vs\<rparr>) w))"

definition child_keys :: "node \<Rightarrow> pystr list \<Rightarrow> node_error + pystr list list" where
  "child_keys st ks =
     (if list_ex (\<lambda>k. bisect_right (keys st) k \<ge> length (children_ids st)) ks
      then Inl IndexError
      else Inr (map (\<lambda>i. filter (\<lambda>k. bisect_right (keys st) k = i) ks)
                  [0..<length (children_ids st)]))"

type_synonym remove_fun = "pystr \<Rightarrow> pystr list \<Rightarrow> world \<Rightarrow> node_error + (nat \<times> world)"

fun remove_children :: "remove_fun \<Rightarrow> pystr list \<Rightarrow> pystr list list \<Rightarrow> world \<Rightarrow>
    node_error + (nat \<times> world)" where
  "remove_children rem (c # cs) (ks # kss) w =
     (if ks = [] then remove_children rem cs kss w
      else rbind (rem c ks w) (\<lambda>(n, w1).
           rbind (remove_children rem cs kss w1) (\<lambda>(m, w2). Inr (n + m, w2))))"
| "remove_children rem _ _ w = Inr (0, w)"

definition remove_inner :: "remove_fun \<Rightarrow> node \<Rightarrow> pystr list \<Rightarrow> world \<Rightarrow> node_error + (nat \<times> world)" where
  "remove_inner rem st ks w =
     rbind (child_keys st ks) (\<lambda>kss. remove_children rem (children_ids st) kss w)"

primrec node_remove :: "nat \<Rightarrow> remove_fun" where
  "node_remove 0 = (\<lambda>i ks w. Inl OutOfFuel)"
| "node_remove (Suc fuel) = (\<lambda>i ks w.
     rbind (case nodes w i of
              None \<Rightarrow> create_state DEFAULT_DEGREE True [] [] [] [] []
            | Some st \<Rightarrow> Inr st) (\<lambda>st.
       if is_leaf st then remove_leaf i st ks (put i st w)
       else remove_inner (node_remove fuel) st ks (put i st w)))"

section \<open>Range and ReverseRange\<close>

text \<open>The entries of a leaf at the indices from \<open>a\<close> up to \<open>b\<close>; a missing value raises.\<close>

definition leaf_entries :: "node \<Rightarrow> nat \<Rightarrow> nat \<Rightarrow> node_error + entries" where
  "leaf_entries st a b =
     (if a < b \<and> length (vals st) < b then Inl IndexError
      else Inr (drop a (take b (zip (keys st) (vals st)))))"

primrec node_range :: "nat \<Rightarrow> pystr \<Rightarrow> pystr \<Rightarrow> nat \<Rightarrow> world \<Rightarrow> node_error + entries" where
  "node_range 0 i start_key limit w = Inl OutOfFuel"
| "node_range (Suc fuel) i start_key limit w =
     (case nodes w i of
        None \<Rightarrow> Inl StateNotConstructed
      | Some st \<Rightarrow>
          if limit = 0 then Inl InvalidRangeError
          else if is_leaf st then
            let start = (if start_key = [] then 0 else bisect_left (keys st) start_key) in
            rbind (leaf_entries st start (min (length (keys st)) (start + limit))) (\<lambda>es.
              let remaining = limit - length es
              in if remaining > 0 \<and> next_id st \<noteq> [] then
                   rbind (node_range fuel (next_id st) start_key remaining w) (\<lambda>more. Inr (es @ more))
                 else Inr es)
          else
            rbind (if start_key = [] then
                     (case children_ids st of [] \<Rightarrow> Inl IndexError | c # _ \<Rightarrow> Inr c)
                   else find_child st start_key)
              (\<lambda>c. node_range fuel c start_key limit w))"

primrec node_reverse_range :: "nat \<Rightarrow> pystr \<Rightarrow> pystr \<Rightarrow> nat \<Rightarrow> world \<Rightarrow> node_error + entries" where
  "node_reverse_range 0 i start_key limit w = Inl OutOfFuel"
| "node_reverse_range (Suc fuel) i start_key limit w =
     (case nodes w i of
        None \<Rightarrow> Inl StateNotConstructed
      | Some st \<Rightarrow>
          if limit = 0 then Inl InvalidRangeError
          else if is_leaf st then
            let n = (if start_key = [] then length (keys st) else bisect_right (keys st) start_key) in
            rbind (leaf_entries st (n - limit) n) (\<lambda>found.
              let es = rev found;
                  remaining = limit - length es
              in if remaining > 0 \<and> prev_id st \<noteq> [] then
                   rbind (node_reverse_range fuel (prev_id st) start_key remaining w)
                     (\<lambda>more. Inr (es @ more))
                 else Inr es)
          else
            rbind (if start_key = [] then
                     (case rev (children_ids st) of [] \<Rightarrow> Inl IndexError | c # _ \<Rightarrow> Inr c)
                   else find_child st start_key)
              (\<lambda>c. node_reverse_range fuel c start_key limit w))"

end
