(* ===== verification/Btree_Tree.thy ===== *)
theory Btree_Tree
  imports Btree_Node
begin

text \<open>
  The search-tree invariant of the ordered map's nodes and what \<open>NodeServicer.Insert\<close> does to a
  tree: the leaves hold the merged entries, the separators bound the subtrees, all leaves are at the
  same depth, every node has fewer keys than its degree, nodes outside the tree are untouched and
  the forward chain of the leaves stays complete.
\<close>

section \<open>Separated sequences\<close>

text \<open>
  Bounds are optional keys.  \<open>forest P lo hi ks cs\<close>: the items \<open>cs\<close> are separated by the strictly
  increasing keys \<open>ks\<close>, all between the bounds, and each item satisfies \<open>P\<close> within the bounds its
  neighbouring separators give.  It describes the children of an inner node, the siblings a node is
  split into, and the groups of one level.
\<close>

definition ge_lo :: "pystr option \<Rightarrow> pystr \<Rightarrow> bool" where
  "ge_lo lo k \<longleftrightarrow> (case lo of None \<Rightarrow> True | Some l \<Rightarrow> l \<le> k)"

definition gt_lo :: "pystr option \<Rightarrow> pystr \<Rightarrow> bool" where
  "gt_lo lo k \<longleftrightarrow> (case lo of None \<Rightarrow> True | Some l \<Rightarrow> l < k)"

definition lt_hi :: "pystr option \<Rightarrow> pystr \<Rightarrow> bool" where
  "lt_hi hi k \<longleftrightarrow> (case hi of None \<Rightarrow> True | Some h \<Rightarrow> k < h)"

lemma bound_simps [simp]:
  "ge_lo None k" "ge_lo (Some l) k \<longleftrightarrow> l \<le> k"
  "gt_lo None k" "gt_lo (Some l) k \<longleftrightarrow> l < k"
  "lt_hi None k" "lt_hi (Some h) k \<longleftrightarrow> k < h"
  by (simp_all add: ge_lo_def gt_lo_def lt_hi_def)

lemma bound_trans:
  "gt_lo lo k \<Longrightarrow> k \<le> k' \<Longrightarrow> gt_lo lo k'"
  "ge_lo lo k \<Longrightarrow> k < k' \<Longrightarrow> gt_lo lo k'"
  "ge_lo lo k \<Longrightarrow> k \<le> k' \<Longrightarrow> ge_lo lo k'"
  "lt_hi hi k \<Longrightarrow> k' \<le> k \<Longrightarrow> lt_hi hi k'"
  "gt_lo lo k \<Longrightarrow> ge_lo lo k"
  by (cases lo; cases hi; simp)+

fun forest :: "(pystr option \<Rightarrow> pystr option \<Rightarrow> 'c \<Rightarrow> bool) \<Rightarrow> pystr option \<Rightarrow> pystr option \<Rightarrow>
    pystr list \<Rightarrow> 'c list \<Rightarrow> bool" where
  "forest P lo hi [] [c] = P lo hi c"
| "forest P lo hi (k # ks) (c # cs) =
     (gt_lo lo k \<and> lt_hi hi k \<and> P lo (Some k) c \<and> forest P (Some k) hi ks cs)"
| "forest P lo hi _ _ = False"

lemma forest_length: "forest P lo hi ks cs \<Longrightarrow> length cs = Suc (length ks)"
  by (induction P lo hi ks cs rule: forest.induct) auto

lemma forest_Nil_iff: "forest P lo hi [] cs \<longleftrightarrow> (\<exists>c. cs = [c] \<and> P lo hi c)"
  by (cases cs; cases "tl cs") auto

lemma forest_Cons_iff: "forest P lo hi (k # ks) cs \<longleftrightarrow>
    (\<exists>c cs'. cs = c # cs' \<and> gt_lo lo k \<and> lt_hi hi k \<and> P lo (Some k) c \<and> forest P (Some k) hi ks cs')"
  by (cases cs) auto

lemma forest_not_Nil [simp]: "\<not> forest P lo hi ks []"
  by (cases ks) auto

lemma forest_keys_bounds: "forest P lo hi ks cs \<Longrightarrow> k \<in> set ks \<Longrightarrow> gt_lo lo k \<and> lt_hi hi k"
  by (induction P lo hi ks cs rule: forest.induct)
    (auto dest: bound_trans(1) order.strict_implies_order)

lemma forest_sorted: "forest P lo hi ks cs \<Longrightarrow> strictly_sorted ks"
  by (induction P lo hi ks cs rule: forest.induct) (auto dest: forest_keys_bounds)

lemma forest_mono:
  "forest P lo hi ks cs \<Longrightarrow> (\<And>lo hi c. c \<in> set cs \<Longrightarrow> P lo hi c \<Longrightarrow> Q lo hi c) \<Longrightarrow> forest Q lo hi ks cs"
  by (induction P lo hi ks cs rule: forest.induct) auto

lemma forest_map: "forest P lo hi ks (map f cs) \<longleftrightarrow> forest (\<lambda>lo hi c. P lo hi (f c)) lo hi ks cs"
  by (induction "\<lambda>lo hi c. P lo hi (f c)" lo hi ks cs rule: forest.induct) auto

text \<open>Cutting a forest at a separator and joining two forests there.\<close>

lemma forest_append:
  assumes "length cs1 = Suc (length ks1)"
  shows "forest P lo hi (ks1 @ k # ks2) (cs1 @ cs2) \<longleftrightarrow>
    gt_lo lo k \<and> lt_hi hi k \<and> forest P lo (Some k) ks1 cs1 \<and> forest P (Some k) hi ks2 cs2"
  using assms
proof (induction ks1 arbitrary: lo cs1)
  case Nil
  then show ?case by (cases cs1) auto
next
  case (Cons x ks1)
  then obtain c cs where cs1: "cs1 = c # cs" "length cs = Suc (length ks1)" by (cases cs1) auto
  show ?case
    unfolding cs1(1) append_Cons forest.simps Cons.IH[OF cs1(2)]
    by (cases hi) (auto intro: bound_trans)
qed

lemma forest_cut:
  assumes "forest P lo hi ks cs" "n < length ks"
  shows "gt_lo lo (ks ! n) \<and> lt_hi hi (ks ! n) \<and>
    forest P lo (Some (ks ! n)) (take n ks) (take (Suc n) cs) \<and>
    forest P (Some (ks ! n)) hi (drop (Suc n) ks) (drop (Suc n) cs)"
proof -
  have "forest P lo hi (take n ks @ ks ! n # drop (Suc n) ks) (take (Suc n) cs @ drop (Suc n) cs)"
    using assms by (simp add: id_take_nth_drop[symmetric])
  moreover have "length (take (Suc n) cs) = Suc (length (take n ks))"
    using forest_length[OF assms(1)] assms(2) by simp
  ultimately show ?thesis by (simp only: forest_append simp_thms)
qed

section \<open>Trees\<close>

text \<open>
  \<open>tree_ok d h w lo hi i\<close>: in the store \<open>w\<close> the node \<open>i\<close> is the root of a tree of height \<open>h\<close> (a leaf at
  height 0) whose nodes have degree \<open>d\<close> and whose keys lie between the bounds.
\<close>

definition leaf_ok :: "nat \<Rightarrow> pystr option \<Rightarrow> pystr option \<Rightarrow> pystr list \<Rightarrow> bytes list \<Rightarrow> bool" where
  "leaf_ok d lo hi ks vs \<longleftrightarrow> length vs = length ks \<and> strictly_sorted ks \<and> length ks < d \<and>
     (\<forall>k \<in> set ks. ge_lo lo k \<and> lt_hi hi k)"

primrec tree_ok :: "nat \<Rightarrow> nat \<Rightarrow> world \<Rightarrow> pystr option \<Rightarrow> pystr option \<Rightarrow> pystr \<Rightarrow> bool" where
  "tree_ok d 0 w = (\<lambda>lo hi i. case nodes w i of None \<Rightarrow> False
     | Some st \<Rightarrow> is_leaf st \<and> degree st = d \<and> leaf_ok d lo hi (keys st) (vals st))"
| "tree_ok d (Suc h) w = (\<lambda>lo hi i. case nodes w i of None \<Rightarrow> False
     | Some st \<Rightarrow> \<not> is_leaf st \<and> degree st = d \<and> length (keys st) < d \<and>
         forest (tree_ok d h w) lo hi (keys st) (children_ids st))"

declare tree_ok.simps [simp del]

definition children_of :: "world \<Rightarrow> pystr \<Rightarrow> pystr list" where
  "children_of w i = (case nodes w i of None \<Rightarrow> [] | Some st \<Rightarrow> children_ids st)"

definition leaf_kvs :: "world \<Rightarrow> pystr \<Rightarrow> entries" where
  "leaf_kvs w i = (case nodes w i of None \<Rightarrow> [] | Some st \<Rightarrow> zip (keys st) (vals st))"

text \<open>The ids of a tree's nodes, its leaves from left to right, and its entries in key order.\<close>

primrec ids :: "nat \<Rightarrow> world \<Rightarrow> pystr \<Rightarrow> pystr list" where
  "ids 0 w i = [i]"
| "ids (Suc h) w i = i # concat (map (ids h w) (children_of w i))"

primrec leaves :: "nat \<Rightarrow> world \<Rightarrow> pystr \<Rightarrow> pystr list" where
  "leaves 0 w i = [i]"
| "leaves (Suc h) w i = concat (map (leaves h w) (children_of w i))"

primrec contents :: "nat \<Rightarrow> world \<Rightarrow> pystr \<Rightarrow> entries" where
  "contents 0 w i = leaf_kvs w i"
| "contents (Suc h) w i = concat (map (contents h w) (children_of w i))"

abbreviation idl :: "nat \<Rightarrow> world \<Rightarrow> pystr list \<Rightarrow> pystr list" where
  "idl h w cs \<equiv> concat (map (ids h w) cs)"

abbreviation leafl :: "nat \<Rightarrow> world \<Rightarrow> pystr list \<Rightarrow> pystr list" where
  "leafl h w cs \<equiv> concat (map (leaves h w) cs)"

abbreviation contl :: "nat \<Rightarrow> world \<Rightarrow> pystr list \<Rightarrow> entries" where
  "contl h w cs \<equiv> concat (map (contents h w) cs)"

lemma tree_SucE:
  assumes "tree_ok d (Suc h) w lo hi i"
  obtains st where "nodes w i = Some st" "\<not> is_leaf st" "degree st = d" "length (keys st) < d"
    "forest (tree_ok d h w) lo hi (keys st) (children_ids st)" "children_of w i = children_ids st"
  using assms by (auto simp: tree_ok.simps children_of_def split: option.splits)

lemma tree_0E:
  assumes "tree_ok d 0 w lo hi i"
  obtains st where "nodes w i = Some st" "is_leaf st" "degree st = d"
    "leaf_ok d lo hi (keys st) (vals st)" "leaf_kvs w i = zip (keys st) (vals st)"
  using assms by (auto simp: tree_ok.simps leaf_kvs_def split: option.splits)

text \<open>Everything about a tree depends on the tree's own nodes only.\<close>

lemma tree_cong:
  assumes "\<forall>j \<in> set (ids h w i). nodes w' j = nodes w j"
  shows "ids h w' i = ids h w i" "leaves h w' i = leaves h w i" "contents h w' i = contents h w i"
    "tree_ok d h w' lo hi i \<longleftrightarrow> tree_ok d h w lo hi i"
proof -
  have "ids h w' i = ids h w i \<and> leaves h w' i = leaves h w i \<and> contents h w' i = contents h w i \<and>
    (\<forall>lo hi. tree_ok d h w' lo hi i \<longleftrightarrow> tree_ok d h w lo hi i)"
    using assms
  proof (induction h arbitrary: i)
    case 0
    then show ?case by (simp add: leaf_kvs_def tree_ok.simps)
  next
    case (Suc h)
    have c: "nodes w' i = nodes w i" "children_of w' i = children_of w i"
      using Suc.prems by (simp_all add: children_of_def)
    have r: "ids h w' c = ids h w c \<and> leaves h w' c = leaves h w c \<and>
        contents h w' c = contents h w c \<and> (\<forall>lo hi. tree_ok d h w' lo hi c \<longleftrightarrow> tree_ok d h w lo hi c)"
      if "c \<in> set (children_of w i)" for c
      using Suc.IH[of c] Suc.prems that by auto
    then have m: "map (ids h w') (children_of w i) = map (ids h w) (children_of w i)"
      "map (leaves h w') (children_of w i) = map (leaves h w) (children_of w i)"
      "map (contents h w') (children_of w i) = map (contents h w) (children_of w i)"
      by auto
    have "tree_ok d (Suc h) w' lo hi i \<longleftrightarrow> tree_ok d (Suc h) w lo hi i" for lo hi
    proof (cases "nodes w i")
      case (Some st)
      then have "children_of w i = children_ids st" by (simp add: children_of_def)
      then show ?thesis
        using Some c r forest_mono[of "tree_ok d h w'" lo hi "keys st" "children_ids st" "tree_ok d h w"]
          forest_mono[of "tree_ok d h w" lo hi "keys st" "children_ids st" "tree_ok d h w'"]
        by (auto simp: tree_ok.simps)
    qed (simp add: tree_ok.simps c)
    then show ?case
      by (simp only: ids.simps leaves.simps contents.simps c m simp_thms)
  qed
  then show "ids h w' i = ids h w i" "leaves h w' i = leaves h w i"
    "contents h w' i = contents h w i" "tree_ok d h w' lo hi i \<longleftrightarrow> tree_ok d h w lo hi i"
    by blast+
qed

lemma forest_cong:
  assumes "\<forall>j \<in> set (idl h w cs). nodes w' j = nodes w j"
  shows "idl h w' cs = idl h w cs" "leafl h w' cs = leafl h w cs" "contl h w' cs = contl h w cs"
    "forest (tree_ok d h w') lo hi ks cs \<longleftrightarrow> forest (tree_ok d h w) lo hi ks cs"
proof -
  have a: "\<forall>j \<in> set (ids h w c). nodes w' j = nodes w j" if "c \<in> set cs" for c
    using assms that by auto
  show "idl h w' cs = idl h w cs" "leafl h w' cs = leafl h w cs" "contl h w' cs = contl h w cs"
    using tree_cong(1-3)[OF a] by (auto intro!: arg_cong[of _ _ concat])
  show "forest (tree_ok d h w') lo hi ks cs \<longleftrightarrow> forest (tree_ok d h w) lo hi ks cs"
    using tree_cong(4)[OF a] by (auto elim: forest_mono)
qed

lemma tree_ids_dom: "tree_ok d h w lo hi i \<Longrightarrow> j \<in> set (ids h w i) \<Longrightarrow> nodes w j \<noteq> None"
proof (induction h arbitrary: i lo hi)
  case 0
  then show ?case by (auto elim: tree_0E)
next
  case (Suc h)
  from Suc.prems(1) obtain st where st: "nodes w i = Some st"
    "forest (tree_ok d h w) lo hi (keys st) (children_ids st)" "children_of w i = children_ids st"
    by (rule tree_SucE)
  have "\<exists>lo hi. tree_ok d h w lo hi c" if "c \<in> set cs" "forest (tree_ok d h w) lo' hi' ks cs" for c lo' hi' ks cs
    using that(2,1) by (induction "tree_ok d h w" lo' hi' ks cs rule: forest.induct) auto
  with st Suc show ?case by (auto; metis option.distinct(1))
qed

lemma forest_ids_dom: "forest (tree_ok d h w) lo hi ks cs \<Longrightarrow> j \<in> set (idl h w cs) \<Longrightarrow> nodes w j \<noteq> None"
  by (induction "tree_ok d h w" lo hi ks cs rule: forest.induct) (auto dest: tree_ids_dom)

lemma root_in_ids: "i \<in> set (ids h w i)"
  by (cases h) auto

lemma leaves_subset_ids: "set (leaves h w i) \<subseteq> set (ids h w i)"
  by (induction h arbitrary: i) auto

lemma leafl_subset_idl: "set (leafl h w cs) \<subseteq> set (idl h w cs)"
  using leaves_subset_ids by fastforce

lemma forest_member:
  "forest P lo hi ks cs \<Longrightarrow> c \<in> set cs \<Longrightarrow> \<exists>lo hi. P lo hi c"
  by (induction P lo hi ks cs rule: forest.induct) auto

lemma leaves_nonempty: "tree_ok d h w lo hi i \<Longrightarrow> leaves h w i \<noteq> []"
proof (induction h arbitrary: i lo hi)
  case (Suc h)
  from Suc.prems obtain st :: node where st: "forest (tree_ok d h w) lo hi (keys st) (children_ids st)"
    "children_of w i = children_ids st" by (elim tree_SucE)
  then obtain c where "c \<in> set (children_ids st)" by (cases "children_ids st") auto
  then show ?case using st Suc.IH forest_member[OF st(1)] by fastforce
qed simp

lemma leafl_nonempty: "forest (tree_ok d h w) lo hi ks cs \<Longrightarrow> leafl h w cs \<noteq> []"
  by (cases cs) (auto dest!: forest_member[of _ _ _ _ _ "hd cs"] dest: leaves_nonempty)

section \<open>Entries are sorted and within the bounds\<close>

definition sorted_within :: "pystr option \<Rightarrow> pystr option \<Rightarrow> entries \<Rightarrow> bool" where
  "sorted_within lo hi kvs \<longleftrightarrow> strictly_sorted (map fst kvs) \<and>
     (\<forall>k \<in> fst ` set kvs. ge_lo lo k \<and> lt_hi hi k)"

lemma sorted_within_append:
  assumes "sorted_within lo (Some k) xs" "sorted_within (Some k) hi ys" "gt_lo lo k" "lt_hi hi k"
  shows "sorted_within lo hi (xs @ ys)"
proof -
  have x: "strictly_sorted (map fst xs)" "\<And>a. a \<in> fst ` set xs \<Longrightarrow> ge_lo lo a \<and> a < k"
    and y: "strictly_sorted (map fst ys)" "\<And>b. b \<in> fst ` set ys \<Longrightarrow> k \<le> b \<and> lt_hi hi b"
    using assms(1,2) by (auto simp: sorted_within_def)
  have "ge_lo lo a \<and> lt_hi hi a" if "a \<in> fst ` set xs" for a
    using x(2)[OF that] bound_trans(4)[OF assms(4), of a] by (auto simp: less_imp_le)
  moreover have "ge_lo lo b \<and> lt_hi hi b" if "b \<in> fst ` set ys" for b
    using y(2)[OF that] bound_trans(5)[OF bound_trans(1)[OF assms(3), of b]] by simp
  moreover have "a < b" if "a \<in> fst ` set xs" "b \<in> fst ` set ys" for a b
    using x(2)[OF that(1)] y(2)[OF that(2)] by (blast intro: less_le_trans)
  ultimately show ?thesis
    unfolding sorted_within_def using x(1) y(1) by (simp add: sorted_wrt_append image_Un ball_Un)
qed

lemma forest_sorted_within:
  assumes "forest P lo hi ks cs" "\<And>lo hi c. P lo hi c \<Longrightarrow> sorted_within lo hi (f c)"
  shows "sorted_within lo hi (concat (map f cs))"
  using assms
  by (induction P lo hi ks cs rule: forest.induct) (auto intro: sorted_within_append)

lemma zip_leaf_sorted_within: "leaf_ok d lo hi ks vs \<Longrightarrow> sorted_within lo hi (zip ks vs)"
  by (auto simp: leaf_ok_def sorted_within_def dest: set_zip_leftD)

lemma tree_sorted_within: "tree_ok d h w lo hi i \<Longrightarrow> sorted_within lo hi (contents h w i)"
proof (induction h arbitrary: i lo hi)
  case 0
  then show ?case by (auto elim!: tree_0E intro: zip_leaf_sorted_within)
next
  case (Suc h)
  from Suc.prems obtain st :: node where st: "forest (tree_ok d h w) lo hi (keys st) (children_ids st)"
    "children_of w i = children_ids st" by (elim tree_SucE)
  from forest_sorted_within[OF st(1) Suc.IH] show ?case using st(2) by simp
qed

lemma contl_sorted_within:
  "forest (tree_ok d h w) lo hi ks cs \<Longrightarrow> sorted_within lo hi (contl h w cs)"
  by (rule forest_sorted_within[where P = "tree_ok d h w"]) (auto intro: tree_sorted_within)

section \<open>The forward chain of the leaves\<close>

definition next_of :: "world \<Rightarrow> pystr \<Rightarrow> pystr" where
  "next_of w i = (case nodes w i of None \<Rightarrow> [] | Some st \<Rightarrow> next_id st)"

fun chain :: "world \<Rightarrow> pystr list \<Rightarrow> pystr \<Rightarrow> bool" where
  "chain w [] nxt = True"
| "chain w [l] nxt = (next_of w l = nxt)"
| "chain w (l # m # ls) nxt = (next_of w l = m \<and> chain w (m # ls) nxt)"

lemma chain_append:
  "ls \<noteq> [] \<Longrightarrow> ms \<noteq> [] \<Longrightarrow> chain w (ls @ ms) nxt \<longleftrightarrow> chain w ls (hd ms) \<and> chain w ms nxt"
proof (induction ls)
  case (Cons l ls)
  then show ?case by (cases ls; cases ms) auto
qed simp

lemma chain_cong: "\<forall>l \<in> set ls. nodes w' l = nodes w l \<Longrightarrow> chain w' ls nxt \<longleftrightarrow> chain w ls nxt"
  by (induction w ls nxt rule: chain.induct) (auto simp: next_of_def)

section \<open>How a call grows a tree\<close>

definition fresh :: "world \<Rightarrow> bool" where
  "fresh w \<longleftrightarrow> inj (uuid4 w) \<and> (\<forall>n. uuid4 w n \<noteq> []) \<and> (\<forall>n \<ge> draws w. nodes w (uuid4 w n) = None)"

definition new_ids :: "world \<Rightarrow> world \<Rightarrow> pystr set" where
  "new_ids w w' = uuid4 w ` {draws w..<draws w'}"

text \<open>
  \<open>grown d h w lo hi cs nks ncs es n w'\<close>: a call turned the trees \<open>cs\<close> of the store \<open>w\<close> into the
  trees \<open>ncs\<close> of \<open>w'\<close>, separated by \<open>nks\<close>, by inserting the entries \<open>es\<close>, of which \<open>n\<close> had new keys.
\<close>

definition grown :: "nat \<Rightarrow> nat \<Rightarrow> world \<Rightarrow> pystr option \<Rightarrow> pystr option \<Rightarrow> pystr list \<Rightarrow> pystr list \<Rightarrow>
    pystr list \<Rightarrow> entries \<Rightarrow> nat \<Rightarrow> world \<Rightarrow> bool" where
  "grown d h w lo hi cs nks ncs es n w' \<longleftrightarrow>
     uuid4 w' = uuid4 w \<and> draws w \<le> draws w' \<and>
     (\<forall>j. j \<notin> set (idl h w cs) \<and> j \<notin> new_ids w w' \<longrightarrow> nodes w' j = nodes w j) \<and>
     forest (tree_ok d h w') lo hi nks ncs \<and> distinct (idl h w' ncs) \<and>
     set (idl h w' ncs) \<subseteq> set (idl h w cs) \<union> new_ids w w' \<and>
     map_of (contl h w' ncs) = map_of (contl h w cs) ++ map_of es \<and>
     length (contl h w' ncs) = length (contl h w cs) + n \<and>
     hd (leafl h w' ncs) = hd (leafl h w cs) \<and>
     (\<forall>nxt. chain w (leafl h w cs) nxt \<longrightarrow> chain w' (leafl h w' ncs) nxt)"

lemma new_ids_notin_dom:
  "fresh w \<Longrightarrow> j \<in> new_ids w w' \<Longrightarrow> nodes w j = None"
  by (auto simp: fresh_def new_ids_def)

lemma new_ids_trans:
  "uuid4 w1 = uuid4 w \<Longrightarrow> draws w \<le> draws w1 \<Longrightarrow> draws w1 \<le> draws w2 \<Longrightarrow>
    new_ids w w1 \<union> new_ids w1 w2 = new_ids w w2"
  by (simp add: new_ids_def image_Un[symmetric] ivl_disj_un_two(3))

lemma new_ids_disjoint:
  "fresh w \<Longrightarrow> uuid4 w1 = uuid4 w \<Longrightarrow> new_ids w w1 \<inter> new_ids w1 w2 = {}"
  by (auto simp: new_ids_def fresh_def dest: injD)

lemma grown_fresh:
  assumes f: "fresh w" and t: "forest (tree_ok d h w) lo' hi' ks cs"
    and g: "grown d h w lo hi cs nks ncs es n w'"
  shows "fresh w'"
proof -
  have u: "uuid4 w' = uuid4 w" "draws w \<le> draws w'"
    and fr: "\<And>j. j \<notin> set (idl h w cs) \<Longrightarrow> j \<notin> new_ids w w' \<Longrightarrow> nodes w' j = nodes w j"
    using g unfolding grown_def by blast+
  have "nodes w' (uuid4 w m) = None" if m: "m \<ge> draws w'" for m
  proof -
    have none: "nodes w (uuid4 w m) = None" using f m u by (simp add: fresh_def)
    then have "uuid4 w m \<notin> set (idl h w cs)" using forest_ids_dom[OF t] by blast
    moreover have "uuid4 w m \<notin> new_ids w w'"
      using f m by (auto simp: new_ids_def fresh_def dest: injD)
    ultimately show ?thesis using fr none by simp
  qed
  then show ?thesis using f u by (auto simp: fresh_def)
qed

lemma grown_refl:
  "forest (tree_ok d h w) lo hi ks cs \<Longrightarrow> distinct (idl h w cs) \<Longrightarrow> grown d h w lo hi cs ks cs [] 0 w"
  by (simp add: grown_def)

end
