(* ===== verification/Btree_Insert.thy ===== *)
theory Btree_Insert
  imports Btree_Tree
begin

text \<open>
  \<open>NodeServicer.Insert\<close> keeps the search-tree invariant and stores exactly the given entries: the
  sorted merge of a leaf, the split of leaves and inner nodes into siblings, the recursion over the
  children of an inner node.
\<close>

section \<open>The sorted merge\<close>

lemma cons3_Inr [simp]: "cons3 k v n (Inr (ks, vs, m)) = Inr (k # ks, v # vs, n + m)"
  by (simp add: cons3_def)

definition merged :: "pystr list \<Rightarrow> bytes list \<Rightarrow> entries \<Rightarrow> pystr list \<Rightarrow> bytes list \<Rightarrow> nat \<Rightarrow> bool" where
  "merged ks vs es mks mvs n \<longleftrightarrow> length mvs = length mks \<and> strictly_sorted mks \<and>
     set mks = set ks \<union> fst ` set es \<and> length mks = length ks + n \<and>
     map_of (zip mks mvs) = map_of (zip ks vs) ++ map_of es"

lemma merged_Nil: "merged [] vs [] [] [] 0"
  by (simp add: merged_def)

lemma merged_keep:
  assumes "merged ks vs es mks mvs n" "\<forall>y \<in> set ks \<union> fst ` set es. k < y"
  shows "merged (k # ks) (v # vs) es (k # mks) (v # mvs) n"
proof -
  have "k \<notin> dom (map_of es)" using assms(2) by (auto simp: dom_map_of_conv_image_fst)
  then show ?thesis using assms by (simp add: merged_def map_add_upd_left)
qed

lemma merged_replace:
  assumes "merged ks vs es mks mvs n" "\<forall>y \<in> set ks \<union> fst ` set es. k < y"
  shows "merged (k # ks) (v # vs) ((k, v') # es) (k # mks) (v' # mvs) n"
proof -
  have "k \<notin> dom (map_of es)" using assms(2) by (auto simp: dom_map_of_conv_image_fst)
  then show ?thesis using assms by (simp add: merged_def map_add_upd_left)
qed

lemma merged_new:
  assumes "merged ks vs es mks mvs n" "\<forall>y \<in> set ks \<union> fst ` set es. k < y"
  shows "merged ks vs ((k, v) # es) (k # mks) (v # mvs) (Suc n)"
  using assms by (simp add: merged_def)

lemma merge_entries_merged:
  assumes "length vs = length ks" "strictly_sorted ks" "strictly_sorted (map fst es)"
  shows "\<exists>mks mvs n. merge_entries ks vs es = Inr (mks, mvs, n) \<and> merged ks vs es mks mvs n"
  using assms
proof (induction ks vs es rule: merge_entries.induct)
  case (1 k ks vs nk nv es)
  then obtain v vs' where vs: "vs = v # vs'" "length vs' = length ks" by (cases vs) auto
  consider "k < nk" | "k = nk" | "nk < k" by (meson linorder_less_linear)
  then show ?case
  proof cases
    case 1
    from "1.IH"(1)[OF 1 vs(1)] "1.prems" vs obtain mks mvs n where
      m: "merge_entries ks vs' ((nk, nv) # es) = Inr (mks, mvs, n)"
        "merged ks vs' ((nk, nv) # es) mks mvs n" by auto
    have "\<forall>y \<in> set ks \<union> fst ` set ((nk, nv) # es). k < y"
      using "1.prems" 1 by (auto dest: less_trans)
    from merged_keep[OF m(2) this] m(1) 1 vs show ?thesis by simp
  next
    case 2
    then have n: "\<not> k < nk" by simp
    from "1.IH"(2)[OF n 2] "1.prems" vs obtain mks mvs n where
      m: "merge_entries ks vs' es = Inr (mks, mvs, n)" "merged ks vs' es mks mvs n" by auto
    have "\<forall>y \<in> set ks \<union> fst ` set es. k < y" using "1.prems" 2 by auto
    from merged_replace[OF m(2) this, of v nv] m(1) 2 n vs show ?thesis by simp
  next
    case 3
    then have n: "\<not> k < nk" "k \<noteq> nk" by auto
    from "1.IH"(3)[OF n] "1.prems" obtain mks mvs n where
      m: "merge_entries (k # ks) vs es = Inr (mks, mvs, n)" "merged (k # ks) vs es mks mvs n" by auto
    have "\<forall>y \<in> set (k # ks) \<union> fst ` set es. nk < y" using "1.prems" 3 by (auto dest: less_trans)
    from merged_new[OF m(2) this] m(1) n show ?thesis by simp
  qed
next
  case (2 k ks vs)
  then obtain v vs' where vs: "vs = v # vs'" "length vs' = length ks" by (cases vs) auto
  from "2.IH"[OF vs(1)] "2.prems" vs obtain mks mvs n where
    m: "merge_entries ks vs' [] = Inr (mks, mvs, n)" "merged ks vs' [] mks mvs n" by auto
  from merged_keep[OF m(2), of k v] m(1) "2.prems" vs show ?case by auto
next
  case (3 vs nk nv es)
  then obtain mks mvs n where
    m: "merge_entries [] vs es = Inr (mks, mvs, n)" "merged [] vs es mks mvs n" by auto
  from merged_new[OF m(2), of nk nv] m(1) "3.prems" show ?case by auto
next
  case (4 vs)
  then show ?case by (simp add: merged_Nil)
qed

lemma strictly_sorted_distinct: "sorted xs \<Longrightarrow> distinct xs \<Longrightarrow> strictly_sorted xs"
  by (simp add: strict_sorted_iff)

lemma sort_entries:
  assumes "distinct (map fst es)"
  shows "strictly_sorted (map fst (sort_key fst es))" "map_of (sort_key fst es) = map_of es"
    "fst ` set (sort_key fst es) = fst ` set es"
proof -
  have p: "mset (sort_key fst es) = mset es" by simp
  then have d: "distinct (map fst (sort_key fst es))"
    using assms by (metis mset_map distinct_count_atmost_1 set_mset_mset)
  then show "strictly_sorted (map fst (sort_key fst es))" by (intro strictly_sorted_distinct) simp_all
  show "map_of (sort_key fst es) = map_of es"
    using assms d by (intro map_of_inject_set[THEN iffD2]) simp_all
  show "fst ` set (sort_key fst es) = fst ` set es" by simp
qed

section \<open>Joining two grown parts\<close>

lemma map_add_split:
  fixes k :: "'a::linorder"
  assumes "dom m1 \<subseteq> {x. x < k}" "dom e1 \<subseteq> {x. x < k}" "dom m2 \<subseteq> {x. k \<le> x}" "dom e2 \<subseteq> {x. k \<le> x}"
  shows "(m2 ++ e2) ++ (m1 ++ e1) = (m2 ++ m1) ++ (e2 ++ e1)"
proof
  fix x
  have "m1 x = None \<and> e1 x = None \<or> m2 x = None \<and> e2 x = None"
  proof (cases "x < k")
    case True
    then have "x \<notin> dom m2" "x \<notin> dom e2" using assms(3,4) by auto
    then show ?thesis by (simp add: domIff)
  next
    case False
    then have "x \<notin> dom m1" "x \<notin> dom e1" using assms(1,2) by auto
    then show ?thesis by (simp add: domIff)
  qed
  then show "((m2 ++ e2) ++ (m1 ++ e1)) x = ((m2 ++ m1) ++ (e2 ++ e1)) x"
    by (auto simp: map_add_def split: option.splits)
qed

lemma grownD:
  assumes "grown d h w lo hi cs nks ncs es n w'"
  shows "uuid4 w' = uuid4 w" "draws w \<le> draws w'"
    "\<And>j. j \<notin> set (idl h w cs) \<Longrightarrow> j \<notin> new_ids w w' \<Longrightarrow> nodes w' j = nodes w j"
    "forest (tree_ok d h w') lo hi nks ncs" "distinct (idl h w' ncs)"
    "set (idl h w' ncs) \<subseteq> set (idl h w cs) \<union> new_ids w w'"
    "map_of (contl h w' ncs) = map_of (contl h w cs) ++ map_of es"
    "length (contl h w' ncs) = length (contl h w cs) + n"
    "hd (leafl h w' ncs) = hd (leafl h w cs)"
    "\<And>nxt. chain w (leafl h w cs) nxt \<Longrightarrow> chain w' (leafl h w' ncs) nxt"
  using assms unfolding grown_def by blast+

lemma dom_contl_below:
  "forest (tree_ok d h w) lo (Some k) ks cs \<Longrightarrow> dom (map_of (contl h w cs)) \<subseteq> {x. x < k}"
  using contl_sorted_within[of d h w lo "Some k" ks cs]
  by (auto simp: sorted_within_def dom_map_of_conv_image_fst)

lemma dom_contl_above:
  "forest (tree_ok d h w) (Some k) hi ks cs \<Longrightarrow> dom (map_of (contl h w cs)) \<subseteq> {x. k \<le> x}"
  using contl_sorted_within[of d h w "Some k" hi ks cs]
  by (auto simp: sorted_within_def dom_map_of_conv_image_fst)

lemma grown_seq:
  assumes fr: "fresh w"
    and f1: "forest (tree_ok d h w) lo (Some k) ks1 cs1" and f2: "forest (tree_ok d h w) (Some k) hi ks2 cs2"
    and dist: "distinct (idl h w (cs1 @ cs2))"
    and g1: "grown d h w lo (Some k) cs1 nks1 ncs1 es1 n1 w1"
    and g2: "grown d h w1 (Some k) hi cs2 nks2 ncs2 es2 n2 w2"
    and k: "gt_lo lo k" "lt_hi hi k"
    and es1: "\<forall>x \<in> fst ` set es1. x < k" and es2: "\<forall>x \<in> fst ` set es2. k \<le> x"
  shows "grown d h w lo hi (cs1 @ cs2) (nks1 @ k # nks2) (ncs1 @ ncs2) (es1 @ es2) (n1 + n2) w2"
proof -
  have fr1: "fresh w1" by (rule grown_fresh[OF fr f1 g1])
  have new: "new_ids w w2 = new_ids w w1 \<union> new_ids w1 w2"
    using new_ids_trans[of w1 w w2] grownD(1,2)[OF g1] grownD(2)[OF g2] by simp
  have same2: "\<forall>j \<in> set (idl h w cs2). nodes w1 j = nodes w j"
  proof
    fix j assume j: "j \<in> set (idl h w cs2)"
    then have "nodes w j \<noteq> None" using forest_ids_dom[OF f2] by blast
    then have "j \<notin> new_ids w w1" using new_ids_notin_dom[OF fr, of j w1] by auto
    moreover have "j \<notin> set (idl h w cs1)" using dist j by auto
    ultimately show "nodes w1 j = nodes w j" using grownD(3)[OF g1] by blast
  qed
  note c2 = forest_cong[OF same2]
  have same1: "\<forall>j \<in> set (idl h w1 ncs1). nodes w2 j = nodes w1 j"
  proof
    fix j assume j: "j \<in> set (idl h w1 ncs1)"
    then have "nodes w1 j \<noteq> None" using forest_ids_dom[OF grownD(4)[OF g1]] by blast
    then have "j \<notin> new_ids w1 w2" using new_ids_notin_dom[OF fr1, of j w2] by auto
    moreover have "j \<notin> set (idl h w1 cs2)"
    proof
      assume j2: "j \<in> set (idl h w1 cs2)"
      then have "j \<notin> set (idl h w cs1)" using dist c2(1) by auto
      moreover have "j \<notin> new_ids w w1"
        using j2 c2(1) forest_ids_dom[OF f2] new_ids_notin_dom[OF fr] by metis
      ultimately show False using j grownD(6)[OF g1] by blast
    qed
    ultimately show "nodes w2 j = nodes w1 j" using grownD(3)[OF g2] by blast
  qed
  note c1 = forest_cong[OF same1]
  have leaf1: "\<forall>l \<in> set (leafl h w1 ncs1). nodes w2 l = nodes w1 l"
    using same1 leafl_subset_idl by blast
  have leaf2: "\<forall>l \<in> set (leafl h w cs2). nodes w1 l = nodes w l"
    using same2 leafl_subset_idl by blast
  have ne: "leafl h w cs1 \<noteq> []" "leafl h w cs2 \<noteq> []" "leafl h w1 ncs1 \<noteq> []" "leafl h w2 ncs2 \<noteq> []"
    using leafl_nonempty f1 f2 grownD(4)[OF g1] grownD(4)[OF g2] by blast+
  have disj: "set (idl h w1 ncs1) \<inter> set (idl h w2 ncs2) = {}"
  proof -
    have "set (idl h w2 ncs2) \<subseteq> set (idl h w cs2) \<union> new_ids w1 w2" using grownD(6)[OF g2] c2(1) by simp
    moreover have "set (idl h w1 ncs1) \<inter> new_ids w1 w2 = {}"
      using forest_ids_dom[OF grownD(4)[OF g1]] new_ids_notin_dom[OF fr1] by blast
    moreover have "new_ids w w1 \<inter> set (idl h w cs2) = {}"
      using forest_ids_dom[OF f2] new_ids_notin_dom[OF fr] by blast
    ultimately show ?thesis using grownD(6)[OF g1] dist by fastforce
  qed
  have "map_of (contl h w2 (ncs1 @ ncs2)) = map_of (contl h w (cs1 @ cs2)) ++ map_of (es1 @ es2)"
    using map_add_split[of "map_of (contl h w cs1)" k "map_of es1" "map_of (contl h w cs2)" "map_of es2"]
      dom_contl_below[OF f1] dom_contl_above[OF f2] es1 es2 grownD(7)[OF g1] grownD(7)[OF g2]
    by (simp add: c1(3) c2(3) dom_map_of_conv_image_fst subset_iff)
  moreover have "forest (tree_ok d h w2) lo hi (nks1 @ k # nks2) (ncs1 @ ncs2)"
    using forest_append[OF forest_length[OF grownD(4)[OF g1]]] grownD(4)[OF g1] grownD(4)[OF g2] k
    by (simp add: c1(4))
  moreover have "chain w2 (leafl h w2 (ncs1 @ ncs2)) nxt" if "chain w (leafl h w (cs1 @ cs2)) nxt" for nxt
    using that ne grownD(10)[OF g1] grownD(10)[OF g2] grownD(9)[OF g2]
    by (simp add: chain_append c1(2) c2(2) chain_cong[OF leaf1] chain_cong[OF leaf2])
  ultimately show ?thesis
    unfolding grown_def new using grownD[OF g1] grownD[OF g2] disj ne
    by (auto simp: c1(1,2,3) c2(1,2,3))
qed

section \<open>The recursive inserts of an inner node\<close>

definition entries_in :: "pystr option \<Rightarrow> pystr option \<Rightarrow> entries \<Rightarrow> bool" where
  "entries_in lo hi es \<longleftrightarrow> distinct (map fst es) \<and> (\<forall>k \<in> fst ` set es. ge_lo lo k \<and> lt_hi hi k)"

definition insert_spec :: "nat \<Rightarrow> nat \<Rightarrow> insert_fun \<Rightarrow> bool" where
  "insert_spec d h ins \<longleftrightarrow> (\<forall>w lo hi i es. fresh w \<longrightarrow> tree_ok d h w lo hi i \<longrightarrow> distinct (ids h w i) \<longrightarrow>
     entries_in lo hi es \<longrightarrow>
     (\<exists>r w'. ins i es d w = Inr (r, w') \<and>
        grown d h w lo hi [i] (promoted_keys r) (i # new_child_ids r) es (inserted_count r) w'))"

lemma grown_one_response:
  assumes g: "grown d h w lo hi [c] (promoted_keys r) (c # new_child_ids r) es n w'"
  shows "(case (if promoted_keys r = [] then None else Some r) of None \<Rightarrow> []
      | Some x \<Rightarrow> zip (promoted_keys x) (new_child_ids x)) = zip (promoted_keys r) (new_child_ids r)"
    "map fst (zip (promoted_keys r) (new_child_ids r)) = promoted_keys r"
    "map snd (zip (promoted_keys r) (new_child_ids r)) = new_child_ids r"
  using forest_length[OF grownD(4)[OF g]] by auto

lemma forest_sorted_keys_lo:
  "forest entries_in lo hi ks ess \<Longrightarrow> es \<in> set ess \<Longrightarrow> e \<in> set es \<Longrightarrow> ge_lo lo (fst e)"
proof (induction entries_in lo hi ks ess rule: forest.induct)
  case (2 lo hi k ks c cs)
  then show ?case by (auto simp: entries_in_def dest: bound_trans(3)[OF bound_trans(5)])
qed (auto simp: entries_in_def)

lemma insert_first_child:
  assumes s: "insert_spec d h ins" and fr: "fresh w" and t: "tree_ok d h w lo hi c"
    and dist: "distinct (ids h w c)" and es: "entries_in lo hi es"
  shows "\<exists>o' n w1 ps. insert_children ins d (c # cs) (es # ess) w =
      rbind (insert_children ins d cs ess w1) (\<lambda>(rs, m, w2). Inr (o' # rs, n + m, w2)) \<and>
      (case o' of None \<Rightarrow> [] | Some x \<Rightarrow> zip (promoted_keys x) (new_child_ids x)) = ps \<and>
      grown d h w lo hi [c] (map fst ps) (c # map snd ps) es n w1"
proof (cases "es = []")
  case True
  have "grown d h w lo hi [c] [] [c] [] 0 w" using grown_refl[of d h w lo hi "[]" "[c]"] t dist by simp
  with True show ?thesis
    by (intro exI[of _ None] exI[of _ 0] exI[of _ w] exI[of _ "[]"]) simp
next
  case False
  from s fr t dist es obtain r w1 where r: "ins c es d w = Inr (r, w1)"
    and g: "grown d h w lo hi [c] (promoted_keys r) (c # new_child_ids r) es (inserted_count r) w1"
    unfolding insert_spec_def by blast
  show ?thesis
    using False r g grown_one_response[OF g]
    by (intro exI[of _ "if promoted_keys r = [] then None else Some r"] exI[of _ "inserted_count r"]
        exI[of _ w1] exI[of _ "zip (promoted_keys r) (new_child_ids r)"]) simp
qed

lemma insert_children_grown:
  assumes "insert_spec d h ins" "fresh w" "forest (tree_ok d h w) lo hi ks cs"
    "distinct (idl h w cs)" "forest entries_in lo hi ks ess"
  shows "\<exists>rs n w' nks ncs. insert_children ins d cs ess w = Inr (rs, n, w') \<and>
    merge_promoted ks cs rs = (nks, ncs) \<and> grown d h w lo hi cs nks ncs (concat ess) n w'"
  using assms
proof (induction ks arbitrary: lo cs ess w)
  case Nil
  then obtain c es where c: "cs = [c]" "tree_ok d h w lo hi c" "ess = [es]" "entries_in lo hi es"
    by (auto simp: forest_Nil_iff)
  then obtain r n w1 ps where i: "insert_children ins d [c] [es] w = Inr ([r], n, w1)"
    "(case r of None \<Rightarrow> [] | Some x \<Rightarrow> zip (promoted_keys x) (new_child_ids x)) = ps"
    "grown d h w lo hi [c] (map fst ps) (c # map snd ps) es n w1"
    using insert_first_child[OF Nil.prems(1,2) c(2) _ c(4), of "[]" "[]"] Nil.prems(4) by auto
  then show ?case using c by auto
next
  case (Cons k ks)
  from Cons.prems(3) obtain c cs' where c: "cs = c # cs'" "gt_lo lo k" "lt_hi hi k"
    "tree_ok d h w lo (Some k) c" "forest (tree_ok d h w) (Some k) hi ks cs'" by (auto simp: forest_Cons_iff)
  from Cons.prems(5) obtain es ess' where e: "ess = es # ess'" "entries_in lo (Some k) es"
    "forest entries_in (Some k) hi ks ess'" by (auto simp: forest_Cons_iff)
  have fc: "forest (tree_ok d h w) lo (Some k) [] [c]" using c(4) by simp
  obtain r n w1 ps where i: "insert_children ins d cs ess w =
      rbind (insert_children ins d cs' ess' w1) (\<lambda>(rs, m, w2). Inr (r # rs, n + m, w2))"
    "(case r of None \<Rightarrow> [] | Some x \<Rightarrow> zip (promoted_keys x) (new_child_ids x)) = ps"
    "grown d h w lo (Some k) [c] (map fst ps) (c # map snd ps) es n w1"
    using insert_first_child[OF Cons.prems(1,2) c(4) _ e(2), of cs' ess'] Cons.prems(4) c(1) e(1) by auto
  have same: "\<forall>j \<in> set (idl h w cs'). nodes w1 j = nodes w j"
  proof
    fix j assume j: "j \<in> set (idl h w cs')"
    then have "nodes w j \<noteq> None" using forest_ids_dom[OF c(5)] by blast
    then have "j \<notin> new_ids w w1" using new_ids_notin_dom[OF Cons.prems(2), of j w1] by auto
    moreover have "j \<notin> set (idl h w [c])" using Cons.prems(4) j c(1) by auto
    ultimately show "nodes w1 j = nodes w j" using grownD(3)[OF i(3)] by blast
  qed
  note cong = forest_cong[OF same]
  have "fresh w1" by (rule grown_fresh[OF Cons.prems(2) fc i(3)])
  then obtain rs m w2 nks ncs where j: "insert_children ins d cs' ess' w1 = Inr (rs, m, w2)"
    "merge_promoted ks cs' rs = (nks, ncs)" "grown d h w1 (Some k) hi cs' nks ncs (concat ess') m w2"
    using Cons.IH[OF Cons.prems(1), of w1 "Some k" cs' ess'] c(1,5) e(3) Cons.prems(4) by (auto simp: cong)
  have "\<forall>x \<in> fst ` set es. x < k" using e(2) by (simp add: entries_in_def)
  moreover have "\<forall>x \<in> fst ` set (concat ess'). k \<le> x"
    using forest_sorted_keys_lo[OF e(3)] by auto
  ultimately have "grown d h w lo hi ([c] @ cs') (map fst ps @ k # nks) ((c # map snd ps) @ ncs)
      (es @ concat ess') (n + m) w2"
    using Cons.prems(4) c(1) by (intro grown_seq[OF Cons.prems(2) fc c(5) _ i(3) j(3) c(2,3)]) auto
  with i(1,2) j(1,2) c(1) e(1) show ?case by simp
qed

text \<open>Distributing the entries over the children.\<close>

definition key_index :: "pystr list \<Rightarrow> pystr \<Rightarrow> nat" where
  "key_index ks x = length (takeWhile (\<lambda>y. y \<le> x) ks)"

lemma key_index_simps:
  "key_index [] x = 0" "key_index (k # ks) x = (if k \<le> x then Suc (key_index ks x) else 0)"
  by (simp_all add: key_index_def)

lemma key_index_le: "key_index ks x \<le> length ks"
  by (simp add: key_index_def length_takeWhile_le)

lemma entries_in_filter: "entries_in lo hi es \<Longrightarrow> \<forall>e \<in> set es. P e \<longrightarrow> ge_lo lo' (fst e) \<and> lt_hi hi' (fst e) \<Longrightarrow>
    entries_in lo' hi' (filter P es)"
  by (auto simp: entries_in_def distinct_map_filter)

lemma forest_entries:
  assumes "forest P lo hi ks cs" "entries_in lo hi es"
  shows "forest entries_in lo hi ks
    (map (\<lambda>i. filter (\<lambda>e. key_index ks (fst e) = i) es) [0..<Suc (length ks)])"
  using assms
proof (induction ks arbitrary: lo cs es)
  case Nil
  then show ?case by (simp add: key_index_simps)
next
  case (Cons k ks)
  from Cons.prems(1) obtain cs' where b: "gt_lo lo k" "lt_hi hi k" "forest P (Some k) hi ks cs'"
    by (auto simp: forest_Cons_iff)
  let ?es = "filter (\<lambda>e. k \<le> fst e) es"
  have "filter (\<lambda>e. key_index (k # ks) (fst e) = Suc i) es = filter (\<lambda>e. key_index ks (fst e) = i) ?es" for i
    by (auto simp: key_index_simps intro!: filter_cong)
  moreover have u: "[0..<Suc (length (k # ks))] = 0 # map Suc [0..<Suc (length ks)]"
    by (simp add: map_Suc_upt upt_conv_Cons del: upt_Suc)
  ultimately have "map (\<lambda>i. filter (\<lambda>e. key_index (k # ks) (fst e) = i) es) [0..<Suc (length (k # ks))] =
      filter (\<lambda>e. key_index (k # ks) (fst e) = 0) es #
      map (\<lambda>i. filter (\<lambda>e. key_index ks (fst e) = i) ?es) [0..<Suc (length ks)]"
    unfolding u list.map map_map o_def by simp
  moreover have "entries_in (Some k) hi ?es"
    using Cons.prems(2) by (intro entries_in_filter) (auto simp: entries_in_def)
  then have "forest entries_in (Some k) hi ks
      (map (\<lambda>i. filter (\<lambda>e. key_index ks (fst e) = i) ?es) [0..<Suc (length ks)])"
    by (rule Cons.IH[OF b(3)])
  moreover have "entries_in lo (Some k) (filter (\<lambda>e. key_index (k # ks) (fst e) = 0) es)"
    using Cons.prems(2) by (intro entries_in_filter) (auto simp: entries_in_def key_index_simps split: if_splits)
  ultimately show ?case using b by (simp only: forest.simps simp_thms)
qed

lemma forest_entries_distinct:
  "forest entries_in lo hi ks ess \<Longrightarrow> distinct (map fst (concat ess))"
proof (induction entries_in lo hi ks ess rule: forest.induct)
  case (2 lo hi k ks c cs)
  then have f: "forest entries_in (Some k) hi ks cs" by simp
  have "k \<le> fst e" if e: "e \<in> set (concat cs)" for e
  proof -
    from e obtain es where "es \<in> set cs" "e \<in> set es" by auto
    from forest_sorted_keys_lo[OF f this] show ?thesis by simp
  qed
  moreover have "fst e < k" if "e \<in> set c" for e using 2 that by (auto simp: entries_in_def)
  ultimately have "fst e \<noteq> fst e'" if "e \<in> set c" "e' \<in> set (concat cs)" for e e'
    using that by (metis leD)
  then have "fst ` set c \<inter> fst ` set (concat cs) = {}" by blast
  then show ?case using 2 by (auto simp: entries_in_def)
qed (auto simp: entries_in_def)

lemma child_entries_ok:
  assumes f: "forest P lo hi (keys st) (children_ids st)" and es: "entries_in lo hi es"
  shows "\<exists>ess. child_entries st es = Inr ess \<and> forest entries_in lo hi (keys st) ess \<and>
    map_of (concat ess) = map_of es"
proof -
  let ?ks = "keys st"
  let ?ess = "map (\<lambda>i. filter (\<lambda>e. key_index ?ks (fst e) = i) es) [0..<Suc (length ?ks)]"
  have b: "bisect_right ?ks x = key_index ?ks x" for x
    using bisect_right_eq[OF forest_sorted[OF f]] by (simp add: key_index_def)
  have len: "length (children_ids st) = Suc (length ?ks)" by (rule forest_length[OF f])
  have "child_entries st es = Inr ?ess"
    unfolding child_entries_def b len using key_index_le[of ?ks]
    by (auto simp: list_ex_iff Suc_le_eq not_less simp del: upt_Suc)
  moreover have fe: "forest entries_in lo hi ?ks ?ess" by (rule forest_entries[OF f es])
  moreover have "set (concat ?ess) = set es"
    using key_index_le[of ?ks] by (fastforce simp: le_imp_less_Suc simp del: upt_Suc)
  then have "map_of (concat ?ess) = map_of es"
    using forest_entries_distinct[OF fe] es by (intro map_of_inject_set[THEN iffD2]) (simp_all add: entries_in_def)
  ultimately show ?thesis by blast
qed

section \<open>Grouping a level into inner nodes\<close>

type_synonym group = "pystr \<times> pystr list \<times> pystr list"

definition group_ok :: "nat \<Rightarrow> (pystr option \<Rightarrow> pystr option \<Rightarrow> pystr \<Rightarrow> bool) \<Rightarrow> pystr option \<Rightarrow>
    pystr option \<Rightarrow> group \<Rightarrow> bool" where
  "group_ok d P lo hi g \<longleftrightarrow> length (fst (snd g)) < d \<and> forest P lo hi (fst (snd g)) (snd (snd g))"

definition is_group :: "nat \<Rightarrow> world \<Rightarrow> group \<Rightarrow> bool" where
  "is_group d w g \<longleftrightarrow> (case nodes w (fst g) of None \<Rightarrow> False
     | Some st \<Rightarrow> \<not> is_leaf st \<and> degree st = d \<and> keys st = fst (snd g) \<and> children_ids st = snd (snd g))"

lemma group_tree:
  assumes "is_group d w g"
  shows "group_ok d (tree_ok d h w) lo hi g \<longleftrightarrow> tree_ok d (Suc h) w lo hi (fst g)"
    "children_of w (fst g) = snd (snd g)"
  using assms by (auto simp: is_group_def group_ok_def tree_ok.simps children_of_def split: option.splits)

lemma distinct_concat_Cons:
  "distinct (concat (map (\<lambda>j. j # f j) js)) \<longleftrightarrow>
    distinct js \<and> distinct (concat (map f js)) \<and> set js \<inter> set (concat (map f js)) = {}"
  by (induction js) auto

lemma level_up:
  assumes gr: "\<forall>g \<in> set gs. is_group d w g"
    and f: "forest (group_ok d (tree_ok d h w)) lo hi ps gs"
    and cs: "concat (map (snd \<circ> snd) gs) = cs"
  shows "forest (tree_ok d (Suc h) w) lo hi ps (map fst gs)"
    "leafl (Suc h) w (map fst gs) = leafl h w cs" "contl (Suc h) w (map fst gs) = contl h w cs"
    "set (idl (Suc h) w (map fst gs)) = set (map fst gs) \<union> set (idl h w cs)"
    "distinct (idl (Suc h) w (map fst gs)) \<longleftrightarrow> distinct (map fst gs) \<and> distinct (idl h w cs) \<and>
      set (map fst gs) \<inter> set (idl h w cs) = {}"
proof -
  show "forest (tree_ok d (Suc h) w) lo hi ps (map fst gs)"
    unfolding forest_map using f gr group_tree(1) by (auto elim!: forest_mono)
  have ch: "map (\<lambda>g. F (children_of w (fst g))) gs = map (\<lambda>g. F (snd (snd g))) gs" for F :: "pystr list \<Rightarrow> 'z"
    using gr group_tree(2) by auto
  have cc: "concat (map (\<lambda>j. concat (map F (children_of w j))) (map fst gs)) = concat (map F cs)" for F :: "pystr \<Rightarrow> 'z list"
    unfolding cs[symmetric] map_map o_def ch[of "\<lambda>l. concat (map F l)"] by (induction gs) auto
  show "leafl (Suc h) w (map fst gs) = leafl h w cs" "contl (Suc h) w (map fst gs) = contl h w cs"
    using cc[of "leaves h w"] cc[of "contents h w"] by (simp_all add: o_def)
  have i: "idl (Suc h) w (map fst gs) =
      concat (map (\<lambda>j. j # concat (map (ids h w) (children_of w j))) (map fst gs))" by (simp add: o_def)
  show "set (idl (Suc h) w (map fst gs)) = set (map fst gs) \<union> set (idl h w cs)"
    unfolding i cc[symmetric] by auto
  show "distinct (idl (Suc h) w (map fst gs)) \<longleftrightarrow> distinct (map fst gs) \<and> distinct (idl h w cs) \<and>
      set (map fst gs) \<inter> set (idl h w cs) = {}"
    unfolding i distinct_concat_Cons cc ..
qed

section \<open>Splitting an inner node\<close>

definition drawn :: "world \<Rightarrow> nat \<Rightarrow> pystr list" where
  "drawn w n = map (uuid4 w) [draws w..<draws w + n]"

lemma drawn_Suc: "drawn w (Suc n) = uuid4 w (draws w) # drawn (w\<lparr>draws := Suc (draws w)\<rparr>) n"
  by (simp add: drawn_def upt_conv_Cons del: upt_Suc)

lemma drawn_fresh:
  assumes "fresh w"
  shows "distinct (drawn w n)" "j \<in> set (drawn w n) \<Longrightarrow> nodes w j = None"
    "j \<in> set (drawn w n) \<Longrightarrow> j \<noteq> []"
  using assms by (auto simp: drawn_def fresh_def distinct_map inj_on_def dest: injD)

lemma set_drawn: "uuid4 w' = uuid4 w \<Longrightarrow> draws w' = draws w + n \<Longrightarrow> set (drawn w n) = new_ids w w'"
  by (simp add: drawn_def new_ids_def)

lemma forest_drop_cut:
  assumes "forest P lo hi ks cs" "n < length ks"
  shows "drop n ks = ks ! n # drop (Suc n) ks" "tl (drop n cs) = drop (Suc n) cs"
  using assms(2) by (simp add: Cons_nth_drop_Suc) (simp add: drop_Suc tl_drop)

lemma inner_siblings_ok:
  assumes "inner_siblings mid (k # ks) cs w = (ps, sibs, w')" "forest P (Some k) hi ks (tl cs)" "mid < d"
  shows "w' = w\<lparr>draws := draws w + length sibs\<rparr> \<and> map fst sibs = drawn w (length sibs) \<and>
    (\<exists>ps'. ps = k # ps' \<and> forest (group_ok d P) (Some k) hi ps' sibs) \<and>
    concat (map (snd \<circ> snd) sibs) = tl cs"
  using assms
proof (induction "length ks" arbitrary: k ks cs w ps sibs w' rule: less_induct)
  case less
  note f = less.prems(2)
  have len: "length (tl cs) = Suc (length ks)" by (rule forest_length[OF f])
  let ?w = "w\<lparr>draws := Suc (draws w)\<rparr>"
  show ?case
  proof (cases "length ks \<le> mid")
    case True
    then show ?thesis using less.prems len by (auto simp: draw_def drawn_def group_ok_def)
  next
    case False
    then have m: "mid < length ks" by simp
    note cut = forest_cut[OF f m] forest_drop_cut[OF f m]
    obtain ps1 sibs1 w1 where r: "inner_siblings mid (drop mid ks) (drop mid (tl cs)) ?w = (ps1, sibs1, w1)"
      by (cases "inner_siblings mid (drop mid ks) (drop mid (tl cs)) ?w") auto
    have eq: "ps = k # ps1" "sibs = (uuid4 w (draws w), take mid ks, take (Suc mid) (tl cs)) # sibs1" "w' = w1"
      using less.prems(1) r m by (auto simp: draw_def)
    obtain ps2 where i: "w1 = ?w\<lparr>draws := draws ?w + length sibs1\<rparr>" "map fst sibs1 = drawn ?w (length sibs1)"
      "ps1 = ks ! mid # ps2" "forest (group_ok d P) (Some (ks ! mid)) hi ps2 sibs1"
      "concat (map (snd \<circ> snd) sibs1) = drop (Suc mid) (tl cs)"
    proof -
      have l: "length (drop (Suc mid) ks) < length ks" using m by simp
      have "forest P (Some (ks ! mid)) hi (drop (Suc mid) ks) (tl (drop mid (tl cs)))"
        using cut(1,3) by simp
      from less.hyps[OF l r[unfolded cut(2)] this less.prems(3)] show ?thesis using that cut(3) by auto
    qed
    have "group_ok d P (Some k) (Some (ks ! mid)) (uuid4 w (draws w), take mid ks, take (Suc mid) (tl cs))"
      using cut(1) m less.prems(3) by (simp add: group_ok_def)
    with eq i cut(1) show ?thesis by (simp add: drawn_Suc)
  qed
qed

lemma create_inner_nodes_ok:
  assumes "2 \<le> d" "distinct (map fst gs)" "\<forall>g \<in> set gs. nodes w (fst g) = None"
  shows "\<exists>w'. create_inner_nodes d gs w = Inr w' \<and> uuid4 w' = uuid4 w \<and> draws w' = draws w \<and>
    (\<forall>j. j \<notin> fst ` set gs \<longrightarrow> nodes w' j = nodes w j) \<and> (\<forall>g \<in> set gs. is_group d w' g)"
  using assms
proof (induction gs arbitrary: w)
  case (Cons g gs)
  obtain i ks cs where g: "g = (i, ks, cs)" by (cases g) auto
  define st where "st = \<lparr>degree = d, is_leaf = False, keys = ks, children_ids = cs, vals = [], next_id = [], prev_id = []\<rparr>"
  let ?w = "put i st w"
  have c: "node_create i d False ks cs [] [] [] w = Inr ?w"
    using Cons.prems g by (simp add: node_create_def create_state_def check_degree_def st_def)
  have nm: "i \<notin> fst ` set gs" using Cons.prems(2) g by simp
  then have "\<forall>g \<in> set gs. nodes ?w (fst g) = None" using Cons.prems(3) by (auto simp: put_def)
  with Cons.IH[of ?w] Cons.prems obtain w' where w': "create_inner_nodes d gs ?w = Inr w'"
    "uuid4 w' = uuid4 ?w" "draws w' = draws ?w" "\<forall>j. j \<notin> fst ` set gs \<longrightarrow> nodes w' j = nodes ?w j"
    "\<forall>g \<in> set gs. is_group d w' g" by auto
  have "nodes w' i = Some st" using w'(4) nm by (simp add: put_def)
  then have "is_group d w' g" by (simp add: is_group_def g st_def)
  then show ?case using c w' by (auto simp: g put_def)
qed simp

lemma regroup_grown:
  assumes g: "grown d h w lo hi cs nks ncs es n w1" and fr: "fresh w"
    and f: "forest (tree_ok d h w) lo hi ks cs" and t: "nodes w i \<noteq> None" "i \<notin> set (idl h w cs)" "children_of w i = cs"
    and gr: "forest (group_ok d (tree_ok d h w1)) lo hi ps ((i, ab) # sibs)"
      "concat (map (snd \<circ> snd) ((i, ab) # sibs)) = ncs"
    and sibs: "map fst sibs = drawn w1 (length sibs)"
    and w3: "uuid4 w3 = uuid4 w1" "draws w3 = draws w1 + length sibs"
      "\<forall>g \<in> set ((i, ab) # sibs). is_group d w3 g"
      "\<And>j. j \<noteq> i \<Longrightarrow> j \<notin> fst ` set sibs \<Longrightarrow> nodes w3 j = nodes w1 j"
  shows "grown d (Suc h) w lo hi [i] ps (i # map fst sibs) es n w3"
proof -
  let ?gs = "(i, ab) # sibs"
  have fr1: "fresh w1" by (rule grown_fresh[OF fr f g])
  have new: "new_ids w w3 = new_ids w w1 \<union> new_ids w1 w3"
    using new_ids_trans[of w1 w w3] grownD(1,2)[OF g] w3(2) by simp
  have ss: "fst ` set sibs = new_ids w1 w3" using set_drawn[OF w3(1,2)] sibs by (metis list.set_map)
  have inew: "i \<notin> new_ids w w1" using t(1) new_ids_notin_dom[OF fr, of i w1] by auto
  have i1: "i \<notin> set (idl h w1 ncs)" using grownD(6)[OF g] inew t(2) by blast
  have n1: "nodes w1 i = nodes w i" using grownD(3)[OF g t(2) inew] .
  have inew1: "i \<notin> new_ids w1 w3" using t(1) new_ids_notin_dom[OF fr1, of i w3] n1 by auto
  have dis: "j \<notin> new_ids w1 w3" if "j \<in> set (idl h w1 ncs)" for j
    using forest_ids_dom[OF grownD(4)[OF g] that] new_ids_notin_dom[OF fr1, of j w3] by auto
  have same: "\<forall>j \<in> set (idl h w1 ncs). nodes w3 j = nodes w1 j"
  proof
    fix j assume j: "j \<in> set (idl h w1 ncs)"
    then have "j \<noteq> i" using i1 by auto
    then show "nodes w3 j = nodes w1 j" using w3(4)[of j] dis[OF j] by (simp add: ss)
  qed
  note c = forest_cong[OF same]
  have mem: "c \<in> set ncs" if "g \<in> set ?gs" "c \<in> set (snd (snd g))" for g c
    using that unfolding gr(2)[symmetric] set_concat set_map o_apply by blast
  have tc: "tree_ok d h w3 lo hi c" if "c \<in> set ncs" "tree_ok d h w1 lo hi c" for lo hi c
  proof -
    have "\<forall>j \<in> set (ids h w1 c). nodes w3 j = nodes w1 j" using same that(1) by auto
    from tree_cong(4)[OF this] that(2) show ?thesis by blast
  qed
  have "group_ok d (tree_ok d h w3) lo hi g" if "g \<in> set ?gs" "group_ok d (tree_ok d h w1) lo hi g" for lo hi g
    using that(2) unfolding group_ok_def by (blast intro: forest_mono tc mem[OF that(1)])
  from forest_mono[OF gr(1) this] have "forest (group_ok d (tree_ok d h w3)) lo hi ps ?gs" .
  note lu = level_up[OF w3(3) this gr(2)]
  have "distinct (map fst ?gs)"
    using drawn_fresh(1)[OF fr1, of "length sibs"] sibs inew1 ss by (metis distinct.simps(2) fst_conv list.set_map list.simps(9))
  then have "distinct (idl (Suc h) w3 (map fst ?gs))"
    using lu(5) grownD(5)[OF g] i1 dis ss by (auto simp: c)
  moreover have "set (idl (Suc h) w3 (map fst ?gs)) \<subseteq> set (idl (Suc h) w [i]) \<union> new_ids w w3"
    unfolding lu(4) using grownD(6)[OF g] ss new t(3) by (auto simp: c)
  moreover have "nodes w3 j = nodes w j" if "j \<notin> set (idl (Suc h) w [i])" "j \<notin> new_ids w w3" for j
    using that w3(4)[of j] grownD(3)[OF g, of j] ss new t(3) by simp
  moreover have "chain w3 (leafl h w3 ncs) nxt \<longleftrightarrow> chain w1 (leafl h w1 ncs) nxt" for nxt
    unfolding c using leafl_subset_idl same by (intro chain_cong) blast
  ultimately show ?thesis
    unfolding grown_def using lu(1-3) grownD[OF g] w3 t(3) by (simp add: c)
qed

text \<open>The two endings of \<open>_insert_inner\<close>: the node keeps all keys, or it keeps \<open>mid\<close> and splits.\<close>

definition finish_inner :: "pystr \<Rightarrow> node \<Rightarrow> pystr list \<Rightarrow> pystr list \<Rightarrow> nat \<Rightarrow> world \<Rightarrow>
    node_error + (insert_response \<times> world)" where
  "finish_inner i st nks ncs n w1 =
     (if length nks < degree st then
        Inr (\<lparr>promoted_keys = [], new_child_ids = [], inserted_count = n\<rparr>,
             put i (st\<lparr>keys := nks, children_ids := ncs\<rparr>) w1)
      else
        let mid = degree st div 2;
            (ps, sibs, w2) = inner_siblings mid (drop mid nks) (drop mid ncs) w1
        in rbind (create_inner_nodes (degree st) sibs
                    (put i (st\<lparr>keys := take mid nks, children_ids := take (mid + 1) ncs\<rparr>) w2))
             (\<lambda>w3. Inr (\<lparr>promoted_keys = ps, new_child_ids = map fst sibs,
                         inserted_count = n\<rparr>, w3)))"

lemma insert_inner_finish:
  "insert_inner ins i st es w =
     rbind (child_entries st es) (\<lambda>ess.
     rbind (insert_children ins (degree st) (children_ids st) ess w) (\<lambda>(rs, n, w1).
       case merge_promoted (keys st) (children_ids st) rs of (nks, ncs) \<Rightarrow> finish_inner i st nks ncs n w1))"
  by (simp add: insert_inner_def finish_inner_def)

lemma finish_inner_grown:
  assumes g: "grown d h w lo hi cs nks ncs es n w1" and fr: "fresh w" and d: "2 \<le> d"
    and f: "forest (tree_ok d h w) lo hi ks cs"
    and t: "nodes w i = Some st" "i \<notin> set (idl h w cs)" "children_ids st = cs" "\<not> is_leaf st" "degree st = d"
  shows "\<exists>r w'. finish_inner i st nks ncs n w1 = Inr (r, w') \<and>
    grown d (Suc h) w lo hi [i] (promoted_keys r) (i # new_child_ids r) es (inserted_count r) w'"
proof -
  note f1 = grownD(4)[OF g]
  have fr1: "fresh w1" by (rule grown_fresh[OF fr f g])
  have ex: "nodes w i \<noteq> None" "children_of w i = cs" using t by (simp_all add: children_of_def)
  note rg = regroup_grown[OF g fr f ex(1) t(2) ex(2)]
  show ?thesis
  proof (cases "length nks < d")
    case True
    let ?w = "put i (st\<lparr>keys := nks, children_ids := ncs\<rparr>) w1"
    have "grown d (Suc h) w lo hi [i] [] [i] es n ?w"
      using rg[of "[]" "(nks, ncs)" "[]" ?w] f1 t True
      by (simp add: group_ok_def is_group_def put_def drawn_def)
    with True t show ?thesis by (simp add: finish_inner_def)
  next
    case False
    let ?mid = "d div 2"
    have m: "?mid < length nks" "?mid < d" using False d by auto
    note cut = forest_cut[OF f1 m(1)] forest_drop_cut[OF f1 m(1)]
    obtain ps sibs w2 where s: "inner_siblings ?mid (drop ?mid nks) (drop ?mid ncs) w1 = (ps, sibs, w2)"
      by (cases "inner_siblings ?mid (drop ?mid nks) (drop ?mid ncs) w1") auto
    have "forest (tree_ok d h w1) (Some (nks ! ?mid)) hi (drop (Suc ?mid) nks) (tl (drop ?mid ncs))"
      using cut(1,3) by simp
    from inner_siblings_ok[OF s[unfolded cut(2)] this m(2)] cut(3) obtain ps' where
      sb: "w2 = w1\<lparr>draws := draws w1 + length sibs\<rparr>" "map fst sibs = drawn w1 (length sibs)"
        "ps = nks ! ?mid # ps'" "forest (group_ok d (tree_ok d h w1)) (Some (nks ! ?mid)) hi ps' sibs"
        "concat (map (snd \<circ> snd) sibs) = drop (Suc ?mid) ncs" by auto
    let ?st = "st\<lparr>keys := take ?mid nks, children_ids := take (?mid + 1) ncs\<rparr>"
    have ids: "set (drawn w1 (length sibs)) = fst ` set sibs" using sb(2) by (metis list.set_map)
    have "i \<notin> new_ids w w1" using ex(1) new_ids_notin_dom[OF fr, of i w1] by auto
    then have i1: "nodes w1 i \<noteq> None" using grownD(3)[OF g t(2)] ex(1) by simp
    then have ni: "i \<notin> fst ` set sibs" using drawn_fresh(2)[OF fr1, of i "length sibs"] ids by metis
    have none: "\<forall>g \<in> set sibs. nodes (put i ?st w2) (fst g) = None"
    proof
      fix g assume "g \<in> set sibs"
      then have "fst g \<in> fst ` set sibs" by simp
      then show "nodes (put i ?st w2) (fst g) = None"
        using ni drawn_fresh(2)[OF fr1, of "fst g" "length sibs"] ids sb(1) by (auto simp: put_def)
    qed
    obtain w3 where w3: "create_inner_nodes d sibs (put i ?st w2) = Inr w3"
      "uuid4 w3 = uuid4 (put i ?st w2)" "draws w3 = draws (put i ?st w2)"
      "\<forall>j. j \<notin> fst ` set sibs \<longrightarrow> nodes w3 j = nodes (put i ?st w2) j" "\<forall>g \<in> set sibs. is_group d w3 g"
      using create_inner_nodes_ok[OF d _ none] drawn_fresh(1)[OF fr1, of "length sibs"] sb(2) by auto
    have "nodes w3 i = Some ?st" using w3(4) ni by (simp add: put_def)
    then have gi: "is_group d w3 (i, take ?mid nks, take (Suc ?mid) ncs)" using t by (simp add: is_group_def)
    have "grown d (Suc h) w lo hi [i] ps (i # map fst sibs) es n w3"
    proof (rule rg[of ps "(take ?mid nks, take (Suc ?mid) ncs)" sibs])
      show "forest (group_ok d (tree_ok d h w1)) lo hi ps ((i, take ?mid nks, take (Suc ?mid) ncs) # sibs)"
        using sb(3,4) cut(1) m by (simp add: group_ok_def)
      show "concat (map (snd \<circ> snd) ((i, take ?mid nks, take (Suc ?mid) ncs) # sibs)) = ncs"
        using sb(5) by simp
      show "nodes w3 j = nodes w1 j" if "j \<noteq> i" "j \<notin> fst ` set sibs" for j
        using that w3(4) sb(1) by (simp add: put_def)
    qed (use sb w3 gi in \<open>auto simp: put_def\<close>)
    then show ?thesis using False s w3(1) t(5) by (simp add: finish_inner_def)
  qed
qed

lemma insert_inner_grown:
  assumes s: "insert_spec d h ins" and fr: "fresh w" and d: "2 \<le> d" and t: "tree_ok d (Suc h) w lo hi i"
    and dist: "distinct (ids (Suc h) w i)" and es: "entries_in lo hi es" and st: "nodes w i = Some st"
  shows "\<exists>r w'. insert_inner ins i st es w = Inr (r, w') \<and>
    grown d (Suc h) w lo hi [i] (promoted_keys r) (i # new_child_ids r) es (inserted_count r) w'"
proof -
  have t': "\<not> is_leaf st" "degree st = d" "forest (tree_ok d h w) lo hi (keys st) (children_ids st)"
    "children_of w i = children_ids st"
    using t st by (auto elim!: tree_SucE)
  obtain ess where ess: "child_entries st es = Inr ess" "forest entries_in lo hi (keys st) ess"
    "map_of (concat ess) = map_of es"
    using child_entries_ok[OF t'(3) es] by auto
  have di: "distinct (idl h w (children_ids st))" "i \<notin> set (idl h w (children_ids st))"
    using dist t'(4) by auto
  obtain rs n w1 nks ncs where c: "insert_children ins d (children_ids st) ess w = Inr (rs, n, w1)"
    "merge_promoted (keys st) (children_ids st) rs = (nks, ncs)"
    "grown d h w lo hi (children_ids st) nks ncs (concat ess) n w1"
    using insert_children_grown[OF s fr t'(3) di(1) ess(2)] by blast
  have "grown d h w lo hi (children_ids st) nks ncs es n w1" using c(3) ess(3) by (simp add: grown_def)
  from finish_inner_grown[OF this fr d t'(3) st di(2) refl t'(1,2)] c(1,2) ess(1) t'(2)
  show ?thesis by (simp add: insert_inner_finish)
qed

section \<open>Splitting a leaf\<close>

type_synonym leaf_group = "pystr \<times> pystr list \<times> bytes list"

definition leaf_group_ok :: "nat \<Rightarrow> pystr option \<Rightarrow> pystr option \<Rightarrow> leaf_group \<Rightarrow> bool" where
  "leaf_group_ok d lo hi g \<longleftrightarrow> leaf_ok d lo hi (fst (snd g)) (snd (snd g))"

definition is_leaf_group :: "nat \<Rightarrow> world \<Rightarrow> leaf_group \<Rightarrow> bool" where
  "is_leaf_group d w g \<longleftrightarrow> (case nodes w (fst g) of None \<Rightarrow> False
     | Some st \<Rightarrow> is_leaf st \<and> degree st = d \<and> keys st = fst (snd g) \<and> vals st = snd (snd g))"

definition group_kvs :: "leaf_group \<Rightarrow> entries" where
  "group_kvs g = zip (fst (snd g)) (snd (snd g))"

abbreviation first_keys :: "leaf_group list \<Rightarrow> pystr list" where
  "first_keys gs \<equiv> map (\<lambda>(_, ks, _). hd ks) gs"

lemma leaf_ok_split:
  assumes "leaf_ok D lo hi ks vs" "0 < n" "n < length ks" "n < d"
  shows "leaf_ok d lo (Some (ks ! n)) (take n ks) (take n vs)"
    "leaf_ok D (Some (ks ! n)) hi (drop n ks) (drop n vs)" "gt_lo lo (ks ! n)" "lt_hi hi (ks ! n)"
proof -
  have sp: "ks = take n ks @ ks ! n # drop (Suc n) ks" using assms(3) by (simp add: id_take_nth_drop)
  have so: "strictly_sorted (take n ks @ ks ! n # drop (Suc n) ks)" using assms(1) sp by (simp add: leaf_ok_def)
  have dr: "drop n ks = ks ! n # drop (Suc n) ks" using assms(3) by (simp add: Cons_nth_drop_Suc)
  have b: "\<forall>k \<in> set ks. ge_lo lo k \<and> lt_hi hi k" "length vs = length ks" "length ks < D"
    using assms(1) by (simp_all add: leaf_ok_def)
  have tk: "set (take n ks) \<subseteq> set ks" "set (drop n ks) \<subseteq> set ks" by (rule set_take_subset, rule set_drop_subset)
  have less: "\<forall>x \<in> set (take n ks). x < ks ! n" "\<forall>x \<in> set (drop (Suc n) ks). ks ! n < x"
    "strictly_sorted (take n ks)" "strictly_sorted (ks ! n # drop (Suc n) ks)"
    using so by (auto simp: sorted_wrt_append)
  show "leaf_ok d lo (Some (ks ! n)) (take n ks) (take n vs)"
    using b tk less assms by (auto simp: leaf_ok_def)
  show "leaf_ok D (Some (ks ! n)) hi (drop n ks) (drop n vs)"
    using b tk less dr assms(3) by (auto simp: leaf_ok_def)
  show "lt_hi hi (ks ! n)" using b assms(3) by simp
  have "ks ! 0 \<in> set ks" "ks ! 0 \<in> set (take n ks)" using assms(2,3) by (cases ks; cases n; simp)+
  then show "gt_lo lo (ks ! n)" using b less(1) bound_trans(2) by blast
qed

lemma leaf_siblings_ok:
  assumes "0 < mid" "mid < d" "ks \<noteq> []" "leaf_ok D lo hi ks vs"
  shows "\<exists>sibs. leaf_siblings mid ks vs w = Inr (sibs, w\<lparr>draws := draws w + length sibs\<rparr>) \<and>
    map fst sibs = drawn w (length sibs) \<and> sibs \<noteq> [] \<and> hd (first_keys sibs) = hd ks \<and>
    forest (leaf_group_ok d) lo hi (tl (first_keys sibs)) sibs \<and> concat (map group_kvs sibs) = zip ks vs"
  using assms(3,4)
proof (induction "length ks" arbitrary: ks vs w lo rule: less_induct)
  case less
  let ?w = "w\<lparr>draws := Suc (draws w)\<rparr>"
  have len: "length vs = length ks" using less.prems(2) by (simp add: leaf_ok_def)
  show ?case
  proof (cases "length ks \<le> mid")
    case True
    have "leaf_siblings mid ks vs w = Inr ([(uuid4 w (draws w), ks, vs)], ?w)"
      using True less.prems(1) assms(1) len
      by (subst leaf_siblings.simps) (simp add: draw_def leaf_siblings.simps[of mid "[]"])
    moreover have "leaf_ok d lo hi ks vs" using True assms(2) less.prems(2) by (simp add: leaf_ok_def)
    ultimately show ?thesis
      using less.prems by (intro exI[of _ "[(uuid4 w (draws w), ks, vs)]"])
        (simp add: drawn_def leaf_group_ok_def group_kvs_def)
  next
    case False
    then have m: "mid < length ks" by simp
    note sp = leaf_ok_split[OF less.prems(2) assms(1) m assms(2)]
    have l: "length (drop mid ks) < length ks" "drop mid ks \<noteq> []" using m assms(1) by auto
    obtain sibs where s: "leaf_siblings mid (drop mid ks) (drop mid vs) ?w = Inr (sibs, ?w\<lparr>draws := draws ?w + length sibs\<rparr>)"
      "map fst sibs = drawn ?w (length sibs)" "sibs \<noteq> []" "hd (first_keys sibs) = hd (drop mid ks)"
      "forest (leaf_group_ok d) (Some (ks ! mid)) hi (tl (first_keys sibs)) sibs"
      "concat (map group_kvs sibs) = zip (drop mid ks) (drop mid vs)"
      using less.hyps[OF l sp(2), of ?w] by auto
    let ?g = "(uuid4 w (draws w), take mid ks, take mid vs)"
    have hd: "first_keys sibs = ks ! mid # tl (first_keys sibs)"
      using s(3,4) m by (cases sibs) (auto simp: hd_drop_conv_nth)
    have "leaf_siblings mid ks vs w = Inr (?g # sibs, w\<lparr>draws := draws w + length (?g # sibs)\<rparr>)"
      using less.prems(1) assms(1) s(1) by (subst leaf_siblings.simps) (simp add: draw_def)
    moreover have "forest (leaf_group_ok d) lo hi (first_keys sibs) (?g # sibs)"
      by (subst hd) (use sp s(5) in \<open>simp add: leaf_group_ok_def\<close>)
    moreover have "concat (map group_kvs (?g # sibs)) = zip ks vs"
      using s(6) by (simp add: group_kvs_def take_zip[symmetric] drop_zip[symmetric])
    moreover have "hd (take mid ks) = hd ks" using assms(1) by simp
    ultimately show ?thesis using s(2) by (intro exI[of _ "?g # sibs"]) (simp add: drawn_Suc)
  qed
qed

lemma create_leaf_siblings_ok:
  assumes "2 \<le> d" "distinct (map fst gs)" "\<forall>g \<in> set gs. nodes w (fst g) = None"
  shows "\<exists>w'. create_leaf_siblings d nx prev gs w = Inr w' \<and> uuid4 w' = uuid4 w \<and> draws w' = draws w \<and>
    (\<forall>j. j \<notin> fst ` set gs \<longrightarrow> nodes w' j = nodes w j) \<and> (\<forall>g \<in> set gs. is_leaf_group d w' g) \<and>
    chain w' (map fst gs) nx"
  using assms
proof (induction gs arbitrary: w prev)
  case (Cons g gs)
  obtain i ks vs where g: "g = (i, ks, vs)" by (cases g) auto
  define nxt where "nxt = (case gs of [] \<Rightarrow> nx | (j, _, _) # _ \<Rightarrow> j)"
  define st where "st = \<lparr>degree = d, is_leaf = True, keys = ks, children_ids = [], vals = vs, next_id = nxt, prev_id = prev\<rparr>"
  let ?w = "put i st w"
  have c: "node_create i d True ks [] vs nxt prev w = Inr ?w"
    using Cons.prems g by (simp add: node_create_def create_state_def check_degree_def st_def)
  have nm: "i \<notin> fst ` set gs" using Cons.prems(2) g by simp
  then have "\<forall>g \<in> set gs. nodes ?w (fst g) = None" using Cons.prems(3) by (auto simp: put_def)
  with Cons.IH[of ?w i] Cons.prems obtain w' where w': "create_leaf_siblings d nx i gs ?w = Inr w'"
    "uuid4 w' = uuid4 ?w" "draws w' = draws ?w" "\<forall>j. j \<notin> fst ` set gs \<longrightarrow> nodes w' j = nodes ?w j"
    "\<forall>g \<in> set gs. is_leaf_group d w' g" "chain w' (map fst gs) nx" by auto
  have n: "nodes w' i = Some st" using w'(4) nm by (simp add: put_def)
  then have "is_leaf_group d w' g" by (simp add: is_leaf_group_def g st_def)
  moreover have "next_of w' i = nxt" using n by (simp add: next_of_def st_def)
  then have "chain w' (i # map fst gs) nx"
    using w'(6) by (cases gs) (auto simp: nxt_def)
  moreover have "create_leaf_siblings d nx prev (g # gs) w = Inr w'"
    using c w'(1) by (simp add: g nxt_def)
  ultimately show ?case using w' by (auto simp: g put_def)
qed simp

lemma leaf_level:
  assumes gr: "\<forall>g \<in> set gs. is_leaf_group d w g" and f: "forest (leaf_group_ok d) lo hi ps gs"
  shows "forest (tree_ok d 0 w) lo hi ps (map fst gs)" "contl 0 w (map fst gs) = concat (map group_kvs gs)"
proof -
  have "leaf_group_ok d lo hi g \<longleftrightarrow> tree_ok d 0 w lo hi (fst g)" "leaf_kvs w (fst g) = group_kvs g"
    if "g \<in> set gs" for lo hi g
    using gr that by (auto simp: is_leaf_group_def leaf_group_ok_def tree_ok.simps leaf_kvs_def group_kvs_def
        split: option.splits)
  then show "forest (tree_ok d 0 w) lo hi ps (map fst gs)" "contl 0 w (map fst gs) = concat (map group_kvs gs)"
    unfolding forest_map using f by (auto elim!: forest_mono simp: o_def intro!: arg_cong[of _ _ concat])
qed

lemma idl_0 [simp]: "idl 0 w js = js" "leafl 0 w js = js"
  by (induction js) auto

lemma regroup_leaf_grown:
  assumes fr: "fresh w" and t: "nodes w i = Some st"
    and f: "forest (leaf_group_ok d) lo hi ps ((i, ab) # sibs)"
    and kv: "map_of (concat (map group_kvs ((i, ab) # sibs))) = map_of (leaf_kvs w i) ++ map_of es"
      "length (concat (map group_kvs ((i, ab) # sibs))) = length (leaf_kvs w i) + n"
    and sibs: "map fst sibs = drawn w (length sibs)"
    and w3: "uuid4 w3 = uuid4 w" "draws w3 = draws w + length sibs"
      "\<forall>g \<in> set ((i, ab) # sibs). is_leaf_group d w3 g"
      "\<And>j. j \<noteq> i \<Longrightarrow> j \<notin> fst ` set sibs \<Longrightarrow> nodes w3 j = nodes w j"
    and ch: "chain w3 (i # map fst sibs) (next_id st)"
  shows "grown d 0 w lo hi [i] ps (i # map fst sibs) es n w3"
proof -
  have ss: "fst ` set sibs = new_ids w w3" using set_drawn[OF w3(1,2)] sibs by (metis list.set_map)
  have "i \<notin> fst ` set sibs" using new_ids_notin_dom[OF fr, of i w3] t ss by auto
  then have "distinct (i # map fst sibs)" using drawn_fresh(1)[OF fr, of "length sibs", folded sibs] by simp
  moreover note ll = leaf_level[OF w3(3) f]
  ultimately show ?thesis
    unfolding grown_def idl_0 using w3 kv ch ss t by (auto simp: next_of_def)
qed

lemma insert_leaf_grown:
  assumes fr: "fresh w" and d: "2 \<le> d" and t: "tree_ok d 0 w lo hi i" and es: "entries_in lo hi es"
    and st: "nodes w i = Some st"
  shows "\<exists>r w'. insert_leaf i st es w = Inr (r, w') \<and>
    grown d 0 w lo hi [i] (promoted_keys r) (i # new_child_ids r) es (inserted_count r) w'"
proof -
  have t': "is_leaf st" "degree st = d" "leaf_ok d lo hi (keys st) (vals st)" "leaf_kvs w i = zip (keys st) (vals st)"
    using t st by (auto elim!: tree_0E)
  have de: "distinct (map fst es)" using es by (simp add: entries_in_def)
  note se = sort_entries[OF de]
  obtain mks mvs n where m: "merge_entries (keys st) (vals st) (sort_key fst es) = Inr (mks, mvs, n)"
    "merged (keys st) (vals st) (sort_key fst es) mks mvs n"
    using merge_entries_merged[OF _ _ se(1), of "vals st" "keys st"] t'(3) by (auto simp: leaf_ok_def)
  have mm: "length mvs = length mks" "strictly_sorted mks" "set mks = set (keys st) \<union> fst ` set es"
    "length mks = length (leaf_kvs w i) + n" "map_of (zip mks mvs) = map_of (leaf_kvs w i) ++ map_of es"
    using m(2) se t'(3,4) by (auto simp: merged_def leaf_ok_def)
  have lk: "leaf_ok (Suc (length mks)) lo hi mks mvs"
    using mm t'(3) es by (auto simp: leaf_ok_def entries_in_def)
  note rg = regroup_leaf_grown[OF fr st]
  show ?thesis
  proof (cases "length mks < d")
    case True
    let ?w = "put i (st\<lparr>keys := mks, vals := mvs\<rparr>) w"
    have "leaf_ok d lo hi mks mvs" using lk True by (simp add: leaf_ok_def)
    then have "grown d 0 w lo hi [i] [] [i] es n ?w"
      using rg[of d lo hi "[]" "(mks, mvs)" "[]" es n ?w] mm t'
      by (simp add: leaf_group_ok_def is_leaf_group_def group_kvs_def put_def drawn_def next_of_def)
    with True m(1) t'(2) show ?thesis by (simp add: insert_leaf_def)
  next
    case False
    let ?mid = "d div 2"
    have md: "0 < ?mid" "?mid < length mks" "?mid < d" using False d by auto
    note sp = leaf_ok_split[OF lk md]
    have ne: "drop ?mid mks \<noteq> []" using md by simp
    obtain sibs where s: "leaf_siblings ?mid (drop ?mid mks) (drop ?mid mvs) w = Inr (sibs, w\<lparr>draws := draws w + length sibs\<rparr>)"
      "map fst sibs = drawn w (length sibs)" "sibs \<noteq> []" "hd (first_keys sibs) = mks ! ?mid"
      "forest (leaf_group_ok d) (Some (mks ! ?mid)) hi (tl (first_keys sibs)) sibs"
      "concat (map group_kvs sibs) = zip (drop ?mid mks) (drop ?mid mvs)"
      using leaf_siblings_ok[OF md(1,3) ne sp(2), of w] md(2) by (auto simp: hd_drop_conv_nth)
    obtain j ks vs rest where j: "sibs = (j, ks, vs) # rest" using s(3) by (cases sibs) auto
    let ?st = "st\<lparr>keys := take ?mid mks, vals := take ?mid mvs, next_id := j\<rparr>"
    let ?w1 = "put i ?st (w\<lparr>draws := draws w + length sibs\<rparr>)"
    have ids: "set (drawn w (length sibs)) = fst ` set sibs" using s(2) by (metis list.set_map)
    then have ni: "i \<notin> fst ` set sibs" using st drawn_fresh(2)[OF fr, of i "length sibs"] by (metis option.distinct(1))
    have none: "\<forall>g \<in> set sibs. nodes ?w1 (fst g) = None"
    proof
      fix g assume "g \<in> set sibs"
      then have "fst g \<in> fst ` set sibs" by simp
      then show "nodes ?w1 (fst g) = None"
        using ni drawn_fresh(2)[OF fr, of "fst g" "length sibs"] ids by (auto simp: put_def)
    qed
    obtain w3 where w3: "create_leaf_siblings d (next_id st) i sibs ?w1 = Inr w3"
      "uuid4 w3 = uuid4 ?w1" "draws w3 = draws ?w1"
      "\<forall>j. j \<notin> fst ` set sibs \<longrightarrow> nodes w3 j = nodes ?w1 j" "\<forall>g \<in> set sibs. is_leaf_group d w3 g"
      "chain w3 (map fst sibs) (next_id st)"
      using create_leaf_siblings_ok[OF d _ none, of "next_id st" i] drawn_fresh(1)[OF fr, of "length sibs", folded s(2)]
      by blast
    have n3: "nodes w3 i = Some ?st" using w3(4) ni by (simp add: put_def)
    let ?g = "(i, take ?mid mks, take ?mid mvs)"
    have fk: "first_keys sibs = mks ! ?mid # tl (first_keys sibs)" using s(3,4) by (cases sibs) auto
    have kv: "concat (map group_kvs (?g # sibs)) = zip mks mvs"
      using s(6) by (simp add: group_kvs_def take_zip[symmetric] drop_zip[symmetric])
    have "grown d 0 w lo hi [i] (first_keys sibs) (i # map fst sibs) es n w3"
    proof (rule rg[of d lo hi "first_keys sibs" "(take ?mid mks, take ?mid mvs)" sibs])
      show "forest (leaf_group_ok d) lo hi (first_keys sibs) (?g # sibs)"
        by (subst fk) (use sp s(5) in \<open>simp add: leaf_group_ok_def\<close>)
      show "map_of (concat (map group_kvs (?g # sibs))) = map_of (leaf_kvs w i) ++ map_of es"
        "length (concat (map group_kvs (?g # sibs))) = length (leaf_kvs w i) + n"
        unfolding kv using mm by simp_all
      show "\<forall>g \<in> set (?g # sibs). is_leaf_group d w3 g" using w3(5) n3 t' by (simp add: is_leaf_group_def)
      show "chain w3 (i # map fst sibs) (next_id st)" using w3(6) n3 by (simp add: j next_of_def)
    qed (use s w3 in \<open>auto simp: put_def\<close>)
    with False m(1) t'(2) s(1) w3(1) j show ?thesis by (simp add: insert_leaf_def)
  qed
qed

section \<open>Insert\<close>

lemma node_insert_spec: "2 \<le> d \<Longrightarrow> h < fuel \<Longrightarrow> insert_spec d h (node_insert fuel)"
proof (induction fuel arbitrary: h)
  case (Suc fuel)
  show ?case
    unfolding insert_spec_def
  proof (intro allI impI)
    fix w lo hi i es
    assume a: "fresh w" "tree_ok d h w lo hi i" "distinct (ids h w i)" "entries_in lo hi es"
    from a(2) obtain st where st: "nodes w i = Some st" by (cases h) (auto elim: tree_0E tree_SucE)
    have dg: "degree st = d" using a(2) st by (cases h) (auto elim: tree_0E tree_SucE)
    then have ins: "insert_state i d w = Inr st" using st Suc.prems(1) by (simp add: insert_state_def)
    show "\<exists>r w'. node_insert (Suc fuel) i es d w = Inr (r, w') \<and>
        grown d h w lo hi [i] (promoted_keys r) (i # new_child_ids r) es (inserted_count r) w'"
    proof (cases h)
      case 0
      then have "is_leaf st" using a(2) st by (auto elim: tree_0E)
      then show ?thesis using insert_leaf_grown[OF a(1) Suc.prems(1) _ a(4) st] a(2) 0 ins put_same[OF st] by simp
    next
      case (Suc h')
      then have "\<not> is_leaf st" using a(2) st by (auto elim: tree_SucE)
      moreover have "insert_spec d h' (node_insert fuel)" using Suc.IH Suc.prems Suc by simp
      ultimately show ?thesis
        using insert_inner_grown[of d h' "node_insert fuel" w lo hi i es st] a Suc.prems(1) st ins put_same[OF st] Suc by simp
    qed
  qed
qed simp

end
