(* ===== verification/Btree_Query.thy ===== *)
theory Btree_Query
  imports Btree_Insert
begin

text \<open>
  \<open>NodeServicer.Search\<close>, \<open>Remove\<close>, \<open>Range\<close> and \<open>ReverseRange\<close> on a search tree: a search finds what
  the leaves hold, a removal filters the leaves' entries and leaves the tree's shape alone, a range
  scan follows the forward chain and a reverse scan the backward chain of the leaves.
\<close>

section \<open>The child a key belongs to\<close>

lemma forest_child:
  assumes "forest P lo hi ks cs" "\<And>lo hi c. P lo hi c \<Longrightarrow> sorted_within lo hi (f c)"
  shows "\<exists>cs1 c cs2 lo' hi'. cs = cs1 @ c # cs2 \<and> length cs1 = key_index ks k \<and> P lo' hi' c \<and>
    (\<forall>e \<in> set (concat (map f cs1)). fst e < k) \<and> (\<forall>e \<in> set (concat (map f cs2)). k < fst e)"
  using assms
proof (induction P lo hi ks cs rule: forest.induct)
  case (1 P lo hi c)
  then show ?case by (fastforce simp: key_index_simps)
next
  case (2 P lo hi x ks c cs)
  then have c: "P lo (Some x) c" and cs: "forest P (Some x) hi ks cs" by auto
  have below: "\<forall>e \<in> set (f c). fst e < x" using 2(3)[OF c] by (simp add: sorted_within_def)
  have above: "\<forall>e \<in> set (concat (map f cs)). x \<le> fst e"
    using forest_sorted_within[OF cs 2(3)] by (simp add: sorted_within_def)
  show ?case
  proof (cases "x \<le> k")
    case True
    from 2 obtain cs1 c' cs2 lo' hi' where "cs = cs1 @ c' # cs2" "length cs1 = key_index ks k" "P lo' hi' c'"
      "\<forall>e \<in> set (concat (map f cs1)). fst e < k" "\<forall>e \<in> set (concat (map f cs2)). k < fst e" by auto
    moreover have "\<forall>e \<in> set (f c). fst e < k" using below True by (auto dest: less_le_trans)
    ultimately show ?thesis using True
      by (intro exI[of _ "c # cs1"] exI[of _ c'] exI[of _ cs2] exI[of _ lo'] exI[of _ hi'])
        (auto simp: key_index_simps)
  next
    case False
    then have "\<forall>e \<in> set (concat (map f cs)). k < fst e" using above by (meson less_le_trans not_le)
    with False c show ?thesis
      by (intro exI[of _ "[]"] exI[of _ c] exI[of _ cs]) (auto simp: key_index_simps)
  qed
qed auto

lemma find_child_ok:
  assumes f: "forest (tree_ok d h w) lo hi (keys st) (children_ids st)" and "\<not> is_leaf st"
  shows "\<exists>cs1 c cs2 lo' hi'. children_ids st = cs1 @ c # cs2 \<and> find_child st k = Inr c \<and>
    length cs1 = key_index (keys st) k \<and> tree_ok d h w lo' hi' c \<and>
    (\<forall>e \<in> set (contl h w cs1). fst e < k) \<and> (\<forall>e \<in> set (contl h w cs2). k < fst e)"
proof -
  obtain cs1 c cs2 lo' hi' where c: "children_ids st = cs1 @ c # cs2" "length cs1 = key_index (keys st) k"
    "tree_ok d h w lo' hi' c" "\<forall>e \<in> set (contl h w cs1). fst e < k" "\<forall>e \<in> set (contl h w cs2). k < fst e"
    using forest_child[where k = k and f = "contents h w", OF f tree_sorted_within[where d = d]] by auto
  have "bisect_right (keys st) k = length cs1"
    using bisect_right_eq[OF forest_sorted[OF f]] c(2) by (simp add: key_index_def)
  then have "find_child st k = Inr c" using assms(2) c(1) by (simp add: find_child_def Let_def)
  with c show ?thesis by blast
qed

section \<open>Search\<close>

lemma leaf_search_map_of:
  "length vs = length ks \<Longrightarrow> leaf_search k ks vs = Inr (map_of (zip ks vs) k)"
  by (induction k ks vs rule: leaf_search.induct) (auto simp: length_Suc_conv split: list.splits)

lemma map_of_none: "\<forall>e \<in> set es. fst e \<noteq> k \<Longrightarrow> map_of es k = None"
  by (auto simp: map_of_eq_None_iff)

lemma map_of_middle:
  "\<forall>e \<in> set xs. fst e < k \<Longrightarrow> \<forall>e \<in> set zs. k < fst e \<Longrightarrow> map_of (xs @ ys @ zs) k = map_of ys k"
  for k :: "'k::linorder"
  using map_of_none[of xs k] map_of_none[of zs k] by (force simp: map_add_def split: option.splits)

lemma node_search_map_of:
  "tree_ok d h w lo hi i \<Longrightarrow> h < fuel \<Longrightarrow> node_search fuel i k w = Inr (map_of (contents h w i) k)"
proof (induction h arbitrary: fuel i lo hi)
  case 0
  then show ?case
    by (cases fuel) (auto elim!: tree_0E simp: leaf_search_map_of leaf_ok_def)
next
  case (Suc h)
  obtain n where fuel: "fuel = Suc n" "h < n" using Suc.prems(2) by (cases fuel) auto
  from Suc.prems(1) obtain st where st: "nodes w i = Some st" "\<not> is_leaf st"
    "forest (tree_ok d h w) lo hi (keys st) (children_ids st)" "children_of w i = children_ids st"
    by (elim tree_SucE)
  obtain cs1 c cs2 lo' hi' where c: "children_ids st = cs1 @ c # cs2" "find_child st k = Inr c"
    "tree_ok d h w lo' hi' c" "\<forall>e \<in> set (contl h w cs1). fst e < k" "\<forall>e \<in> set (contl h w cs2). k < fst e"
    using find_child_ok[OF st(3,2), of k] by blast
  have "map_of (contents (Suc h) w i) k = map_of (contents h w c) k"
    using map_of_middle[OF c(4,5), of "contents h w c"] st(4) c(1) by simp
  then show ?case using fuel st(1,2) c(2) Suc.IH[OF c(3) fuel(2)] by simp
qed

section \<open>Remove\<close>

abbreviation drop_keys :: "pystr list \<Rightarrow> entries \<Rightarrow> entries" where
  "drop_keys ks \<equiv> filter (\<lambda>e. fst e \<notin> set ks)"

definition links :: "world \<Rightarrow> pystr \<Rightarrow> (pystr \<times> pystr) option" where
  "links w i = map_option (\<lambda>st. (next_id st, prev_id st)) (nodes w i)"

text \<open>
  \<open>shrunk h w cs ess n w'\<close>: a call removed \<open>n\<close> entries from the trees \<open>cs\<close>, whose entries are now \<open>ess\<close>, one list
  for each tree; the shape of the trees and the links of their leaves are what they were.
\<close>

definition shrunk :: "nat \<Rightarrow> world \<Rightarrow> pystr list \<Rightarrow> entries list \<Rightarrow> nat \<Rightarrow> world \<Rightarrow> bool" where
  "shrunk h w cs ess n w' \<longleftrightarrow> uuid4 w' = uuid4 w \<and> draws w' = draws w \<and>
     (\<forall>j. j \<notin> set (idl h w cs) \<longrightarrow> nodes w' j = nodes w j) \<and> (\<forall>j. links w' j = links w j) \<and>
     idl h w' cs = idl h w cs \<and> leafl h w' cs = leafl h w cs \<and>
     map (contents h w') cs = ess \<and> length (concat ess) + n = length (contl h w cs) \<and>
     (\<forall>d lo hi c. c \<in> set cs \<longrightarrow> tree_ok d h w lo hi c \<longrightarrow> tree_ok d h w' lo hi c)"

lemma shrunkD:
  assumes "shrunk h w cs ess n w'"
  shows "uuid4 w' = uuid4 w" "draws w' = draws w" "\<And>j. j \<notin> set (idl h w cs) \<Longrightarrow> nodes w' j = nodes w j"
    "\<And>j. links w' j = links w j" "idl h w' cs = idl h w cs" "leafl h w' cs = leafl h w cs"
    "map (contents h w') cs = ess" "length (concat ess) + n = length (contl h w cs)"
    "\<And>d lo hi c. c \<in> set cs \<Longrightarrow> tree_ok d h w lo hi c \<Longrightarrow> tree_ok d h w' lo hi c"
  using assms unfolding shrunk_def by blast+

lemma remove_loop_ok:
  "length vs = length xs \<Longrightarrow> \<exists>n xs' vs'. remove_loop R xs vs = Inr (xs', vs', n) \<and> length vs' = length xs' \<and>
    zip xs' vs' = filter (\<lambda>e. fst e \<notin> R) (zip xs vs) \<and> xs' = filter (\<lambda>x. x \<notin> R) xs \<and> length xs' + n = length xs"
proof (induction R xs vs rule: remove_loop.induct)
  case (2 ks x xs vs)
  then obtain v vs' where "vs = v # vs'" "length vs' = length xs" by (cases vs) auto
  with 2 show ?case by (cases "x \<in> ks") auto
qed simp

lemma remove_leaf_shrunk:
  assumes st: "nodes w i = Some st" "is_leaf st" "length (vals st) = length (keys st)"
  shows "\<exists>n w'. remove_leaf i st ks w = Inr (n, w') \<and> shrunk 0 w [i] [drop_keys ks (contents 0 w i)] n w'"
proof -
  obtain n xs vs where r: "remove_loop (set ks) (keys st) (vals st) = Inr (xs, vs, n)" "length vs = length xs"
    "zip xs vs = drop_keys ks (zip (keys st) (vals st))" "xs = filter (\<lambda>x. x \<notin> set ks) (keys st)"
    "length xs + n = length (keys st)"
    using remove_loop_ok[OF st(3), of "set ks"] by blast
  let ?w = "put i (st\<lparr>keys := xs, vals := vs\<rparr>) w"
  have "length (drop_keys ks (zip (keys st) (vals st))) = length xs" using r(2,3) by (metis length_zip min.idem)
  moreover have "length xs < m" if "length (keys st) < m" for m using r(5) that by simp
  ultimately have "shrunk 0 w [i] [drop_keys ks (contents 0 w i)] n ?w"
    using st r(2-5)
    by (auto simp: shrunk_def put_def links_def leaf_kvs_def tree_ok.simps leaf_ok_def sorted_wrt_filter)
  with r(1) show ?thesis by (simp add: remove_leaf_def)
qed

lemma shrunk_Cons:
  assumes s1: "shrunk h w [c] [es] n w1" and s2: "shrunk h w1 cs ess m w2"
    and dist: "distinct (idl h w (c # cs))"
  shows "shrunk h w (c # cs) (es # ess) (n + m) w2"
proof -
  have same: "\<forall>j \<in> set (idl h w cs). nodes w1 j = nodes w j"
    using dist shrunkD(3)[OF s1] by auto
  note c1 = forest_cong[OF same]
  have i1: "ids h w1 c = ids h w c" using shrunkD(5)[OF s1] by simp
  have same2: "\<forall>j \<in> set (ids h w1 c). nodes w2 j = nodes w1 j"
    using dist shrunkD(3)[OF s2] c1(1) i1 by auto
  note c2 = tree_cong[OF same2]
  have t: "tree_ok d h w2 lo hi c'" if c': "c' \<in> set (c # cs)" "tree_ok d h w lo hi c'" for d lo hi c'
  proof (cases "c' = c")
    case True
    then show ?thesis using that shrunkD(9)[OF s1] c2(4) by simp
  next
    case False
    then have m: "c' \<in> set cs" using c' by simp
    then have "\<forall>j \<in> set (ids h w c'). nodes w1 j = nodes w j" using same by auto
    from tree_cong(4)[OF this] shrunkD(9)[OF s2 m] c'(2) show ?thesis by blast
  qed
  have "nodes w2 j = nodes w j" if "j \<notin> set (idl h w (c # cs))" for j
    using that shrunkD(3)[OF s1, of j] shrunkD(3)[OF s2, of j] c1(1) by simp
  moreover have "map (contents h w2) (c # cs) = es # ess"
    using shrunkD(7)[OF s1] shrunkD(7)[OF s2] c2(3) by simp
  ultimately show ?thesis
    unfolding shrunk_def using shrunkD[OF s1] shrunkD[OF s2] t c1 c2 by simp
qed

lemma shrunk_refl: "shrunk h w cs (map (contents h w) cs) 0 w"
  by (simp add: shrunk_def)

lemma remove_children_shrunk:
  assumes rem: "\<And>w lo hi c ks. tree_ok d h w lo hi c \<Longrightarrow> distinct (ids h w c) \<Longrightarrow>
      \<exists>n w'. rem c ks w = Inr (n, w') \<and> shrunk h w [c] [drop_keys ks (contents h w c)] n w'"
    and "\<forall>c \<in> set cs. \<exists>lo hi. tree_ok d h w lo hi c" "distinct (idl h w cs)" "length kss = length cs"
  shows "\<exists>n w'. remove_children rem cs kss w = Inr (n, w') \<and>
    shrunk h w cs (map2 (\<lambda>c ks. drop_keys ks (contents h w c)) cs kss) n w'"
  using assms(2-)
proof (induction cs arbitrary: kss w)
  case Nil
  then show ?case by (simp add: shrunk_def)
next
  case (Cons c cs)
  then obtain ks kss' where kss: "kss = ks # kss'" "length kss' = length cs" by (cases kss) auto
  obtain n w1 where s1: "shrunk h w [c] [drop_keys ks (contents h w c)] n w1"
    and r: "remove_children rem (c # cs) kss w =
      rbind (remove_children rem cs kss' w1) (\<lambda>(m, w2). Inr (n + m, w2))"
  proof (cases "ks = []")
    case True
    have e: "shrunk h w [c] [drop_keys ks (contents h w c)] 0 w" using True shrunk_refl[of h w "[c]"] by simp
    have "rbind r (\<lambda>(m, w2). Inr (0 + m, w2)) = r" for r :: "node_error + (nat \<times> world)" by (cases r) auto
    with True show thesis using that[OF e] kss(1) by simp
  next
    case False
    obtain lo hi where "tree_ok d h w lo hi c" using Cons.prems(1) by auto
    moreover have "distinct (ids h w c)" using Cons.prems(2) by simp
    ultimately obtain n w1 where "rem c ks w = Inr (n, w1)" "shrunk h w [c] [drop_keys ks (contents h w c)] n w1"
      using rem by blast
    with False show thesis using that[of n w1] kss(1) by simp
  qed
  have same: "\<forall>j \<in> set (idl h w cs). nodes w1 j = nodes w j"
    using Cons.prems(2) shrunkD(3)[OF s1] by auto
  have same': "\<forall>j \<in> set (ids h w c'). nodes w1 j = nodes w j" if "c' \<in> set cs" for c'
    using same that by auto
  have "\<forall>c \<in> set cs. \<exists>lo hi. tree_ok d h w1 lo hi c" using Cons.prems(1) tree_cong(4)[OF same'] by auto
  then obtain m w2 where s2: "remove_children rem cs kss' w1 = Inr (m, w2)"
    "shrunk h w1 cs (map2 (\<lambda>c ks. drop_keys ks (contents h w1 c)) cs kss') m w2"
    using Cons.IH[of w1 kss'] Cons.prems(2) kss(2) by (auto simp: forest_cong(1)[OF same])
  have "map2 (\<lambda>c ks. drop_keys ks (contents h w1 c)) cs kss' = map2 (\<lambda>c ks. drop_keys ks (contents h w c)) cs kss'"
    using tree_cong(3)[OF same'] by (auto dest: set_zip_leftD)
  with shrunk_Cons[OF s1 s2(2) Cons.prems(2)] s2(1) r kss(1) show ?case by simp
qed

lemma contents_key_index:
  assumes f: "forest (tree_ok d h w) lo hi ks cs" and j: "j < length cs" and e: "e \<in> set (contents h w (cs ! j))"
  shows "key_index ks (fst e) = j"
proof -
  obtain cs1 c cs2 where c: "cs = cs1 @ c # cs2" "length cs1 = key_index ks (fst e)"
    "\<forall>e' \<in> set (contl h w cs1). fst e' < fst e" "\<forall>e' \<in> set (contl h w cs2). fst e < fst e'"
    using forest_child[where k = "fst e" and f = "contents h w", OF f tree_sorted_within[where d = d]] by auto
  have "cs ! j \<notin> set cs1" "cs ! j \<notin> set cs2" using c(3,4) e by auto
  moreover have "cs ! j \<in> set cs1" if "j < length cs1" using that c(1) by (simp add: nth_append)
  moreover have "cs ! j \<in> set cs2" if "length cs1 < j" using that c(1) j
    by (auto simp: nth_append nth_Cons' intro!: nth_mem)
  ultimately show ?thesis using c(2) by (metis linorder_neqE_nat)
qed

lemma child_keys_ok:
  assumes f: "forest (tree_ok d h w) lo hi (keys st) (children_ids st)"
  shows "\<exists>kss. child_keys st ks = Inr kss \<and> length kss = length (children_ids st) \<and>
    map2 (\<lambda>c ks. drop_keys ks (contents h w c)) (children_ids st) kss =
    map (\<lambda>c. drop_keys ks (contents h w c)) (children_ids st)"
proof -
  let ?kss = "map (\<lambda>i. filter (\<lambda>k. key_index (keys st) k = i) ks) [0..<length (children_ids st)]"
  have b: "bisect_right (keys st) x = key_index (keys st) x" for x
    using bisect_right_eq[OF forest_sorted[OF f]] by (simp add: key_index_def)
  have "child_keys st ks = Inr ?kss"
    unfolding child_keys_def b using key_index_le[of "keys st"] forest_length[OF f]
    by (auto simp: list_ex_iff Suc_le_eq not_less)
  moreover have "drop_keys (?kss ! j) (contents h w (children_ids st ! j)) =
      drop_keys ks (contents h w (children_ids st ! j))" if j: "j < length (children_ids st)" for j
    using contents_key_index[OF f j] j by (auto intro!: filter_cong)
  ultimately show ?thesis by (intro exI[of _ ?kss]) (auto intro!: nth_equalityI)
qed

lemma shrunk_up:
  assumes s: "shrunk h w cs ess n w'" and st: "nodes w i = Some st" "children_ids st = cs" "i \<notin> set (idl h w cs)"
    and f: "\<And>d lo hi. tree_ok d (Suc h) w lo hi i \<Longrightarrow> forest (tree_ok d h w') lo hi (keys st) cs"
  shows "shrunk (Suc h) w [i] [concat ess] n w'"
proof -
  have "nodes w' i = Some st" using shrunkD(3)[OF s st(3)] st(1) by simp
  then have ch: "children_of w' i = cs" "children_of w i = cs" "nodes w' i = Some st"
    using st by (simp_all add: children_of_def)
  then have "tree_ok d (Suc h) w' lo hi i" if "tree_ok d (Suc h) w lo hi i" for d lo hi
    using f[OF that] that st(1,2) by (auto simp: tree_ok.simps)
  with ch shrunkD[OF s] st show ?thesis
    unfolding shrunk_def by (simp add: concat_map_singleton)
qed

lemma node_remove_shrunk:
  "tree_ok d h w lo hi i \<Longrightarrow> distinct (ids h w i) \<Longrightarrow> h < fuel \<Longrightarrow>
    \<exists>n w'. node_remove fuel i ks w = Inr (n, w') \<and> shrunk h w [i] [drop_keys ks (contents h w i)] n w'"
proof (induction h arbitrary: fuel i lo hi w ks)
  case 0
  then obtain m where fuel: "fuel = Suc m" by (cases fuel) auto
  from 0(1) obtain st where st: "nodes w i = Some st" "is_leaf st" "leaf_ok d lo hi (keys st) (vals st)"
    by (elim tree_0E)
  then show ?case using remove_leaf_shrunk[OF st(1,2)] put_same[OF st(1)] fuel by (simp add: leaf_ok_def)
next
  case (Suc h)
  obtain m where fuel: "fuel = Suc m" "h < m" using Suc.prems(3) by (cases fuel) auto
  from Suc.prems(1) obtain st where st: "nodes w i = Some st" "\<not> is_leaf st"
    "forest (tree_ok d h w) lo hi (keys st) (children_ids st)" "children_of w i = children_ids st"
    by (elim tree_SucE)
  obtain kss where k: "child_keys st ks = Inr kss" "length kss = length (children_ids st)"
    "map2 (\<lambda>c ks. drop_keys ks (contents h w c)) (children_ids st) kss =
      map (\<lambda>c. drop_keys ks (contents h w c)) (children_ids st)"
    using child_keys_ok[OF st(3)] by blast
  have di: "distinct (idl h w (children_ids st))" "i \<notin> set (idl h w (children_ids st))"
    using Suc.prems(2) st(4) by auto
  obtain n w' where r: "remove_children (node_remove m) (children_ids st) kss w = Inr (n, w')"
    "shrunk h w (children_ids st) (map (\<lambda>c. drop_keys ks (contents h w c)) (children_ids st)) n w'"
    using remove_children_shrunk[of d h "node_remove m" "children_ids st" w kss] Suc.IH fuel(2)
      forest_member[OF st(3)] di(1) k(2,3) by metis
  have "shrunk (Suc h) w [i] [concat (map (\<lambda>c. drop_keys ks (contents h w c)) (children_ids st))] n w'"
  proof (rule shrunk_up[OF r(2) st(1) refl di(2)])
    fix d lo hi assume "tree_ok d (Suc h) w lo hi i"
    then have "forest (tree_ok d h w) lo hi (keys st) (children_ids st)" using st(1) by (auto elim!: tree_SucE)
    then show "forest (tree_ok d h w') lo hi (keys st) (children_ids st)"
      using forest_mono shrunkD(9)[OF r(2)] by blast
  qed
  moreover have "concat (map (\<lambda>c. drop_keys ks (contents h w c)) (children_ids st)) =
      drop_keys ks (contents (Suc h) w i)" using st(4) by (simp add: filter_concat o_def)
  ultimately show ?case using r(1) k(1) st(1,2) put_same[OF st(1)] fuel(1) by (simp add: remove_inner_def)
qed

section \<open>Range\<close>

lemma contl_leaves: "concat (map (leaf_kvs w) (leaves h w i)) = contents h w i"
proof (induction h arbitrary: i)
  case (Suc h)
  have "concat (map (leaf_kvs w) (leafl h w cs)) = contl h w cs" for cs
    using Suc by (induction cs) auto
  then show ?case by simp
qed simp

definition is_leaf_node :: "world \<Rightarrow> pystr \<Rightarrow> bool" where
  "is_leaf_node w l \<longleftrightarrow> (case nodes w l of None \<Rightarrow> False
     | Some st \<Rightarrow> is_leaf st \<and> length (vals st) = length (keys st) \<and> strictly_sorted (keys st))"

lemma leaves_are_leaves: "tree_ok d h w lo hi i \<Longrightarrow> l \<in> set (leaves h w i) \<Longrightarrow> is_leaf_node w l"
proof (induction h arbitrary: i lo hi)
  case 0
  then show ?case by (auto elim!: tree_0E simp: is_leaf_node_def leaf_ok_def)
next
  case (Suc h)
  from Suc.prems(1) obtain st :: node where st: "forest (tree_ok d h w) lo hi (keys st) (children_ids st)"
    "children_of w i = children_ids st" by (elim tree_SucE)
  with Suc.prems(2) obtain c where "c \<in> set (children_ids st)" "l \<in> set (leaves h w c)" by auto
  with forest_member[OF st(1)] Suc.IH show ?case by blast
qed

lemma sorted_filter_ge:
  "strictly_sorted (map fst es) \<Longrightarrow> filter (\<lambda>e. k \<le> fst e) es = drop (length (takeWhile (\<lambda>y. y < k) (map fst es))) es"
  for k :: "'k::linorder"
proof (induction es)
  case (Cons e es)
  show ?case
  proof (cases "fst e < k")
    case False
    then have "\<forall>x \<in> set es. k \<le> fst x" using Cons.prems by (auto dest: order.strict_trans1[of k "fst e"])
    with False show ?thesis by (simp add: not_less)
  qed (use Cons in auto)
qed simp

lemma sorted_filter_le:
  "strictly_sorted (map fst es) \<Longrightarrow> filter (\<lambda>e. fst e \<le> k) es = take (length (takeWhile (\<lambda>y. y \<le> k) (map fst es))) es"
  for k :: "'k::linorder"
proof (induction es)
  case (Cons e es)
  show ?case
  proof (cases "fst e \<le> k")
    case False
    then have "\<forall>x \<in> set es. \<not> fst x \<le> k" using Cons.prems by (auto dest: order.strict_trans1)
    with False show ?thesis by simp
  qed (use Cons in auto)
qed simp

lemma is_leaf_nodeE:
  assumes "is_leaf_node w l"
  obtains st where "nodes w l = Some st" "is_leaf st" "length (vals st) = length (keys st)"
    "strictly_sorted (keys st)" "leaf_kvs w l = zip (keys st) (vals st)" "map fst (leaf_kvs w l) = keys st"
    "next_of w l = next_id st"
  using assms by (auto simp: is_leaf_node_def leaf_kvs_def next_of_def split: option.splits)

abbreviation from_key :: "pystr \<Rightarrow> entries \<Rightarrow> entries" where
  "from_key k \<equiv> filter (\<lambda>e. k \<le> fst e)"

lemma bisect_left_start:
  "strictly_sorted ks \<Longrightarrow> (if k = [] then 0 else bisect_left ks k) = length (takeWhile (\<lambda>y. y < k) ks)"
  for k :: pystr
  by (cases ks) (auto simp: bisect_left_eq)

lemma leaf_range:
  assumes "nodes w l = Some st" "is_leaf st" "length (vals st) = length (keys st)" "strictly_sorted (keys st)"
    and kv: "leaf_kvs w l = zip (keys st) (vals st)" "map fst (leaf_kvs w l) = keys st" and "0 < limit"
  shows "node_range (Suc fuel) l k limit w =
    (let es = take limit (from_key k (leaf_kvs w l)) in
     if length es < limit \<and> next_id st \<noteq> [] then
       rbind (node_range fuel (next_id st) k (limit - length es) w) (\<lambda>more. Inr (es @ more))
     else Inr es)"
proof -
  let ?z = "leaf_kvs w l" let ?n = "length (takeWhile (\<lambda>y. y < k) (keys st))"
  have len: "length ?z = length (keys st)" "?n \<le> length (keys st)"
    using kv(2) by (metis length_map) (rule length_takeWhile_le)
  have "from_key k ?z = drop ?n ?z" using sorted_filter_ge[of ?z k] assms(4) kv(2) by simp
  moreover have "drop ?n (take (min (length (keys st)) (?n + limit)) ?z) = take limit (drop ?n ?z)"
    using len by (simp add: drop_take min_def)
  ultimately have "leaf_entries st ?n (min (length (keys st)) (?n + limit)) = Inr (take limit (from_key k ?z))"
    using assms(3) kv(1) by (simp add: leaf_entries_def)
  then show ?thesis
    using assms(1,2,7) bisect_left_start[OF assms(4), of k] by (simp add: Let_def)
qed

lemma range_chain:
  assumes "\<forall>l \<in> set ls. is_leaf_node w l \<and> l \<noteq> []" "chain w ls []" "ls \<noteq> []" "0 < limit" "length ls \<le> fuel"
  shows "node_range fuel (hd ls) k limit w = Inr (take limit (from_key k (concat (map (leaf_kvs w) ls))))"
  using assms
proof (induction ls arbitrary: fuel limit)
  case (Cons l ls)
  obtain n where fuel: "fuel = Suc n" "length ls \<le> n" using Cons.prems(5) by (cases fuel) auto
  have "is_leaf_node w l" using Cons.prems(1) by simp
  then obtain st where st: "nodes w l = Some st" "is_leaf st" "length (vals st) = length (keys st)"
    "strictly_sorted (keys st)" "leaf_kvs w l = zip (keys st) (vals st)" "map fst (leaf_kvs w l) = keys st"
    "next_of w l = next_id st" by (elim is_leaf_nodeE)
  note lr = leaf_range[OF st(1-6) Cons.prems(4), of n k]
  let ?es = "take limit (from_key k (leaf_kvs w l))"
  show ?case
  proof (cases ls)
    case Nil
    then have "next_id st = []" using Cons.prems(2) st(7) by simp
    then show ?thesis using lr fuel Nil by (simp add: Let_def)
  next
    case (Cons l' ls')
    have nx: "next_id st = hd ls" "chain w ls []" "ls \<noteq> []" "hd ls \<noteq> []"
      using Cons.prems(1,2) st(7) Cons by auto
    show ?thesis
    proof (cases "length ?es < limit")
      case True
      then have short: "length (from_key k (leaf_kvs w l)) < limit" by auto
      have "node_range n (hd ls) k (limit - length ?es) w =
          Inr (take (limit - length ?es) (from_key k (concat (map (leaf_kvs w) ls))))"
        using Cons.IH[OF _ nx(2,3) _ fuel(2)] Cons.prems(1) True by simp
      then show ?thesis using lr nx(1,4) fuel(1) True short by (simp add: Let_def)
    next
      case False
      then have "limit \<le> length (from_key k (leaf_kvs w l))" by auto
      then show ?thesis using lr fuel(1) False by (simp add: Let_def)
    qed
  qed
qed simp

text \<open>The descent from the root to the leaf where the scan starts.\<close>

lemma range_descend:
  "tree_ok d h w lo hi i \<Longrightarrow> \<exists>ls1 l ls2. leaves h w i = ls1 @ l # ls2 \<and>
    (\<forall>e \<in> set (concat (map (leaf_kvs w) ls1)). fst e < k) \<and>
    (\<forall>fuel limit. 0 < limit \<longrightarrow> node_range (h + fuel) i k limit w = node_range fuel l k limit w)"
proof (induction h arbitrary: i lo hi)
  case 0
  then show ?case by (intro exI[of _ "[]"] exI[of _ i]) simp
next
  case (Suc h)
  from Suc.prems(1) obtain st where st: "nodes w i = Some st" "\<not> is_leaf st"
    "forest (tree_ok d h w) lo hi (keys st) (children_ids st)" "children_of w i = children_ids st"
    by (elim tree_SucE)
  obtain cs1 c cs2 lo' hi' where c: "children_ids st = cs1 @ c # cs2" "tree_ok d h w lo' hi' c"
    "\<forall>e \<in> set (contl h w cs1). fst e < k"
    "(if k = [] then (case children_ids st of [] \<Rightarrow> Inl IndexError | c # _ \<Rightarrow> Inr c) else find_child st k) = Inr c"
  proof (cases "k = []")
    case True
    obtain c cs2 where "children_ids st = c # cs2" using st(3) by (cases "children_ids st") auto
    then show thesis using that[of "[]" c cs2] forest_member[OF st(3), of c] True by auto
  next
    case False
    then show thesis using that find_child_ok[OF st(3,2), of k] by auto
  qed
  obtain ls1 l ls2 where l: "leaves h w c = ls1 @ l # ls2"
    "\<forall>e \<in> set (concat (map (leaf_kvs w) ls1)). fst e < k"
    "\<And>fuel limit. 0 < limit \<Longrightarrow> node_range (h + fuel) c k limit w = node_range fuel l k limit w"
    using Suc.IH[OF c(2)] by blast
  have lc: "concat (map (leaf_kvs w) (leafl h w cs)) = contl h w cs" for cs
    using contl_leaves by (induction cs) auto
  have "leaves (Suc h) w i = (leafl h w cs1 @ ls1) @ l # (ls2 @ leafl h w cs2)"
    using st(4) c(1) l(1) by simp
  moreover have "\<forall>e \<in> set (concat (map (leaf_kvs w) (leafl h w cs1 @ ls1))). fst e < k"
    using c(3) l(2) unfolding map_append concat_append lc by auto
  moreover have "node_range (Suc h + fuel) i k limit w = node_range fuel l k limit w" if "0 < limit" for fuel limit
    using st(1,2) that l(3)[OF that] by (simp add: c(4))
  ultimately show ?case by blast
qed

lemma chain_suffix: "chain w (ls @ ms) nxt \<Longrightarrow> chain w ms nxt"
  by (cases "ls = []"; cases "ms = []") (auto simp: chain_append)

lemma node_range_ok:
  assumes t: "tree_ok d h w lo hi i" and ch: "chain w (leaves h w i) []" and ne: "nodes w [] = None"
    and "0 < limit" and fuel: "h + length (leaves h w i) \<le> fuel"
  shows "node_range fuel i k limit w = Inr (take limit (from_key k (contents h w i)))"
proof -
  obtain ls1 l ls2 where l: "leaves h w i = ls1 @ l # ls2"
    "\<forall>e \<in> set (concat (map (leaf_kvs w) ls1)). fst e < k"
    "\<And>fuel limit. 0 < limit \<Longrightarrow> node_range (h + fuel) i k limit w = node_range fuel l k limit w"
    using range_descend[OF t, of k] by blast
  have lv: "\<forall>x \<in> set (l # ls2). is_leaf_node w x \<and> x \<noteq> []"
  proof
    fix x assume "x \<in> set (l # ls2)"
    then have "is_leaf_node w x" using leaves_are_leaves[OF t, of x] l(1) by auto
    then show "is_leaf_node w x \<and> x \<noteq> []" using ne by (auto simp: is_leaf_node_def)
  qed
  obtain m where m: "fuel = h + m" "length (l # ls2) \<le> m"
    using fuel l(1) le_iff_add[of h fuel] by auto
  have "node_range m l k limit w = Inr (take limit (from_key k (concat (map (leaf_kvs w) (l # ls2)))))"
    using range_chain[OF lv chain_suffix _ \<open>0 < limit\<close> m(2), of ls1 k] ch l(1) by simp
  moreover have "from_key k (concat (map (leaf_kvs w) ls1)) = []"
    using l(2) by (auto simp: filter_empty_conv dest: leD)
  then have "from_key k (contents h w i) = from_key k (concat (map (leaf_kvs w) (l # ls2)))"
    unfolding contl_leaves[symmetric] l(1) map_append concat_append filter_append by simp
  ultimately show ?thesis using l(3)[OF \<open>0 < limit\<close>] m(1) by simp
qed

section \<open>ReverseRange\<close>

definition prev_of :: "world \<Rightarrow> pystr \<Rightarrow> pystr" where
  "prev_of w i = (case nodes w i of None \<Rightarrow> [] | Some st \<Rightarrow> prev_id st)"

text \<open>The backward chain of leaves given from right to left.\<close>

fun back_chain :: "world \<Rightarrow> pystr list \<Rightarrow> bool" where
  "back_chain w [] = True"
| "back_chain w [l] = (prev_of w l = [])"
| "back_chain w (l # m # ls) = (prev_of w l = m \<and> back_chain w (m # ls))"

lemma back_chain_suffix: "back_chain w (ls @ ms) \<Longrightarrow> back_chain w ms"
proof (induction ls)
  case (Cons l ls)
  then show ?case by (cases "ls @ ms") auto
qed simp

definition upto_key :: "pystr \<Rightarrow> entries \<Rightarrow> entries" where
  "upto_key k es = filter (\<lambda>e. k = [] \<or> fst e \<le> k) es"

lemma upto_key_append: "upto_key k (xs @ ys) = upto_key k xs @ upto_key k ys"
  by (simp add: upto_key_def)

lemma leaf_reverse_range:
  assumes "nodes w l = Some st" "is_leaf st" "length (vals st) = length (keys st)" "strictly_sorted (keys st)"
    and kv: "leaf_kvs w l = zip (keys st) (vals st)" "map fst (leaf_kvs w l) = keys st" and "0 < limit"
  shows "node_reverse_range (Suc fuel) l k limit w =
    (let es = take limit (rev (upto_key k (leaf_kvs w l))) in
     if length es < limit \<and> prev_id st \<noteq> [] then
       rbind (node_reverse_range fuel (prev_id st) k (limit - length es) w) (\<lambda>more. Inr (es @ more))
     else Inr es)"
proof -
  let ?z = "leaf_kvs w l"
  define n where "n = (if k = [] then length (keys st) else bisect_right (keys st) k)"
  have len: "length ?z = length (keys st)" using kv(2) by (metis length_map)
  have up: "upto_key k ?z = take n ?z"
    using sorted_filter_le[of ?z k] assms(4) kv(2) len by (auto simp: upto_key_def bisect_right_eq n_def)
  have n: "n \<le> length (keys st)" using assms(4) by (simp add: bisect_right_eq length_takeWhile_le n_def)
  obtain found where f: "leaf_entries st (n - limit) n = Inr found" "rev found = take limit (rev (upto_key k ?z))"
  proof
    show "leaf_entries st (n - limit) n = Inr (drop (n - limit) (take n ?z))"
      using n assms(3) kv(1) by (auto simp: leaf_entries_def)
    show "rev (drop (n - limit) (take n ?z)) = take limit (rev (upto_key k ?z))"
      unfolding up using n len by (simp add: take_rev)
  qed
  have "node_reverse_range (Suc fuel) l k limit w =
      rbind (leaf_entries st (n - limit) n) (\<lambda>found. let es = rev found; remaining = limit - length es
        in if remaining > 0 \<and> prev_id st \<noteq> [] then
             rbind (node_reverse_range fuel (prev_id st) k remaining w) (\<lambda>more. Inr (es @ more))
           else Inr es)"
    using assms(1,2,7) by (simp add: n_def Let_def)
  then show ?thesis unfolding f(1) rbind_simps f(2) Let_def by simp
qed

lemma reverse_range_chain:
  assumes "\<forall>l \<in> set ls. is_leaf_node w l \<and> l \<noteq> []" "back_chain w ls" "ls \<noteq> []" "0 < limit" "length ls \<le> fuel"
  shows "node_reverse_range fuel (hd ls) k limit w =
    Inr (take limit (rev (upto_key k (concat (map (leaf_kvs w) (rev ls))))))"
  using assms
proof (induction ls arbitrary: fuel limit)
  case (Cons l ls)
  obtain n where fuel: "fuel = Suc n" "length ls \<le> n" using Cons.prems(5) by (cases fuel) auto
  have "is_leaf_node w l" using Cons.prems(1) by simp
  then obtain st where st: "nodes w l = Some st" "is_leaf st" "length (vals st) = length (keys st)"
    "strictly_sorted (keys st)" "leaf_kvs w l = zip (keys st) (vals st)" "map fst (leaf_kvs w l) = keys st"
    by (elim is_leaf_nodeE)
  have pv: "prev_of w l = prev_id st" using st(1) by (simp add: prev_of_def)
  note lr = leaf_reverse_range[OF st(1-6) Cons.prems(4), of n k]
  let ?es = "take limit (rev (upto_key k (leaf_kvs w l)))"
  show ?case
  proof (cases ls)
    case Nil
    then have "prev_id st = []" using Cons.prems(2) pv by simp
    then show ?thesis using lr fuel Nil by (simp add: Let_def)
  next
    case (Cons l' ls')
    have nx: "prev_id st = hd ls" "back_chain w ls" "ls \<noteq> []" "hd ls \<noteq> []"
      using Cons.prems(1,2) pv Cons by auto
    show ?thesis
    proof (cases "length ?es < limit")
      case True
      then have short: "length (upto_key k (leaf_kvs w l)) < limit" by auto
      have "node_reverse_range n (hd ls) k (limit - length ?es) w =
          Inr (take (limit - length ?es) (rev (upto_key k (concat (map (leaf_kvs w) (rev ls))))))"
        using Cons.IH[OF _ nx(2,3) _ fuel(2)] Cons.prems(1) True by simp
      then show ?thesis using lr nx(1,4) fuel(1) True short by (simp add: Let_def upto_key_append)
    next
      case False
      then have "limit \<le> length (upto_key k (leaf_kvs w l))" by auto
      then show ?thesis using lr fuel(1) False by (simp add: Let_def upto_key_append)
    qed
  qed
qed simp

lemma reverse_range_descend:
  "tree_ok d h w lo hi i \<Longrightarrow> \<exists>ls1 l ls2. leaves h w i = ls1 @ l # ls2 \<and>
    upto_key k (concat (map (leaf_kvs w) ls2)) = [] \<and>
    (\<forall>fuel limit. 0 < limit \<longrightarrow> node_reverse_range (h + fuel) i k limit w = node_reverse_range fuel l k limit w)"
proof (induction h arbitrary: i lo hi)
  case 0
  then show ?case by (intro exI[of _ "[]"] exI[of _ i]) (simp add: upto_key_def)
next
  case (Suc h)
  from Suc.prems(1) obtain st where st: "nodes w i = Some st" "\<not> is_leaf st"
    "forest (tree_ok d h w) lo hi (keys st) (children_ids st)" "children_of w i = children_ids st"
    by (elim tree_SucE)
  obtain cs1 c cs2 lo' hi' where c: "children_ids st = cs1 @ c # cs2" "tree_ok d h w lo' hi' c"
    "upto_key k (contl h w cs2) = []"
    "(if k = [] then (case rev (children_ids st) of [] \<Rightarrow> Inl IndexError | c # _ \<Rightarrow> Inr c) else find_child st k) = Inr c"
  proof (cases "k = []")
    case True
    obtain c cs1 where "children_ids st = cs1 @ [c]" using st(3) by (cases "children_ids st" rule: rev_cases) auto
    then show thesis using that[of cs1 c "[]"] forest_member[OF st(3), of c] True by (auto simp: upto_key_def)
  next
    case False
    then show thesis using that find_child_ok[OF st(3,2), of k]
      by (fastforce simp: upto_key_def filter_empty_conv dest: leD)
  qed
  obtain ls1 l ls2 where l: "leaves h w c = ls1 @ l # ls2" "upto_key k (concat (map (leaf_kvs w) ls2)) = []"
    "\<And>fuel limit. 0 < limit \<Longrightarrow> node_reverse_range (h + fuel) c k limit w = node_reverse_range fuel l k limit w"
    using Suc.IH[OF c(2)] by blast
  have lc: "concat (map (leaf_kvs w) (leafl h w cs)) = contl h w cs" for cs
    using contl_leaves by (induction cs) auto
  have "leaves (Suc h) w i = (leafl h w cs1 @ ls1) @ l # (ls2 @ leafl h w cs2)"
    using st(4) c(1) l(1) by simp
  moreover have "upto_key k (concat (map (leaf_kvs w) (ls2 @ leafl h w cs2))) = []"
    using c(3) l(2) unfolding map_append concat_append lc upto_key_append by simp
  moreover have "node_reverse_range (Suc h + fuel) i k limit w = node_reverse_range fuel l k limit w" if "0 < limit" for fuel limit
    using st(1,2) that l(3)[OF that] by (simp add: c(4))
  ultimately show ?case by blast
qed

lemma node_reverse_range_ok:
  assumes t: "tree_ok d h w lo hi i" and ch: "back_chain w (rev (leaves h w i))" and ne: "nodes w [] = None"
    and "0 < limit" and fuel: "h + length (leaves h w i) \<le> fuel"
  shows "node_reverse_range fuel i k limit w = Inr (take limit (rev (upto_key k (contents h w i))))"
proof -
  obtain ls1 l ls2 where l: "leaves h w i = ls1 @ l # ls2" "upto_key k (concat (map (leaf_kvs w) ls2)) = []"
    "\<And>fuel limit. 0 < limit \<Longrightarrow> node_reverse_range (h + fuel) i k limit w = node_reverse_range fuel l k limit w"
    using reverse_range_descend[OF t, of k] by blast
  let ?ls = "l # rev ls1"
  have lv: "\<forall>x \<in> set ?ls. is_leaf_node w x \<and> x \<noteq> []"
  proof
    fix x assume "x \<in> set ?ls"
    then have "is_leaf_node w x" using leaves_are_leaves[OF t, of x] l(1) by auto
    then show "is_leaf_node w x \<and> x \<noteq> []" using ne by (auto simp: is_leaf_node_def)
  qed
  obtain m where m: "fuel = h + m" "length ?ls \<le> m"
    using fuel l(1) le_iff_add[of h fuel] by auto
  have bc: "back_chain w ?ls" using ch l(1) back_chain_suffix[of w "rev ls2" ?ls] by simp
  have "node_reverse_range m l k limit w = Inr (take limit (rev (upto_key k (concat (map (leaf_kvs w) (ls1 @ [l]))))))"
    using reverse_range_chain[OF lv bc _ \<open>0 < limit\<close> m(2), of k] by simp
  moreover have "upto_key k (contents h w i) = upto_key k (concat (map (leaf_kvs w) (ls1 @ [l])))"
    unfolding contl_leaves[symmetric] l(1) using l(2) by (simp add: upto_key_append)
  ultimately show ?thesis using l(3)[OF \<open>0 < limit\<close>] m(1) by simp
qed

section \<open>Splits and the backward chain\<close>

lemma create_leaf_siblings_keeps:
  "create_leaf_siblings d nx prev gs w = Inr w' \<Longrightarrow> nodes w i \<noteq> None \<Longrightarrow> nodes w' i = nodes w i"
proof (induction d nx prev gs w arbitrary: w' rule: create_leaf_siblings.induct)
  case (2 d old_next prev j ks vs rest w)
  let ?nxt = "case rest of [] \<Rightarrow> old_next | (j, _, _) # _ \<Rightarrow> j"
  from "2.prems"(1) obtain w1 where w1: "node_create j d True ks [] vs ?nxt prev w = Inr w1"
    "create_leaf_siblings d old_next j rest w1 = Inr w'" by (auto simp: rbind_eq_Inr_iff)
  then have "nodes w1 i = nodes w i" using "2.prems"(2) by (auto simp: node_create_def put_def rbind_eq_Inr_iff split: if_splits)
  with "2.IH"[OF w1] "2.prems"(2) show ?case by simp
qed simp

text \<open>A leaf that is split keeps the first half of its degree, and its own link backward.\<close>

lemma insert_leaf_split:
  assumes "insert_leaf i st es w = Inr (r, w')" "new_child_ids r \<noteq> []" "leaf_ok d lo hi (keys st) (vals st)" "distinct (map fst es)"
  obtains st' where "nodes w' i = Some st'" "prev_id st' = prev_id st" "length (keys st') = degree st div 2"
    "length (vals st') = length (keys st')" "degree st \<le> length (keys st) + inserted_count r"
proof -
  obtain mks mvs n where m: "merge_entries (keys st) (vals st) (sort_key fst es) = Inr (mks, mvs, n)"
    and mm: "length mks = length (keys st) + n" "length mvs = length mks"
    using merge_entries_merged[OF _ _ sort_entries(1)[OF assms(4)], of "vals st" "keys st"] assms(3) by (auto simp: leaf_ok_def merged_def)
  let ?mid = "degree st div 2"
  have l: "degree st \<le> length mks" using assms m by (auto simp: insert_leaf_def split: if_splits)
  obtain sibs w1 where s: "leaf_siblings ?mid (drop ?mid mks) (drop ?mid mvs) w = Inr (sibs, w1)"
    using assms(1) m l by (auto simp: insert_leaf_def rbind_eq_Inr_iff Let_def)
  then have "sibs \<noteq> []" using assms(1) m l by (auto simp: insert_leaf_def Let_def)
  then obtain j ks vs rest where j: "sibs = (j, ks, vs) # rest" by (metis list.exhaust prod.exhaust)
  have w1: "create_leaf_siblings (degree st) (next_id st) i sibs
      (put i (st\<lparr>keys := take ?mid mks, vals := take ?mid mvs, next_id := j\<rparr>) w1) = Inr w'"
    using assms(1) m l s j by (auto simp: insert_leaf_def rbind_eq_Inr_iff Let_def)
  have "nodes w' i = Some (st\<lparr>keys := take ?mid mks, vals := take ?mid mvs, next_id := j\<rparr>)" (is "_ = Some ?st'")
    using create_leaf_siblings_keeps[OF w1, of i] by (simp add: put_def)
  moreover have "inserted_count r = n" using assms(1) m l s j by (auto simp: insert_leaf_def rbind_eq_Inr_iff Let_def)
  ultimately show thesis by (intro that[of ?st']) (use l mm in auto)
qed

lemma back_chain_cong: "(\<And>l. l \<in> set ls \<Longrightarrow> prev_of w' l = prev_of w l) \<Longrightarrow> back_chain w' ls = back_chain w ls"
  by (induction w ls rule: back_chain.induct) auto

text \<open>The pieces of a leaf are leaves, and all other nodes that existed are as before.\<close>

lemma grown_leaves:
  assumes "fresh w" "grown d 0 w lo hi [i] ps ncs es n w'" "i \<noteq> []"
  shows "l \<in> set ncs \<Longrightarrow> is_leaf_node w' l \<and> l \<noteq> []" "nodes w l \<noteq> None \<Longrightarrow> l \<noteq> i \<Longrightarrow> nodes w' l = nodes w l"
proof -
  show "nodes w' l = nodes w l" if "nodes w l \<noteq> None" "l \<noteq> i"
    using grownD(3)[OF assms(2), of l] new_ids_notin_dom[OF assms(1), of l w'] that by auto
  assume l: "l \<in> set ncs"
  then have "l = i \<or> l \<in> new_ids w w'" using grownD(6)[OF assms(2)] by auto
  moreover have "[] \<notin> new_ids w w'" using assms(1) unfolding new_ids_def fresh_def by (metis imageE)
  ultimately have "l \<noteq> []" using assms(3) by auto
  moreover obtain lo' hi' where "tree_ok d 0 w' lo' hi' l" using forest_member[OF grownD(4)[OF assms(2)] l] by blast
  then have "is_leaf_node w' l" by (rule leaves_are_leaves) simp
  ultimately show "is_leaf_node w' l \<and> l \<noteq> []" by simp
qed

text \<open>A split moves entries to the new leaves, and leaves the link backward of the leaf alone.\<close>

lemma split_leaf:
  assumes "2 \<le> d" "fresh w" "tree_ok d 0 w lo hi i" "entries_in lo hi es"
    "node_insert (Suc f) i es d w = Inr (r, w')" "new_child_ids r \<noteq> []"
  shows "grown d 0 w lo hi [i] (promoted_keys r) (i # new_child_ids r) es (inserted_count r) w'" "prev_of w' i = prev_of w i"
    "concat (map (leaf_kvs w') (new_child_ids r)) \<noteq> []"
    "map_of (leaf_kvs w' i @ concat (map (leaf_kvs w') (new_child_ids r))) = map_of (leaf_kvs w i) ++ map_of es"
proof -
  obtain st where st: "nodes w i = Some st" "is_leaf st" "degree st = d" "leaf_ok d lo hi (keys st) (vals st)"
    "leaf_kvs w i = zip (keys st) (vals st)" using assms(3) by (elim tree_0E)
  have "insert_state i d w = Inr st" using st assms(1) by (simp add: insert_state_def)
  then have il: "insert_leaf i st es w = Inr (r, w')" using assms(5) st put_same[OF st(1)] by simp
  have de: "distinct (map fst es)" using assms(4) by (simp add: entries_in_def)
  obtain st' where st': "nodes w' i = Some st'" "prev_id st' = prev_id st" "length (keys st') = d div 2"
    "length (vals st') = length (keys st')" "d \<le> length (keys st) + inserted_count r"
    using insert_leaf_split[OF il assms(6) st(4) de] st(3) by metis
  show g: "grown d 0 w lo hi [i] (promoted_keys r) (i # new_child_ids r) es (inserted_count r) w'"
    using insert_leaf_grown[OF assms(2,1,3,4) st(1)] il by auto
  show "prev_of w' i = prev_of w i" using st st' by (simp add: prev_of_def)
  have c0: "contents 0 w = leaf_kvs w" "contents 0 w' = leaf_kvs w'" by (simp_all add: fun_eq_iff)
  let ?lost = "concat (map (leaf_kvs w') (new_child_ids r))"
  show "map_of (leaf_kvs w' i @ ?lost) = map_of (leaf_kvs w i) ++ map_of es" using grownD(7)[OF g] unfolding c0 by simp
  have "length (leaf_kvs w' i) = d div 2" using st'(1,3,4) by (simp add: leaf_kvs_def)
  moreover have "length (leaf_kvs w' i @ ?lost) = length (leaf_kvs w i) + inserted_count r"
    using grownD(8)[OF g] unfolding c0 by simp
  ultimately have "0 < length ?lost" using st'(5) st(4,5) assms(1) by (simp add: leaf_ok_def del: length_greater_0_conv)
  then show "?lost \<noteq> []" by (rule length_greater_0_conv[THEN iffD1])
qed

end
