(* ===== verification/Ordered_Map.thy ===== *)
theory Ordered_Map
  imports Btree_Query
begin

text \<open>
  The public ordered map: class \<open>OrderedMapServicer\<close> of
  \<open>reboot/std/collections/ordered_map/v1/ordered_map.py\<close>.  The map's own state holds the id of the
  root node, the degree and (optionally) the number of entries; the nodes are those of theory
  \<open>Btree_Node\<close>.

  \<open>google.protobuf.Value\<close> and \<open>google.protobuf.Any\<close> are opaque: type variables \<open>'v\<close> and \<open>'a\<close>.  The
  protobuf serialisation of the \<open>Value\<close> message is a pair of parameters \<open>ser\<close> and \<open>parse\<close>
  (\<open>SerializeToString\<close>, \<open>ParseFromString\<close>), of which the theorems assume that parsing undoes
  serialising.
\<close>

section \<open>Messages and state\<close>

text \<open>The \<open>oneof\<close> message \<open>Value\<close>, and the fields of an \<open>Item\<close>, which are not a \<open>oneof\<close>.\<close>

datatype ('v, 'a) msg_value = Unset | ValueV 'v | BytesV bytes | AnyV 'a

record ('v, 'a) item =
  it_value :: "'v option"
  it_bytes :: "bytes option"
  it_any :: "'a option"

record omap =
  om_degree :: nat
  root_id :: pystr
  om_size :: nat
  maintain_size :: bool

record om_world =
  om :: "omap option"          \<comment> \<open>\<open>None\<close>: not constructed\<close>
  store :: world

datatype om_error =
    OM_InvalidArgument
  | OM_StateAlreadyConstructed
  | OM_StateNotConstructed
  | OM_AssertionError
  | OM_OutOfRange             \<comment> \<open>a value that does not fit a \<open>uint32\<close> field\<close>
  | OM_Node node_error

record ('v, 'a) insert_request =
  rq_key :: pystr
  rq_item :: "('v, 'a) item"
  rq_entries :: "(pystr \<times> ('v, 'a) item) list"
  rq_degree :: "nat option"
  rq_maintain_size :: "bool option"

section \<open>Helpers\<close>

definition item_to_value :: "('v, 'a) item \<Rightarrow> ('v, 'a) msg_value" where
  "item_to_value it =
     (case it_value it of Some v \<Rightarrow> ValueV v
      | None \<Rightarrow> (case it_bytes it of Some b \<Rightarrow> BytesV b
      | None \<Rightarrow> (case it_any it of Some a \<Rightarrow> AnyV a | None \<Rightarrow> Unset)))"

definition or_default :: "nat option \<Rightarrow> nat" where
  "or_default d = (case d of None \<Rightarrow> DEFAULT_DEGREE | Some n \<Rightarrow> if n = 0 then DEFAULT_DEGREE else n)"

definition lift_node :: "node_error + 'b \<Rightarrow> om_error + 'b" where
  "lift_node r = (case r of Inl e \<Rightarrow> Inl (OM_Node e) | Inr x \<Rightarrow> Inr x)"

lemma lift_node_simps [simp]: "lift_node (Inr x) = Inr x" "lift_node (Inl e) = Inl (OM_Node e)"
  by (simp_all add: lift_node_def)

text \<open>
  The calls on nodes are given fuel for every node that may exist: each id was drawn once.
\<close>

definition fuel_of :: "world \<Rightarrow> nat" where
  "fuel_of w = 2 * draws w + 2"

definition check_construction_options ::
  "omap option \<Rightarrow> nat option \<Rightarrow> bool option \<Rightarrow> om_error option" where
  "check_construction_options m d ms =
     (if \<not> check_degree d then Some OM_InvalidArgument
      else case m of None \<Rightarrow> None
      | Some s \<Rightarrow>
          if (d \<noteq> None \<and> d \<noteq> Some (om_degree s)) \<or> (ms \<noteq> None \<and> ms \<noteq> Some (maintain_size s))
          then Some OM_StateAlreadyConstructed else None)"

section \<open>Building root levels\<close>

text \<open>
  One round of \<open>_build_root_levels\<close>: nodes of \<open>mid\<close> keys each, the key between two nodes promoted.
\<close>

function root_groups :: "nat \<Rightarrow> pystr list \<Rightarrow> pystr list \<Rightarrow> world \<Rightarrow> pystr list \<times> group list \<times> world" where
  "root_groups mid ks cs w =
     (let (i, w') = draw w; g = (i, take mid ks, take (mid + 1) cs) in
      if mid < length ks then
        (let (ps, gs, w'') = root_groups mid (drop (mid + 1) ks) (drop (mid + 1) cs) w'
         in (ks ! mid # ps, g # gs, w''))
      else ([], [g], w'))"
  by pat_completeness auto
termination
  by (relation "measure (\<lambda>(mid, ks, cs, w). length ks)") auto

declare root_groups.simps [simp del]

lemma root_groups_length:
  "root_groups mid ks cs w = (ps, gs, w') \<Longrightarrow> gs \<noteq> [] \<and> length gs = Suc (length ps) \<and> length ps * Suc mid \<le> length ks"
proof (induction mid ks cs w arbitrary: ps gs w' rule: root_groups.induct)
  case (1 mid ks cs w)
  show ?case
  proof (cases "mid < length ks")
    case True
    obtain i w1 where d: "draw w = (i, w1)" by force
    obtain ps1 gs1 w2 where r: "root_groups mid (drop (mid + 1) ks) (drop (mid + 1) cs) w1 = (ps1, gs1, w2)"
      by (metis prod_cases3)
    have "root_groups mid ks cs w = (ks ! mid # ps1, (i, take mid ks, take (mid + 1) cs) # gs1, w2)"
      using True d r by (simp add: root_groups.simps[of mid ks cs w])
    with "1.IH"[OF d[symmetric] refl refl True r] "1.prems" True show ?thesis by auto
  next
    case False
    with "1.prems" show ?thesis by (subst (asm) root_groups.simps) (auto simp: Let_def split: prod.splits)
  qed
qed

lemma create_inner_nodes_degree: "create_inner_nodes d gs w = Inr w' \<Longrightarrow> gs \<noteq> [] \<Longrightarrow> 2 \<le> d"
  by (cases gs) (auto simp: node_create_def create_state_def check_degree_def rbind_eq_Inr_iff split: if_splits)

lemma promotes_fewer:
  assumes "create_inner_nodes d gs w1 = Inr w2" "root_groups (d div 2) ks cs w = (ps, gs, w1)" "d \<le> length ks"
  shows "length ps < length ks"
proof -
  note l = root_groups_length[OF assms(2)]
  then have "2 \<le> d" using create_inner_nodes_degree[OF assms(1)] by simp
  then have "0 < d div 2" "0 < length ks" using assms(3) by auto
  with l show ?thesis by (cases "length ps") (auto simp: less_le_trans)
qed

text \<open>
  The loop of \<open>_build_root_levels\<close>.  It ends because a degree below 2 fails the assertion of
  \<open>Node.Create\<close>, and otherwise every round promotes fewer keys than it was given.
\<close>

function build_root_levels :: "nat \<Rightarrow> pystr list \<Rightarrow> pystr list \<Rightarrow> world \<Rightarrow>
    node_error + (pystr list \<times> pystr list \<times> world)" where
  "build_root_levels d ks cs w =
     (if d \<le> length ks then
        (case root_groups (d div 2) ks cs w of (ps, gs, w1) \<Rightarrow>
           rbind (create_inner_nodes d gs w1) (\<lambda>w2. build_root_levels d ps (map fst gs) w2))
      else Inr (ks, cs, w))"
  by pat_completeness auto
termination
  by (relation "measure (\<lambda>(d, ks, cs, w). length ks)") (auto intro: promotes_fewer[OF _ sym])

declare build_root_levels.simps [simp del]

section \<open>Operations\<close>

text \<open>\<open>Create\<close>: \<open>maintain_size\<close> is not optional in the request, so it is always checked.\<close>

definition om_create :: "nat option \<Rightarrow> bool \<Rightarrow> om_world \<Rightarrow> om_error + om_world" where
  "om_create d ms s =
     (case check_construction_options (om s) d (Some ms) of
        Some e \<Rightarrow> Inl e
      | None \<Rightarrow>
          if om s \<noteq> None then Inr s
          else let (r, w) = draw (store s); m = \<lparr>om_degree = or_default d, root_id = r, om_size = 0, maintain_size = ms\<rparr>
            in rbind (lift_node (node_create r (om_degree m) True [] [] [] [] [] w)) (\<lambda>w'.
                 Inr \<lparr>om = Some m, store = w'\<rparr>))"

text \<open>The state \<open>Insert\<close> works on: an unconstructed map gets its options and the id of its root.\<close>

definition om_construct :: "nat option \<Rightarrow> bool \<Rightarrow> om_world \<Rightarrow> omap \<times> world" where
  "om_construct d ms s =
     (case om s of Some m \<Rightarrow> (m, store s)
      | None \<Rightarrow> (case draw (store s) of (r, w) \<Rightarrow>
          (\<lparr>om_degree = or_default d, root_id = r, om_size = 0, maintain_size = ms\<rparr>, w)))"

definition request_entries :: "(('v, 'a) msg_value \<Rightarrow> bytes) \<Rightarrow> ('v, 'a) insert_request \<Rightarrow> om_error + entries" where
  "request_entries ser rq =
     (if rq_entries rq \<noteq> [] then
        (if rq_key rq \<noteq> [] \<or> it_value (rq_item rq) \<noteq> None \<or> it_bytes (rq_item rq) \<noteq> None \<or> it_any (rq_item rq) \<noteq> None
         then Inl OM_InvalidArgument
         else Inr (map (\<lambda>(k, it). (k, ser (item_to_value it))) (rq_entries rq)))
      else (case item_to_value (rq_item rq) of Unset \<Rightarrow> Inl OM_InvalidArgument
            | v \<Rightarrow> Inr [(rq_key rq, ser v)]))"

text \<open>A \<open>uint32\<close> field takes values below \<open>2 ^ 32\<close>.\<close>

definition set_size :: "omap \<Rightarrow> int \<Rightarrow> om_error + omap" where
  "set_size m n = (if 0 \<le> n \<and> n < 2 ^ 32 then Inr (m\<lparr>om_size := nat n\<rparr>) else Inl OM_OutOfRange)"

text \<open>The part of \<open>Insert\<close> after the entries are built: insert at the root and grow new root levels.\<close>

definition insert_entries :: "entries \<Rightarrow> omap \<Rightarrow> world \<Rightarrow> om_error + om_world" where
  "insert_entries es m w =
     rbind (lift_node (node_insert (fuel_of w) (root_id m) es (om_degree m) w)) (\<lambda>(r, w1).
     rbind (if maintain_size m then set_size m (int (om_size m) + int (inserted_count r)) else Inr m) (\<lambda>m1.
       if promoted_keys r = [] then Inr \<lparr>om = Some m1, store = w1\<rparr>
       else
         rbind (lift_node (if om_degree m1 \<le> length (promoted_keys r)
                  then build_root_levels (om_degree m1) (promoted_keys r) (root_id m1 # new_child_ids r) w1
                  else Inr (promoted_keys r, root_id m1 # new_child_ids r, w1))) (\<lambda>(ks, cs, w2).
           let (i, w3) = draw w2 in
           rbind (lift_node (node_create i (om_degree m1) False ks cs [] [] [] w3)) (\<lambda>w4.
             Inr \<lparr>om = Some (m1\<lparr>root_id := i\<rparr>), store = w4\<rparr>))))"

definition om_insert :: "(('v, 'a) msg_value \<Rightarrow> bytes) \<Rightarrow> ('v, 'a) insert_request \<Rightarrow> om_world \<Rightarrow> om_error + om_world" where
  "om_insert ser rq s =
     (case check_construction_options (om s) (rq_degree rq) (rq_maintain_size rq) of
        Some e \<Rightarrow> Inl e
      | None \<Rightarrow>
          (case om_construct (rq_degree rq) (case rq_maintain_size rq of None \<Rightarrow> False | Some b \<Rightarrow> b) s of (m, w) \<Rightarrow>
             rbind (request_entries ser rq) (\<lambda>es. insert_entries es m w)))"

text \<open>\<open>Remove\<close>: the bulk \<open>keys\<close> field or the single \<open>key\<close>.\<close>

definition remove_keys :: "pystr \<Rightarrow> pystr list \<Rightarrow> om_error + pystr list" where
  "remove_keys key ks =
     (if ks \<noteq> [] then (if key \<noteq> [] then Inl OM_InvalidArgument else Inr ks) else Inr [key])"

definition om_remove :: "pystr \<Rightarrow> pystr list \<Rightarrow> om_world \<Rightarrow> om_error + om_world" where
  "om_remove key ks s =
     (case om_construct None False s of (m, w) \<Rightarrow>
        rbind (remove_keys key ks) (\<lambda>rs.
        rbind (lift_node (node_remove (fuel_of w) (root_id m) rs w)) (\<lambda>(n, w1).
        rbind (if maintain_size m then set_size m (int (om_size m) - int n) else Inr m) (\<lambda>m1.
          Inr \<lparr>om = Some m1, store = w1\<rparr>))))"

text \<open>The readers need a constructed map.\<close>

definition with_map :: "om_world \<Rightarrow> (omap \<Rightarrow> om_error + 'b) \<Rightarrow> om_error + 'b" where
  "with_map s f = (case om s of None \<Rightarrow> Inl OM_StateNotConstructed | Some m \<Rightarrow> f m)"

text \<open>The three-way choice of \<open>Search\<close> and \<open>_entry_from_node_entry\<close>, with its assertion.\<close>

definition has_value :: "('v, 'a) msg_value \<Rightarrow> om_error + ('v, 'a) msg_value" where
  "has_value v = (case v of Unset \<Rightarrow> Inl OM_AssertionError | _ \<Rightarrow> Inr v)"

definition om_search :: "(bytes \<Rightarrow> ('v, 'a) msg_value) \<Rightarrow> pystr \<Rightarrow> om_world \<Rightarrow> om_error + ('v, 'a) msg_value option" where
  "om_search parse key s = with_map s (\<lambda>m.
     rbind (lift_node (node_search (fuel_of (store s)) (root_id m) key (store s))) (\<lambda>r.
       case r of None \<Rightarrow> Inr None
       | Some b \<Rightarrow> rbind (has_value (parse b)) (\<lambda>v. Inr (Some v))))"

fun entry_from_node_entry :: "(bytes \<Rightarrow> ('v, 'a) msg_value) \<Rightarrow> entries \<Rightarrow> om_error + (pystr \<times> ('v, 'a) msg_value) list" where
  "entry_from_node_entry parse [] = Inr []"
| "entry_from_node_entry parse ((k, b) # es) =
     rbind (has_value (parse b)) (\<lambda>v. rbind (entry_from_node_entry parse es) (\<lambda>vs. Inr ((k, v) # vs)))"

definition om_range :: "(bytes \<Rightarrow> ('v, 'a) msg_value) \<Rightarrow> pystr \<Rightarrow> nat \<Rightarrow> om_world \<Rightarrow>
    om_error + ((pystr \<times> ('v, 'a) msg_value) list \<times> nat option)" where
  "om_range parse start_key limit s = with_map s (\<lambda>m.
     rbind (lift_node (node_range (fuel_of (store s)) (root_id m) start_key limit (store s))) (\<lambda>es.
     rbind (entry_from_node_entry parse es) (\<lambda>vs.
       Inr (vs, if maintain_size m then Some (om_size m) else None))))"

definition om_reverse_range :: "(bytes \<Rightarrow> ('v, 'a) msg_value) \<Rightarrow> pystr \<Rightarrow> nat \<Rightarrow> om_world \<Rightarrow>
    om_error + (pystr \<times> ('v, 'a) msg_value) list" where
  "om_reverse_range parse start_key limit s = with_map s (\<lambda>m.
     rbind (lift_node (node_reverse_range (fuel_of (store s)) (root_id m) start_key limit (store s)))
       (entry_from_node_entry parse))"

section \<open>Raising a level\<close>

text \<open>
  \<open>risen d h w lo hi cs h' ks' cs' w'\<close>: new inner nodes were put above the trees \<open>cs\<close>; what was there before is
  untouched.
\<close>

definition risen :: "nat \<Rightarrow> nat \<Rightarrow> world \<Rightarrow> pystr option \<Rightarrow> pystr option \<Rightarrow> pystr list \<Rightarrow> nat \<Rightarrow> pystr list \<Rightarrow>
    pystr list \<Rightarrow> world \<Rightarrow> bool" where
  "risen d h w lo hi cs h' ks' cs' w' \<longleftrightarrow>
     uuid4 w' = uuid4 w \<and> draws w \<le> draws w' \<and> (\<forall>j. j \<notin> new_ids w w' \<longrightarrow> nodes w' j = nodes w j) \<and>
     forest (tree_ok d h' w') lo hi ks' cs' \<and> distinct (idl h' w' cs') \<and>
     set (idl h' w' cs') \<subseteq> set (idl h w cs) \<union> new_ids w w' \<and>
     contl h' w' cs' = contl h w cs \<and> leafl h' w' cs' = leafl h w cs"

lemma risenD:
  assumes "risen d h w lo hi cs h' ks' cs' w'"
  shows "uuid4 w' = uuid4 w" "draws w \<le> draws w'" "\<And>j. j \<notin> new_ids w w' \<Longrightarrow> nodes w' j = nodes w j"
    "forest (tree_ok d h' w') lo hi ks' cs'" "distinct (idl h' w' cs')"
    "set (idl h' w' cs') \<subseteq> set (idl h w cs) \<union> new_ids w w'"
    "contl h' w' cs' = contl h w cs" "leafl h' w' cs' = leafl h w cs"
  using assms unfolding risen_def by blast+

lemma fresh_frame:
  assumes "fresh w" "uuid4 w' = uuid4 w" "draws w \<le> draws w'" "\<And>j. j \<notin> new_ids w w' \<Longrightarrow> nodes w' j = nodes w j"
  shows "fresh w'"
proof -
  have "nodes w' (uuid4 w m) = None" if "draws w' \<le> m" for m
  proof -
    have "uuid4 w m \<notin> new_ids w w'" using assms(1) that by (auto simp: new_ids_def fresh_def dest: injD)
    then show ?thesis using assms that by (simp add: fresh_def)
  qed
  then show ?thesis using assms(1,2) by (simp add: fresh_def)
qed

lemma risen_fresh: "fresh w \<Longrightarrow> risen d h w lo hi cs h' ks' cs' w' \<Longrightarrow> fresh w'"
  by (rule fresh_frame[OF _ risenD(1,2,3)])

lemma risen_refl:
  "forest (tree_ok d h w) lo hi ks cs \<Longrightarrow> distinct (idl h w cs) \<Longrightarrow> risen d h w lo hi cs h ks cs w"
  by (simp add: risen_def)

lemma risen_trans:
  assumes "risen d h w lo hi cs h1 ks1 cs1 w1" "risen d h1 w1 lo hi cs1 h2 ks2 cs2 w2"
  shows "risen d h w lo hi cs h2 ks2 cs2 w2"
proof -
  have new: "new_ids w w2 = new_ids w w1 \<union> new_ids w1 w2"
    using new_ids_trans[of w1 w w2] risenD(1,2)[OF assms(1)] risenD(2)[OF assms(2)] by simp
  have "nodes w2 j = nodes w j" if "j \<notin> new_ids w w2" for j
    using that risenD(3)[OF assms(1), of j] risenD(3)[OF assms(2), of j] new by simp
  moreover have "set (idl h2 w2 cs2) \<subseteq> set (idl h w cs) \<union> new_ids w w2"
    using risenD(6)[OF assms(1)] risenD(6)[OF assms(2)] new by blast
  ultimately show ?thesis
    unfolding risen_def using risenD[OF assms(1)] risenD[OF assms(2)] by simp
qed

lemma raise_level:
  assumes fr: "fresh w" and d: "2 \<le> d" and f: "forest (tree_ok d h w) lo hi ks cs" and dist: "distinct (idl h w cs)"
    and gr: "forest (group_ok d (tree_ok d h w)) lo hi ps gs" "concat (map (snd \<circ> snd) gs) = cs"
      "map fst gs = drawn w (length gs)"
  shows "\<exists>w'. create_inner_nodes d gs (w\<lparr>draws := draws w + length gs\<rparr>) = Inr w' \<and>
    risen d h w lo hi cs (Suc h) ps (map fst gs) w'"
proof -
  let ?w = "w\<lparr>draws := draws w + length gs\<rparr>"
  have sg: "set (drawn w (length gs)) = fst ` set gs" using gr(3) by (metis list.set_map)
  have none: "\<forall>g \<in> set gs. nodes ?w (fst g) = None"
    using drawn_fresh(2)[OF fr, of _ "length gs"] sg by auto
  have dg: "distinct (map fst gs)" using drawn_fresh(1)[OF fr, of "length gs"] gr(3) by simp
  obtain w' where w': "create_inner_nodes d gs ?w = Inr w'" "uuid4 w' = uuid4 ?w" "draws w' = draws ?w"
    "\<forall>j. j \<notin> fst ` set gs \<longrightarrow> nodes w' j = nodes ?w j" "\<forall>g \<in> set gs. is_group d w' g"
    using create_inner_nodes_ok[OF d dg none] by blast
  have new: "fst ` set gs = new_ids w w'" using set_drawn[of w' w "length gs"] sg w'(2,3) by simp
  have dis: "j \<notin> new_ids w w'" if "j \<in> set (idl h w cs)" for j
    using forest_ids_dom[OF f that] new_ids_notin_dom[OF fr, of j w'] by auto
  have same: "\<forall>j \<in> set (idl h w cs). nodes w' j = nodes w j"
    using w'(4) dis by (simp add: new)
  note c = forest_cong[OF same]
  have tc: "tree_ok d h w' lo hi c" if "c \<in> set cs" "tree_ok d h w lo hi c" for lo hi c
  proof -
    have "\<forall>j \<in> set (ids h w c). nodes w' j = nodes w j" using same that(1) by auto
    from tree_cong(4)[OF this] that(2) show ?thesis by blast
  qed
  have mem: "c \<in> set cs" if "g \<in> set gs" "c \<in> set (snd (snd g))" for g c
    using that unfolding gr(2)[symmetric] set_concat set_map o_apply by blast
  have "group_ok d (tree_ok d h w') lo hi g" if "g \<in> set gs" "group_ok d (tree_ok d h w) lo hi g" for lo hi g
    using that(2) unfolding group_ok_def by (blast intro: forest_mono tc mem[OF that(1)])
  from forest_mono[OF gr(1) this] have "forest (group_ok d (tree_ok d h w')) lo hi ps gs" .
  note lu = level_up[OF w'(5) this gr(2)]
  have "distinct (idl (Suc h) w' (map fst gs))" using lu(5) dg dist dis new by (auto simp: c)
  moreover have "nodes w' j = nodes w j" if "j \<notin> new_ids w w'" for j using w'(4) that by (simp add: new)
  moreover have "set (idl (Suc h) w' (map fst gs)) \<subseteq> set (idl h w cs) \<union> new_ids w w'"
    unfolding lu(4) c(1) using new by auto
  ultimately have "risen d h w lo hi cs (Suc h) ps (map fst gs) w'"
    unfolding risen_def using lu(1-3) w'(2,3) by (simp only: c) simp
  with w'(1) show ?thesis by blast
qed

lemma root_groups_ok:
  assumes "root_groups mid ks cs w = (ps, gs, w')" "forest P lo hi ks cs" "mid < d"
  shows "w' = w\<lparr>draws := draws w + length gs\<rparr> \<and> map fst gs = drawn w (length gs) \<and>
    forest (group_ok d P) lo hi ps gs \<and> concat (map (snd \<circ> snd) gs) = cs"
  using assms
proof (induction mid ks cs w arbitrary: ps gs w' lo rule: root_groups.induct)
  case (1 mid ks cs w)
  let ?w = "w\<lparr>draws := Suc (draws w)\<rparr>" let ?g = "(uuid4 w (draws w), take mid ks, take (Suc mid) cs)"
  have len: "length cs = Suc (length ks)" by (rule forest_length[OF "1.prems"(2)])
  show ?case
  proof (cases "mid < length ks")
    case True
    obtain ps1 gs1 w2 where r: "root_groups mid (drop (mid + 1) ks) (drop (mid + 1) cs) ?w = (ps1, gs1, w2)"
      by (metis prod_cases3)
    have eq: "ps = ks ! mid # ps1" "gs = ?g # gs1" "w' = w2"
      using True r "1.prems"(1) by (auto simp: root_groups.simps[of mid ks cs w] draw_def)
    note cut = forest_cut[OF "1.prems"(2) True]
    have "(uuid4 w (draws w), ?w) = draw w" by (simp add: draw_def)
    from "1.IH"[OF this refl refl True r _ "1.prems"(3), of "Some (ks ! mid)"] cut have
      "w2 = ?w\<lparr>draws := draws ?w + length gs1\<rparr>" "map fst gs1 = drawn ?w (length gs1)"
      "forest (group_ok d P) (Some (ks ! mid)) hi ps1 gs1" "concat (map (snd \<circ> snd) gs1) = drop (Suc mid) cs" by (auto simp: o_def)
    moreover have "group_ok d P lo (Some (ks ! mid)) ?g"
      using cut "1.prems"(3) True by (simp add: group_ok_def)
    ultimately show ?thesis using eq cut by (simp add: drawn_Suc o_def)
  next
    case False
    with "1.prems" len show ?thesis
      by (auto simp: root_groups.simps[of mid ks cs w] draw_def drawn_def group_ok_def)
  qed
qed

lemma build_root_levels_ok:
  assumes "2 \<le> d" "fresh w" "forest (tree_ok d h w) lo hi ks cs" "distinct (idl h w cs)"
  shows "\<exists>ks' cs' w' h'. build_root_levels d ks cs w = Inr (ks', cs', w') \<and> length ks' < d \<and>
    risen d h w lo hi cs h' ks' cs' w'"
  using assms
proof (induction "length ks" arbitrary: ks cs w h rule: less_induct)
  case less
  show ?case
  proof (cases "d \<le> length ks")
    case False
    then show ?thesis using risen_refl[OF less.prems(3,4)] by (auto simp: build_root_levels.simps)
  next
    case True
    obtain ps gs w1 where r: "root_groups (d div 2) ks cs w = (ps, gs, w1)" by (metis prod_cases3)
    have "d div 2 < d" using less.prems(1) by auto
    note rg = root_groups_ok[OF r less.prems(3) this]
    obtain w2 where w2: "create_inner_nodes d gs w1 = Inr w2" "risen d h w lo hi cs (Suc h) ps (map fst gs) w2"
      using raise_level[OF less.prems(2,1,3,4), of ps gs] rg by auto
    have "fresh w2" by (rule risen_fresh[OF less.prems(2) w2(2)])
    then obtain ks' cs' w' h' where "build_root_levels d ps (map fst gs) w2 = Inr (ks', cs', w')" "length ks' < d"
      "risen d (Suc h) w2 lo hi (map fst gs) h' ks' cs' w'"
      using less.hyps[OF promotes_fewer[OF w2(1) r True] less.prems(1) _ risenD(4)[OF w2(2)] risenD(5)[OF w2(2)]] by blast
    moreover from this risen_trans[OF w2(2)] have "risen d h w lo hi cs h' ks' cs' w'" by blast
    moreover have "build_root_levels d ks cs w = build_root_levels d ps (map fst gs) w2"
      using True r w2(1) by (simp add: build_root_levels.simps[of d ks cs w])
    ultimately show ?thesis by metis
  qed
qed

section \<open>The invariant of the map\<close>

definition world_ok :: "world \<Rightarrow> bool" where
  "world_ok w \<longleftrightarrow> fresh w \<and> nodes w [] = None"

definition om_tree :: "nat \<Rightarrow> nat \<Rightarrow> world \<Rightarrow> pystr \<Rightarrow> bool" where
  "om_tree d h w r \<longleftrightarrow> tree_ok d h w None None r \<and> distinct (ids h w r) \<and>
     set (ids h w r) \<subseteq> uuid4 w ` {..<draws w} \<and> chain w (leaves h w r) []"

text \<open>
  \<open>om_repr s kvs\<close>: the map's state \<open>s\<close> is well formed and its entries, in key order, are \<open>kvs\<close>.
\<close>

definition om_repr :: "om_world \<Rightarrow> entries \<Rightarrow> bool" where
  "om_repr s kvs \<longleftrightarrow> world_ok (store s) \<and>
     (case om s of None \<Rightarrow> kvs = []
      | Some m \<Rightarrow> 2 \<le> om_degree m \<and>
          (\<exists>h. om_tree (om_degree m) h (store s) (root_id m) \<and> contents h (store s) (root_id m) = kvs) \<and>
          (maintain_size m \<longrightarrow> om_size m = length kvs))"

lemma om_repr_Some:
  "om_repr \<lparr>om = Some m, store = w\<rparr> kvs \<longleftrightarrow> world_ok w \<and> 2 \<le> om_degree m \<and>
     (\<exists>h. om_tree (om_degree m) h w (root_id m) \<and> contents h w (root_id m) = kvs) \<and>
     (maintain_size m \<longrightarrow> om_size m = length kvs)"
  by (simp add: om_repr_def)

lemma om_repr_sorted: "om_repr s kvs \<Longrightarrow> strictly_sorted (map fst kvs)"
  using tree_sorted_within
  by (fastforce simp: om_repr_def om_tree_def sorted_within_def split: option.splits)

text \<open>The fuel is enough: the height and the number of leaves are at most the number of ids drawn.\<close>

lemma height_less_ids: "tree_ok d h w lo hi i \<Longrightarrow> h < length (ids h w i)"
proof (induction h arbitrary: i lo hi)
  case (Suc h)
  from Suc.prems(1) obtain st :: node where st: "forest (tree_ok d h w) lo hi (keys st) (children_ids st)"
    "children_of w i = children_ids st" by (elim tree_SucE)
  obtain c cs where c: "children_ids st = c # cs" using st(1) by (cases "children_ids st") auto
  then obtain lo' hi' where "tree_ok d h w lo' hi' c" using forest_member[OF st(1), of c] by auto
  from Suc.IH[OF this] show ?case using st(2) c by simp
qed simp

lemma leaves_length_le: "length (leaves h w i) \<le> length (ids h w i)"
proof (induction h arbitrary: i)
  case (Suc h)
  have "length (leafl h w cs) \<le> length (idl h w cs)" for cs
    using Suc by (induction cs) (auto intro: add_mono)
  then show ?case by (simp add: le_SucI)
qed simp

lemma om_tree_fuel:
  assumes "om_tree d h w r"
  shows "h < fuel_of w" "h + length (leaves h w r) \<le> fuel_of w"
proof -
  have "length (ids h w r) = card (set (ids h w r))" using assms by (simp add: om_tree_def distinct_card)
  also have "\<dots> \<le> card (uuid4 w ` {..<draws w})" using assms by (intro card_mono) (auto simp: om_tree_def)
  also have "\<dots> \<le> draws w" using card_image_le[of "{..<draws w}" "uuid4 w"] by simp
  finally have "length (ids h w r) \<le> draws w" .
  moreover have "h < length (ids h w r)" using height_less_ids assms by (auto simp: om_tree_def)
  ultimately show "h < fuel_of w" "h + length (leaves h w r) \<le> fuel_of w"
    using leaves_length_le[of h w r] by (auto simp: fuel_of_def)
qed

lemma grown_world_ok:
  assumes "world_ok w" "forest (tree_ok d h w) lo hi ks cs" "grown d h w lo' hi' cs nks ncs es n w'"
  shows "world_ok w'"
proof -
  have "[] \<notin> set (idl h w cs)" using forest_ids_dom[OF assms(2), of "[]"] assms(1) by (auto simp: world_ok_def)
  moreover have "[] \<notin> new_ids w w'" using assms(1) by (auto simp: world_ok_def fresh_def new_ids_def) metis
  ultimately have "nodes w' [] = None" using grownD(3)[OF assms(3), of "[]"] assms(1) by (simp add: world_ok_def)
  then show ?thesis using grown_fresh[OF _ assms(2,3)] assms(1) by (simp add: world_ok_def)
qed

lemma risen_world_ok:
  assumes "world_ok w" "risen d h w lo hi cs h' ks' cs' w'"
  shows "world_ok w'"
proof -
  have "[] \<notin> new_ids w w'" using assms(1) by (auto simp: world_ok_def fresh_def new_ids_def) metis
  then show ?thesis
    using risenD(3)[OF assms(2), of "[]"] risen_fresh[OF _ assms(2)] assms(1) by (simp add: world_ok_def)
qed

lemma drawn_ids_grow:
  assumes "A \<subseteq> uuid4 w ` {..<draws w}" "uuid4 w' = uuid4 w" "draws w \<le> draws w'"
  shows "A \<union> new_ids w w' \<subseteq> uuid4 w' ` {..<draws w'}"
  using assms by (auto simp: new_ids_def)

lemma inserted_count_le:
  assumes "map_of kvs' = map_of kvs ++ map_of es" "length kvs' = length kvs + n"
    "distinct (map fst kvs')" "distinct (map fst kvs)"
  shows "n \<le> length es"
proof -
  have "length kvs' = card (dom (map_of kvs'))" "length kvs = card (dom (map_of kvs))"
    using assms(3,4) by (metis distinct_card dom_map_of_conv_image_fst length_map list.set_map)+
  moreover have "card (dom (map_of kvs')) \<le> card (dom (map_of kvs)) + card (dom (map_of es))"
    using assms(1) card_Un_le[of "dom (map_of es)" "dom (map_of kvs)"] by (simp add: add.commute)
  moreover have "card (dom (map_of es)) \<le> length es"
    by (metis card_length dom_map_of_conv_image_fst length_map list.set_map)
  ultimately show ?thesis using assms(2) by simp
qed

text \<open>Putting a new root above the pieces the old root was split into.\<close>

lemma new_root_ok:
  assumes w: "world_ok w" and d: "2 \<le> d" and f: "forest (tree_ok d h w) None None ks0 cs0"
    and di: "distinct (idl h w cs0)" and idw: "set (idl h w cs0) \<subseteq> uuid4 w ` {..<draws w}"
    and ch: "chain w (leafl h w cs0) []"
  obtains ks cs w2 w4 h' where
    "(if d \<le> length ks0 then build_root_levels d ks0 cs0 w else Inr (ks0, cs0, w)) = Inr (ks, cs, w2)"
    "node_create (uuid4 w2 (draws w2)) d False ks cs [] [] [] (w2\<lparr>draws := Suc (draws w2)\<rparr>) = Inr w4"
    "world_ok w4" "om_tree d h' w4 (uuid4 w2 (draws w2))" "contents h' w4 (uuid4 w2 (draws w2)) = contl h w cs0"
proof -
  have fr: "fresh w" using w by (simp add: world_ok_def)
  obtain ks cs w2 h2 where b: "(if d \<le> length ks0 then build_root_levels d ks0 cs0 w else Inr (ks0, cs0, w)) =
        Inr (ks, cs, w2)" "length ks < d" "risen d h w None None cs0 h2 ks cs w2"
  proof (cases "d \<le> length ks0")
    case True
    then show thesis using that build_root_levels_ok[OF d fr f di] by auto
  next
    case False
    then show thesis using that[OF _ _ risen_refl[OF f di]] by simp
  qed
  note w2 = risen_world_ok[OF w b(3)]
  let ?i = "uuid4 w2 (draws w2)" let ?w = "w2\<lparr>draws := Suc (draws w2)\<rparr>"
  have gr: "forest (group_ok d (tree_ok d h2 w2)) None None [] [(?i, ks, cs)]"
    using risenD(4)[OF b(3)] b(2) by (simp add: group_ok_def)
  have "fresh w2" using w2 by (simp add: world_ok_def)
  from raise_level[OF this d risenD(4,5)[OF b(3)] gr] obtain w4 where
    w4: "create_inner_nodes d [(?i, ks, cs)] ?w = Inr w4" "risen d h2 w2 None None cs (Suc h2) [] [?i] w4"
    by (auto simp: drawn_def)
  have cr: "node_create ?i d False ks cs [] [] [] ?w = Inr w4"
    using w4(1) by (cases "node_create ?i d False ks cs [] [] [] ?w") auto
  note rt = risen_trans[OF b(3) w4(2)]
  have eq: "contents (Suc h2) w4 ?i = contl h w cs0" "leaves (Suc h2) w4 ?i = leafl h w cs0"
    "idl (Suc h2) w4 [?i] = ids (Suc h2) w4 ?i"
    using risenD(7,8)[OF rt] by simp_all
  have "chain w4 (leafl h w cs0) []"
  proof (rule chain_cong[THEN iffD2, OF _ ch], rule ballI)
    fix l assume "l \<in> set (leafl h w cs0)"
    then have "nodes w l \<noteq> None" using forest_ids_dom[OF f] leafl_subset_idl by blast
    then have "l \<notin> new_ids w w4" using new_ids_notin_dom[OF fr, of l w4] by auto
    then show "nodes w4 l = nodes w l" by (rule risenD(3)[OF rt])
  qed
  moreover have "set (ids (Suc h2) w4 ?i) \<subseteq> uuid4 w4 ` {..<draws w4}"
    using risenD(6)[OF rt] drawn_ids_grow[OF idw risenD(1,2)[OF rt]] unfolding eq(3) by (rule order_trans)
  ultimately have "om_tree d (Suc h2) w4 ?i"
    using risenD(4,5)[OF rt] unfolding om_tree_def eq by simp
  from that[OF b(1) cr risen_world_ok[OF w rt] this eq(1)] show thesis .
qed

text \<open>Inserting at the root, from a root that exists.\<close>

lemma insert_entries_root:
  assumes w: "world_ok w" and d: "2 \<le> om_degree m" and t: "om_tree (om_degree m) h w (root_id m)"
    and size: "maintain_size m \<longrightarrow> om_size m = length (contents h w (root_id m))"
    and es: "distinct (map fst es)" and cap: "length (contents h w (root_id m)) + length es < 2 ^ 32"
  shows "\<exists>s' kvs'. insert_entries es m w = Inr s' \<and> om_repr s' kvs' \<and>
    map_of kvs' = map_of (contents h w (root_id m)) ++ map_of es"
proof -
  let ?d = "om_degree m" let ?r = "root_id m" let ?kvs = "contents h w ?r"
  have t': "tree_ok ?d h w None None ?r" "distinct (ids h w ?r)" "set (ids h w ?r) \<subseteq> uuid4 w ` {..<draws w}"
    "chain w (leaves h w ?r) []" using t by (simp_all add: om_tree_def)
  have f: "forest (tree_ok ?d h w) None None [] [?r]" using t' by simp
  have ei: "entries_in None None es" using es by (simp add: entries_in_def)
  have fr: "fresh w" using w by (simp add: world_ok_def)
  obtain r w1 where r: "node_insert (fuel_of w) ?r es ?d w = Inr (r, w1)"
    and g: "grown ?d h w None None [?r] (promoted_keys r) (?r # new_child_ids r) es (inserted_count r) w1"
    using node_insert_spec[OF d om_tree_fuel(1)[OF t], unfolded insert_spec_def, rule_format, OF fr t'(1,2) ei] by blast
  define cs where "cs = ?r # new_child_ids r"
  note g = g[folded cs_def]
  note w1 = grown_world_ok[OF w f g]
  have mo: "map_of (contl h w1 cs) = map_of ?kvs ++ map_of es"
    and len: "length (contl h w1 cs) = length ?kvs + inserted_count r"
    using grownD(7,8)[OF g] by simp_all
  have ch: "chain w1 (leafl h w1 cs) []" using grownD(10)[OF g, of "[]"] t'(4) by simp
  have idw: "set (idl h w1 cs) \<subseteq> uuid4 w1 ` {..<draws w1}"
    using grownD(6)[OF g] drawn_ids_grow[OF t'(3) grownD(1,2)[OF g]] by auto
  have cnt: "inserted_count r \<le> length es"
    using inserted_count_le[OF mo len] tree_sorted_within[OF t'(1)] contl_sorted_within[OF grownD(4)[OF g]]
    by (auto simp: sorted_within_def strict_sorted_iff)
  define m1 where "m1 = (if maintain_size m then m\<lparr>om_size := length (contl h w1 cs)\<rparr> else m)"
  have m1: "om_degree m1 = ?d" "root_id m1 = ?r" "maintain_size m1 = maintain_size m"
    "maintain_size m1 \<longrightarrow> om_size m1 = length (contl h w1 cs)" by (simp_all add: m1_def)
  have sz: "(if maintain_size m then set_size m (int (om_size m) + int (inserted_count r)) else Inr m) = Inr m1"
    using size len cnt cap by (auto simp: set_size_def m1_def nat_int_add)
  show ?thesis
  proof (cases "promoted_keys r = []")
    case True
    then have nc: "cs = [?r]" using forest_length[OF grownD(4)[OF g]] by (simp add: cs_def)
    have "om_tree ?d h w1 ?r" using grownD(4,5)[OF g] ch idw True nc by (simp add: om_tree_def)
    then have "om_repr \<lparr>om = Some m1, store = w1\<rparr> (contl h w1 cs)"
      unfolding om_repr_Some m1(1,2) using w1 d m1(3,4) nc by auto
    moreover have "insert_entries es m w = Inr \<lparr>om = Some m1, store = w1\<rparr>"
      using r sz True by (simp add: insert_entries_def lift_node_def)
    ultimately show ?thesis using mo by blast
  next
    case False
    obtain ks cs' w2 w4 h' where b: "(if ?d \<le> length (promoted_keys r) then build_root_levels ?d (promoted_keys r) cs w1
          else Inr (promoted_keys r, cs, w1)) = Inr (ks, cs', w2)"
      "node_create (uuid4 w2 (draws w2)) ?d False ks cs' [] [] [] (w2\<lparr>draws := Suc (draws w2)\<rparr>) = Inr w4"
      "world_ok w4" "om_tree ?d h' w4 (uuid4 w2 (draws w2))" "contents h' w4 (uuid4 w2 (draws w2)) = contl h w1 cs"
      by (rule new_root_ok[OF w1 d grownD(4,5)[OF g] idw ch])
    let ?s = "\<lparr>om = Some (m1\<lparr>root_id := uuid4 w2 (draws w2)\<rparr>), store = w4\<rparr>"
    have "om_repr ?s (contl h w1 cs)" unfolding om_repr_Some using b(3-5) d m1 by auto
    moreover have "insert_entries es m w = Inr ?s"
      by (simp add: insert_entries_def r sz False b(1)[unfolded cs_def] b(2) m1(1,2) draw_def split del: if_split cong del: if_weak_cong)
    ultimately show ?thesis using mo by blast
  qed
qed

section \<open>A root that is constructed by its first use\<close>

definition empty_leaf :: "nat \<Rightarrow> node" where
  "empty_leaf d = \<lparr>degree = d, is_leaf = True, keys = [], children_ids = [], vals = [], next_id = [], prev_id = []\<rparr>"

lemma put_simps [simp]:
  "put i st (put i st' w) = put i st w" "nodes (put i st w) i = Some st"
  "uuid4 (put i st w) = uuid4 w" "draws (put i st w) = draws w" "fuel_of (put i st w) = fuel_of w"
  by (simp_all add: put_def fuel_of_def)

lemma first_insert:
  assumes "nodes w i = None" "2 \<le> d"
  shows "node_insert fuel i es d (put i (empty_leaf d) w) = node_insert fuel i es d w"
  using assms
  by (cases fuel) (simp_all add: insert_state_def create_state_def check_degree_def empty_leaf_def)

lemma first_remove:
  assumes "nodes w i = None"
  shows "node_remove fuel i ks (put i (empty_leaf DEFAULT_DEGREE) w) = node_remove fuel i ks w"
  using assms
  by (cases fuel) (simp_all add: create_state_def check_degree_def empty_leaf_def DEFAULT_DEGREE_def)

lemma empty_root:
  assumes "world_ok w" "2 \<le> d"
  defines "r \<equiv> uuid4 w (draws w)" and "w' \<equiv> put (uuid4 w (draws w)) (empty_leaf d) (w\<lparr>draws := Suc (draws w)\<rparr>)"
  shows "world_ok w'" "om_tree d 0 w' r" "contents 0 w' r = []" "nodes (w\<lparr>draws := Suc (draws w)\<rparr>) r = None"
proof -
  have f: "inj (uuid4 w)" "\<And>n. uuid4 w n \<noteq> []" "\<And>n. draws w \<le> n \<Longrightarrow> nodes w (uuid4 w n) = None" "nodes w [] = None"
    using assms(1) by (auto simp: world_ok_def fresh_def)
  have "uuid4 w n \<noteq> r" if "draws w < n" for n using f(1) that unfolding r_def by (metis injD less_irrefl)
  moreover have "[] \<noteq> uuid4 w (draws w)" using f(2)[of "draws w"] by simp
  ultimately show "world_ok w'" using f by (auto simp: world_ok_def fresh_def w'_def put_def r_def)
  show "om_tree d 0 w' r" using assms(2)
    by (simp add: om_tree_def tree_ok.simps leaf_ok_def w'_def r_def empty_leaf_def next_of_def)
  show "contents 0 w' r = []" by (simp add: leaf_kvs_def w'_def r_def empty_leaf_def)
  show "nodes (w\<lparr>draws := Suc (draws w)\<rparr>) r = None" using f(3)[of "draws w"] by (simp add: r_def)
qed

lemma or_default_ok: "check_degree d \<Longrightarrow> 2 \<le> or_default d"
  by (auto simp: check_degree_def or_default_def DEFAULT_DEGREE_def split: option.splits)

text \<open>
  The state a write starts from: the map's state and root, the root an empty leaf when this write
  constructs it.
\<close>

lemma om_construct_ok:
  assumes r: "om_repr s kvs" and c: "check_degree d" and m: "om_construct d ms s = (m, w)"
  obtains w0 h where "world_ok w0" "2 \<le> om_degree m" "om_tree (om_degree m) h w0 (root_id m)"
    "contents h w0 (root_id m) = kvs" "maintain_size m \<longrightarrow> om_size m = length kvs"
    "\<And>es. insert_entries es m w0 = insert_entries es m w"
    "d = None \<Longrightarrow> (\<And>rs. node_remove (fuel_of w) (root_id m) rs w0 = node_remove (fuel_of w) (root_id m) rs w)"
    "draws w0 = draws w"
proof (cases "om s")
  case (Some m')
  then have e: "m' = m" "w = store s" using m by (auto simp: om_construct_def)
  from r Some obtain h where h: "world_ok (store s)" "2 \<le> om_degree m" "om_tree (om_degree m) h (store s) (root_id m)"
    "contents h (store s) (root_id m) = kvs" "maintain_size m \<longrightarrow> om_size m = length kvs"
    by (auto simp: om_repr_def e)
  show thesis by (rule that[of "store s" h]) (use h e in auto)
next
  case None
  let ?w = "store s" let ?r = "uuid4 ?w (draws ?w)"
  let ?u = "put ?r (empty_leaf (or_default d)) (?w\<lparr>draws := Suc (draws ?w)\<rparr>)"
  have e: "m = \<lparr>om_degree = or_default d, root_id = ?r, om_size = 0, maintain_size = ms\<rparr>"
    "w = ?w\<lparr>draws := Suc (draws ?w)\<rparr>" "kvs = []" "world_ok ?w"
    using m None r by (auto simp: om_construct_def draw_def om_repr_def)
  note er = empty_root[OF e(4) or_default_ok[OF c]]
  show thesis
  proof (rule that[of ?u 0])
    show "insert_entries es m ?u = insert_entries es m w" for es
      using first_insert[OF er(4) or_default_ok[OF c]] by (simp add: insert_entries_def e(1,2))
    show "node_remove (fuel_of w) (root_id m) rs ?u = node_remove (fuel_of w) (root_id m) rs w" if "d = None" for rs
      using first_remove[OF er(4)] that by (simp add: e(1,2) or_default_def)
    show "world_ok ?u" by (rule er(1))
    show "om_tree (om_degree m) 0 ?u (root_id m)" unfolding e(1) omap.simps by (rule er(2))
    show "contents 0 ?u (root_id m) = kvs" unfolding e(1,3) omap.simps by (rule er(3))
  qed (use or_default_ok[OF c] e(1-3) in auto)
qed

section \<open>Each operation against the entries it represents\<close>

lemma om_insert_repr:
  assumes r: "om_repr s kvs" and c: "check_construction_options (om s) (rq_degree rq) (rq_maintain_size rq) = None"
    and es: "request_entries ser rq = Inr es" "distinct (map fst es)" "length kvs + length es < 2 ^ 32"
  shows "\<exists>s' kvs'. om_insert ser rq s = Inr s' \<and> om_repr s' kvs' \<and> map_of kvs' = map_of kvs ++ map_of es"
proof -
  let ?ms = "case rq_maintain_size rq of None \<Rightarrow> False | Some b \<Rightarrow> b"
  obtain m w where m: "om_construct (rq_degree rq) ?ms s = (m, w)" by force
  have "check_degree (rq_degree rq)" using c by (auto simp: check_construction_options_def split: if_splits)
  from om_construct_ok[OF r this m] obtain u h where u: "world_ok u" "2 \<le> om_degree m"
    "om_tree (om_degree m) h u (root_id m)" "contents h u (root_id m) = kvs"
    "maintain_size m \<longrightarrow> om_size m = length kvs" "\<And>es. insert_entries es m u = insert_entries es m w" by metis
  from insert_entries_root[OF u(1-3) _ es(2)] u es(3)
  have "\<exists>s' kvs'. insert_entries es m w = Inr s' \<and> om_repr s' kvs' \<and> map_of kvs' = map_of kvs ++ map_of es" by simp
  then show ?thesis using c m es(1) by (simp add: om_insert_def)
qed

lemma om_insert_error:
  assumes "case check_construction_options (om s) (rq_degree rq) (rq_maintain_size rq) of
      Some e' \<Rightarrow> e' = e | None \<Rightarrow> request_entries ser rq = Inl e"
  shows "om_insert ser rq s = Inl e"
  using assms by (auto simp: om_insert_def split: option.splits prod.splits)

lemma drop_keys_length: "length (drop_keys rs kvs) + n = length kvs \<Longrightarrow> n \<le> length kvs"
  by simp

lemma om_remove_repr:
  assumes r: "om_repr s kvs" and rs: "remove_keys key ks = Inr rs" and cap: "length kvs < 2 ^ 32"
  shows "\<exists>s'. om_remove key ks s = Inr s' \<and> om_repr s' (drop_keys rs kvs)"
proof -
  obtain m w where m: "om_construct None False s = (m, w)" by force
  have "check_degree None" by (simp add: check_degree_def)
  from om_construct_ok[OF r this m] obtain u h where u: "world_ok u" "2 \<le> om_degree m"
    "om_tree (om_degree m) h u (root_id m)" "contents h u (root_id m) = kvs"
    "maintain_size m \<longrightarrow> om_size m = length kvs"
    "\<And>rs. node_remove (fuel_of w) (root_id m) rs u = node_remove (fuel_of w) (root_id m) rs w" "draws u = draws w" by metis
  have t: "tree_ok (om_degree m) h u None None (root_id m)" "distinct (ids h u (root_id m))"
    "set (ids h u (root_id m)) \<subseteq> uuid4 u ` {..<draws u}" "chain u (leaves h u (root_id m)) []"
    using u(3) by (simp_all add: om_tree_def)
  have "h < fuel_of w" using om_tree_fuel(1)[OF u(3)] u(7) by (simp add: fuel_of_def)
  from node_remove_shrunk[OF t(1,2) this, of rs] obtain n w' where
    n: "node_remove (fuel_of w) (root_id m) rs w = Inr (n, w')"
    "shrunk h u [root_id m] [drop_keys rs kvs] n w'" using u(4,6) by auto
  note sh = shrunkD[OF n(2)]
  have same: "ids h w' (root_id m) = ids h u (root_id m)" "leaves h w' (root_id m) = leaves h u (root_id m)"
    "contents h w' (root_id m) = drop_keys rs kvs" using sh(5-7) by simp_all
  have nx: "next_of w' j = next_of u j" "nodes w' j = None \<longleftrightarrow> nodes u j = None" for j
    using sh(4)[of j] by (auto simp: links_def next_of_def split: option.splits)
  have ch: "chain w' ls z \<longleftrightarrow> chain u ls z" for ls z by (induction ls rule: induct_list012) (auto simp: nx)
  have "world_ok w'" using u(1) sh(1,2) nx(2) by (simp add: world_ok_def fresh_def)
  moreover have "om_tree (om_degree m) h w' (root_id m)"
    using t sh(1,2) sh(9)[OF _ t(1)] by (simp add: om_tree_def same ch)
  moreover define m1 where "m1 = (if maintain_size m then m\<lparr>om_size := length (drop_keys rs kvs)\<rparr> else m)"
  moreover have len: "length (drop_keys rs kvs) + n = length kvs" using sh(8) u(4) by simp
  have "(if maintain_size m then set_size m (int (om_size m) - int n) else Inr m) = Inr m1"
  proof (cases "maintain_size m")
    case True
    have "int (om_size m) - int n = int (length (drop_keys rs kvs))" using u(5) len True by linarith
    then show ?thesis using True cap len by (simp add: set_size_def m1_def)
  qed (simp add: m1_def)
  ultimately have "om_repr \<lparr>om = Some m1, store = w'\<rparr> (drop_keys rs kvs)"
    "om_remove key ks s = Inr \<lparr>om = Some m1, store = w'\<rparr>"
    using u(2) same(3) m rs n(1) by (auto simp: om_repr_Some om_remove_def)
  then show ?thesis by blast
qed

lemma om_repr_constructed:
  assumes "om_repr s kvs" "om s = Some m"
  obtains h where "world_ok (store s)" "tree_ok (om_degree m) h (store s) None None (root_id m)"
    "om_tree (om_degree m) h (store s) (root_id m)"
    "contents h (store s) (root_id m) = kvs" "maintain_size m \<longrightarrow> om_size m = length kvs"
  using assms by (auto simp: om_repr_def om_tree_def)

lemma root_search_repr:
  assumes "om_repr s kvs" "om s = Some m"
  shows "node_search (fuel_of (store s)) (root_id m) k (store s) = Inr (map_of kvs k)"
proof -
  from om_repr_constructed[OF assms] obtain h where
    h: "tree_ok (om_degree m) h (store s) None None (root_id m)" "h < fuel_of (store s)"
    "contents h (store s) (root_id m) = kvs" using om_tree_fuel(1) by metis
  from node_search_map_of[OF h(1,2), of k] show ?thesis using h(3) by simp
qed

lemma om_search_repr:
  assumes "om_repr s kvs" "om s \<noteq> None"
  shows "om_search parse k s = (case map_of kvs k of None \<Rightarrow> Inr None
    | Some b \<Rightarrow> rbind (has_value (parse b)) (\<lambda>v. Inr (Some v)))"
proof -
  obtain m where m: "om s = Some m" using assms(2) by blast
  then show ?thesis using root_search_repr[OF assms(1) m, of k] by (simp add: om_search_def with_map_def)
qed

lemma om_range_repr:
  assumes "om_repr s kvs" "om s = Some m" "0 < limit"
  shows "om_range parse k limit s =
    rbind (entry_from_node_entry parse (take limit (from_key k kvs)))
      (\<lambda>vs. Inr (vs, if maintain_size m then Some (length kvs) else None))"
proof -
  from om_repr_constructed[OF assms(1,2)] obtain h where
    h: "tree_ok (om_degree m) h (store s) None None (root_id m)" "om_tree (om_degree m) h (store s) (root_id m)"
    "contents h (store s) (root_id m) = kvs" "nodes (store s) [] = None"
    "maintain_size m \<longrightarrow> om_size m = length kvs" by (metis world_ok_def)
  have "chain (store s) (leaves h (store s) (root_id m)) []" using h(2) by (simp add: om_tree_def)
  from node_range_ok[OF h(1) this h(4) assms(3) om_tree_fuel(2)[OF h(2)], of k] h(3,5) assms(2) show ?thesis
    by (auto simp: om_range_def with_map_def)
qed

lemma root_exists: "tree_ok d h w lo hi i \<Longrightarrow> \<exists>st. nodes w i = Some st"
  by (cases h) (auto elim: tree_0E tree_SucE)

lemma om_range_zero: "om s = Some m \<Longrightarrow> om_repr s kvs \<Longrightarrow> om_range parse k 0 s = Inl (OM_Node InvalidRangeError)"
  by (elim om_repr_constructed)
    (auto simp: om_range_def with_map_def fuel_of_def tree_ok.simps split: option.splits dest!: root_exists)

section \<open>The contract of a store of ordered entries\<close>

text \<open>
  What a client may rely on: every valid command succeeds while there is room, and changes the
  represented entries as its specification on finite maps says.
\<close>

fun exec_all :: "('c \<Rightarrow> 's \<Rightarrow> 'e + 's) \<Rightarrow> 'c list \<Rightarrow> 's \<Rightarrow> 'e + 's" where
  "exec_all exec [] s = Inr s"
| "exec_all exec (c # cs) s = rbind (exec c s) (exec_all exec cs)"

locale ordered_store =
  fixes repr :: "'s \<Rightarrow> (pystr \<times> bytes) list \<Rightarrow> bool"
    and exec :: "'c \<Rightarrow> 's \<Rightarrow> 'e + 's"
    and valid :: "'c \<Rightarrow> bool"
    and spec :: "'c \<Rightarrow> (pystr \<Rightarrow> bytes option) \<Rightarrow> (pystr \<Rightarrow> bytes option)"
    and weight :: "'c \<Rightarrow> nat"
    and cap :: nat
  assumes repr_sorted: "repr s kvs \<Longrightarrow> strictly_sorted (map fst kvs)"
    and exec_ok: "repr s kvs \<Longrightarrow> valid c \<Longrightarrow> length kvs + weight c < cap \<Longrightarrow>
      \<exists>s' kvs'. exec c s = Inr s' \<and> repr s' kvs' \<and> map_of kvs' = spec c (map_of kvs) \<and>
        length kvs' \<le> length kvs + weight c"
begin

lemma run_ok:
  "repr s kvs \<Longrightarrow> \<forall>c \<in> set cs. valid c \<Longrightarrow> length kvs + sum_list (map weight cs) < cap \<Longrightarrow>
    \<exists>s' kvs'. exec_all exec cs s = Inr s' \<and> repr s' kvs' \<and> map_of kvs' = fold spec cs (map_of kvs)"
proof (induction cs arbitrary: s kvs)
  case (Cons c cs)
  then obtain s1 kvs1 where e: "exec c s = Inr s1" "repr s1 kvs1" "map_of kvs1 = spec c (map_of kvs)"
    "length kvs1 \<le> length kvs + weight c" using exec_ok[of s kvs c] by auto
  with Cons.IH[OF e(2)] Cons.prems show ?case by auto
qed auto

lemma repr_determined:
  assumes "repr s kvs" "repr s' kvs'" "map_of kvs = map_of kvs'"
  shows "kvs = kvs'"
proof -
  have d: "distinct (map fst kvs)" "distinct (map fst kvs')" and so: "sorted (map fst kvs)" "sorted (map fst kvs')"
    using repr_sorted[OF assms(1)] repr_sorted[OF assms(2)] by (auto simp: strict_sorted_iff)
  have "set kvs = set kvs'" using map_of_inject_set[OF d] assms(3) by blast
  then show ?thesis using d so by (intro map_sorted_distinct_set_unique[of fst]) (auto simp: distinct_map)
qed

end

section \<open>The ordered map fulfils it\<close>

datatype ('v, 'a) om_cmd = Om_Insert "('v, 'a) insert_request" | Om_Remove pystr "pystr list"

fun om_exec :: "(('v, 'a) msg_value \<Rightarrow> bytes) \<Rightarrow> ('v, 'a) om_cmd \<Rightarrow> om_world \<Rightarrow> om_error + om_world" where
  "om_exec ser (Om_Insert rq) s = om_insert ser rq s"
| "om_exec ser (Om_Remove key ks) s = om_remove key ks s"

fun cmd_entries :: "(('v, 'a) msg_value \<Rightarrow> bytes) \<Rightarrow> ('v, 'a) om_cmd \<Rightarrow> entries" where
  "cmd_entries ser (Om_Insert rq) = (case request_entries ser rq of Inl _ \<Rightarrow> [] | Inr es \<Rightarrow> es)"
| "cmd_entries ser (Om_Remove key ks) = []"

fun cmd_valid :: "(('v, 'a) msg_value \<Rightarrow> bytes) \<Rightarrow> ('v, 'a) om_cmd \<Rightarrow> bool" where
  "cmd_valid ser (Om_Insert rq) \<longleftrightarrow> rq_degree rq = None \<and> rq_maintain_size rq = None \<and>
     distinct (map fst (rq_entries rq)) \<and> (case request_entries ser rq of Inl _ \<Rightarrow> False | Inr _ \<Rightarrow> True)"
| "cmd_valid ser (Om_Remove key ks) \<longleftrightarrow> key = [] \<or> ks = []"

fun cmd_spec :: "(('v, 'a) msg_value \<Rightarrow> bytes) \<Rightarrow> ('v, 'a) om_cmd \<Rightarrow> (pystr \<Rightarrow> bytes option) \<Rightarrow> (pystr \<Rightarrow> bytes option)" where
  "cmd_spec ser (Om_Insert rq) M = M ++ map_of (cmd_entries ser (Om_Insert rq))"
| "cmd_spec ser (Om_Remove key ks) M = M |` (- set (if ks = [] then [key] else ks))"

lemma request_entries_distinct:
  "request_entries ser rq = Inr es \<Longrightarrow> distinct (map fst (rq_entries rq)) \<Longrightarrow> distinct (map fst es)"
  by (auto simp: request_entries_def o_def case_prod_unfold split: if_splits msg_value.splits)

lemma map_of_drop_keys: "map_of (drop_keys rs kvs) = map_of kvs |` (- set rs)"
  by (induction kvs) (auto simp: restrict_map_def fun_eq_iff)

lemma insert_length_le:
  assumes "map_of kvs' = map_of kvs ++ map_of es" "distinct (map fst kvs')"
  shows "length kvs' \<le> length kvs + length es"
proof -
  have "length kvs' = card (dom (map_of kvs'))"
    using assms(2) by (metis distinct_card dom_map_of_conv_image_fst length_map list.set_map)
  also have "\<dots> \<le> card (dom (map_of es)) + card (dom (map_of kvs))"
    using assms(1) card_Un_le[of "dom (map_of es)" "dom (map_of kvs)"] by simp
  also have "\<dots> \<le> length es + length kvs"
    by (metis add_mono card_length dom_map_of_conv_image_fst length_map list.set_map)
  finally show ?thesis by simp
qed

interpretation om_store: ordered_store om_repr "om_exec ser" "cmd_valid ser" "cmd_spec ser"
  "\<lambda>c. length (cmd_entries ser c)" "2 ^ 32" for ser :: "('v, 'a) msg_value \<Rightarrow> bytes"
proof
  show "strictly_sorted (map fst kvs)" if "om_repr s kvs" for s kvs using that by (rule om_repr_sorted)
next
  fix s kvs and c :: "('v, 'a) om_cmd"
  assume r: "om_repr s kvs" and v: "cmd_valid ser c" and w: "length kvs + length (cmd_entries ser c) < 2 ^ 32"
  show "\<exists>s' kvs'. om_exec ser c s = Inr s' \<and> om_repr s' kvs' \<and> map_of kvs' = cmd_spec ser c (map_of kvs) \<and>
      length kvs' \<le> length kvs + length (cmd_entries ser c)"
  proof (cases c)
    case (Om_Insert rq)
    then obtain es where es: "request_entries ser rq = Inr es" "cmd_entries ser c = es"
      using v by (auto split: sum.splits)
    have ck: "check_construction_options (om s) (rq_degree rq) (rq_maintain_size rq) = None"
      using v Om_Insert by (simp add: check_construction_options_def check_degree_def split: option.splits)
    have "distinct (map fst es)" using request_entries_distinct[OF es(1)] v Om_Insert by simp
    from om_insert_repr[OF r ck es(1) this] w es obtain s' kvs' where
      s': "om_insert ser rq s = Inr s'" "om_repr s' kvs'" "map_of kvs' = map_of kvs ++ map_of es" by auto
    moreover have "length kvs' \<le> length kvs + length es"
      using insert_length_le[OF s'(3)] om_repr_sorted[OF s'(2)] by (simp add: strict_sorted_iff)
    ultimately show ?thesis using Om_Insert es by auto
  next
    case (Om_Remove key ks)
    let ?rs = "if ks = [] then [key] else ks"
    have "remove_keys key ks = Inr ?rs" using v Om_Remove by (auto simp: remove_keys_def)
    from om_remove_repr[OF r this] w Om_Remove obtain s' where
      "om_remove key ks s = Inr s'" "om_repr s' (drop_keys ?rs kvs)" by auto
    moreover have "map_of (drop_keys ?rs kvs) = cmd_spec ser c (map_of kvs)"
      unfolding Om_Remove cmd_spec.simps by (rule map_of_drop_keys)
    ultimately show ?thesis using Om_Remove by (intro exI[of _ s'] exI[of _ "drop_keys ?rs kvs"]) simp
  qed
qed

end
