(* ===== verification/Ordered_Map_Claims.thy ===== *)
theory Ordered_Map_Claims
  imports Ordered_Map
begin

text \<open>
  The properties of the ordered map and of its B-tree, over the operations of theories
  \<open>Btree_Node\<close> and \<open>Ordered_Map\<close>, each with an instance on a concrete map.
\<close>

section \<open>A concrete map\<close>

text \<open>An injective source of ids, an empty store, and a serialisation that parsing undoes.\<close>

definition world0 :: world where
  "world0 = \<lparr>nodes = (\<lambda>_. None), uuid4 = (\<lambda>n. [n]), draws = 0\<rparr>"

definition om0 :: om_world where
  "om0 = \<lparr>om = None, store = world0\<rparr>"

fun ser0 :: "(bytes, bytes) msg_value \<Rightarrow> bytes" where
  "ser0 Unset = []"
| "ser0 (ValueV v) = 1 # v"
| "ser0 (BytesV b) = 2 # b"
| "ser0 (AnyV a) = 3 # a"

fun parse0 :: "bytes \<Rightarrow> (bytes, bytes) msg_value" where
  "parse0 [] = Unset"
| "parse0 (n # b) = (if n = 1 then ValueV b else if n = 2 then BytesV b else AnyV b)"

lemma parse0_ser0: "parse0 (ser0 v) = v"
  by (cases v) auto

definition bytes_item :: "bytes \<Rightarrow> (bytes, bytes) item" where
  "bytes_item b = \<lparr>it_value = None, it_bytes = Some b, it_any = None\<rparr>"

definition no_item :: "('v, 'a) item" where
  "no_item = \<lparr>it_value = None, it_bytes = None, it_any = None\<rparr>"

definition put_one :: "pystr \<Rightarrow> ('v, 'a) item \<Rightarrow> ('v, 'a) insert_request" where
  "put_one k it = \<lparr>rq_key = k, rq_item = it, rq_entries = [], rq_degree = None, rq_maintain_size = None\<rparr>"

definition put_many :: "(pystr \<times> ('v, 'a) item) list \<Rightarrow> nat option \<Rightarrow> ('v, 'a) insert_request" where
  "put_many kvs d = \<lparr>rq_key = [], rq_item = no_item, rq_entries = kvs, rq_degree = d, rq_maintain_size = None\<rparr>"

lemma om0_repr: "om_repr om0 []"
  by (simp add: om_repr_def om0_def world0_def world_ok_def fresh_def inj_def)

lemma om_create_repr:
  assumes "om_repr s []" "om s = None" "check_degree d"
  shows "\<exists>s' m. om_create d ms s = Inr s' \<and> om s' = Some m \<and> om_repr s' [] \<and>
    maintain_size m = ms \<and> om_degree m = or_default d"
proof -
  have w: "world_ok (store s)" using assms(1) by (simp add: om_repr_def)
  note er = empty_root[OF w or_default_ok[OF assms(3)]]
  have d: "\<not> or_default d < 2" using or_default_ok[OF assms(3)] by simp
  from er show ?thesis
    using assms(2,3) d
    by (auto simp: om_create_def check_construction_options_def draw_def node_create_def create_state_def
        check_degree_def om_repr_def empty_leaf_def)
qed

lemma create0:
  "\<exists>s m. om_create None True om0 = Inr s \<and> om s = Some m \<and> om_repr s [] \<and> maintain_size m"
  using om_create_repr[OF om0_repr, of None True] by (auto simp: om0_def check_degree_def)

definition cmds0 :: "(bytes, bytes) om_cmd list" where
  "cmds0 = [Om_Insert (put_one [7] (bytes_item [1])), Om_Remove [7] [], Om_Insert (put_one [8] (bytes_item []))]"

lemma cmds0_ok:
  "\<forall>c \<in> set cmds0. cmd_valid ser0 c" "sum_list (map (\<lambda>c. length (cmd_entries ser0 c)) cmds0) = 2"
  "fold (cmd_spec ser0) cmds0 Map.empty [7] = None \<and> fold (cmd_spec ser0) cmds0 Map.empty [8] = Some [2]"
  by (simp_all add: cmds0_def put_one_def bytes_item_def request_entries_def item_to_value_def)

section \<open>Functional correctness\<close>

text \<open>
  \<open>OrderedMap.Insert\<close> on every branch: bad or conflicting construction options and a bad
  request are rejected with their error; otherwise the call succeeds, whether it constructs the map,
  splits leaves and inner nodes or builds new root levels, the result is again a well-formed B-tree,
  its entries are the old ones updated with the new ones, and a maintained size is their number.
\<close>

theorem om_insert_correct:
  assumes "om_repr s kvs" "distinct (map fst (rq_entries rq))"
    "length kvs + length (cmd_entries ser (Om_Insert rq)) < 2 ^ 32"
  shows "case check_construction_options (om s) (rq_degree rq) (rq_maintain_size rq) of
      Some e \<Rightarrow> om_insert ser rq s = Inl e
    | None \<Rightarrow> (case request_entries ser rq of
        Inl e \<Rightarrow> om_insert ser rq s = Inl e
      | Inr es \<Rightarrow> \<exists>s' kvs'. om_insert ser rq s = Inr s' \<and> om_repr s' kvs' \<and>
          map_of kvs' = map_of kvs ++ map_of es)"
proof (cases "check_construction_options (om s) (rq_degree rq) (rq_maintain_size rq)")
  case None
  show ?thesis
  proof (cases "request_entries ser rq")
    case (Inr es)
    then show ?thesis
      using om_insert_repr[OF assms(1) None Inr request_entries_distinct[OF Inr assms(2)]] assms(3) None by simp
  qed (use None in \<open>simp add: om_insert_error\<close>)
qed (simp add: om_insert_error)

theorem om_insert_correct_witness:
  "\<exists>s' kvs'. om_insert ser0 (put_one [7] (bytes_item [1])) om0 = Inr s' \<and> om_repr s' kvs' \<and>
    map_of kvs' = Map.empty ++ [[7] \<mapsto> [2, 1]]"
  using om_insert_correct[of om0 "[]" "put_one [7] (bytes_item [1])" ser0, OF om0_repr]
  by (simp add: put_one_def bytes_item_def request_entries_def item_to_value_def check_construction_options_def
      check_degree_def om0_def)

text \<open>
  \<open>OrderedMap.Remove\<close>: giving both \<open>key\<close> and \<open>keys\<close> is rejected; otherwise the call succeeds,
  also on a map that does not exist yet, and exactly the entries with the given keys are gone.
\<close>

theorem om_remove_correct:
  assumes "om_repr s kvs" "length kvs < 2 ^ 32"
  shows "case remove_keys key ks of
      Inl e \<Rightarrow> om_remove key ks s = Inl e
    | Inr rs \<Rightarrow> \<exists>s'. om_remove key ks s = Inr s' \<and> om_repr s' (filter (\<lambda>e. fst e \<notin> set rs) kvs)"
proof (cases "remove_keys key ks")
  case (Inl e)
  then show ?thesis by (simp add: om_remove_def split: prod.splits)
next
  case (Inr rs)
  then show ?thesis using om_remove_repr[OF assms(1) Inr assms(2)] by simp
qed

theorem om_remove_correct_witness:
  "\<exists>s'. om_remove [7] [] om0 = Inr s' \<and> om_repr s' []"
  using om_remove_correct[of om0 "[]" "[7]" "[]", OF om0_repr] by (simp add: remove_keys_def)

text \<open>
  \<open>OrderedMap.Search\<close> returns what the represented entries hold for the key.
\<close>

theorem om_search_correct:
  assumes "om_repr s kvs" "om s \<noteq> None"
  shows "om_search parse k s = (case map_of kvs k of
      None \<Rightarrow> Inr None
    | Some b \<Rightarrow> (case parse b of Unset \<Rightarrow> Inl OM_AssertionError | v \<Rightarrow> Inr (Some v)))"
  using om_search_repr[OF assms, of parse k] by (auto simp: has_value_def split: option.splits msg_value.splits)

theorem om_search_correct_witness:
  "\<exists>s. om_create None True om0 = Inr s \<and> om_search parse0 [7] s = Inr None"
proof -
  obtain s where s: "om_create None True om0 = Inr s" "om s \<noteq> None" "om_repr s []"
    using create0 by blast
  with om_search_correct[OF s(3,2), of parse0 "[7]"] show ?thesis by simp
qed

text \<open>
  \<open>OrderedMap.Range\<close>: with a positive limit, the scan along the leaves returns the first
  \<open>limit\<close> entries, in key order, from the start key on (all of them for the empty start key), and the
  maintained size; a limit of zero is an \<open>InvalidRangeError\<close>.
\<close>

theorem om_range_correct:
  assumes "om_repr s kvs" "om s = Some m"
  shows "om_range parse k limit s = (if limit = 0 then Inl (OM_Node InvalidRangeError)
    else rbind (entry_from_node_entry parse (take limit (filter (\<lambda>e. k \<le> fst e) kvs)))
      (\<lambda>vs. Inr (vs, if maintain_size m then Some (length kvs) else None)))"
  using om_range_repr[OF assms, of limit parse k] om_range_zero[OF assms(2,1), of parse k] by simp

theorem om_range_correct_witness:
  "\<exists>s. om_create None True om0 = Inr s \<and> om_range parse0 [7] 5 s = Inr ([], Some 0)"
proof -
  obtain s m where s: "om_create None True om0 = Inr s" "om s = Some m" "om_repr s []" "maintain_size m"
    using create0 by blast
  with om_range_correct[OF s(3,2), of parse0 "[7]" 5] show ?thesis by simp
qed

section \<open>Sequences of operations\<close>

text \<open>
  (C30) Refinement of a finite map: from a well-formed map, any sequence of valid inserts and removes
  (within the range of the 32-bit size) runs without an error, and the entries it leaves are exactly
  those of the same sequence on finite maps; the represented list is the only sorted one with them.
\<close>

theorem om_run_refines:
  assumes "om_repr s kvs" "\<forall>c \<in> set cs. cmd_valid ser c"
    "length kvs + sum_list (map (\<lambda>c. length (cmd_entries ser c)) cs) < 2 ^ 32"
  shows "\<exists>s' kvs'. exec_all (om_exec ser) cs s = Inr s' \<and> om_repr s' kvs' \<and>
    map_of kvs' = fold (cmd_spec ser) cs (map_of kvs) \<and>
    (\<forall>kvs''. om_repr s' kvs'' \<longrightarrow> kvs'' = kvs')"
proof -
  obtain s' kvs' where r: "exec_all (om_exec ser) cs s = Inr s'" "om_repr s' kvs'"
    "map_of kvs' = fold (cmd_spec ser) cs (map_of kvs)"
    using om_store.run_ok[OF assms] by blast
  have "kvs'' = kvs'" if "om_repr s' kvs''" for kvs''
  proof (cases "om s'")
    case None
    with r(2) that show ?thesis by (simp add: om_repr_def)
  next
    case (Some m)
    have "map_of kvs'' k = map_of kvs' k" for k
      using root_search_repr[OF r(2) Some, of k] root_search_repr[OF that Some, of k] by simp
    then have "map_of kvs'' = map_of kvs'" by (simp add: fun_eq_iff)
    then show ?thesis by (rule om_store.repr_determined[OF that r(2)])
  qed
  with r show ?thesis by blast
qed

theorem om_run_refines_witness:
  "\<exists>s' kvs'. exec_all (om_exec ser0) cmds0 om0 = Inr s' \<and> om_repr s' kvs' \<and> map_of kvs' [7] = None \<and>
    map_of kvs' [8] = Some [2]"
proof -
  obtain s' kvs' where "exec_all (om_exec ser0) cmds0 om0 = Inr s'" "om_repr s' kvs'"
    "map_of kvs' = fold (cmd_spec ser0) cmds0 (map_of [])"
    using om_run_refines[OF om0_repr cmds0_ok(1), unfolded cmds0_ok(2)] by auto
  then show ?thesis using cmds0_ok(3) by auto
qed

text \<open>
  Round trip: a value inserted under a key is what a search for that key returns, and the
  searches for all other keys return what they did before.
\<close>

theorem insert_then_search:
  assumes "om_repr s kvs" "om s \<noteq> None" "length kvs + 1 < 2 ^ 32"
    and "\<And>v. parse (ser v) = v" and "item_to_value it \<noteq> Unset"
  shows "\<exists>s'. om_insert ser (put_one k it) s = Inr s' \<and>
    om_search parse k s' = Inr (Some (item_to_value it)) \<and>
    (\<forall>k'. k' \<noteq> k \<longrightarrow> om_search parse k' s' = om_search parse k' s)"
proof -
  have rq: "request_entries ser (put_one k it) = Inr [(k, ser (item_to_value it))]"
    using assms(5) by (simp add: request_entries_def put_one_def split: msg_value.splits)
  have ck: "check_construction_options (om s) (rq_degree (put_one k it)) (rq_maintain_size (put_one k it)) = None"
    by (simp add: check_construction_options_def put_one_def check_degree_def split: option.splits)
  from om_insert_repr[OF assms(1) ck rq] assms(3) obtain s' kvs' where
    s': "om_insert ser (put_one k it) s = Inr s'" "om_repr s' kvs'"
    "map_of kvs' = map_of kvs ++ [k \<mapsto> ser (item_to_value it)]" by auto
  have "map_of kvs' k \<noteq> None" using s'(3) by simp
  then have c: "om s' \<noteq> None" using s'(2) by (cases "om s'") (auto simp: om_repr_def)
  have "has_value (item_to_value it) = Inr (item_to_value it)"
    using assms(5) by (simp add: has_value_def split: msg_value.splits)
  then have "om_search parse k s' = Inr (Some (item_to_value it))"
    using om_search_repr[OF s'(2) c, of parse k] s'(3) assms(4) by simp
  moreover have "om_search parse k' s' = om_search parse k' s" if "k' \<noteq> k" for k'
    using om_search_repr[OF s'(2) c, of parse k'] om_search_repr[OF assms(1,2), of parse k'] s'(3) that by simp
  ultimately show ?thesis using s'(1) by blast
qed

theorem insert_then_search_witness:
  "\<exists>s s'. om_create None True om0 = Inr s \<and> om_insert ser0 (put_one [7] (bytes_item [1])) s = Inr s' \<and>
    om_search parse0 [7] s' = Inr (Some (BytesV [1]))"
proof -
  obtain s where s: "om_create None True om0 = Inr s" "om s \<noteq> None" "om_repr s []"
    using create0 by blast
  with insert_then_search[OF s(3,2) _ parse0_ser0, of "bytes_item [1]" "[7]"] show ?thesis
    by (auto simp: bytes_item_def item_to_value_def)
qed

section \<open>The nodes\<close>

text \<open>
  (C31) \<open>Node.Insert\<close> on a tree of any height: enough fuel is the height plus one; the pieces the node
  was split into are trees of the same height (all leaves at one depth) separated by the promoted
  keys, every node of them has fewer keys than its degree, they hold the old entries updated with the
  new ones, the returned count is the number of new keys, all other nodes are untouched, and the
  forward chain of the leaves is complete again.
\<close>

theorem node_insert_correct:
  assumes "2 \<le> d" "h < fuel" "fresh w" "tree_ok d h w lo hi i" "distinct (ids h w i)"
    "distinct (map fst es)" "\<forall>k \<in> fst ` set es. ge_lo lo k \<and> lt_hi hi k"
  shows "\<exists>r w'. node_insert fuel i es d w = Inr (r, w') \<and>
    forest (tree_ok d h w') lo hi (promoted_keys r) (i # new_child_ids r) \<and>
    map_of (contl h w' (i # new_child_ids r)) = map_of (contents h w i) ++ map_of es \<and>
    length (contl h w' (i # new_child_ids r)) = length (contents h w i) + inserted_count r \<and>
    (\<forall>j. nodes w j \<noteq> None \<and> j \<notin> set (ids h w i) \<longrightarrow> nodes w' j = nodes w j) \<and>
    (\<forall>nxt. chain w (leaves h w i) nxt \<longrightarrow> chain w' (leafl h w' (i # new_child_ids r)) nxt)"
proof -
  have "entries_in lo hi es" using assms(6,7) by (simp add: entries_in_def)
  with node_insert_spec[OF assms(1,2)] assms(3-5) obtain r w' where r: "node_insert fuel i es d w = Inr (r, w')"
    and g: "grown d h w lo hi [i] (promoted_keys r) (i # new_child_ids r) es (inserted_count r) w'"
    unfolding insert_spec_def by blast
  have "nodes w' j = nodes w j" if "nodes w j \<noteq> None" "j \<notin> set (ids h w i)" for j
    using grownD(3)[OF g, of j] new_ids_notin_dom[OF assms(3), of j w'] that by auto
  with r grownD[OF g] show ?thesis by (intro exI[of _ r] exI[of _ w']) simp
qed

theorem node_insert_correct_witness:
  "\<exists>r w'. node_insert 1 [0] [([1], []), ([2], []), ([3], [])] 2 (put [0] (empty_leaf 2) (world0\<lparr>draws := 1\<rparr>)) = Inr (r, w') \<and>
    forest (tree_ok 2 0 w') None None (promoted_keys r) ([0] # new_child_ids r)"
  using node_insert_correct[of 2 0 1 "put [0] (empty_leaf 2) (world0\<lparr>draws := 1\<rparr>)" None None "[0]"
      "[([1], []), ([2], []), ([3], [])]"]
  by (simp add: fresh_def world0_def put_def empty_leaf_def tree_ok.simps leaf_ok_def inj_def) blast

text \<open>
  \<open>Node.ReverseRange\<close>: where the \<open>prev_id\<close> links mirror the order of the leaves, the reverse scan
  returns the last \<open>limit\<close> entries up to the start key, in descending order.
\<close>

theorem node_reverse_range_correct:
  assumes "tree_ok d h w lo hi i" "back_chain w (rev (leaves h w i))" "nodes w [] = None" "0 < limit"
    "h + length (leaves h w i) \<le> fuel"
  shows "node_reverse_range fuel i k limit w =
    Inr (take limit (rev (filter (\<lambda>e. k = [] \<or> fst e \<le> k) (contents h w i))))"
  using node_reverse_range_ok[OF assms, of k] by (simp add: upto_key_def)

theorem node_reverse_range_correct_witness:
  "node_reverse_range 1 [0] [] 3 (put [0] ((empty_leaf 9)\<lparr>keys := [[1], [2]], vals := [[], []]\<rparr>) world0) =
    Inr [([2], []), ([1], [])]"
  using node_reverse_range_correct[of 9 0 "put [0] ((empty_leaf 9)\<lparr>keys := [[1], [2]], vals := [[], []]\<rparr>) world0"
      None None "[0]" 3 1 "[]"]
  by (simp add: world0_def put_def empty_leaf_def tree_ok.simps leaf_ok_def leaf_kvs_def prev_of_def)

section \<open>Where the code falls short\<close>

text \<open>
  The map of degree 4 after inserting the keys 1, 2, 3, 4 and then 1.1 and 1.2: the second insert
  splits the first leaf, which is not the last one.
\<close>

definition split_first :: "om_error + om_world" where
  "split_first = exec_all (om_exec ser0)
     [Om_Insert (put_many [([1], bytes_item []), ([2], bytes_item []), ([3], bytes_item []), ([4], bytes_item [])] (Some 4)),
      Om_Insert (put_many [([1, 1], bytes_item []), ([1, 2], bytes_item [])] None)] om0"

text \<open>
  Such a run: after the split of a leaf that is not the last one, \<open>Range\<close> returns all six entries and
  \<open>ReverseRange\<close> skips the two that were moved to the new sibling.
\<close>

theorem reverse_range_loses_entries:
  "case split_first of Inl _ \<Rightarrow> False | Inr s \<Rightarrow>
    map_sum id (map fst \<circ> fst) (om_range parse0 [] 10 s) = Inr [[1], [1, 1], [1, 2], [2], [3], [4]] \<and>
    map_sum id (map fst) (om_reverse_range parse0 [] 10 s) = Inr [[4], [3], [1, 1], [1]]"
  by code_simp

text \<open>
  (C35) The reverse scan loses entries: \<open>_insert_leaf\<close> gives the last new sibling the old \<open>next_id\<close>, but
  leaves the \<open>prev_id\<close> of that next leaf pointing at the leaf that was split.  Whenever a leaf \<open>i\<close> of a correctly
  linked chain of leaves, of which \<open>j\<close> is the next, is split by an insert: the entries of \<open>i\<close> and the new ones are
  split between \<open>i\<close> and the new leaves, which get at least one; \<open>Range\<close> from \<open>i\<close> returns them all and then those of \<open>j\<close> and
  its successors, and \<open>ReverseRange\<close> from \<open>j\<close> goes from \<open>j\<close> to \<open>i\<close> and its predecessors and never
  returns those in the new leaves.
\<close>

theorem reverse_range_skips_split_leaf:
  assumes "2 \<le> d" "fresh w" "tree_ok d 0 w lo hi i" "distinct (map fst es)" "\<forall>k \<in> fst ` set es. ge_lo lo k \<and> lt_hi hi k"
    "\<forall>l \<in> set (rev ls @ i # j # rs). is_leaf_node w l \<and> l \<noteq> []" "i \<notin> set (ls @ j # rs)"
    "chain w (i # j # rs) []" "back_chain w (j # i # ls)"
    "node_insert (Suc f) i es d w = Inr (r, w')" "new_child_ids r \<noteq> []" "0 < limit"
    "length ls + length (new_child_ids r) + length rs + 2 \<le> fuel"
  shows "\<exists>lost. lost \<noteq> [] \<and> map_of (leaf_kvs w' i @ lost) = map_of (leaf_kvs w i) ++ map_of es \<and>
    node_range fuel i k limit w' =
      Inr (take limit (filter (\<lambda>e. k \<le> fst e) (leaf_kvs w' i @ lost @ concat (map (leaf_kvs w) (j # rs))))) \<and>
    node_reverse_range fuel j k limit w' =
      Inr (take limit (rev (filter (\<lambda>e. k = [] \<or> fst e \<le> k) (concat (map (leaf_kvs w) (rev ls)) @ leaf_kvs w' i @ leaf_kvs w j))))"
proof -
  have en: "entries_in lo hi es" using assms(4,5) by (simp add: entries_in_def)
  note sp = split_leaf[OF assms(1-3) en assms(10,11)]
  let ?new = "new_child_ids r" and ?lost = "concat (map (leaf_kvs w') (new_child_ids r))"
  note gl = grown_leaves[OF assms(2) sp(1)]
  have i: "i \<noteq> []" using assms(6) by simp
  then have same: "nodes w' l = nodes w l" if "l \<in> set (ls @ j # rs)" for l
    using gl(2)[of l] assms(6,7) that by (auto simp: is_leaf_node_def split: option.splits)
  have kv: "leaf_kvs w' l = leaf_kvs w l" "is_leaf_node w' l = is_leaf_node w l" "prev_of w' l = prev_of w l"
    if "l \<in> set (ls @ j # rs)" for l
    using same[OF that] by (simp_all add: leaf_kvs_def is_leaf_node_def prev_of_def)
  have "chain w' (i # ?new) j" using assms(8) grownD[OF sp(1)] by simp
  then have "chain w' ((i # ?new) @ j # rs) []"
    using assms(8) chain_cong[of "j # rs" w' w "[]"] same by (subst chain_append) auto
  then have "node_range fuel i k limit w' = Inr (take limit (filter (\<lambda>e. k \<le> fst e) (concat (map (leaf_kvs w') ((i # ?new) @ j # rs)))))"
    using range_chain[of "(i # ?new) @ j # rs" w' limit fuel k] gl(1) i assms(6,12,13) kv(2) by auto
  moreover have "back_chain w' (j # i # ls)"
    using assms(9) back_chain_cong[of "j # i # ls" w' w] kv(3) sp(2) by auto
  then have "node_reverse_range fuel j k limit w' = Inr (take limit (rev (upto_key k (concat (map (leaf_kvs w') (rev (j # i # ls)))))))"
    using reverse_range_chain[of "j # i # ls" w' limit fuel k] gl(1) i assms(6,12,13) kv(2) by auto
  moreover have "map (leaf_kvs w') (rev ls) = map (leaf_kvs w) (rev ls)" "map (leaf_kvs w') rs = map (leaf_kvs w) rs" "leaf_kvs w' j = leaf_kvs w j"
    using kv(1) by auto
  ultimately show ?thesis using sp(3,4) by (intro exI[of _ ?lost]) (simp add: upto_key_def)
qed

text \<open>Two leaves, the first of which is full.\<close>

definition two_leaves :: world where
  "two_leaves = put [0] ((empty_leaf 2)\<lparr>keys := [[1]], vals := [[]], next_id := [1]\<rparr>)
     (put [1] ((empty_leaf 2)\<lparr>keys := [[5]], vals := [[]], prev_id := [0]\<rparr>) (world0\<lparr>draws := 2\<rparr>))"

lemma two_leaves_ok:
  "fresh two_leaves" "tree_ok 2 0 two_leaves None (Some [5]) [0]" "is_leaf_node two_leaves [0]" "is_leaf_node two_leaves [1]"
  "chain two_leaves [[0], [1]] []" "back_chain two_leaves [[1], [0]]" "leaf_kvs two_leaves [1] = [([5], [])]"
  by (auto simp: fresh_def two_leaves_def world0_def put_def empty_leaf_def tree_ok.simps leaf_ok_def inj_def
      is_leaf_node_def next_of_def prev_of_def leaf_kvs_def)

theorem reverse_range_skips_split_leaf_witness:
  "\<exists>r w' lost. node_insert 1 [0] [([2], [])] 2 two_leaves = Inr (r, w') \<and> lost \<noteq> [] \<and>
     node_range 3 [0] [] 9 w' = Inr (take 9 (([1], []) # lost @ [([5], [])])) \<and>
     node_reverse_range 3 [1] [] 9 w' = Inr [([5], []), ([1], [])]"
proof -
  have "case node_insert 1 [0] [([2], [])] 2 two_leaves of Inl _ \<Rightarrow> False | Inr (r, w') \<Rightarrow>
      new_child_ids r = [[2]] \<and> leaf_kvs w' [0] = [([1], [])]" by code_simp
  then obtain r w' where r: "node_insert (Suc 0) [0] [([2], [])] 2 two_leaves = Inr (r, w')" "new_child_ids r = [[2]]"
    "leaf_kvs w' [0] = [([1], [])]" by (auto split: sum.splits)
  have "\<exists>lost. lost \<noteq> [] \<and> map_of (leaf_kvs w' [0] @ lost) = map_of (leaf_kvs two_leaves [0]) ++ map_of [([2], [])] \<and>
      node_range 3 [0] [] 9 w' =
        Inr (take 9 (filter (\<lambda>e. [] \<le> fst e) (leaf_kvs w' [0] @ lost @ concat (map (leaf_kvs two_leaves) [[1]])))) \<and>
      node_reverse_range 3 [1] [] 9 w' =
        Inr (take 9 (rev (filter (\<lambda>e. [] = ([] :: pystr) \<or> fst e \<le> []) (concat (map (leaf_kvs two_leaves) (rev [])) @ leaf_kvs w' [0] @ leaf_kvs two_leaves [1]))))"
    by (rule reverse_range_skips_split_leaf[OF _ two_leaves_ok(1,2) _ _ _ _ two_leaves_ok(5,6) r(1)])
      (use two_leaves_ok(3,4) r(2) in simp_all)
  then show ?thesis using r(1,3) two_leaves_ok(7) by auto
qed

text \<open>
  A bulk insert accepts an item with no value, which the single-key insert rejects as an invalid
  argument, and the map's own \<open>Search\<close> then fails an assertion on that key.
\<close>

theorem bulk_insert_of_empty_item:
  assumes "om_repr s kvs" "length kvs + 1 < 2 ^ 32" "\<And>v. parse (ser v) = v"
  shows "om_insert ser (put_one k no_item) s = Inl OM_InvalidArgument \<and>
    (\<exists>s'. om_insert ser (put_many [(k, no_item)] None) s = Inr s' \<and>
      om_search parse k s' = Inl OM_AssertionError)"
proof
  let ?b = "put_many [(k, no_item)] None"
  have ck: "check_construction_options (om s) None None = None"
    by (simp add: check_construction_options_def check_degree_def split: option.splits)
  show "om_insert ser (put_one k no_item) s = Inl OM_InvalidArgument"
    by (rule om_insert_error) (simp add: ck put_one_def no_item_def request_entries_def item_to_value_def)
  have rq: "request_entries ser ?b = Inr [(k, ser Unset)]"
    by (simp add: request_entries_def put_many_def no_item_def item_to_value_def)
  have ck': "check_construction_options (om s) (rq_degree ?b) (rq_maintain_size ?b) = None"
    using ck by (simp add: put_many_def)
  from om_insert_repr[OF assms(1) ck' rq] assms(2) obtain s' kvs' where
    s': "om_insert ser ?b s = Inr s'" "om_repr s' kvs'" "map_of kvs' k = Some (ser Unset)" by auto
  then have "om s' \<noteq> None" by (cases "om s'") (auto simp: om_repr_def)
  from om_search_repr[OF s'(2) this, of parse k] s' assms(3)
  show "\<exists>s'. om_insert ser ?b s = Inr s' \<and> om_search parse k s' = Inl OM_AssertionError"
    by (auto simp: has_value_def)
qed

theorem bulk_insert_of_empty_item_witness:
  "om_insert ser0 (put_one [7] no_item) om0 = Inl OM_InvalidArgument \<and>
    (\<exists>s'. om_insert ser0 (put_many [([7], no_item)] None) om0 = Inr s' \<and>
      om_search parse0 [7] s' = Inl OM_AssertionError)"
  using bulk_insert_of_empty_item[OF om0_repr _ parse0_ser0, of "[7]"] by simp

end
