(* ===== verification/State_Ref.thy ===== *)
theory State_Ref
  imports Prelude
begin

text \<open>
  State references, \<open>reboot/aio/types.py\<close>: the \<open>/\<close>-separated encoded ids that name states and route
  calls, the type tags in them, and \<open>validate_ascii\<close>.  A reference is its encoded string.

  \<open>hashlib.sha1(x.encode()).digest()\<close> is a parameter \<open>sha1\<close>; the theorems assume only that it
  returns 20 bytes.  The URL-safe base64 codec of the standard library is modelled: encoding by
  groups of three bytes, decoding as the non-strict scan that skips characters outside the alphabet.
\<close>

section \<open>Strings\<close>

definition str :: "string \<Rightarrow> pystr" where
  "str s = map of_char s"

definition slash :: nat where "slash = 47"
definition colon :: nat where "colon = 58"
definition backslash :: nat where "backslash = 92"

lemmas char_defs = slash_def colon_def backslash_def

text \<open>\<open>s.rfind(c)\<close>: the last index, or \<open>-1\<close>.\<close>

fun rfind :: "nat \<Rightarrow> pystr \<Rightarrow> int" where
  "rfind c [] = -1"
| "rfind c (x # xs) = (let r = rfind c xs in if r \<ge> 0 then r + 1 else if x = c then 0 else -1)"

text \<open>\<open>s.split(c)\<close> and \<open>s.split(c, maxsplit=1)\<close>.\<close>

fun split :: "nat \<Rightarrow> pystr \<Rightarrow> pystr list" where
  "split c [] = [[]]"
| "split c (x # xs) = (if x = c then [] # split c xs
     else (case split c xs of [] \<Rightarrow> [[x]] | p # ps \<Rightarrow> (x # p) # ps))"

definition split1 :: "nat \<Rightarrow> pystr \<Rightarrow> pystr list" where
  "split1 c s = (if c \<in> set s then [takeWhile (\<lambda>x. x \<noteq> c) s, tl (dropWhile (\<lambda>x. x \<noteq> c) s)] else [s])"

text \<open>\<open>'/'.join(...)\<close>.\<close>

fun join :: "nat \<Rightarrow> pystr list \<Rightarrow> pystr" where
  "join c [] = []"
| "join c [p] = p"
| "join c (p # q # ps) = p @ c # join c (q # ps)"

section \<open>Base64\<close>

definition b64_char :: "nat \<Rightarrow> nat" where
  "b64_char n = (if n < 26 then 65 + n else if n < 52 then 71 + n else if n < 62 then n - 4
     else if n = 62 then 45 else 95)"

text \<open>The value of a character after \<open>-\<close> and \<open>_\<close> are translated to \<open>+\<close> and \<open>/\<close>.\<close>

definition b64_value :: "nat \<Rightarrow> nat option" where
  "b64_value c = (if 65 \<le> c \<and> c \<le> 90 then Some (c - 65) else if 97 \<le> c \<and> c \<le> 122 then Some (c - 71)
     else if 48 \<le> c \<and> c \<le> 57 then Some (c + 4) else if c = 45 \<or> c = 43 then Some 62
     else if c = 95 \<or> c = 47 then Some 63 else None)"

fun b64encode :: "bytes \<Rightarrow> pystr" where
  "b64encode [] = []"
| "b64encode [a] = [b64_char (a div 4), b64_char ((a mod 4) * 16), 61, 61]"
| "b64encode [a, b] = [b64_char (a div 4), b64_char ((a mod 4) * 16 + b div 16), b64_char ((b mod 16) * 4), 61]"
| "b64encode (a # b # c # rest) =
     b64_char (a div 4) # b64_char ((a mod 4) * 16 + b div 16) # b64_char ((b mod 16) * 4 + c div 64) #
     b64_char (c mod 64) # b64encode rest"

text \<open>
  The scan of \<open>binascii.a2b_base64\<close>: \<open>q\<close> the position in the group of four, \<open>left\<close> the bits carried
  over, \<open>pads\<close> the padding seen.  \<open>None\<close>: the padding is wrong.
\<close>

fun b64decode_from :: "nat \<Rightarrow> nat \<Rightarrow> nat \<Rightarrow> pystr \<Rightarrow> bytes option" where
  "b64decode_from q left pads [] = (if q = 0 then Some [] else None)"
| "b64decode_from q left pads (c # cs) =
     (if c = 61 then
        (if q \<ge> 2 \<and> q + pads + 1 \<ge> 4 then Some []
         else b64decode_from q left (if q \<ge> 2 then pads + 1 else pads) cs)
      else (case b64_value c of
          None \<Rightarrow> b64decode_from q left pads cs
        | Some v \<Rightarrow>
            if q = 0 then b64decode_from 1 v 0 cs
            else if q = 1 then map_option (Cons (left * 4 + v div 16)) (b64decode_from 2 (v mod 16) 0 cs)
            else if q = 2 then map_option (Cons (left * 16 + v div 4)) (b64decode_from 3 (v mod 4) 0 cs)
            else map_option (Cons (left * 64 + v)) (b64decode_from 0 0 0 cs)))"

definition b64decode :: "pystr \<Rightarrow> bytes option" where
  "b64decode s = b64decode_from 0 0 0 s"

section \<open>Validation\<close>

datatype ref_error = InvalidStateRefError | ValueErr | IndexErr | AssertErr

definition MIN_ACTOR_ID_LENGTH :: nat where "MIN_ACTOR_ID_LENGTH = 1"
definition MAX_ACTOR_ID_LENGTH :: nat where "MAX_ACTOR_ID_LENGTH = 128"

definition ILLEGAL_STATE_ID_CHARACTERS :: "nat list" where
  "ILLEGAL_STATE_ID_CHARACTERS = [0, 10, 92]"

text \<open>\<open>validate_ascii\<close> of a string.\<close>

definition validate_ascii :: "pystr \<Rightarrow> nat \<Rightarrow> nat \<Rightarrow> nat list \<Rightarrow> 'e \<Rightarrow> 'e + unit" where
  "validate_ascii value length_max length_min illegal error_type =
     (if length value > length_max then Inl error_type
      else if length value < length_min then Inl error_type
      else if \<not> list_all (\<lambda>c. c < 128) value then Inl error_type
      else if filter (\<lambda>c. c \<in> set illegal) value \<noteq> [] then Inl error_type
      else Inr ())"

section \<open>Type tags\<close>

definition STATE_TYPE_TAG_LENGTH :: nat where "STATE_TYPE_TAG_LENGTH = 14"

text \<open>The tag computed for a type name, with the assertions on its padding and length.\<close>

definition compute_tag :: "(pystr \<Rightarrow> bytes) \<Rightarrow> pystr \<Rightarrow> ref_error + pystr" where
  "compute_tag sha1 state_type =
     (let d = sha1 state_type; half = take (length d div 2) d in
      if half = [] then Inl IndexErr
      else let tag = b64encode (half[0 := 0]) in
        rbind (py_assert AssertErr (length tag \<ge> 2 \<and> tag ! (length tag - 1) = 61 \<and> tag ! (length tag - 2) = 61)) (\<lambda>_.
        let tag' = take (length tag - 2) tag in
        rbind (py_assert AssertErr (length tag' = STATE_TYPE_TAG_LENGTH)) (\<lambda>_. Inr tag')))"

text \<open>\<open>state_type_tag_for_name\<close>: with the cache \<open>_state_type_tags\<close>.\<close>

definition state_type_tag_for_name :: "(pystr \<Rightarrow> bytes) \<Rightarrow> pystr \<Rightarrow> (pystr \<Rightarrow> pystr option) \<Rightarrow>
    ref_error + (pystr \<times> (pystr \<Rightarrow> pystr option))" where
  "state_type_tag_for_name sha1 state_type cache =
     (case cache state_type of Some tag \<Rightarrow> Inr (tag, cache)
      | None \<Rightarrow> rbind (compute_tag sha1 state_type) (\<lambda>tag. Inr (tag, cache(state_type \<mapsto> tag))))"

section \<open>References\<close>

definition state_id_encode :: "pystr \<Rightarrow> pystr" where
  "state_id_encode s = map (\<lambda>c. if c = slash then backslash else c) s"

definition state_id_decode :: "pystr \<Rightarrow> pystr" where
  "state_id_decode s = map (\<lambda>c. if c = backslash then slash else c) s"

definition last_component :: "pystr \<Rightarrow> pystr" where
  "last_component ref = drop (nat (rfind slash ref + 1)) ref"

definition ref_id :: "pystr \<Rightarrow> pystr" where
  "ref_id ref = state_id_decode (drop (STATE_TYPE_TAG_LENGTH + 1) (last_component ref))"

definition ref_type_tag :: "pystr \<Rightarrow> ref_error + pystr" where
  "ref_type_tag ref =
     (let tag = hd (split colon (last_component ref)) in
      rbind (py_assert AssertErr (length tag = STATE_TYPE_TAG_LENGTH)) (\<lambda>_. Inr tag))"

definition components :: "pystr \<Rightarrow> pystr list" where
  "components ref = split slash ref"

definition is_state_ref :: "pystr \<Rightarrow> ref_error + bool" where
  "is_state_ref candidate =
     (let start = nat (rfind slash candidate + 1); tag_end = start + STATE_TYPE_TAG_LENGTH in
      if length candidate < tag_end + 1 \<or> candidate ! tag_end \<noteq> colon then Inr False
      else (case b64decode (take STATE_TYPE_TAG_LENGTH (drop start candidate) @ [61, 61]) of
          None \<Rightarrow> Inr False
        | Some [] \<Rightarrow> Inl IndexErr
        | Some (b # _) \<Rightarrow> Inr (b = 0)))"

definition from_id :: "(pystr \<Rightarrow> bytes) \<Rightarrow> pystr \<Rightarrow> pystr \<Rightarrow> ref_error + pystr" where
  "from_id sha1 state_type state_id =
     rbind (validate_ascii state_id MAX_ACTOR_ID_LENGTH MIN_ACTOR_ID_LENGTH ILLEGAL_STATE_ID_CHARACTERS
              InvalidStateRefError) (\<lambda>_.
     rbind (compute_tag sha1 state_type) (\<lambda>tag. Inr (tag @ colon # state_id_encode state_id)))"

definition from_id_prefix :: "(pystr \<Rightarrow> bytes) \<Rightarrow> pystr \<Rightarrow> pystr \<Rightarrow> ref_error + pystr" where
  "from_id_prefix sha1 state_type state_id =
     rbind (validate_ascii state_id MAX_ACTOR_ID_LENGTH 0 ILLEGAL_STATE_ID_CHARACTERS InvalidStateRefError) (\<lambda>_.
     rbind (compute_tag sha1 state_type) (\<lambda>tag. Inr (tag @ colon # state_id_encode state_id)))"

text \<open>
  \<open>from_maybe_readable\<close>: the encoded reference and, when some component was readable, the readable
  form (a \<open>ReadableStateRef\<close>).
\<close>

fun encode_components :: "(pystr \<Rightarrow> bytes) \<Rightarrow> pystr list \<Rightarrow> ref_error + (pystr list \<times> bool)" where
  "encode_components sha1 [] = Inr ([], False)"
| "encode_components sha1 (part # rest) =
     (case split1 colon part of
        [t, i] \<Rightarrow>
          if t = [] then Inl ValueErr
          else rbind (compute_tag sha1 t) (\<lambda>tag.
               rbind (encode_components sha1 rest) (\<lambda>(rs, readable).
                 Inr ((tag @ colon # i) # rs, tag \<noteq> t \<or> readable)))
      | _ \<Rightarrow> Inl ValueErr)"

definition from_maybe_readable :: "(pystr \<Rightarrow> bytes) \<Rightarrow> pystr \<Rightarrow> ref_error + (pystr \<times> pystr option)" where
  "from_maybe_readable sha1 candidate =
     rbind (is_state_ref candidate) (\<lambda>b.
       if b then Inr (candidate, None)
       else rbind (encode_components sha1 (split slash candidate)) (\<lambda>(rs, readable).
         if rs = [] then Inl ValueErr
         else Inr (join slash rs, if readable then Some candidate else None)))"

definition matches_state_type :: "(pystr \<Rightarrow> bytes) \<Rightarrow> pystr \<Rightarrow> pystr \<Rightarrow> ref_error + bool" where
  "matches_state_type sha1 state_type ref =
     rbind (compute_tag sha1 state_type) (\<lambda>expected. rbind (ref_type_tag ref) (\<lambda>tag. Inr (tag = expected)))"

definition colocate :: "(pystr \<Rightarrow> bytes) \<Rightarrow> pystr \<Rightarrow> pystr \<Rightarrow> pystr \<Rightarrow> ref_error + pystr" where
  "colocate sha1 state_type state_id ref =
     rbind (from_id sha1 state_type state_id) (\<lambda>child. Inr (ref @ slash # child))"

section \<open>The codec\<close>

lemma b64_value_char [simp]: "n < 64 \<Longrightarrow> b64_value (b64_char n) = Some n"
  by (auto simp: b64_value_def b64_char_def)

lemma b64_char_clean: "n < 64 \<Longrightarrow> b64_char n \<noteq> 61 \<and> b64_char n \<noteq> 47 \<and> b64_char n \<noteq> 58"
  by (auto simp: b64_char_def)

lemma six_bits:
  "a < 256 \<Longrightarrow> a div 4 < 64" "(a mod 4) * 16 < (64::nat)"
  "b < 256 \<Longrightarrow> (a mod 4) * 16 + b div 16 < (64::nat)" "(b mod 16) * 4 < (64::nat)"
  "c < 256 \<Longrightarrow> (b mod 16) * 4 + c div 64 < (64::nat)" "c mod 64 < (64::nat)"
  for a b c :: nat
proof -
  have "a mod 4 \<le> 3" "b mod 16 \<le> 15" by simp_all
  moreover have "b < 256 \<Longrightarrow> b div 16 \<le> 15" "c < 256 \<Longrightarrow> c div 64 \<le> 3" by auto
  ultimately show "(a mod 4) * 16 < (64::nat)" "b < 256 \<Longrightarrow> (a mod 4) * 16 + b div 16 < (64::nat)"
    "(b mod 16) * 4 < (64::nat)" "c < 256 \<Longrightarrow> (b mod 16) * 4 + c div 64 < (64::nat)" by linarith+
qed auto

lemma regroup_bits:
  "a div 4 * 4 + (a mod 4 * 16) div 16 = a" "a mod 4 * 16 mod 16 = 0"
  "b < 256 \<Longrightarrow> a div 4 * 4 + (a mod 4 * 16 + b div 16) div 16 = a"
  "b < 256 \<Longrightarrow> (a mod 4 * 16 + b div 16) mod 16 * 16 + b mod 16 = b"
  "b < 256 \<Longrightarrow> (a mod 4 * 16 + b div 16) mod 16 = b div 16"
  "c < 256 \<Longrightarrow> (b mod 16 * 4 + c div 64) div 4 = b mod 16"
  "c < 256 \<Longrightarrow> (b mod 16 * 4 + c div 64) mod 4 * 64 + c mod 64 = c"
  for a b c :: nat
  by auto

lemma b64decode_encode_from:
  "\<forall>b \<in> set bs. b < 256 \<Longrightarrow> b64decode_from 0 0 p (b64encode bs) = Some bs"
proof (induction bs arbitrary: p rule: b64encode.induct)
  case (4 a b c rest)
  then have "b div 16 < 16" "c div 64 < 4" by auto
  then have "b div 16 div 16 = 0" "b div 16 mod 16 = b div 16" "c div 64 div 4 = 0" "c div 64 mod 4 = c div 64"
    by simp_all
  with 4 show ?case using b64_char_clean six_bits by (simp add: six_bits regroup_bits)
next
  case (3 a b)
  then have "b div 16 < 16" by auto
  then have "b div 16 div 16 = 0" "b div 16 mod 16 = b div 16" by simp_all
  with 3 show ?case using b64_char_clean six_bits by (simp add: six_bits regroup_bits)
qed (use b64_char_clean six_bits in \<open>simp_all add: six_bits regroup_bits\<close>)

lemma b64decode_encode: "\<forall>b \<in> set bs. b < 256 \<Longrightarrow> b64decode (b64encode bs) = Some bs"
  by (simp add: b64decode_def b64decode_encode_from)

section \<open>Tags and references\<close>

text \<open>What the theorems assume of the hash: twenty bytes.\<close>

definition digest20 :: "(pystr \<Rightarrow> bytes) \<Rightarrow> bool" where
  "digest20 sha1 \<longleftrightarrow> (\<forall>x. length (sha1 x) = 20 \<and> (\<forall>b \<in> set (sha1 x). b < 256))"

lemma b64_tail:
  "\<forall>b \<in> set bs. b < 256 \<Longrightarrow> length bs = 10 \<Longrightarrow> \<exists>tag. b64encode bs = tag @ [61, 61] \<and> length tag = 14 \<and>
    set tag \<inter> {47, 58, 61} = {}"
proof -
  assume b: "\<forall>b \<in> set bs. b < 256" and "length bs = 10"
  then obtain a0 a1 a2 a3 a4 a5 a6 a7 a8 a9 where bs: "bs = [a0, a1, a2, a3, a4, a5, a6, a7, a8, a9]"
    by (auto simp: length_Suc_conv numeral_eq_Suc)
  have c: "b64_char n \<noteq> 47" "b64_char n \<noteq> 58" "b64_char n \<noteq> 61" if "n < 64" for n
    using b64_char_clean[OF that] by simp_all
  show ?thesis
    using b by (intro exI[of _ "take 14 (b64encode bs)"]) (simp add: bs c six_bits)
qed

lemma compute_tag_ok:
  assumes "digest20 sha1"
  obtains tag bs where "compute_tag sha1 t = Inr tag" "length tag = STATE_TYPE_TAG_LENGTH"
    "slash \<notin> set tag" "colon \<notin> set tag" "b64decode (tag @ [61, 61]) = Some (0 # bs)"
proof -
  let ?d = "sha1 t" let ?h = "(take (length ?d div 2) ?d)[0 := 0]"
  have l: "length ?d = 20" and b: "\<forall>b \<in> set ?d. b < 256" using assms by (simp_all add: digest20_def)
  have h: "length ?h = 10" using l by simp
  have hb: "\<forall>b \<in> set ?h. b < 256"
    using b set_update_subset_insert[of "take (length ?d div 2) ?d" 0 0] set_take_subset[of "length ?d div 2" ?d] by fastforce
  obtain tag where t: "b64encode ?h = tag @ [61, 61]" "length tag = 14" "set tag \<inter> {47, 58, 61} = {}"
    using b64_tail[OF hb h] by blast
  have ne: "take (length ?d div 2) ?d \<noteq> []" using l by auto
  have "compute_tag sha1 t = Inr tag"
    using t(1,2) ne by (simp add: compute_tag_def Let_def nth_append STATE_TYPE_TAG_LENGTH_def)
  moreover have "?h = 0 # tl ?h" using ne by (cases "take (length ?d div 2) ?d") auto
  ultimately show thesis
    using that[of tag "tl ?h"] t(2,3) b64decode_encode[OF hb] t(1) by (auto simp: STATE_TYPE_TAG_LENGTH_def char_defs)
qed

lemma rfind_none: "c \<notin> set s \<Longrightarrow> rfind c s = -1"
  by (induction s) auto

lemma rfind_ge: "rfind c s \<ge> -1"
  by (induction s) (auto simp: Let_def)

lemma rfind_append: "c \<notin> set t \<Longrightarrow> rfind c (s @ c # t) = int (length s)"
  by (induction s) (auto simp: rfind_none Let_def)

lemma last_component_simple: "slash \<notin> set s \<Longrightarrow> last_component s = s"
  by (simp add: last_component_def rfind_none)

lemma last_component_append: "slash \<notin> set t \<Longrightarrow> last_component (s @ slash # t) = t"
  by (simp add: last_component_def rfind_append nat_add_distrib)

lemma split_nonempty: "split c s \<noteq> []"
  by (induction s) (auto split: list.splits)

lemma split_simple: "c \<notin> set s \<Longrightarrow> split c s = [s]"
  by (induction s) auto

lemma split_append: "split c (s @ c # t) = split c s @ split c t"
  by (induction s) (auto simp: split_nonempty split: list.splits)

lemma join_split: "join c (split c s) = s"
proof (induction s)
  case (Cons x xs)
  obtain p ps where "split c xs = p # ps" using split_nonempty by (cases "split c xs") auto
  with Cons show ?case by (cases ps) auto
qed simp

lemma split1_append: "c \<notin> set s \<Longrightarrow> split1 c (s @ c # t) = [s, t]"
  by (simp add: split1_def) (induction s; simp)

lemma encode_no_slash: "slash \<notin> set (state_id_encode s)"
  by (auto simp: state_id_encode_def char_defs)

lemma decode_encode: "backslash \<notin> set s \<Longrightarrow> state_id_decode (state_id_encode s) = s"
  by (induction s) (auto simp: state_id_decode_def state_id_encode_def char_defs)

definition valid_id :: "pystr \<Rightarrow> bool" where
  "valid_id s \<longleftrightarrow> 1 \<le> length s \<and> length s \<le> 128 \<and> (\<forall>c \<in> set s. c < 128 \<and> c \<noteq> 0 \<and> c \<noteq> 10 \<and> c \<noteq> 92)"

lemma validate_id: "validate_ascii s MAX_ACTOR_ID_LENGTH MIN_ACTOR_ID_LENGTH ILLEGAL_STATE_ID_CHARACTERS e =
    (if valid_id s then Inr () else Inl e)"
  by (auto simp: validate_ascii_def valid_id_def MAX_ACTOR_ID_LENGTH_def MIN_ACTOR_ID_LENGTH_def
      ILLEGAL_STATE_ID_CHARACTERS_def list_all_iff filter_empty_conv Suc_le_eq)

lemma from_id_ok:
  assumes "digest20 sha1" "valid_id i"
  obtains tag bs where "from_id sha1 t i = Inr (tag @ colon # state_id_encode i)" "compute_tag sha1 t = Inr tag"
    "length tag = STATE_TYPE_TAG_LENGTH" "slash \<notin> set (tag @ colon # state_id_encode i)" "colon \<notin> set tag"
    "b64decode (tag @ [61, 61]) = Some (0 # bs)"
proof -
  obtain tag bs where t: "compute_tag sha1 t = Inr tag" "length tag = STATE_TYPE_TAG_LENGTH"
    "slash \<notin> set tag" "colon \<notin> set tag" "b64decode (tag @ [61, 61]) = Some (0 # bs)"
    by (rule compute_tag_ok[OF assms(1)])
  moreover have "slash \<noteq> colon" by (simp add: char_defs)
  ultimately show thesis
    using that[of tag bs] encode_no_slash[of i] assms(2) by (simp add: from_id_def validate_id)
qed

text \<open>The readings of a reference whose last component is encoded.\<close>

lemma encoded_readings:
  assumes "length tag = STATE_TYPE_TAG_LENGTH" "colon \<notin> set tag" "b64decode (tag @ [61, 61]) = Some (0 # bs)"
    "valid_id i" "slash \<notin> set (tag @ colon # state_id_encode i)"
    and r: "r = tag @ colon # state_id_encode i \<or> r = p @ slash # tag @ colon # state_id_encode i"
  shows "ref_id r = i" "ref_type_tag r = Inr tag" "is_state_ref r = Inr True"
proof -
  let ?c = "tag @ colon # state_id_encode i"
  have lc: "last_component r = ?c" using r last_component_simple[OF assms(5)] last_component_append[OF assms(5)] by auto
  have "backslash \<notin> set i" using assms(4) by (auto simp: valid_id_def backslash_def)
  then show "ref_id r = i" using assms(1) by (simp add: ref_id_def lc decode_encode)
  show "ref_type_tag r = Inr tag"
    using assms(1,2) by (simp add: ref_type_tag_def lc split_append split_simple)
  have "nat (rfind slash r + 1) = length r - length ?c"
    using r rfind_none[OF assms(5)] rfind_append[OF assms(5)] by (auto simp: nat_add_distrib)
  moreover have "r = take (length r - length ?c) r @ ?c" using r by auto
  ultimately obtain q where q: "r = q @ ?c" "nat (rfind slash r + 1) = length q"
    by (metis append_take_drop_id append_same_eq length_append add_diff_cancel_right' )
  then show "is_state_ref r = Inr True"
    using assms(1,3) by (simp add: is_state_ref_def Let_def nth_append)
qed

section \<open>Properties\<close>

text \<open>
  (C39) Round trip of a state id: \<open>StateRef.from_id\<close> accepts exactly the ids that \<open>validate_ascii\<close>
  lets through (1 to 128 ASCII characters without NUL, newline or backslash; a slash and a colon are
  fine), and the reference it makes, alone or colocated below any other reference, gives back the id
  and the type tag, matches its type, is recognised as an encoded reference and is one component.
\<close>

theorem from_id_roundtrip:
  assumes "digest20 sha1"
  shows "if valid_id i
    then \<exists>r tag. from_id sha1 t i = Inr r \<and> compute_tag sha1 t = Inr tag \<and> components r = [r] \<and>
      (\<forall>r' \<in> {r, p @ slash # r}. ref_id r' = i \<and> ref_type_tag r' = Inr tag \<and> is_state_ref r' = Inr True \<and>
        matches_state_type sha1 t r' = Inr True)
    else from_id sha1 t i = Inl InvalidStateRefError"
proof (cases "valid_id i")
  case True
  obtain tag bs where t: "from_id sha1 t i = Inr (tag @ colon # state_id_encode i)" "compute_tag sha1 t = Inr tag"
    "length tag = STATE_TYPE_TAG_LENGTH" "slash \<notin> set (tag @ colon # state_id_encode i)" "colon \<notin> set tag"
    "b64decode (tag @ [61, 61]) = Some (0 # bs)"
    by (rule from_id_ok[OF assms True])
  note er = encoded_readings[OF t(3,5,6) True t(4)]
  have "ref_id r' = i \<and> ref_type_tag r' = Inr tag \<and> is_state_ref r' = Inr True \<and> matches_state_type sha1 t r' = Inr True"
    if "r' \<in> {tag @ colon # state_id_encode i, p @ slash # tag @ colon # state_id_encode i}" for r'
    using er[of r' p] that t(2) by (auto simp: matches_state_type_def)
  moreover have "components (tag @ colon # state_id_encode i) = [tag @ colon # state_id_encode i]"
    using t(4) by (simp add: components_def split_simple)
  ultimately show ?thesis using t(1,2) True by auto
qed (simp add: from_id_def validate_id)

theorem from_id_roundtrip_witness:
  "\<exists>r tag. from_id (\<lambda>_. replicate 20 7) (str ''Acc'') (str ''a/b:c'') = Inr r \<and> ref_id r = str ''a/b:c''"
  using from_id_roundtrip[of "\<lambda>_. replicate 20 7" "str ''a/b:c''" "str ''Acc''" "[]"]
  by (auto simp: digest20_def valid_id_def str_def)

text \<open>
  Colocation: the reference of a colocated state has the components of its parent followed by
  the child, is encoded, and names the child.
\<close>

theorem colocate_components:
  assumes "digest20 sha1" "valid_id i"
  shows "\<exists>child r. from_id sha1 t i = Inr child \<and> colocate sha1 t i p = Inr r \<and>
    components r = components p @ [child] \<and> ref_id r = i \<and> from_maybe_readable sha1 r = Inr (r, None)"
proof -
  obtain tag bs where t: "from_id sha1 t i = Inr (tag @ colon # state_id_encode i)" "compute_tag sha1 t = Inr tag"
    "length tag = STATE_TYPE_TAG_LENGTH" "slash \<notin> set (tag @ colon # state_id_encode i)" "colon \<notin> set tag"
    "b64decode (tag @ [61, 61]) = Some (0 # bs)"
    by (rule from_id_ok[OF assms])
  let ?c = "tag @ colon # state_id_encode i"
  note er = encoded_readings[OF t(3,5,6) assms(2) t(4), of "p @ slash # ?c" p]
  have "components (p @ slash # ?c) = components p @ [?c]"
    by (simp only: components_def split_append split_simple[OF t(4)])
  then show ?thesis using t(1) er by (simp add: colocate_def from_maybe_readable_def)
qed

theorem colocate_components_witness:
  "\<exists>child r. from_id (\<lambda>_. replicate 20 7) (str ''Kid'') (str ''k'') = Inr child \<and>
    colocate (\<lambda>_. replicate 20 7) (str ''Kid'') (str ''k'') (str ''p'') = Inr r \<and> components r = [str ''p'', child]"
  using colocate_components[of "\<lambda>_. replicate 20 7" "str ''k''" "str ''Kid''" "str ''p''"]
  by (auto simp: digest20_def valid_id_def str_def components_def split_simple slash_def)

text \<open>
  Readable references: for a type name that is not itself of the encoded form, the readable
  reference \<open>type:id\<close> names the same state as \<open>from_id\<close>, and the cache of tags never changes a
  tag: with a cache of computed tags, \<open>state_type_tag_for_name\<close> returns the computed one and leaves
  such a cache.
\<close>

theorem readable_same_as_from_id:
  assumes "digest20 sha1" "valid_id i" "t \<noteq> []" "colon \<notin> set t" "slash \<notin> set t" "length t \<noteq> STATE_TYPE_TAG_LENGTH"
    and "length t < STATE_TYPE_TAG_LENGTH \<longrightarrow> (t @ colon # state_id_encode i) ! STATE_TYPE_TAG_LENGTH \<noteq> colon \<or>
      length (t @ colon # state_id_encode i) \<le> STATE_TYPE_TAG_LENGTH"
    and "\<forall>n tag. cache n = Some tag \<longrightarrow> compute_tag sha1 n = Inr tag"
  shows "(\<exists>r o'. from_id sha1 t i = Inr r \<and> from_maybe_readable sha1 (t @ colon # state_id_encode i) = Inr (r, o')) \<and>
    (\<exists>tag cache'. state_type_tag_for_name sha1 n cache = Inr (tag, cache') \<and> compute_tag sha1 n = Inr tag \<and>
      (\<forall>m tag. cache' m = Some tag \<longrightarrow> compute_tag sha1 m = Inr tag))"
proof
  obtain tag bs where t: "from_id sha1 t i = Inr (tag @ colon # state_id_encode i)" "compute_tag sha1 t = Inr tag"
    "slash \<notin> set (tag @ colon # state_id_encode i)"
    by (rule from_id_ok[OF assms(1,2)])
  let ?r = "t @ colon # state_id_encode i"
  have ns: "slash \<notin> set ?r" using assms(5) encode_no_slash by (auto simp: char_defs)
  have "is_state_ref ?r = Inr False"
  proof (cases "length t < STATE_TYPE_TAG_LENGTH")
    case True
    with assms(7) show ?thesis by (auto simp: is_state_ref_def rfind_none[OF ns])
  next
    case False
    then have "?r ! STATE_TYPE_TAG_LENGTH = t ! STATE_TYPE_TAG_LENGTH" "t ! STATE_TYPE_TAG_LENGTH \<in> set t"
      using assms(6) by (simp_all add: nth_append)
    then show ?thesis using assms(4) by (auto simp: is_state_ref_def rfind_none[OF ns])
  qed
  moreover have "split1 colon ?r = [t, state_id_encode i]"
    using split1_append[OF assms(4)] .
  ultimately show "\<exists>r o'. from_id sha1 t i = Inr r \<and> from_maybe_readable sha1 ?r = Inr (r, o')"
    using t assms(3) ns by (simp add: from_maybe_readable_def split_simple)
next
  obtain tag where "compute_tag sha1 n = Inr tag" by (rule compute_tag_ok[OF assms(1)])
  with assms(8) show "\<exists>tag cache'. state_type_tag_for_name sha1 n cache = Inr (tag, cache') \<and> compute_tag sha1 n = Inr tag \<and>
      (\<forall>m tag. cache' m = Some tag \<longrightarrow> compute_tag sha1 m = Inr tag)"
    by (cases "cache n") (auto simp: state_type_tag_for_name_def)
qed

theorem readable_same_as_from_id_witness:
  "\<exists>r o'. from_id (\<lambda>_. replicate 20 7) (str ''Acc'') (str ''a'') = Inr r \<and>
    from_maybe_readable (\<lambda>_. replicate 20 7) (str ''Acc'' @ colon # state_id_encode (str ''a'')) = Inr (r, o')"
  using readable_same_as_from_id[of "\<lambda>_. replicate 20 7" "str ''a''" "str ''Acc''" Map.empty "[]"]
  by (simp add: digest20_def valid_id_def str_def char_defs STATE_TYPE_TAG_LENGTH_def state_id_encode_def)

text \<open>
  A component that is already encoded is encoded again: when the last component is readable,
  \<open>from_maybe_readable\<close> hashes the type tag of an encoded component as if it were a type name, and
  the result names another state, although the error message promises that a component may contain
  either form.
\<close>

theorem mixed_reference_is_rehashed:
  assumes "digest20 sha1" "compute_tag sha1 (str ''Parent'') = Inr ptag" "compute_tag sha1 ptag = Inr tag2"
    "compute_tag sha1 (str ''Kid'') = Inr ktag" "tag2 \<noteq> ptag"
  shows "\<exists>q. from_maybe_readable sha1 (ptag @ str '':p/Kid:k'') = Inr (tag2 @ str '':p/'' @ ktag @ str '':k'', q) \<and>
    tag2 @ str '':p/'' @ ktag @ str '':k'' \<noteq> ptag @ str '':p/'' @ ktag @ str '':k''"
proof -
  obtain p' bs where p: "compute_tag sha1 (str ''Parent'') = Inr p'" "length p' = STATE_TYPE_TAG_LENGTH"
    "slash \<notin> set p'" "colon \<notin> set p'" by (rule compute_tag_ok[OF assms(1)])
  have pt: "length ptag = 14" "slash \<notin> set ptag" "colon \<notin> set ptag"
    using p assms(2) by (simp_all add: STATE_TYPE_TAG_LENGTH_def)
  have len: "length tag2 = 14"
    using compute_tag_ok[OF assms(1), of ptag] assms(3) by (metis STATE_TYPE_TAG_LENGTH_def sum.inject(2))
  have sp: "split slash (ptag @ str '':p/Kid:k'') = [ptag @ str '':p'', str ''Kid:k'']"
    using split_append[of slash "ptag @ str '':p''" "str ''Kid:k''"] pt(2)
    by (simp add: split_simple str_def char_defs)
  have s1: "split1 colon (ptag @ str '':p'') = [ptag, str ''p'']" "split1 colon (str ''Kid:k'') = [str ''Kid'', str ''k'']"
    using split1_append[OF pt(3), of "str ''p''"] split1_append[of colon "str ''Kid''" "str ''k''"]
    by (simp_all add: str_def char_defs)
  have "rfind slash (ptag @ str '':p/Kid:k'') = 16"
    using rfind_append[of slash "str ''Kid:k''" "ptag @ str '':p''"] pt(1) by (simp add: str_def char_defs)
  then have "is_state_ref (ptag @ str '':p/Kid:k'') = Inr False"
    using pt(1) by (simp add: is_state_ref_def STATE_TYPE_TAG_LENGTH_def str_def)
  moreover have "ptag \<noteq> []" "str ''Kid'' \<noteq> []" using pt(1) by (auto simp: str_def)
  then have "\<exists>b. encode_components sha1 (split slash (ptag @ str '':p/Kid:k'')) =
      Inr ([tag2 @ colon # str ''p'', ktag @ colon # str ''k''], b)"
    using assms(3,4) by (simp add: sp s1)
  ultimately have "\<exists>q. from_maybe_readable sha1 (ptag @ str '':p/Kid:k'') =
      Inr (join slash [tag2 @ colon # str ''p'', ktag @ colon # str ''k''], q)"
    by (auto simp: from_maybe_readable_def)
  then show ?thesis using assms(5) len pt(1) by (simp add: str_def char_defs)
qed

text \<open>A hash for the instance below.\<close>

definition sha0 :: "pystr \<Rightarrow> bytes" where
  "sha0 x = replicate 20 (length x mod 256)"

lemma sha0_tags:
  "compute_tag sha0 (str ''Parent'') = Inr (str ''AAYGBgYGBgYGBg'')"
  "compute_tag sha0 (str ''AAYGBgYGBgYGBg'') = Inr (str ''AA4ODg4ODg4ODg'')"
  "compute_tag sha0 (str ''Kid'') = Inr (str ''AAMDAwMDAwMDAw'')"
  by code_simp+

theorem mixed_reference_is_rehashed_witness:
  "\<exists>q. from_maybe_readable sha0 (str ''AAYGBgYGBgYGBg'' @ str '':p/Kid:k'') =
    Inr (str ''AA4ODg4ODg4ODg'' @ str '':p/'' @ str ''AAMDAwMDAwMDAw'' @ str '':k'', q)"
proof -
  have "digest20 sha0" by (simp add: digest20_def sha0_def)
  from mixed_reference_is_rehashed[OF this sha0_tags(1,2,3)] show ?thesis by (auto simp: str_def)
qed

text \<open>
  \<open>is_state_ref\<close> is meant to answer for any string, but raises an \<open>IndexError\<close> when the
  fourteen characters before the colon are all outside the base64 alphabet: the decoder skips them,
  and the first byte of the empty result is read outside the \<open>try\<close>.
\<close>

theorem is_state_ref_raises_on_dots:
  "is_state_ref (replicate 14 46 @ str '':x'') = Inl IndexErr"
  by code_simp

end
