(* ===== verification/Idempotency.thy ===== *)
theory Idempotency
  imports State_Ref
begin

text \<open>
  Idempotency keys, \<open>reboot/aio/idempotency.py\<close>: aliases, seed scopes, key derivation and the
  \<open>IdempotencyManager\<close> with its uncertainty tracking, checkpoints and the guards against reusing a key.

  The dictionaries of the manager are objects: \<open>checkpoint\<close> copies them and \<open>restore\<close> installs the
  checkpoint's own, so the model keeps them in a heap and the manager holds their addresses.

  Parameters: \<open>uuid5\<close>, \<open>str(uuid)\<close> and parsing of a UUID; the \<open>n\<close>-th generated expiring UUIDv7;
  \<open>pickle.dumps(..., protocol=4).hex()\<close>; the deterministic serialisation of a request.
\<close>

record ('u, 'p, 'q) idem_lib =
  uuid5 :: "'u \<Rightarrow> pystr \<Rightarrow> 'u"
  str_uuid :: "'u \<Rightarrow> pystr"
  parse_uuid :: "pystr \<Rightarrow> 'u option"
  expiring_uuid :: "nat \<Rightarrow> 'u"
  seeds_namespace :: "'u"
  pickle_hex :: "(pystr \<times> 'p) list \<Rightarrow> pystr"
  serialize :: "'q \<Rightarrow> bytes"

section \<open>Aliases and seeds\<close>

definition make_idempotency_alias :: "pystr option \<Rightarrow> nat option \<Rightarrow> pystr option" where
  "make_idempotency_alias base iteration =
     (case iteration of
        None \<Rightarrow> base
      | Some n \<Rightarrow> Some ((case base of None \<Rightarrow> str ''-'' | Some b \<Rightarrow> b) @ str '' (iteration #'' @ digits n @ str '')''))"

text \<open>The two context variables; a dictionary of seeds is an association list.\<close>

record ('u, 'p) seed_ctx =
  seeds :: "(pystr \<times> 'p) list option"
  seeds_uuid :: "'u option"

definition no_seeds :: "('u, 'p) seed_ctx" where
  "no_seeds = \<lparr>seeds = None, seeds_uuid = None\<rparr>"

text \<open>\<open>{**outer, **inner}\<close>: an outer entry keeps its place and takes the inner value.\<close>

definition dict_merge :: "(pystr \<times> 'p) list \<Rightarrow> (pystr \<times> 'p) list \<Rightarrow> (pystr \<times> 'p) list" where
  "dict_merge outer inner =
     map (\<lambda>(k, v). (k, case map_of inner k of None \<Rightarrow> v | Some v' \<Rightarrow> v')) outer @
     filter (\<lambda>(k, v). k \<notin> fst ` set outer) inner"

text \<open>The context inside a \<open>with _merge_idempotency_seeds(entries)\<close> block; outside it is unchanged.\<close>

definition merge_idempotency_seeds :: "('u, 'p, 'q) idem_lib \<Rightarrow> (pystr \<times> 'p) list \<Rightarrow> ('u, 'p) seed_ctx \<Rightarrow>
    ('u, 'p) seed_ctx" where
  "merge_idempotency_seeds L entries ctx =
     (let merged = dict_merge (case seeds ctx of None \<Rightarrow> [] | Some s \<Rightarrow> s) entries in
      \<lparr>seeds = Some merged,
       seeds_uuid = Some (uuid5 L (seeds_namespace L) (pickle_hex L (sort_key fst merged)))\<rparr>)"

definition make_derived_idempotency_key :: "('u, 'p, 'q) idem_lib \<Rightarrow> 'u option \<Rightarrow> 'u \<Rightarrow> pystr \<Rightarrow> 'u" where
  "make_derived_idempotency_key L su seed alias =
     (case su of None \<Rightarrow> uuid5 L seed alias
      | Some s \<Rightarrow> uuid5 L (uuid5 L seed (str_uuid L s)) alias)"

section \<open>\<open>Idempotency\<close>\<close>

datatype how = ALWAYS | PER_WORKFLOW | PER_ITERATION

datatype 'u given_key = KeyUuid 'u | KeyStr pystr

record 'u idem =
  i_alias :: "pystr option"
  i_key :: "'u option"
  i_how :: "how option"
  i_iteration :: "nat option"

datatype idem_error =
    ValueError
  | InvalidIdempotencyKeyError
  | IdempotencyRequiredError
  | IdempotencyUncertainError
  | AssertionFailed

definition MAX_IDEMPOTENCY_KEY_LENGTH :: nat where "MAX_IDEMPOTENCY_KEY_LENGTH = 128"

definition idempotency_init :: "('u, 'p, 'q) idem_lib \<Rightarrow> pystr option \<Rightarrow> 'u given_key option \<Rightarrow> how option \<Rightarrow>
    nat option \<Rightarrow> idem_error + 'u idem" where
  "idempotency_init L alias key h it =
     (if alias \<noteq> None \<and> key \<noteq> None then Inl ValueError
      else rbind (case key of None \<Rightarrow> Inr None
          | Some (KeyUuid u) \<Rightarrow> Inr (Some u)
          | Some (KeyStr s) \<Rightarrow>
              rbind (validate_ascii s MAX_IDEMPOTENCY_KEY_LENGTH 0 [10] InvalidIdempotencyKeyError) (\<lambda>_.
                case parse_uuid L s of None \<Rightarrow> Inl InvalidIdempotencyKeyError | Some u \<Rightarrow> Inr (Some u)))
        (\<lambda>k. Inr \<lparr>i_alias = alias, i_key = k, i_how = h, i_iteration = it\<rparr>))"

definition idem_alias :: "'u idem \<Rightarrow> pystr option" where
  "idem_alias i = make_idempotency_alias (i_alias i) (i_iteration i)"

definition always :: "'u idem \<Rightarrow> bool" where
  "always i \<longleftrightarrow> i_how i = Some ALWAYS"

definition generate :: "'u idem \<Rightarrow> bool" where
  "generate i \<longleftrightarrow> i_key i = None \<and> i_alias i = None"

section \<open>The manager\<close>

text \<open>A call: the arguments of \<open>idempotently\<close> that identify it.\<close>

record ('q, 'm) call =
  c_type :: pystr
  c_ref :: pystr
  c_service :: "pystr option"
  c_method :: "pystr option"
  c_mutation :: bool
  c_request :: "'q option"
  c_metadata :: "'m option"

text \<open>An \<open>RPC\<close> remembers its call and, once computed, the serialised request.\<close>

record ('q, 'm) rpc =
  r_call :: "('q, 'm) call"
  serialized_request :: "bytes option"

type_synonym 'u alias_key = "pystr \<times> pystr \<times> 'u option"
type_synonym 'u alias_dict = "'u alias_key \<Rightarrow> 'u option"
type_synonym ('u, 'q, 'm) rpc_dict = "'u \<Rightarrow> ('q, 'm) rpc option"

record ('u, 'q, 'm) heap =
  h_aliases :: "nat \<Rightarrow> 'u alias_dict"
  h_rpcs :: "nat \<Rightarrow> ('u, 'q, 'm) rpc_dict"
  h_next :: nat
  drawn_keys :: nat

record flags =
  mutations_without_idempotency :: bool
  uncertain_mutation :: bool
  uncertain_call :: "(pystr \<times> pystr \<times> pystr option \<times> pystr option) option"

record 'u manager =
  m_seed :: "'u option"
  required :: bool
  required_reason :: "pystr option"
  aliases_at :: nat
  rpcs_at :: nat
  m_flags :: flags

record checkpoint =
  cp_aliases_at :: nat
  cp_rpcs_at :: nat
  cp_flags :: flags

definition no_flags :: flags where
  "no_flags = \<lparr>mutations_without_idempotency = False, uncertain_mutation = False, uncertain_call = None\<rparr>"

text \<open>New dictionaries: empty ones for \<open>reset\<close>, copies for \<open>checkpoint\<close>.\<close>

definition alloc :: "'u alias_dict \<Rightarrow> ('u, 'q, 'm) rpc_dict \<Rightarrow> ('u, 'q, 'm) heap \<Rightarrow> nat \<times> ('u, 'q, 'm) heap" where
  "alloc a r h = (h_next h, h\<lparr>h_aliases := (h_aliases h)(h_next h := a), h_rpcs := (h_rpcs h)(h_next h := r),
     h_next := Suc (h_next h)\<rparr>)"

definition mgr_reset :: "'u manager \<Rightarrow> ('u, 'q, 'm) heap \<Rightarrow> 'u manager \<times> ('u, 'q, 'm) heap" where
  "mgr_reset m h = (case alloc (\<lambda>_. None) (\<lambda>_. None) h of (a, h') \<Rightarrow>
     (m\<lparr>aliases_at := a, rpcs_at := a, m_flags := no_flags\<rparr>, h'))"

definition mgr_init :: "'u option \<Rightarrow> bool \<Rightarrow> pystr option \<Rightarrow> ('u, 'q, 'm) heap \<Rightarrow>
    idem_error + ('u manager \<times> ('u, 'q, 'm) heap)" where
  "mgr_init seed req reason h =
     (if (\<not> req \<and> reason = None) \<or> (req \<and> reason \<noteq> None)
      then Inr (mgr_reset \<lparr>m_seed = seed, required = req, required_reason = reason, aliases_at = 0, rpcs_at = 0,
              m_flags = no_flags\<rparr> h)
      else Inl AssertionFailed)"

definition mgr_checkpoint :: "'u manager \<Rightarrow> ('u, 'q, 'm) heap \<Rightarrow> checkpoint \<times> ('u, 'q, 'm) heap" where
  "mgr_checkpoint m h = (case alloc (h_aliases h (aliases_at m)) (h_rpcs h (rpcs_at m)) h of (a, h') \<Rightarrow>
     (\<lparr>cp_aliases_at = a, cp_rpcs_at = a, cp_flags = m_flags m\<rparr>, h'))"

definition mgr_restore :: "checkpoint \<Rightarrow> 'u manager \<Rightarrow> 'u manager" where
  "mgr_restore c m = m\<lparr>aliases_at := cp_aliases_at c, rpcs_at := cp_rpcs_at c, m_flags := cp_flags c\<rparr>"

text \<open>\<open>_rpc_name\<close>.\<close>

definition rpc_name :: "pystr \<Rightarrow> pystr option \<Rightarrow> pystr option \<Rightarrow> bool \<Rightarrow> idem_error + pystr" where
  "rpc_name t svc meth mutation =
     (case meth of
        None \<Rightarrow> Inr (str ''inline '' @ (if mutation then str ''writer'' else str ''reader'') @ str '' of '' @ 39 # t @ [39])
      | Some mt \<Rightarrow> (case svc of None \<Rightarrow> Inl AssertionFailed | Some s \<Rightarrow> Inr (39 # s @ str ''.'' @ mt @ [39])))"

text \<open>
  The error raised with a message that names RPCs: naming one with a method but no service fails the
  assertion of \<open>_rpc_name\<close> instead.
\<close>

definition named_error :: "idem_error \<Rightarrow> (pystr \<times> pystr option \<times> pystr option \<times> bool) list \<Rightarrow> idem_error" where
  "named_error e ns =
     (if list_all (\<lambda>(t, svc, meth, mutation). case rpc_name t svc meth mutation of Inl _ \<Rightarrow> False | Inr _ \<Rightarrow> True) ns
      then e else AssertionFailed)"

definition call_names :: "('q, 'm) call \<Rightarrow> pystr \<times> pystr option \<times> pystr option \<times> bool" where
  "call_names c = (c_type c, c_service c, c_method c, c_mutation c)"

definition uncertain_error :: "('q, 'm) call \<Rightarrow> flags \<Rightarrow> idem_error" where
  "uncertain_error c f =
     (case uncertain_call f of
        None \<Rightarrow> AssertionFailed
      | Some (t, ref, svc, meth) \<Rightarrow>
          named_error IdempotencyUncertainError [(t, svc, meth, True), (c_type c, c_service c, c_method c, True)])"

section \<open>Keys\<close>

definition call_alias :: "('q, 'm) call \<Rightarrow> 'u idem \<Rightarrow> idem_error + pystr" where
  "call_alias c i =
     rbind (rpc_name (c_type c) (c_service c) (c_method c) (c_mutation c)) (\<lambda>n.
       Inr (n @ 64 # ref_id (c_ref c) @ (case idem_alias i of None \<Rightarrow> [] | Some a \<Rightarrow> str '': '' @ a)))"

definition get_or_create_idempotency_key :: "('u, 'p, 'q) idem_lib \<Rightarrow> ('u, 'p) seed_ctx \<Rightarrow> ('q, 'm) call \<Rightarrow> 'u idem \<Rightarrow>
    'u manager \<Rightarrow> ('u, 'q, 'm) heap \<Rightarrow> idem_error + ('u \<times> ('u, 'q, 'm) heap)" where
  "get_or_create_idempotency_key L ctx c i m h =
     (case i_key i of Some k \<Rightarrow> Inr (k, h)
      | None \<Rightarrow>
          rbind (call_alias c i) (\<lambda>alias.
            let key = (c_ref c, alias, seeds_uuid ctx); d = h_aliases h (aliases_at m) in
            case d key of Some u \<Rightarrow> Inr (u, h)
            | None \<Rightarrow>
                (case m_seed m of
                   None \<Rightarrow>
                     rbind (py_assert AssertionFailed (seeds ctx = None)) (\<lambda>_.
                       let u = expiring_uuid L (drawn_keys h) in
                       Inr (u, h\<lparr>drawn_keys := Suc (drawn_keys h),
                                 h_aliases := (h_aliases h)(aliases_at m := d(key \<mapsto> u))\<rparr>))
                 | Some s \<Rightarrow>
                     let u = make_derived_idempotency_key L (seeds_uuid ctx) s alias in
                     Inr (u, h\<lparr>h_aliases := (h_aliases h)(aliases_at m := d(key \<mapsto> u))\<rparr>))))"

text \<open>The request of a recorded RPC, serialised on first use.\<close>

definition same_request :: "('u, 'p, 'q) idem_lib \<Rightarrow> ('q, 'm) rpc \<Rightarrow> 'q option \<Rightarrow> bool \<times> ('q, 'm) rpc" where
  "same_request L r request =
     (case (c_request (r_call r), request) of
        (None, None) \<Rightarrow> (True, r)
      | (Some q, Some q') \<Rightarrow>
          let s = (case serialized_request r of None \<Rightarrow> serialize L q | Some s \<Rightarrow> s)
          in (s = serialize L q', r\<lparr>serialized_request := Some s\<rparr>)
      | _ \<Rightarrow> (False, r))"

definition idempotency_key_from :: "('u, 'p, 'q) idem_lib \<Rightarrow> ('u, 'p) seed_ctx \<Rightarrow> ('q, 'm) call \<Rightarrow> 'u idem \<Rightarrow>
    'u manager \<Rightarrow> ('u, 'q, 'm) heap \<Rightarrow> (idem_error + 'u) \<times> ('u, 'q, 'm) heap" where
  "idempotency_key_from L ctx c i m h =
     (case get_or_create_idempotency_key L ctx c i m h of
        Inl e \<Rightarrow> (Inl e, h)
      | Inr (k, h1) \<Rightarrow>
          let d = h_rpcs h1 (rpcs_at m);
              store = (\<lambda>r. h1\<lparr>h_rpcs := (h_rpcs h1)(rpcs_at m := d(k \<mapsto> r))\<rparr>)
          in (case d k of
                None \<Rightarrow> (Inr k, store \<lparr>r_call = c, serialized_request = None\<rparr>)
              | Some r \<Rightarrow>
                  if generate i then (Inl (named_error ValueError [call_names c]), h1)
                  else if c_type (r_call r) \<noteq> c_type c \<or> c_ref (r_call r) \<noteq> c_ref c \<or> c_method (r_call r) \<noteq> c_method c
                  then (Inl (named_error ValueError [call_names c, call_names (r_call r)]), h1)
                  else (case same_request L r (c_request c) of (same, r') \<Rightarrow>
                          if \<not> same then (Inl (named_error ValueError [call_names c]), store r')
                          else if c_metadata (r_call r) \<noteq> c_metadata c
                          then (Inl (named_error ValueError [call_names c]), store r')
                          else (Inr k, store r'))))"

section \<open>\<open>idempotently\<close>\<close>

text \<open>
  The context manager in two halves: what runs up to the \<open>yield\<close>, and the handler of an exception
  thrown there (\<open>from_backend\<close>: \<open>aborted_type.is_from_backend(exception)\<close>), by the wrapped call or by the
  computation of the key.
\<close>

definition mutation_failed :: "('q, 'm) call \<Rightarrow> bool \<Rightarrow> flags \<Rightarrow> flags" where
  "mutation_failed c from_backend f =
     (if \<not> c_mutation c \<or> from_backend then f
      else if mutations_without_idempotency f \<and> \<not> uncertain_mutation f
      then f\<lparr>uncertain_mutation := True,
             uncertain_call := Some (c_type c, c_ref c, c_service c, c_method c)\<rparr>
      else f)"

definition idempotently_enter :: "('u, 'p, 'q) idem_lib \<Rightarrow> ('u, 'p) seed_ctx \<Rightarrow> ('q, 'm) call \<Rightarrow> 'u idem option \<Rightarrow>
    'u manager \<Rightarrow> ('u, 'q, 'm) heap \<Rightarrow> (idem_error + 'u option) \<times> 'u manager \<times> ('u, 'q, 'm) heap" where
  "idempotently_enter L ctx c idem m h =
     (case idem of
        Some i \<Rightarrow>
          if always i then (Inr None, m, h)
          else if uncertain_mutation (m_flags m) \<and> c_mutation c then (Inl (uncertain_error c (m_flags m)), m, h)
          else (case idempotency_key_from L ctx c i m h of
                  (Inr k, h') \<Rightarrow> (Inr (Some k), m, h')
                | (Inl e, h') \<Rightarrow> (Inl e, m\<lparr>m_flags := mutation_failed c False (m_flags m)\<rparr>, h'))
      | None \<Rightarrow>
          if required m then (Inl IdempotencyRequiredError, m, h)
          else
            let m' = (if c_mutation c then m\<lparr>m_flags := (m_flags m)\<lparr>mutations_without_idempotency := True\<rparr>\<rparr> else m) in
            if uncertain_mutation (m_flags m') \<and> c_mutation c then (Inl (uncertain_error c (m_flags m')), m', h)
            else (Inr None, m', h))"

definition idempotently_fail :: "('q, 'm) call \<Rightarrow> 'u idem option \<Rightarrow> bool \<Rightarrow> 'u manager \<Rightarrow> 'u manager" where
  "idempotently_fail c idem from_backend m =
     (case idem of Some i \<Rightarrow> if always i then m else m\<lparr>m_flags := mutation_failed c from_backend (m_flags m)\<rparr>
      | None \<Rightarrow> m\<lparr>m_flags := mutation_failed c from_backend (m_flags m)\<rparr>)"

definition acknowledge_idempotency_uncertainty :: "'u manager \<Rightarrow> idem_error + 'u manager" where
  "acknowledge_idempotency_uncertainty m =
     (if uncertain_mutation (m_flags m)
      then Inr (m\<lparr>m_flags := (m_flags m)\<lparr>uncertain_mutation := False, uncertain_call := None\<rparr>\<rparr>)
      else Inl AssertionFailed)"

definition generate_idempotent_state_id :: "('u, 'p, 'q) idem_lib \<Rightarrow> ('u, 'p) seed_ctx \<Rightarrow> pystr \<Rightarrow> pystr \<Rightarrow> pystr \<Rightarrow>
    'u idem \<Rightarrow> 'u manager \<Rightarrow> idem_error + pystr" where
  "generate_idempotent_state_id L ctx t svc meth i m =
     (case m_seed m of None \<Rightarrow> Inl ValueError
      | Some s \<Rightarrow>
          (case i_key i of
             Some k \<Rightarrow> Inr (str_uuid L (make_derived_idempotency_key L (seeds_uuid ctx) s (str_uuid L k)))
           | None \<Rightarrow>
               rbind (case idem_alias i of Some a \<Rightarrow> Inr a | None \<Rightarrow> rpc_name t (Some svc) (Some meth) True) (\<lambda>alias.
                 Inr (str_uuid L (make_derived_idempotency_key L (seeds_uuid ctx) s alias)))))"

section \<open>Runs of a manager\<close>

text \<open>
  A context's manager, its heap and the checkpoints taken from it; the events are the entries of
  \<open>idempotently\<close>, the failures of what it wraps, and the calls of the other operations.
\<close>

record ('u, 'q, 'm) idem_sys =
  mgr :: "'u manager"
  hp :: "('u, 'q, 'm) heap"
  saved :: "checkpoint list"

datatype ('u, 'p, 'q, 'm) idem_event =
    Enter "('u, 'p) seed_ctx" "('q, 'm) call" "'u idem option"
  | Fail "('q, 'm) call" "'u idem option" bool
  | Acknowledge
  | Reset
  | Save
  | Restore nat

fun idem_do :: "('u, 'p, 'q) idem_lib \<Rightarrow> ('u, 'q, 'm) idem_sys \<Rightarrow> ('u, 'p, 'q, 'm) idem_event \<Rightarrow> ('u, 'q, 'm) idem_sys" where
  "idem_do L s (Enter ctx c i) = (case idempotently_enter L ctx c i (mgr s) (hp s) of (_, m, h) \<Rightarrow> s\<lparr>mgr := m, hp := h\<rparr>)"
| "idem_do L s (Fail c i b) = s\<lparr>mgr := idempotently_fail c i b (mgr s)\<rparr>"
| "idem_do L s Acknowledge = (case acknowledge_idempotency_uncertainty (mgr s) of Inl _ \<Rightarrow> s | Inr m \<Rightarrow> s\<lparr>mgr := m\<rparr>)"
| "idem_do L s Reset = (case mgr_reset (mgr s) (hp s) of (m, h) \<Rightarrow> s\<lparr>mgr := m, hp := h\<rparr>)"
| "idem_do L s Save = (case mgr_checkpoint (mgr s) (hp s) of (c, h) \<Rightarrow> s\<lparr>hp := h, saved := saved s @ [c]\<rparr>)"
| "idem_do L s (Restore n) = (if n < length (saved s) then s\<lparr>mgr := mgr_restore (saved s ! n) (mgr s)\<rparr> else s)"

inductive idem_step :: "('u, 'p, 'q) idem_lib \<Rightarrow> ('u, 'q, 'm) idem_sys \<Rightarrow> ('u, 'p, 'q, 'm) idem_event \<Rightarrow>
    ('u, 'q, 'm) idem_sys \<Rightarrow> bool" for L where
  idem_stepI: "idem_step L s e (idem_do L s e)"

inductive_cases idem_stepE: "idem_step L s e t"

lemma idem_steps_one: "steps (idem_step L) s [e] (idem_do L s e)"
  by (rule steps_one) (rule idem_stepI)

definition idem_init :: "'u option \<Rightarrow> ('u, 'q, 'm) idem_sys \<Rightarrow> bool" where
  "idem_init seed s \<longleftrightarrow> saved s = [] \<and>
     (\<exists>req reason h. h_next h = 0 \<and> mgr_init seed req reason h = Inr (mgr s, hp s))"

abbreviation idem_reach :: "('u, 'p, 'q) idem_lib \<Rightarrow> 'u option \<Rightarrow> ('u, 'q, 'm) idem_sys \<Rightarrow> bool" where
  "idem_reach L seed \<equiv> reach (idem_init seed) (idem_step L)"

text \<open>What holds of every dictionary that exists, and of the flags.\<close>

definition derived :: "('u, 'p, 'q) idem_lib \<Rightarrow> 'u option \<Rightarrow> 'u alias_dict \<Rightarrow> bool" where
  "derived L seed d \<longleftrightarrow> (\<forall>s ref alias su u. seed = Some s \<longrightarrow> d (ref, alias, su) = Some u \<longrightarrow>
     u = make_derived_idempotency_key L su s alias)"

definition cached :: "('u, 'p, 'q) idem_lib \<Rightarrow> ('u, 'q, 'm) rpc_dict \<Rightarrow> bool" where
  "cached L d \<longleftrightarrow> (\<forall>k r b. d k = Some r \<longrightarrow> serialized_request r = Some b \<longrightarrow>
     map_option (serialize L) (c_request (r_call r)) = Some b)"

definition flags_ok :: "flags \<Rightarrow> bool" where
  "flags_ok f \<longleftrightarrow> (uncertain_mutation f \<longrightarrow> mutations_without_idempotency f \<and> uncertain_call f \<noteq> None)"

definition idem_inv :: "('u, 'p, 'q) idem_lib \<Rightarrow> 'u option \<Rightarrow> ('u, 'q, 'm) idem_sys \<Rightarrow> bool" where
  "idem_inv L seed s \<longleftrightarrow> m_seed (mgr s) = seed \<and>
     (\<forall>a < h_next (hp s). derived L seed (h_aliases (hp s) a) \<and> cached L (h_rpcs (hp s) a)) \<and>
     aliases_at (mgr s) < h_next (hp s) \<and> rpcs_at (mgr s) < h_next (hp s) \<and> flags_ok (m_flags (mgr s)) \<and>
     (\<forall>c \<in> set (saved s). cp_aliases_at c < h_next (hp s) \<and> cp_rpcs_at c < h_next (hp s) \<and> flags_ok (cp_flags c))"

lemma mutation_failed_ok: "flags_ok f \<Longrightarrow> flags_ok (mutation_failed c b f)"
  by (auto simp: flags_ok_def mutation_failed_def)

text \<open>The heap a key computation leaves: only the manager's own dictionaries change.\<close>

definition heap_ok :: "('u, 'p, 'q) idem_lib \<Rightarrow> 'u option \<Rightarrow> ('u, 'q, 'm) heap \<Rightarrow> bool" where
  "heap_ok L seed h \<longleftrightarrow> (\<forall>a < h_next h. derived L seed (h_aliases h a) \<and> cached L (h_rpcs h a))"

lemma get_key_cases:
  assumes "get_or_create_idempotency_key L ctx c i m h = Inr (k, h')"
  shows "h_rpcs h' = h_rpcs h \<and> h_next h' = h_next h \<and>
    (\<forall>a. a \<noteq> aliases_at m \<longrightarrow> h_aliases h' a = h_aliases h a) \<and>
    (i_key i = Some k \<and> h' = h \<or>
     i_key i = None \<and> (\<exists>alias. call_alias c i = Inr alias \<and>
       h_aliases h' (aliases_at m) (c_ref c, alias, seeds_uuid ctx) = Some k \<and>
       (h' = h \<or> h_aliases h' (aliases_at m) =
          (h_aliases h (aliases_at m))((c_ref c, alias, seeds_uuid ctx) \<mapsto> k) \<and>
          (\<forall>s. m_seed m = Some s \<longrightarrow> k = make_derived_idempotency_key L (seeds_uuid ctx) s alias))))"
  using assms
  by (auto simp: get_or_create_idempotency_key_def rbind_eq_Inr_iff Let_def split: option.splits if_splits)

lemma get_key_heap_ok:
  assumes "get_or_create_idempotency_key L ctx c i m h = Inr (k, h')" "heap_ok L (m_seed m) h"
    "aliases_at m < h_next h"
  shows "heap_ok L (m_seed m) h' \<and> h_next h' = h_next h \<and> h_rpcs h' = h_rpcs h \<and>
    (i_key i = None \<longrightarrow> (\<forall>s alias. m_seed m = Some s \<longrightarrow> call_alias c i = Inr alias \<longrightarrow>
      k = make_derived_idempotency_key L (seeds_uuid ctx) s alias))"
proof -
  note gc = get_key_cases[OF assms(1)]
  have d: "derived L (m_seed m) (h_aliases h' (aliases_at m))"
    using gc assms(2,3) by (auto simp: heap_ok_def derived_def split: if_splits)
  have "derived L (m_seed m) (h_aliases h' a) \<and> cached L (h_rpcs h' a)" if "a < h_next h'" for a
    using gc d assms(2) that by (cases "a = aliases_at m") (auto simp: heap_ok_def)
  moreover have "k = make_derived_idempotency_key L (seeds_uuid ctx) s al"
    if "i_key i = None" "m_seed m = Some s" "call_alias c i = Inr al" for s al
    using gc d that by (auto simp: derived_def)
  ultimately show ?thesis using gc by (auto simp: heap_ok_def)
qed

definition agrees :: "('u, 'p, 'q) idem_lib \<Rightarrow> ('q, 'm) call \<Rightarrow> ('q, 'm) call \<Rightarrow> bool" where
  "agrees L c d \<longleftrightarrow> c_type c = c_type d \<and> c_ref c = c_ref d \<and> c_method c = c_method d \<and>
     map_option (serialize L) (c_request c) = map_option (serialize L) (c_request d) \<and>
     c_metadata c = c_metadata d"

lemma same_request_ok:
  assumes "same_request L r q = (b, r')"
    and "\<And>x. serialized_request r = Some x \<Longrightarrow> map_option (serialize L) (c_request (r_call r)) = Some x"
  shows "r_call r' = r_call r" "b \<longleftrightarrow> map_option (serialize L) (c_request (r_call r)) = map_option (serialize L) q"
    "serialized_request r' = Some x \<Longrightarrow> map_option (serialize L) (c_request (r_call r')) = Some x"
  using assms by (auto simp: same_request_def Let_def split: option.splits)

text \<open>
  What a successful key computation means: the key's RPC is recorded, and agrees with the call on
  everything the guards compare.
\<close>

lemma key_from_ok:
  assumes "idempotency_key_from L ctx c i m h = (res, h')" "heap_ok L (m_seed m) h"
    "aliases_at m < h_next h" "rpcs_at m < h_next h"
  shows "heap_ok L (m_seed m) h'" "h_next h' = h_next h"
    "\<And>a. a \<noteq> aliases_at m \<Longrightarrow> a \<noteq> rpcs_at m \<Longrightarrow> h_aliases h' a = h_aliases h a \<and> h_rpcs h' a = h_rpcs h a"
    "res = Inr k \<Longrightarrow> \<exists>r. h_rpcs h' (rpcs_at m) k = Some r \<and> agrees L (r_call r) c \<and>
      (\<forall>r0. h_rpcs h (rpcs_at m) k = Some r0 \<longrightarrow> r_call r = r_call r0 \<and> \<not> generate i)"
    "res = Inr k \<Longrightarrow> i_key i = None \<Longrightarrow> m_seed m = Some s \<Longrightarrow> call_alias c i = Inr alias \<Longrightarrow>
      k = make_derived_idempotency_key L (seeds_uuid ctx) s alias"
proof -
  let ?G = "heap_ok L (m_seed m) h' \<and> h_next h' = h_next h \<and>
    (\<forall>a. a \<noteq> aliases_at m \<longrightarrow> a \<noteq> rpcs_at m \<longrightarrow> h_aliases h' a = h_aliases h a \<and> h_rpcs h' a = h_rpcs h a) \<and>
    (\<forall>k. res = Inr k \<longrightarrow> (\<exists>r. h_rpcs h' (rpcs_at m) k = Some r \<and> agrees L (r_call r) c \<and>
      (\<forall>r0. h_rpcs h (rpcs_at m) k = Some r0 \<longrightarrow> r_call r = r_call r0 \<and> \<not> generate i)) \<and>
      (\<forall>s alias. i_key i = None \<longrightarrow> m_seed m = Some s \<longrightarrow> call_alias c i = Inr alias \<longrightarrow>
        k = make_derived_idempotency_key L (seeds_uuid ctx) s alias))"
  have ?G
  proof (cases "get_or_create_idempotency_key L ctx c i m h")
    case (Inl e)
    then show ?thesis using assms by (auto simp: idempotency_key_from_def)
  next
    case (Inr x)
    then obtain k h1 where g: "get_or_create_idempotency_key L ctx c i m h = Inr (k, h1)" by (cases x) auto
    note ok = get_key_heap_ok[OF g assms(2,3)] note gc = get_key_cases[OF g]
    let ?store = "\<lambda>r. h1\<lparr>h_rpcs := (h_rpcs h1)(rpcs_at m := (h_rpcs h1 (rpcs_at m))(k \<mapsto> r))\<rparr>"
    have st: "heap_ok L (m_seed m) (?store r)"
      if "\<And>x. serialized_request r = Some x \<Longrightarrow> map_option (serialize L) (c_request (r_call r)) = Some x" for r
      using ok that by (auto simp: heap_ok_def cached_def split: if_splits)
    have fr: "h_aliases (?store r) a = h_aliases h a \<and> h_rpcs (?store r) a = h_rpcs h a"
      if "a \<noteq> aliases_at m" "a \<noteq> rpcs_at m" for r a using gc that by auto
    show ?thesis
    proof (cases "h_rpcs h1 (rpcs_at m) k")
      case None
      then have "res = Inr k" "h' = ?store \<lparr>r_call = c, serialized_request = None\<rparr>"
        using assms(1) g by (auto simp: idempotency_key_from_def Let_def)
      then show ?thesis using st[of "\<lparr>r_call = c, serialized_request = None\<rparr>"] fr ok None by (auto simp: agrees_def)
    next
      case (Some r)
      have "cached L (h_rpcs h1 (rpcs_at m))" using ok assms(4) unfolding heap_ok_def by auto
      then have ser: "serialized_request r = Some x \<Longrightarrow> map_option (serialize L) (c_request (r_call r)) = Some x" for x
        using Some by (simp add: cached_def)
      obtain b r' where sr: "same_request L r (c_request c) = (b, r')" by force
      note so = same_request_ok[OF sr ser]
      have "h' = h1 \<and> (\<exists>e. res = Inl e) \<or> h' = ?store r' \<and> (\<exists>e. res = Inl e) \<or>
          res = Inr k \<and> h' = ?store r' \<and> \<not> generate i \<and> agrees L (r_call r) c"
        using assms(1) g Some sr so(2) by (auto simp: idempotency_key_from_def Let_def agrees_def split: if_splits)
      then show ?thesis using st[OF so(3)] fr ok gc so(1) Some by auto
    qed
  qed
  then show "heap_ok L (m_seed m) h'" "h_next h' = h_next h"
    "\<And>a. a \<noteq> aliases_at m \<Longrightarrow> a \<noteq> rpcs_at m \<Longrightarrow> h_aliases h' a = h_aliases h a \<and> h_rpcs h' a = h_rpcs h a"
    "res = Inr k \<Longrightarrow> \<exists>r. h_rpcs h' (rpcs_at m) k = Some r \<and> agrees L (r_call r) c \<and>
      (\<forall>r0. h_rpcs h (rpcs_at m) k = Some r0 \<longrightarrow> r_call r = r_call r0 \<and> \<not> generate i)"
    "res = Inr k \<Longrightarrow> i_key i = None \<Longrightarrow> m_seed m = Some s \<Longrightarrow> call_alias c i = Inr alias \<Longrightarrow>
      k = make_derived_idempotency_key L (seeds_uuid ctx) s alias"
    by blast+
qed

lemma enter_ok:
  assumes "idempotently_enter L ctx c i m h = (res, m', h')" "heap_ok L (m_seed m) h"
    "aliases_at m < h_next h" "rpcs_at m < h_next h" "flags_ok (m_flags m)"
  shows "heap_ok L (m_seed m) h' \<and> h_next h' = h_next h \<and> flags_ok (m_flags m') \<and>
    m_seed m' = m_seed m \<and> aliases_at m' = aliases_at m \<and> rpcs_at m' = rpcs_at m \<and>
    (\<forall>a. a \<noteq> aliases_at m \<longrightarrow> a \<noteq> rpcs_at m \<longrightarrow> h_aliases h' a = h_aliases h a \<and> h_rpcs h' a = h_rpcs h a)"
proof (cases i)
  case None
  with assms show ?thesis by (auto simp: idempotently_enter_def Let_def flags_ok_def split: if_splits)
next
  case (Some j)
  show ?thesis
  proof (cases "always j \<or> (uncertain_mutation (m_flags m) \<and> c_mutation c)")
    case True
    with assms Some show ?thesis by (auto simp: idempotently_enter_def split: if_splits)
  next
    case False
    obtain x h1 where k: "idempotency_key_from L ctx c j m h = (x, h1)" by force
    note ko = key_from_ok[OF k assms(2-4)]
    show ?thesis using assms(1,5) Some False k ko(1-3) mutation_failed_ok
      by (cases x) (auto simp: idempotently_enter_def split: if_splits)
  qed
qed

lemma idem_inv_heap: "idem_inv L seed s \<Longrightarrow> heap_ok L seed (hp s)"
  by (simp add: idem_inv_def heap_ok_def)

lemma idem_do_inv:
  assumes inv: "idem_inv L seed s"
  shows "idem_inv L seed (idem_do L s e)"
proof (cases e)
  case (Enter ctx c i)
  obtain res m h where en: "idempotently_enter L ctx c i (mgr s) (hp s) = (res, m, h)" by (metis prod_cases3)
  have "m_seed (mgr s) = seed" using inv by (simp add: idem_inv_def)
  with enter_ok[OF en] inv idem_inv_heap[OF inv] have
    "heap_ok L seed h \<and> h_next h = h_next (hp s) \<and> flags_ok (m_flags m) \<and> m_seed m = seed \<and>
     aliases_at m = aliases_at (mgr s) \<and> rpcs_at m = rpcs_at (mgr s)" by (auto simp: idem_inv_def)
  with inv en Enter show ?thesis by (auto simp: idem_inv_def heap_ok_def)
next
  case (Fail c i b)
  with inv mutation_failed_ok show ?thesis
    by (auto simp: idem_inv_def idempotently_fail_def split: option.splits)
next
  case Acknowledge
  with inv show ?thesis
    by (auto simp: idem_inv_def acknowledge_idempotency_uncertainty_def flags_ok_def)
next
  case Reset
  with inv show ?thesis
    by (auto simp: idem_inv_def mgr_reset_def alloc_def no_flags_def flags_ok_def derived_def cached_def less_Suc_eq)
next
  case Save
  with inv show ?thesis by (auto simp: idem_inv_def mgr_checkpoint_def alloc_def less_Suc_eq)
next
  case (Restore n)
  with inv show ?thesis by (auto simp: idem_inv_def mgr_restore_def)
qed

lemma mgr_init_ok:
  "mgr_init seed req reason h = Inr (m, h') \<Longrightarrow> m_seed m = seed \<and> aliases_at m = h_next h \<and> rpcs_at m = h_next h \<and>
    m_flags m = no_flags \<and> h_next h' = Suc (h_next h) \<and> h_aliases h' (h_next h) = (\<lambda>_. None) \<and>
    h_rpcs h' (h_next h) = (\<lambda>_. None)"
  by (auto simp: mgr_init_def mgr_reset_def alloc_def split: if_splits)

interpretation idem_run: invariant_system "idem_init seed" "idem_step L" "idem_inv L seed"
  for L :: "('u, 'p, 'q) idem_lib" and seed :: "'u option"
proof
  show "idem_inv L seed s" if "idem_init seed s" for s :: "('u, 'q, 'm) idem_sys"
    using that unfolding idem_init_def
    by (auto dest!: mgr_init_ok simp: idem_inv_def no_flags_def flags_ok_def derived_def cached_def)
next
  show "idem_inv L seed t" if "idem_inv L seed s" "idem_step L s e t" for s t :: "('u, 'q, 'm) idem_sys" and e
    using that idem_do_inv by (auto elim!: idem_stepE)
qed

text \<open>Events after which the uncertainty flag can only be what it was or become set.\<close>

fun keeps_uncertainty :: "('u, 'p, 'q, 'm) idem_event \<Rightarrow> bool" where
  "keeps_uncertainty (Enter _ _ _) = True"
| "keeps_uncertainty (Fail _ _ _) = True"
| "keeps_uncertainty Save = True"
| "keeps_uncertainty _ = False"

lemma enter_flags:
  "idempotently_enter L ctx c i m h = (res, m', h') \<Longrightarrow>
    (uncertain_mutation (m_flags m) \<longrightarrow> uncertain_mutation (m_flags m')) \<and>
    (mutations_without_idempotency (m_flags m) \<longrightarrow> mutations_without_idempotency (m_flags m'))"
  by (auto simp: idempotently_enter_def Let_def mutation_failed_def split: option.splits if_splits prod.splits sum.splits)

lemma steps_keep_uncertainty:
  assumes "steps (idem_step L) s es t" "\<forall>e \<in> set es. keeps_uncertainty e"
  shows "(uncertain_mutation (m_flags (mgr s)) \<longrightarrow> uncertain_mutation (m_flags (mgr t))) \<and>
    (mutations_without_idempotency (m_flags (mgr s)) \<longrightarrow> mutations_without_idempotency (m_flags (mgr t)))"
  using assms
proof (induction rule: steps.induct)
  case (steps_Cons s e t es u)
  have "(uncertain_mutation (m_flags (mgr s)) \<longrightarrow> uncertain_mutation (m_flags (mgr t))) \<and>
    (mutations_without_idempotency (m_flags (mgr s)) \<longrightarrow> mutations_without_idempotency (m_flags (mgr t)))"
  proof (cases e)
    case (Enter ctx c i)
    obtain res m h where "idempotently_enter L ctx c i (mgr s) (hp s) = (res, m, h)" by (metis prod_cases3)
    with enter_flags[OF this] steps_Cons.hyps(1) Enter show ?thesis by (auto elim!: idem_stepE)
  next
    case (Fail c i b)
    with steps_Cons.hyps(1) show ?thesis
      by (auto elim!: idem_stepE simp: idempotently_fail_def mutation_failed_def split: option.splits)
  next
    case Save
    with steps_Cons.hyps(1) show ?thesis by (auto elim!: idem_stepE simp: mgr_checkpoint_def alloc_def)
  qed (use steps_Cons.prems in auto)
  with steps_Cons show ?case by auto
qed simp

section \<open>Facts about runs\<close>

text \<open>Events that neither reset the manager nor install a checkpoint.\<close>

fun no_rollback :: "('u, 'p, 'q, 'm) idem_event \<Rightarrow> bool" where
  "no_rollback Reset = False"
| "no_rollback (Restore _) = False"
| "no_rollback _ = True"

lemma enter_key:
  assumes "idempotently_enter L ctx c (Some i) m h = (Inr (Some k), m', h')"
  shows "idempotency_key_from L ctx c i m h = (Inr k, h') \<and> m' = m"
  using assms by (auto simp: idempotently_enter_def split: if_splits prod.splits sum.splits)

lemma key_from_keeps_rpcs:
  assumes "idempotency_key_from L ctx c i m h = (res, h')" "h_rpcs h (rpcs_at m) k = Some r"
  shows "\<exists>r'. h_rpcs h' (rpcs_at m) k = Some r' \<and> r_call r' = r_call r"
proof (cases "get_or_create_idempotency_key L ctx c i m h")
  case (Inl e)
  with assms show ?thesis by (auto simp: idempotency_key_from_def)
next
  case (Inr x)
  then obtain k1 h1 where g: "get_or_create_idempotency_key L ctx c i m h = Inr (k1, h1)" by (cases x) auto
  note gc = get_key_cases[OF g]
  have same: "h_rpcs h1 (rpcs_at m) k = Some r" using gc assms(2) by simp
  let ?store = "\<lambda>r. h1\<lparr>h_rpcs := (h_rpcs h1)(rpcs_at m := (h_rpcs h1 (rpcs_at m))(k1 \<mapsto> r))\<rparr>"
  show ?thesis
  proof (cases "h_rpcs h1 (rpcs_at m) k1")
    case None
    then have "h' = ?store \<lparr>r_call = c, serialized_request = None\<rparr>" "k \<noteq> k1"
      using assms(1) g same by (auto simp: idempotency_key_from_def Let_def)
    then show ?thesis using same by simp
  next
    case (Some r1)
    obtain b r' where sr: "same_request L r1 (c_request c) = (b, r')" by force
    then have rc: "r_call r' = r_call r1" by (auto simp: same_request_def Let_def split: option.splits)
    have "h' = h1 \<or> h' = ?store r'"
      using assms(1) g Some sr by (auto simp: idempotency_key_from_def Let_def split: if_splits)
    then show ?thesis using same Some rc by auto
  qed
qed

lemma step_keeps_rpcs:
  assumes "no_rollback e" "idem_inv L seed s" "h_rpcs (hp s) (rpcs_at (mgr s)) k = Some r"
  shows "\<exists>r'. h_rpcs (hp (idem_do L s e)) (rpcs_at (mgr (idem_do L s e))) k = Some r' \<and> r_call r' = r_call r"
proof (cases e)
  case (Enter ctx c i)
  show ?thesis
  proof (cases i)
    case None
    with assms Enter show ?thesis by (auto simp: idempotently_enter_def Let_def)
  next
    case (Some j)
    obtain x h1 where k: "idempotency_key_from L ctx c j (mgr s) (hp s) = (x, h1)" by force
    from key_from_keeps_rpcs[OF k assms(3)] Some Enter assms(3) k show ?thesis
      by (cases x) (auto simp: idempotently_enter_def)
  qed
next
  case (Fail c i b)
  with assms show ?thesis by (auto simp: idempotently_fail_def split: option.splits)
next
  case Acknowledge
  with assms show ?thesis by (auto simp: acknowledge_idempotency_uncertainty_def)
next
  case Save
  have "rpcs_at (mgr s) < h_next (hp s)" using assms(2) by (simp add: idem_inv_def)
  with assms Save show ?thesis by (auto simp: mgr_checkpoint_def alloc_def)
qed (use assms in auto)

lemma steps_keep_rpcs:
  assumes "steps (idem_step L) s es t" "\<forall>e \<in> set es. no_rollback e" "idem_inv L seed s"
    "h_rpcs (hp s) (rpcs_at (mgr s)) k = Some r"
  shows "\<exists>r'. h_rpcs (hp t) (rpcs_at (mgr t)) k = Some r' \<and> r_call r' = r_call r"
  using assms
proof (induction arbitrary: r rule: steps.induct)
  case (steps_Cons s e t es u)
  then have t: "t = idem_do L s e" by (auto elim: idem_stepE)
  obtain r1 where "h_rpcs (hp t) (rpcs_at (mgr t)) k = Some r1" "r_call r1 = r_call r"
    using step_keeps_rpcs[of e L seed s k r] steps_Cons.prems t by auto
  with steps_Cons.IH[of r1] steps_Cons.prems idem_do_inv[of L seed s e] t show ?case by auto
qed simp

text \<open>Between a \<open>Save\<close> and the first \<open>Restore\<close> the checkpoint's dictionaries are not touched.\<close>

fun no_restore :: "('u, 'p, 'q, 'm) idem_event \<Rightarrow> bool" where
  "no_restore (Restore _) = False"
| "no_restore _ = True"

definition untouched :: "nat \<Rightarrow> ('u, 'q, 'm) idem_sys \<Rightarrow> ('u, 'q, 'm) idem_sys \<Rightarrow> bool" where
  "untouched a s t \<longleftrightarrow> a < h_next (hp t) \<and> aliases_at (mgr t) \<noteq> a \<and> rpcs_at (mgr t) \<noteq> a \<and>
     h_aliases (hp t) a = h_aliases (hp s) a \<and> h_rpcs (hp t) a = h_rpcs (hp s) a \<and>
     (\<exists>more. saved t = saved s @ more)"

lemma step_untouched:
  assumes "no_restore e" "idem_inv L seed t" "untouched a s t"
  shows "untouched a s (idem_do L t e)"
proof (cases e)
  case (Enter ctx c i)
  obtain res m h where en: "idempotently_enter L ctx c i (mgr t) (hp t) = (res, m, h)" by (metis prod_cases3)
  have "m_seed (mgr t) = seed" "aliases_at (mgr t) < h_next (hp t)" "rpcs_at (mgr t) < h_next (hp t)"
    "flags_ok (m_flags (mgr t))" using assms(2) by (auto simp: idem_inv_def)
  from enter_ok[OF en] idem_inv_heap[OF assms(2)] this
  have "h_next h = h_next (hp t)" "aliases_at m = aliases_at (mgr t)" "rpcs_at m = rpcs_at (mgr t)"
    "\<And>a. a \<noteq> aliases_at (mgr t) \<Longrightarrow> a \<noteq> rpcs_at (mgr t) \<Longrightarrow> h_aliases h a = h_aliases (hp t) a \<and> h_rpcs h a = h_rpcs (hp t) a"
    by auto
  with assms(3) en Enter show ?thesis by (auto simp: untouched_def)
next
  case (Fail c i b)
  with assms(3) show ?thesis by (auto simp: untouched_def idempotently_fail_def split: option.splits)
next
  case Acknowledge
  with assms(3) show ?thesis by (auto simp: untouched_def acknowledge_idempotency_uncertainty_def)
next
  case Reset
  with assms(3) show ?thesis by (auto simp: untouched_def mgr_reset_def alloc_def)
next
  case Save
  with assms(3) show ?thesis by (auto simp: untouched_def mgr_checkpoint_def alloc_def)
qed (use assms in auto)

lemma steps_untouched:
  assumes "steps (idem_step L) t es u" "\<forall>e \<in> set es. no_restore e" "idem_inv L seed t" "untouched a s t"
  shows "untouched a s u"
  using assms
proof (induction rule: steps.induct)
  case (steps_Cons t e t' es u)
  then have "t' = idem_do L t e" by (auto elim: idem_stepE)
  with steps_Cons step_untouched[of e L seed t a s] idem_do_inv show ?case by auto
qed simp

text \<open>Without a plain mutation the flag of plain mutations is never set, in the manager or a checkpoint.\<close>

definition no_plain :: "('u, 'q, 'm) idem_sys \<Rightarrow> bool" where
  "no_plain s \<longleftrightarrow> \<not> mutations_without_idempotency (m_flags (mgr s)) \<and>
     (\<forall>c \<in> set (saved s). \<not> mutations_without_idempotency (cp_flags c))"

lemma enter_no_plain:
  assumes "idempotently_enter L ctx c i m h = (res, m', h')" "i = None \<longrightarrow> \<not> c_mutation c"
  shows "mutations_without_idempotency (m_flags m') \<longleftrightarrow> mutations_without_idempotency (m_flags m)"
  using assms by (auto simp: idempotently_enter_def Let_def mutation_failed_def
      split: option.splits if_splits prod.splits sum.splits)

lemma step_no_plain:
  assumes "\<forall>ctx c. e = Enter ctx c None \<longrightarrow> \<not> c_mutation c" "no_plain s"
  shows "no_plain (idem_do L s e)"
proof (cases e)
  case (Enter ctx c i)
  obtain res m h where en: "idempotently_enter L ctx c i (mgr s) (hp s) = (res, m, h)" by (metis prod_cases3)
  have "i = None \<longrightarrow> \<not> c_mutation c" using assms(1) Enter by auto
  from enter_no_plain[OF en this] en Enter assms(2) show ?thesis by (auto simp: no_plain_def)
next
  case (Fail c i b)
  with assms(2) show ?thesis by (auto simp: no_plain_def idempotently_fail_def mutation_failed_def split: option.splits)
next
  case Acknowledge
  with assms(2) show ?thesis by (auto simp: no_plain_def acknowledge_idempotency_uncertainty_def)
next
  case Reset
  with assms(2) show ?thesis by (auto simp: no_plain_def mgr_reset_def alloc_def no_flags_def)
next
  case Save
  with assms(2) show ?thesis by (auto simp: no_plain_def mgr_checkpoint_def alloc_def)
next
  case (Restore n)
  with assms(2) show ?thesis by (auto simp: no_plain_def mgr_restore_def)
qed

lemma steps_no_plain_mutation:
  assumes "steps (idem_step L) s es t" "\<forall>e \<in> set es. \<forall>ctx c. e = Enter ctx c None \<longrightarrow> \<not> c_mutation c"
    "\<not> mutations_without_idempotency (m_flags (mgr s))" "saved s = []"
  shows "\<not> mutations_without_idempotency (m_flags (mgr t))"
proof -
  have "no_plain u" if "steps (idem_step L) s' es' u" "\<forall>e \<in> set es'. \<forall>ctx c. e = Enter ctx c None \<longrightarrow> \<not> c_mutation c" "no_plain s'"
    for s' es' u using that
  proof (induction rule: steps.induct)
    case (steps_Cons s e t es u)
    then have "t = idem_do L s e" by (auto elim: idem_stepE)
    with steps_Cons step_no_plain[of e s L] show ?case by auto
  qed simp
  from this[OF assms(1,2)] assms(3,4) show ?thesis by (auto simp: no_plain_def)
qed

lemma key_error_not_uncertain: "idempotency_key_from L ctx c i m h \<noteq> (Inl IdempotencyUncertainError, h')"
proof
  assume a: "idempotency_key_from L ctx c i m h = (Inl IdempotencyUncertainError, h')"
  have "rpc_name t svc meth mu \<noteq> Inl IdempotencyUncertainError" for t svc meth mu
    by (auto simp: rpc_name_def split: option.splits)
  then have "get_or_create_idempotency_key L ctx c i m h \<noteq> Inl IdempotencyUncertainError"
    by (auto simp: get_or_create_idempotency_key_def call_alias_def rbind_eq_Inl_iff py_assert_def Let_def
        split: option.splits if_splits)
  with a show False
    by (auto simp: idempotency_key_from_def named_error_def Let_def split: sum.splits prod.splits option.splits if_splits)
qed

text \<open>A generated key: its first use is recorded and let through, a repeated one is refused.\<close>

lemma seeded_key:
  assumes inv: "idem_inv L (Some sd) s" and i: "generate i" and al: "call_alias c i = Inr al"
  shows "\<exists>h. get_or_create_idempotency_key L ctx c i (mgr s) (hp s) =
    Inr (make_derived_idempotency_key L (seeds_uuid ctx) sd al, h) \<and> h_rpcs h = h_rpcs (hp s)"
proof -
  have d: "derived L (Some sd) (h_aliases (hp s) (aliases_at (mgr s)))" "m_seed (mgr s) = Some sd"
    using inv by (auto simp: idem_inv_def)
  show ?thesis
    using d i al by (auto simp: get_or_create_idempotency_key_def generate_def derived_def Let_def split: option.splits)
qed

lemma enter_unrecorded:
  assumes "idem_inv L (Some sd) s" "generate i" "\<not> always i" "call_alias c i = Inr al"
    "\<not> uncertain_mutation (m_flags (mgr s))"
    "h_rpcs (hp s) (rpcs_at (mgr s)) (make_derived_idempotency_key L (seeds_uuid ctx) sd al) = None"
  shows "\<exists>m h r. idempotently_enter L ctx c (Some i) (mgr s) (hp s) =
      (Inr (Some (make_derived_idempotency_key L (seeds_uuid ctx) sd al)), m, h) \<and>
    h_rpcs h (rpcs_at (mgr s)) (make_derived_idempotency_key L (seeds_uuid ctx) sd al) = Some r \<and> m = mgr s"
  using seeded_key[OF assms(1,2,4), of ctx] assms(3,5,6)
  by (auto simp: idempotently_enter_def idempotency_key_from_def Let_def)

lemma enter_recorded:
  assumes "idem_inv L (Some sd) s" "generate i" "\<not> always i" "call_alias c i = Inr al"
    "\<not> uncertain_mutation (m_flags (mgr s))"
    "h_rpcs (hp s) (rpcs_at (mgr s)) (make_derived_idempotency_key L (seeds_uuid ctx) sd al) = Some r"
  shows "fst (idempotently_enter L ctx c (Some i) (mgr s) (hp s)) = Inl ValueError"
proof -
  have "named_error ValueError [call_names c] = ValueError"
    using assms(4) by (auto simp: named_error_def call_names_def call_alias_def rbind_eq_Inr_iff)
  then show ?thesis using seeded_key[OF assms(1,2,4), of ctx] assms(2,3,5,6)
    by (auto simp: idempotently_enter_def idempotency_key_from_def Let_def)
qed

text \<open>The first restore of a checkpoint.\<close>

lemma save_restore:
  assumes "idem_inv L seed s" "steps (idem_step L) (idem_do L s Save) es t" "\<forall>e \<in> set es. no_restore e"
  defines "u \<equiv> idem_do L t (Restore (length (saved s)))"
  shows "h_aliases (hp u) (aliases_at (mgr u)) = h_aliases (hp s) (aliases_at (mgr s))"
    "h_rpcs (hp u) (rpcs_at (mgr u)) = h_rpcs (hp s) (rpcs_at (mgr s))" "m_flags (mgr u) = m_flags (mgr s)"
proof -
  let ?a = "h_next (hp s)" let ?s1 = "idem_do L s Save"
  note inv = assms(1)
  have inv1: "idem_inv L seed ?s1" by (rule idem_do_inv[OF inv])
  have s1: "h_aliases (hp ?s1) ?a = h_aliases (hp s) (aliases_at (mgr s))" "h_rpcs (hp ?s1) ?a = h_rpcs (hp s) (rpcs_at (mgr s))"
    "saved ?s1 = saved s @ [\<lparr>cp_aliases_at = ?a, cp_rpcs_at = ?a, cp_flags = m_flags (mgr s)\<rparr>]"
    by (simp_all add: mgr_checkpoint_def alloc_def)
  have "untouched ?a ?s1 ?s1"
    using inv by (auto simp: untouched_def mgr_checkpoint_def alloc_def idem_inv_def)
  from steps_untouched[OF assms(2,3) inv1 this] obtain more where
    t: "h_aliases (hp t) ?a = h_aliases (hp ?s1) ?a" "h_rpcs (hp t) ?a = h_rpcs (hp ?s1) ?a" "saved t = saved ?s1 @ more"
    by (auto simp: untouched_def)
  have "saved t ! length (saved s) = \<lparr>cp_aliases_at = ?a, cp_rpcs_at = ?a, cp_flags = m_flags (mgr s)\<rparr>"
    "length (saved s) < length (saved t)" using t(3) s1(3) by (simp_all add: nth_append)
  then show "h_aliases (hp u) (aliases_at (mgr u)) = h_aliases (hp s) (aliases_at (mgr s))"
    "h_rpcs (hp u) (rpcs_at (mgr u)) = h_rpcs (hp s) (rpcs_at (mgr s))" "m_flags (mgr u) = m_flags (mgr s)"
    using t(1,2) s1(1,2) by (simp_all add: u_def mgr_restore_def)
qed

end
