(* ===== verification/Idempotency_Claims.thy ===== *)
theory Idempotency_Claims
  imports Idempotency
begin

text \<open>
  The properties of the idempotency manager over all runs, with instances on a concrete manager.
\<close>

section \<open>A concrete manager\<close>

definition lib0 :: "(pystr, nat, bytes) idem_lib" where
  "lib0 = \<lparr>uuid5 = (\<lambda>s a. s @ 0 # a), str_uuid = (\<lambda>u. u), parse_uuid = Some, expiring_uuid = (\<lambda>n. [n]),
     seeds_namespace = [9], pickle_hex = (\<lambda>l. concat (map fst l)), serialize = (\<lambda>q. q)\<rparr>"

definition heap0 :: "(pystr, bytes, unit) heap" where
  "heap0 = \<lparr>h_aliases = (\<lambda>_ _. None), h_rpcs = (\<lambda>_ _. None), h_next = 0, drawn_keys = 0\<rparr>"

definition sys0 :: "(pystr, bytes, unit) idem_sys" where
  "sys0 = \<lparr>mgr = \<lparr>m_seed = Some [5], required = False, required_reason = None, aliases_at = 0, rpcs_at = 0, m_flags = no_flags\<rparr>,
     hp = heap0\<lparr>h_aliases := (h_aliases heap0)(0 := \<lambda>_. None), h_rpcs := (h_rpcs heap0)(0 := \<lambda>_. None), h_next := 1\<rparr>,
     saved = []\<rparr>"

definition call0 :: "(bytes, unit) call" where
  "call0 = \<lparr>c_type = str ''T'', c_ref = str ''r'', c_service = Some (str ''S''), c_method = Some (str ''M''), c_mutation = True,
     c_request = Some [1], c_metadata = None\<rparr>"

definition bare :: "'u idem" where
  "bare = \<lparr>i_alias = None, i_key = None, i_how = Some PER_WORKFLOW, i_iteration = None\<rparr>"

definition named :: "pystr \<Rightarrow> 'u idem" where
  "named a = \<lparr>i_alias = Some a, i_key = None, i_how = None, i_iteration = None\<rparr>"

lemma sys0_reach: "idem_reach lib0 (Some [5]) sys0"
proof (rule reach_init)
  have "mgr_init (Some [5]) False None heap0 = Inr (mgr sys0, hp sys0)"
    by (simp add: mgr_init_def mgr_reset_def alloc_def sys0_def heap0_def)
  moreover have "saved sys0 = []" "h_next heap0 = 0" by (simp_all add: sys0_def heap0_def)
  ultimately show "idem_init (Some [5]) sys0" unfolding idem_init_def by blast
qed

text \<open>The first and a repeated call with an alias.\<close>

lemma named_twice:
  "case idempotently_enter lib0 no_seeds call0 (Some (named [8])) (mgr sys0) (hp sys0) of
     (r, m, h) \<Rightarrow> (case r of Inr (Some k) \<Rightarrow>
       fst (idempotently_enter lib0 no_seeds call0 (Some (named [8])) m h) = Inr (Some k) | _ \<Rightarrow> False)"
  by code_simp

lemma named_twiceE:
  obtains k m h m2 h2 where
    "idempotently_enter lib0 no_seeds call0 (Some (named [8])) (mgr sys0) (hp sys0) = (Inr (Some k), m, h)"
    "idempotently_enter lib0 no_seeds call0 (Some (named [8])) m h = (Inr (Some k), m2, h2)"
  using named_twice by (auto split: prod.splits sum.splits option.splits) (metis prod.collapse)

section \<open>Keys\<close>

text \<open>
  (C36) Keys are stable across retries: with a seed, the key generated for a call depends only on the
  seed, the active seeds scope and the call's alias; whatever two runs of the manager did before
  (other calls, failures, resets, checkpoints), they generate the same key for the same call.
\<close>

theorem seeded_keys_stable:
  assumes "idem_reach L (Some sd) s1" "idem_reach L (Some sd) s2" "i_key i = None"
    and "idempotently_enter L ctx c (Some i) (mgr s1) (hp s1) = (Inr (Some k1), m1, h1)"
    and "idempotently_enter L ctx c (Some i) (mgr s2) (hp s2) = (Inr (Some k2), m2, h2)"
  shows "k1 = k2 \<and> (\<exists>al. call_alias c i = Inr al \<and> k1 = make_derived_idempotency_key L (seeds_uuid ctx) sd al)"
proof -
  have key: "\<exists>al. call_alias c i = Inr al \<and> k = make_derived_idempotency_key L (seeds_uuid ctx) sd al"
    if r: "idem_reach L (Some sd) s" and e: "idempotently_enter L ctx c (Some i) (mgr s) (hp s) = (Inr (Some k), m, h)"
    for s k m h
  proof -
    note inv = idem_run.reach_inv[OF r]
    have m: "m_seed (mgr s) = Some sd" "aliases_at (mgr s) < h_next (hp s)" "rpcs_at (mgr s) < h_next (hp s)"
      using inv by (auto simp: idem_inv_def)
    have kf: "idempotency_key_from L ctx c i (mgr s) (hp s) = (Inr k, h)" using enter_key[OF e] by simp
    obtain al where al: "call_alias c i = Inr al"
      using kf assms(3) by (cases "call_alias c i") (auto simp: idempotency_key_from_def get_or_create_idempotency_key_def)
    have "heap_ok L (m_seed (mgr s)) (hp s)" using idem_inv_heap[OF inv] m(1) by simp
    from key_from_ok(5)[OF kf this m(2,3) refl assms(3) m(1) al] al show ?thesis by blast
  qed
  from key[OF assms(1,4)] key[OF assms(2,5)] show ?thesis by auto
qed

theorem seeded_keys_stable_witness:
  "\<exists>k m h. idempotently_enter lib0 no_seeds call0 (Some (named [8])) (mgr sys0) (hp sys0) = (Inr (Some k), m, h) \<and>
    (\<exists>al. call_alias call0 (named [8] :: pystr idem) = Inr al \<and> k = make_derived_idempotency_key lib0 None [5] al)"
proof -
  obtain k m h where e: "idempotently_enter lib0 no_seeds call0 (Some (named [8])) (mgr sys0) (hp sys0) = (Inr (Some k), m, h)"
    by (rule named_twiceE)
  from seeded_keys_stable[OF sys0_reach sys0_reach _ e e] e show ?thesis by (auto simp: named_def no_seeds_def)
qed

text \<open>
  (C37) A key names one RPC: as long as the manager is neither reset nor rolled back, whenever two
  calls are let through with the same key, they are calls of the same method of the same state with
  equal (serialised) requests and metadata, and the later one had an explicit alias or key.
\<close>

theorem key_names_one_rpc:
  assumes "idem_reach L seed s"
    and "idempotently_enter L ctx1 c1 (Some i1) (mgr s) (hp s) = (Inr (Some k), m1, h1)"
    and "steps (idem_step L) (s\<lparr>mgr := m1, hp := h1\<rparr>) es t" "\<forall>e \<in> set es. no_rollback e"
    and "idempotently_enter L ctx2 c2 (Some i2) (mgr t) (hp t) = (Inr (Some k), m2, h2)"
  shows "agrees L c1 c2 \<and> \<not> generate i2"
proof -
  note inv = idem_run.reach_inv[OF assms(1)]
  have ok: "heap_ok L (m_seed (mgr u)) (hp u)" "aliases_at (mgr u) < h_next (hp u)" "rpcs_at (mgr u) < h_next (hp u)"
    if "idem_inv L seed u" for u
    using that idem_inv_heap[OF that] by (auto simp: idem_inv_def)
  have kf: "idempotency_key_from L ctx1 c1 i1 (mgr s) (hp s) = (Inr k, h1)" "m1 = mgr s"
    using enter_key[OF assms(2)] by auto
  obtain r where r: "h_rpcs h1 (rpcs_at (mgr s)) k = Some r" "agrees L (r_call r) c1"
    using key_from_ok(4)[OF kf(1) ok[OF inv] refl] by blast
  have st: "idem_step L s (Enter ctx1 c1 (Some i1)) (s\<lparr>mgr := m1, hp := h1\<rparr>)"
    using idem_stepI[of L s "Enter ctx1 c1 (Some i1)"] assms(2) by simp
  have inv1: "idem_inv L seed (s\<lparr>mgr := m1, hp := h1\<rparr>)" by (rule idem_run.step_inv[OF inv st])
  obtain r' where r': "h_rpcs (hp t) (rpcs_at (mgr t)) k = Some r'" "r_call r' = r_call r"
    using steps_keep_rpcs[OF assms(3,4) inv1] r(1) kf(2) by auto
  have inv2: "idem_inv L seed t" by (rule idem_run.steps_inv[OF assms(3) inv1])
  have "idempotency_key_from L ctx2 c2 i2 (mgr t) (hp t) = (Inr k, h2)" using enter_key[OF assms(5)] by simp
  from key_from_ok(4)[OF this ok[OF inv2] refl] r' obtain r2 where
    "h_rpcs h2 (rpcs_at (mgr t)) k = Some r2" "agrees L (r_call r2) c2" "r_call r2 = r_call r" "\<not> generate i2" by fastforce
  with r(2) show ?thesis by (auto simp: agrees_def)
qed

theorem key_names_one_rpc_witness:
  "\<exists>k m h k2 m2 h2. idempotently_enter lib0 no_seeds call0 (Some (named [8])) (mgr sys0) (hp sys0) = (Inr (Some k), m, h) \<and>
    idempotently_enter lib0 no_seeds call0 (Some (named [8])) m h = (Inr (Some k2), m2, h2) \<and> k = k2 \<and>
    agrees lib0 call0 call0 \<and> \<not> generate (named [8] :: pystr idem)"
proof -
  obtain k m h m2 h2 where e: "idempotently_enter lib0 no_seeds call0 (Some (named [8])) (mgr sys0) (hp sys0) = (Inr (Some k), m, h)"
    and e2: "idempotently_enter lib0 no_seeds call0 (Some (named [8])) m h = (Inr (Some k), m2, h2)"
    by (rule named_twiceE)
  have "idempotently_enter lib0 no_seeds call0 (Some (named [8])) (mgr (sys0\<lparr>mgr := m, hp := h\<rparr>)) (hp (sys0\<lparr>mgr := m, hp := h\<rparr>)) =
      (Inr (Some k), m2, h2)" using e2 by simp
  from key_names_one_rpc[OF sys0_reach e steps_Nil _ this] e e2 show ?thesis by auto
qed

section \<open>Seed scopes\<close>

lemma dict_merge_map: "map_of (dict_merge a b) = map_of a ++ map_of b"
proof
  fix k
  have f: "map_of (filter (\<lambda>(k, v). k \<notin> K) b) k = (if k \<in> K then None else map_of b k)" for K
    by (induction b) auto
  have m: "map_of (map (\<lambda>(k, v). (k, case map_of b k of None \<Rightarrow> v | Some v' \<Rightarrow> v')) a) k =
      (case map_of a k of None \<Rightarrow> None | Some v \<Rightarrow> Some (case map_of b k of None \<Rightarrow> v | Some v' \<Rightarrow> v'))"
    by (induction a) (auto split: option.splits)
  have n: "k \<in> fst ` set a \<longleftrightarrow> map_of a k \<noteq> None" by (simp add: map_of_eq_None_iff)
  show "map_of (dict_merge a b) k = (map_of a ++ map_of b) k"
    by (simp add: dict_merge_def map_add_def m f n split: option.splits)
qed

lemma dict_merge_distinct:
  assumes "distinct (map fst a)" "distinct (map fst b)"
  shows "distinct (map fst (dict_merge a b))"
proof -
  have "map fst (dict_merge a b) = map fst a @ filter (\<lambda>k. k \<notin> fst ` set a) (map fst b)"
    by (auto simp: dict_merge_def filter_map o_def case_prod_unfold)
  then show ?thesis using assms by auto
qed

lemma sort_key_distinct_fst: "distinct (map fst l) \<Longrightarrow> distinct (map fst (sort_key fst (l :: (pystr \<times> 'p) list)))"
proof -
  assume d: "distinct (map fst l)"
  have "mset (map fst (sort_key fst l)) = mset (map fst l)" by simp
  then show ?thesis using d by (rule mset_eq_imp_distinct_iff[THEN iffD2])
qed

lemma sorted_items_unique:
  assumes "distinct (map fst a)" "distinct (map fst b)" "map_of a = map_of b"
  shows "sort_key fst a = sort_key fst (b :: (pystr \<times> 'p) list)"
proof (rule map_sorted_distinct_set_unique[of fst])
  have s: "set a = set b" using map_of_inject_set[OF assms(1,2)] assms(3) by simp
  show "set (sort_key fst a) = set (sort_key fst b)" using s by simp
  have "distinct (map fst (sort_key fst a))" by (rule sort_key_distinct_fst[OF assms(1)])
  then have i: "inj_on fst (set (sort_key fst a))" by (simp only: distinct_map)
  with s show "inj_on fst (set (sort_key fst a) \<union> set (sort_key fst b))" by simp
  show "sorted (map fst (sort_key fst a))" "sorted (map fst (sort_key fst b))" by simp_all
  show "distinct (map fst (sort_key fst a))" "distinct (map fst (sort_key fst b))"
    by (rule sort_key_distinct_fst[OF assms(1)], rule sort_key_distinct_fst[OF assms(2)])
qed

text \<open>
  Nested seed blocks compose: the seeds active inside an inner block derive the same keys as one
  block with the merged entries, inner entries overriding outer ones, independently of the order in
  which entries are written.
\<close>

theorem nested_seeds_compose:
  assumes "distinct (map fst e1)" "distinct (map fst e2)" "distinct (map fst e)"
    and "map_of e = map_of e1 ++ map_of e2" and "\<forall>s. seeds ctx = Some s \<longrightarrow> distinct (map fst s)"
  shows "seeds_uuid (merge_idempotency_seeds L e2 (merge_idempotency_seeds L e1 ctx)) =
    seeds_uuid (merge_idempotency_seeds L e ctx)"
proof -
  let ?o = "case seeds ctx of None \<Rightarrow> [] | Some s \<Rightarrow> s"
  have o: "distinct (map fst ?o)" using assms(5) by (auto split: option.splits)
  have "map_of (dict_merge (dict_merge ?o e1) e2) = map_of (dict_merge ?o e)"
    by (simp add: dict_merge_map assms(4))
  with sorted_items_unique[OF dict_merge_distinct[OF dict_merge_distinct[OF o assms(1)] assms(2)]
      dict_merge_distinct[OF o assms(3)]]
  show ?thesis by (simp add: merge_idempotency_seeds_def Let_def)
qed

theorem nested_seeds_compose_witness:
  "seeds_uuid (merge_idempotency_seeds lib0 [([1], 7)] (merge_idempotency_seeds lib0 [([2], 5), ([1], 6)] no_seeds)) =
    seeds_uuid (merge_idempotency_seeds lib0 [([1], 7), ([2], 5)] no_seeds)"
  using nested_seeds_compose[of "[([2], 5), ([1], 6)]" "[([1], 7)]" "[([1], 7), ([2], 5)]" no_seeds lib0]
  by (simp add: no_seeds_def fun_eq_iff)

section \<open>Uncertainty\<close>

text \<open>
  No blind retry of a mutation: once a mutation without idempotency was let through and later
  some mutation failed without an answer from the backend, every further mutation is refused (unless
  it opts out with \<open>always\<close>), whatever other calls are made meanwhile, until the uncertainty is
  acknowledged or the manager is rolled back.
\<close>

theorem uncertainty_blocks_mutations:
  assumes "c_mutation c0" "idempotently_enter L ctx0 c0 None (mgr s) (hp s) = (Inr None, m, h)"
    and "steps (idem_step L) (s\<lparr>mgr := m, hp := h\<rparr>) es t" "\<forall>e \<in> set es. keeps_uncertainty e"
    and "c_mutation c1" "\<forall>j. i1 = Some j \<longrightarrow> \<not> always j"
    and "steps (idem_step L) (idem_do L t (Fail c1 i1 False)) es' u" "\<forall>e \<in> set es'. keeps_uncertainty e"
    and "c_mutation c" "\<forall>j. i = Some j \<longrightarrow> \<not> always j"
  shows "fst (idempotently_enter L ctx c i (mgr u) (hp u)) =
    Inl (if i = None \<and> required (mgr u) then IdempotencyRequiredError else uncertain_error c (m_flags (mgr u)))"
proof -
  have "mutations_without_idempotency (m_flags m)"
    using assms(1,2) by (auto simp: idempotently_enter_def Let_def split: if_splits)
  then have "mutations_without_idempotency (m_flags (mgr t))"
    using steps_keep_uncertainty[OF assms(3,4)] by simp
  then have "uncertain_mutation (m_flags (mgr (idem_do L t (Fail c1 i1 False))))"
    using assms(5,6) by (auto simp: idempotently_fail_def mutation_failed_def split: option.splits)
  then have "uncertain_mutation (m_flags (mgr u))" using steps_keep_uncertainty[OF assms(7,8)] by simp
  then show ?thesis using assms(9,10) by (auto simp: idempotently_enter_def uncertain_error_def Let_def split: option.splits)
qed

theorem uncertainty_blocks_mutations_witness:
  "\<exists>m. idempotently_enter lib0 no_seeds call0 None (mgr sys0) (hp sys0) = (Inr None, m, hp sys0) \<and>
    fst (idempotently_enter lib0 no_seeds call0 (Some (named [8]))
      (idempotently_fail call0 None False m) (hp sys0)) = Inl IdempotencyUncertainError"
proof -
  obtain m where e: "idempotently_enter lib0 no_seeds call0 None (mgr sys0) (hp sys0) = (Inr None, m, hp sys0)"
    by (simp add: idempotently_enter_def sys0_def call0_def no_flags_def)
  have st: "steps (idem_step lib0) (idem_do lib0 (sys0\<lparr>mgr := m, hp := hp sys0\<rparr>) (Fail call0 None False)) []
      (idem_do lib0 (sys0\<lparr>mgr := m, hp := hp sys0\<rparr>) (Fail call0 None False))" by (rule steps_Nil)
  have mu: "c_mutation call0" by (simp add: call0_def)
  from uncertainty_blocks_mutations[OF mu e steps_Nil _ mu _ st _ mu, of "Some (named [8])" no_seeds] e show ?thesis
    by (auto simp: named_def always_def idempotently_fail_def mutation_failed_def idempotently_enter_def call0_def
        sys0_def no_flags_def uncertain_error_def named_error_def rpc_name_def)
qed

text \<open>
  Using idempotency for every mutation is enough: in a run in which no mutation is made without
  idempotency no call is ever refused as uncertain, however many calls fail.
\<close>

theorem idempotent_mutations_never_uncertain:
  assumes "idem_init seed s" "steps (idem_step L) s es t"
    and "\<forall>e \<in> set es. \<forall>ctx c. e = Enter ctx c None \<longrightarrow> \<not> c_mutation c"
  shows "fst (idempotently_enter L ctx c i (mgr t) (hp t)) \<noteq> Inl IdempotencyUncertainError"
proof -
  have s: "\<not> mutations_without_idempotency (m_flags (mgr s))" "saved s = []"
    using assms(1) by (auto simp: idem_init_def no_flags_def dest!: mgr_init_ok)
  have "idem_inv L seed s" by (rule idem_run.init_inv[OF assms(1)])
  then have t: "idem_inv L seed t" by (rule idem_run.steps_inv[OF assms(2)])
  have "\<not> mutations_without_idempotency (m_flags (mgr t))"
    using steps_no_plain_mutation[OF assms(2,3)] s by simp
  then have "\<not> uncertain_mutation (m_flags (mgr t))" using t by (auto simp: idem_inv_def flags_ok_def)
  then show ?thesis
    by (auto simp: idempotently_enter_def Let_def key_error_not_uncertain split: option.splits prod.splits sum.splits)
qed

theorem idempotent_mutations_never_uncertain_witness:
  "fst (idempotently_enter lib0 no_seeds call0 (Some (named [8])) (mgr sys0) (hp sys0)) \<noteq> Inl IdempotencyUncertainError"
proof -
  have "mgr_init (Some [5]) False None heap0 = Inr (mgr sys0, hp sys0)" "saved sys0 = []" "h_next heap0 = 0"
    by (simp_all add: mgr_init_def mgr_reset_def alloc_def sys0_def heap0_def)
  then have "idem_init (Some [5]) sys0" unfolding idem_init_def by blast
  from idempotent_mutations_never_uncertain[OF this steps_Nil] show ?thesis by simp
qed

text \<open>
  A refused key can make the manager uncertain: the handler around the \<open>yield\<close> assumes that the
  wrapped RPC threw, but the key is computed inside it, so reusing an implicit key for a mutation, which
  is refused before any RPC is made, marks the mutation as uncertain.
\<close>

theorem refused_key_marks_uncertain:
  assumes "mutations_without_idempotency (m_flags m)" "\<not> uncertain_mutation (m_flags m)" "c_mutation c" "\<not> always i"
    and "idempotency_key_from L ctx c i m h = (Inl e, h')"
  shows "\<exists>m'. idempotently_enter L ctx c (Some i) m h = (Inl e, m', h') \<and> uncertain_mutation (m_flags m')"
  using assms by (simp add: idempotently_enter_def mutation_failed_def)

theorem refused_key_marks_uncertain_witness:
  "case idempotently_enter lib0 no_seeds call0 (Some bare) ((mgr sys0)\<lparr>m_flags := no_flags\<lparr>mutations_without_idempotency := True\<rparr>\<rparr>) (hp sys0) of
    (_, m, h) \<Rightarrow> (\<exists>m' h'. idempotently_enter lib0 no_seeds call0 (Some bare) m h = (Inl ValueError, m', h') \<and>
      uncertain_mutation (m_flags m'))"
proof -
  let ?m = "(mgr sys0)\<lparr>m_flags := no_flags\<lparr>mutations_without_idempotency := True\<rparr>\<rparr>"
  obtain r m h where e: "idempotently_enter lib0 no_seeds call0 (Some bare) ?m (hp sys0) = (r, m, h)" by (metis prod_cases3)
  have "case idempotently_enter lib0 no_seeds call0 (Some bare) ?m (hp sys0) of (_, m, h) \<Rightarrow>
      mutations_without_idempotency (m_flags m) \<and> \<not> uncertain_mutation (m_flags m) \<and>
      fst (idempotency_key_from lib0 no_seeds call0 bare m h) = Inl ValueError" by code_simp
  then have f: "mutations_without_idempotency (m_flags m)" "\<not> uncertain_mutation (m_flags m)"
    "fst (idempotency_key_from lib0 no_seeds call0 bare m h) = Inl ValueError" using e by simp_all
  then obtain h' where "idempotency_key_from lib0 no_seeds call0 bare m h = (Inl ValueError, h')" by (metis prod.collapse)
  from refused_key_marks_uncertain[OF f(1,2) _ _ this] e show ?thesis by (auto simp: call0_def bare_def always_def)
qed

section \<open>Checkpoints\<close>

text \<open>
  The first restore of a checkpoint rewinds: whatever was called since the checkpoint was taken,
  the aliases, the recorded RPCs and the flags are again what they were.
\<close>

theorem first_restore_rewinds:
  assumes "idem_reach L seed s" "steps (idem_step L) (idem_do L s Save) es t" "\<forall>e \<in> set es. no_restore e"
  defines "u \<equiv> idem_do L t (Restore (length (saved s)))"
  shows "h_aliases (hp u) (aliases_at (mgr u)) = h_aliases (hp s) (aliases_at (mgr s)) \<and>
    h_rpcs (hp u) (rpcs_at (mgr u)) = h_rpcs (hp s) (rpcs_at (mgr s)) \<and> m_flags (mgr u) = m_flags (mgr s)"
  using save_restore[OF idem_run.reach_inv[OF assms(1)] assms(2,3)] by (simp add: u_def)

theorem first_restore_rewinds_witness:
  "let u = idem_do lib0 (idem_do lib0 (idem_do lib0 sys0 Save) (Enter no_seeds call0 (Some bare))) (Restore 0)
    in h_rpcs (hp u) (rpcs_at (mgr u)) = h_rpcs (hp sys0) (rpcs_at (mgr sys0))"
proof -
  let ?s = "idem_do lib0 sys0 Save" let ?e = "Enter no_seeds call0 (Some bare)"
  have "steps (idem_step lib0) ?s [?e] (idem_do lib0 ?s ?e)" by (rule idem_steps_one)
  from first_restore_rewinds[OF sys0_reach this] show ?thesis by (simp add: sys0_def Let_def)
qed

text \<open>
  (C38) The second restore does not: \<open>restore\<close> installs the checkpoint's own dictionaries, so what is
  recorded after the first restore is recorded in the checkpoint.  A control loop takes one checkpoint
  and restores it before every iteration, so that each iteration may make a call without an alias
  once: the first two iterations succeed and the third is refused.
\<close>

theorem third_iteration_is_refused:
  assumes "idem_reach L (Some sd) s" "generate i" "\<not> always i" "call_alias c i = Inr al"
    and "\<not> uncertain_mutation (m_flags (mgr s))" "c_mutation c"
    and "h_rpcs (hp s) (rpcs_at (mgr s)) (make_derived_idempotency_key L (seeds_uuid ctx) sd al) = None"
  defines "n \<equiv> length (saved s)" and "k \<equiv> make_derived_idempotency_key L (seeds_uuid ctx) sd al"
  defines "s1 \<equiv> idem_do L s Save"
  defines "s2 \<equiv> idem_do L (idem_do L s1 (Enter ctx c (Some i))) (Restore n)"
  defines "s3 \<equiv> idem_do L (idem_do L s2 (Enter ctx c (Some i))) (Restore n)"
  shows "fst (idempotently_enter L ctx c (Some i) (mgr s1) (hp s1)) = Inr (Some k) \<and>
    fst (idempotently_enter L ctx c (Some i) (mgr s2) (hp s2)) = Inr (Some k) \<and>
    fst (idempotently_enter L ctx c (Some i) (mgr s3) (hp s3)) = Inl ValueError"
proof -
  have fresh_enter: "\<exists>m h r. idempotently_enter L ctx c (Some i) (mgr t) (hp t) = (Inr (Some k), m, h) \<and>
      h_rpcs h (rpcs_at (mgr t)) k = Some r \<and> m = mgr t"
    if t: "idem_reach L (Some sd) t" "\<not> uncertain_mutation (m_flags (mgr t))" "h_rpcs (hp t) (rpcs_at (mgr t)) k = None" for t
    using enter_unrecorded[OF idem_run.reach_inv[OF t(1)] assms(2-4) t(2) t(3)[unfolded k_def]] by (simp add: k_def)
  let ?a = "h_next (hp s)" let ?cp = "\<lparr>cp_aliases_at = ?a, cp_rpcs_at = ?a, cp_flags = m_flags (mgr s)\<rparr>"
  have s1: "idem_reach L (Some sd) s1" "saved s1 = saved s @ [?cp]" "mgr s1 = mgr s"
    "h_rpcs (hp s1) ?a = h_rpcs (hp s) (rpcs_at (mgr s))" "h_rpcs (hp s1) (rpcs_at (mgr s)) = h_rpcs (hp s) (rpcs_at (mgr s))"
    using reach_step[OF assms(1) idem_stepI[of L s Save]] idem_run.reach_inv[OF assms(1)]
    by (auto simp: s1_def mgr_checkpoint_def alloc_def idem_inv_def)
  have e1: "idem_step L s1 (Enter ctx c (Some i)) (idem_do L s1 (Enter ctx c (Some i)))" by (rule idem_stepI)
  obtain m h r where f1: "idempotently_enter L ctx c (Some i) (mgr s1) (hp s1) = (Inr (Some k), m, h)" "m = mgr s1"
    using fresh_enter[OF s1(1)] assms(5,7) s1(3,5) by (auto simp: k_def)
  have cp: "saved s1 ! n = ?cp" "n < length (saved s1)" using s1(2) by (simp_all add: n_def)
  have s2: "idem_reach L (Some sd) s2" "saved s2 = saved s1" "m_flags (mgr s2) = m_flags (mgr s)"
    "rpcs_at (mgr s2) = ?a" "hp s2 = h"
    using reach_step[OF reach_step[OF s1(1) e1] idem_stepI[of L _ "Restore n"]] f1 cp
    by (simp_all add: s2_def mgr_restore_def)
  have "h_rpcs (hp s2) ?a k = None"
    using save_restore(2)[OF idem_run.reach_inv[OF assms(1)] idem_steps_one, of "Enter ctx c (Some i)"] s2 assms(7)
    by (simp add: s2_def s1_def n_def k_def)
  then obtain m' h' r' where f2: "idempotently_enter L ctx c (Some i) (mgr s2) (hp s2) = (Inr (Some k), m', h')"
    "h_rpcs h' ?a k = Some r'" "m' = mgr s2"
    using fresh_enter[OF s2(1)] assms(5) s2(3,4) by auto
  have s3: "idem_reach L (Some sd) s3" "m_flags (mgr s3) = m_flags (mgr s)" "h_rpcs (hp s3) (rpcs_at (mgr s3)) k = Some r'"
    using reach_step[OF reach_step[OF s2(1) idem_stepI[of L _ "Enter ctx c (Some i)"]] idem_stepI[of L _ "Restore n"]]
      f2 cp s2(2) by (simp_all add: s3_def mgr_restore_def)
  have "fst (idempotently_enter L ctx c (Some i) (mgr s3) (hp s3)) = Inl ValueError"
    using enter_recorded[OF idem_run.reach_inv[OF s3(1)] assms(2-4)] s3(2,3) assms(5) by (simp add: k_def)
  with f1 f2 show ?thesis by simp
qed

theorem third_iteration_is_refused_witness:
  "let s2 = idem_do lib0 (idem_do lib0 (idem_do lib0 sys0 Save) (Enter no_seeds call0 (Some bare))) (Restore 0);
     s3 = idem_do lib0 (idem_do lib0 s2 (Enter no_seeds call0 (Some bare))) (Restore 0)
    in fst (idempotently_enter lib0 no_seeds call0 (Some bare) (mgr s3) (hp s3)) = Inl ValueError"
proof -
  obtain al where al: "call_alias call0 (bare :: pystr idem) = Inr al"
    by (auto simp: call_alias_def call0_def rpc_name_def)
  have "generate (bare :: pystr idem)" "\<not> always (bare :: pystr idem)"
    "\<not> uncertain_mutation (m_flags (mgr sys0))" "c_mutation call0"
    "h_rpcs (hp sys0) (rpcs_at (mgr sys0)) (make_derived_idempotency_key lib0 (seeds_uuid no_seeds) [5] al) = None"
    by (simp_all add: bare_def generate_def always_def sys0_def no_flags_def call0_def)
  from third_iteration_is_refused[OF sys0_reach this(1,2) al this(3-5)] show ?thesis by (simp add: sys0_def Let_def)
qed

end
