(* ===== verification/Participants.thy ===== *)
theory Participants
  imports Prelude
begin

text \<open>
  The participants of a transaction: class \<open>Participants\<close> of \<open>reboot/aio/contexts.py\<close>, which every
  call of a transaction carries back to its caller, split into those to commit and those that only
  read.

  A \<open>defaultdict(set)\<close> is the list of its items, and a set the list in which it is iterated; every
  fact below is about membership, so it holds for any iteration order.  The value of a header is the
  JSON document, an object whose members are lists of strings.
\<close>

section \<open>Dictionaries of sets\<close>

type_synonym dset = "(pystr \<times> pystr list) list"

definition refs :: "dset \<Rightarrow> pystr \<Rightarrow> pystr list" where
  "refs d t = (case map_of d t of None \<Rightarrow> [] | Some l \<Rightarrow> l)"

definition set_add :: "pystr \<Rightarrow> pystr list \<Rightarrow> pystr list" where
  "set_add r l = (if r \<in> set l then l else l @ [r])"

definition set_update :: "pystr list \<Rightarrow> pystr list \<Rightarrow> pystr list" where
  "set_update new l = fold set_add new l"

text \<open>\<open>d[t] = l\<close>: an existing key keeps its place.\<close>

fun dict_put :: "pystr \<Rightarrow> pystr list \<Rightarrow> dset \<Rightarrow> dset" where
  "dict_put t l [] = [(t, l)]"
| "dict_put t l ((t', l') # d) = (if t' = t then (t, l) # d else (t', l') # dict_put t l d)"

section \<open>The class\<close>

record participants =
  should_commit_of :: dset
  read_only_of :: dset
  saw_legacy_to_abort :: bool

definition participants_init :: participants where
  "participants_init = \<lparr>should_commit_of = [], read_only_of = [], saw_legacy_to_abort = False\<rparr>"

definition items :: "dset \<Rightarrow> (pystr \<times> pystr) list" where
  "items d = concat (map (\<lambda>(t, l). map (\<lambda>r. (t, r)) l) d)"

definition should_commit :: "participants \<Rightarrow> (pystr \<times> pystr) list" where
  "should_commit p = items (should_commit_of p)"

definition read_only :: "participants \<Rightarrow> (pystr \<times> pystr) list" where
  "read_only p = items (read_only_of p)"

definition should_prepare :: "bool \<Rightarrow> participants \<Rightarrow> (pystr \<times> pystr) list" where
  "should_prepare skip_read_only p = should_commit p @ (if skip_read_only then [] else read_only p)"

definition retain_as_read_only :: "participants \<Rightarrow> participants" where
  "retain_as_read_only p = p\<lparr>
     read_only_of := fold (\<lambda>(t, l) d. dict_put t (set_update l (refs d t)) d) (should_commit_of p) (read_only_of p),
     should_commit_of := []\<rparr>"

definition add :: "bool \<Rightarrow> pystr \<times> pystr \<Rightarrow> participants \<Rightarrow> participants" where
  "add ro = (\<lambda>(t, r) p.
     if ro then
       (if r \<notin> set (refs (should_commit_of p) t)
        then p\<lparr>read_only_of := dict_put t (set_add r (refs (read_only_of p) t)) (read_only_of p)\<rparr>
        else p)
     else p\<lparr>
       read_only_of := (if t \<in> fst ` set (read_only_of p)
                        then dict_put t (removeAll r (refs (read_only_of p) t)) (read_only_of p) else read_only_of p),
       should_commit_of := dict_put t (set_add r (refs (should_commit_of p) t)) (should_commit_of p)\<rparr>)"

definition union :: "participants \<Rightarrow> participants \<Rightarrow> participants" where
  "union other p = fold (add True) (read_only other) (fold (add False) (should_commit other) p)"

section \<open>On the wire\<close>

datatype header = PARTICIPANTS | PARTICIPANTS_TO_ABORT | PARTICIPANTS_READ_ONLY | OtherHeader pystr

definition nonempty :: "dset \<Rightarrow> dset" where
  "nonempty d = filter (\<lambda>(t, l). length l > 0) d"

definition merge_dsets :: "dset \<Rightarrow> dset \<Rightarrow> dset" where
  "merge_dsets a b = fold (\<lambda>(t, l) d. dict_put t (set_update l (refs d t)) d) (a @ b) []"

definition to_grpc_metadata :: "bool \<Rightarrow> participants \<Rightarrow> (header \<times> dset) list" where
  "to_grpc_metadata read_only_aware p =
     (let commit = (if read_only_aware then should_commit_of p else merge_dsets (should_commit_of p) (read_only_of p))
      in (PARTICIPANTS, nonempty commit) #
         (if read_only_aware then [(PARTICIPANTS_READ_ONLY, nonempty (read_only_of p))] else []))"

fun from_header :: "header \<times> dset \<Rightarrow> participants \<Rightarrow> participants" where
  "from_header (PARTICIPANTS, d) p = fold (add False) (items d) p"
| "from_header (PARTICIPANTS_TO_ABORT, d) p = p\<lparr>saw_legacy_to_abort := True\<rparr>"
| "from_header (PARTICIPANTS_READ_ONLY, d) p = fold (add True) (items d) p"
| "from_header (OtherHeader _, d) p = p"

definition from_grpc_metadata :: "(header \<times> dset) list \<Rightarrow> participants" where
  "from_grpc_metadata metadata = fold from_header metadata participants_init"

definition to_sidecar :: "participants \<Rightarrow> dset \<times> dset" where
  "to_sidecar p = (nonempty (should_commit_of p), nonempty (read_only_of p))"

definition from_sidecar_participants :: "dset \<times> dset \<Rightarrow> participants" where
  "from_sidecar_participants = (\<lambda>(commit, ro). fold (add True) (items ro) (fold (add False) (items commit) participants_init))"

section \<open>Membership\<close>

definition dset_ok :: "dset \<Rightarrow> bool" where
  "dset_ok d \<longleftrightarrow> distinct (map fst d)"

definition members :: "dset \<Rightarrow> (pystr \<times> pystr) set" where
  "members d = {(t, r). r \<in> set (refs d t)}"

definition commits :: "participants \<Rightarrow> (pystr \<times> pystr) set" where
  "commits p = members (should_commit_of p)"

definition reads :: "participants \<Rightarrow> (pystr \<times> pystr) set" where
  "reads p = members (read_only_of p)"

text \<open>The invariant: keys occur once, and no participant is in both sets.\<close>

definition participants_ok :: "participants \<Rightarrow> bool" where
  "participants_ok p \<longleftrightarrow> dset_ok (should_commit_of p) \<and> dset_ok (read_only_of p) \<and> commits p \<inter> reads p = {}"

lemma set_add_set [simp]: "set (set_add r l) = insert r (set l)"
  by (auto simp: set_add_def)

lemma set_update_set [simp]: "set (set_update new l) = set new \<union> set l"
  unfolding set_update_def by (induction new arbitrary: l) auto

lemma dict_put_refs: "refs (dict_put t l d) t' = (if t' = t then l else refs d t')"
  by (induction d) (auto simp: refs_def)

lemma dict_put_keys: "fst ` set (dict_put t l d) = insert t (fst ` set d)"
proof (induction d)
  case (Cons a d)
  then show ?case by (cases a) (auto simp: insert_commute)
qed simp

lemma dict_put_ok: "dset_ok d \<Longrightarrow> dset_ok (dict_put t l d)"
  unfolding dset_ok_def
proof (induction d)
  case (Cons a d)
  then show ?case using dict_put_keys[of t l d] by (cases a) auto
qed simp

lemma members_dict_put: "members (dict_put t l d) = (members d - {t} \<times> UNIV) \<union> {t} \<times> set l"
  by (auto simp: members_def dict_put_refs split: if_splits)

lemma refs_absent: "t \<notin> fst ` set d \<Longrightarrow> refs d t = []"
  by (simp add: refs_def map_of_eq_None_iff[THEN iffD2])

lemma members_Cons: "t \<notin> fst ` set d \<Longrightarrow> members ((t, l) # d) = {t} \<times> set l \<union> members d"
proof -
  assume "t \<notin> fst ` set d"
  then have "refs d t = []" by (rule refs_absent)
  moreover have "refs ((t, l) # d) t' = (if t' = t then l else refs d t')" for t' by (simp add: refs_def)
  ultimately show ?thesis by (auto simp: members_def split: if_splits)
qed

lemma items_members: "dset_ok d \<Longrightarrow> set (items d) = members d"
proof (induction d)
  case Nil
  then show ?case by (simp add: items_def members_def refs_def)
next
  case (Cons a d)
  obtain t l where a: "a = (t, l)" by force
  have "t \<notin> fst ` set d" "dset_ok d" using Cons.prems a by (auto simp: dset_ok_def)
  moreover have "set (items (a # d)) = {t} \<times> set l \<union> set (items d)" by (auto simp: items_def a)
  ultimately show ?case using Cons.IH members_Cons a by simp
qed

lemma nonempty_members: "dset_ok d \<Longrightarrow> dset_ok (nonempty d) \<and> members (nonempty d) = members d"
proof (induction d)
  case (Cons a d)
  obtain t l where a: "a = (t, l)" by force
  have n: "t \<notin> fst ` set d" "dset_ok d" using Cons.prems a by (auto simp: dset_ok_def)
  have t: "t \<notin> fst ` set (nonempty d)" using n(1) by (auto simp: nonempty_def)
  have "nonempty (a # d) = (if l = [] then nonempty d else (t, l) # nonempty d)" by (simp add: nonempty_def a)
  moreover have "dset_ok ((t, l) # nonempty d)" using Cons.IH[OF n(2)] t by (simp add: dset_ok_def)
  ultimately show ?case using Cons.IH[OF n(2)] members_Cons[OF n(1)] members_Cons[OF t] a by auto
qed (simp add: nonempty_def)

section \<open>The operations on membership\<close>

lemma add_commit:
  assumes "participants_ok p"
  shows "participants_ok (add False x p)" "commits (add False x p) = insert x (commits p)"
    "reads (add False x p) = reads p - {x}" "saw_legacy_to_abort (add False x p) = saw_legacy_to_abort p"
proof -
  obtain t r where x: "x = (t, r)" by force
  show c: "commits (add False x p) = insert x (commits p)"
    by (auto simp: commits_def add_def x members_dict_put) (auto simp: members_def)
  show d: "reads (add False x p) = reads p - {x}"
    by (auto simp: reads_def add_def x members_dict_put) (auto simp: members_def refs_absent)
  show "saw_legacy_to_abort (add False x p) = saw_legacy_to_abort p" by (simp add: add_def x)
  show "participants_ok (add False x p)"
    using assms c d by (auto simp: participants_ok_def add_def x dict_put_ok)
qed

lemma add_read:
  assumes "participants_ok p"
  shows "participants_ok (add True x p)" "commits (add True x p) = commits p"
    "reads (add True x p) = (if x \<in> commits p then reads p else insert x (reads p))"
    "saw_legacy_to_abort (add True x p) = saw_legacy_to_abort p"
proof -
  obtain t r where x: "x = (t, r)" by force
  show c: "commits (add True x p) = commits p" by (simp add: commits_def add_def x)
  show d: "reads (add True x p) = (if x \<in> commits p then reads p else insert x (reads p))"
    by (auto simp: reads_def commits_def add_def x members_dict_put) (auto simp: members_def)
  show "saw_legacy_to_abort (add True x p) = saw_legacy_to_abort p" by (simp add: add_def x)
  have "dset_ok (should_commit_of (add True x p)) \<and> dset_ok (read_only_of (add True x p))"
    using assms by (auto simp: participants_ok_def add_def x dict_put_ok)
  then show "participants_ok (add True x p)"
    using assms c d by (auto simp: participants_ok_def)
qed

lemma fold_add_commit:
  assumes "participants_ok p"
  shows "participants_ok (fold (add False) xs p) \<and> commits (fold (add False) xs p) = set xs \<union> commits p \<and>
    reads (fold (add False) xs p) = reads p - set xs \<and>
    saw_legacy_to_abort (fold (add False) xs p) = saw_legacy_to_abort p"
  using assms
proof (induction xs arbitrary: p)
  case (Cons x xs)
  from Cons.IH[OF add_commit(1)[OF Cons.prems, of x]] add_commit(2-4)[OF Cons.prems, of x] show ?case by auto
qed simp

lemma fold_add_read:
  assumes "participants_ok p"
  shows "participants_ok (fold (add True) xs p) \<and> commits (fold (add True) xs p) = commits p \<and>
    reads (fold (add True) xs p) = reads p \<union> (set xs - commits p) \<and>
    saw_legacy_to_abort (fold (add True) xs p) = saw_legacy_to_abort p"
  using assms
proof (induction xs arbitrary: p)
  case (Cons x xs)
  from Cons.IH[OF add_read(1)[OF Cons.prems, of x]] add_read(2-4)[OF Cons.prems, of x] show ?case by auto
qed simp

lemma fold_dict_update:
  assumes "dset_ok d"
  shows "dset_ok (fold (\<lambda>(t, l) d. dict_put t (set_update l (refs d t)) d) xs d) \<and>
    members (fold (\<lambda>(t, l) d. dict_put t (set_update l (refs d t)) d) xs d) = members d \<union> set (items xs)"
  using assms
proof (induction xs arbitrary: d)
  case (Cons a xs)
  obtain t l where a: "a = (t, l)" by force
  have "members (dict_put t (set_update l (refs d t)) d) = members d \<union> {t} \<times> set l"
    by (auto simp: members_dict_put) (auto simp: members_def)
  with Cons.IH[OF dict_put_ok[OF Cons.prems, of t "set_update l (refs d t)"]] show ?case
    by (auto simp: a items_def)
qed (simp add: items_def)

lemma init_ok [simp]: "participants_ok participants_init" "commits participants_init = {}" "reads participants_init = {}"
  by (simp_all add: participants_ok_def participants_init_def commits_def reads_def members_def refs_def dset_ok_def)

lemma lists_of:
  assumes "participants_ok p"
  shows "set (should_commit p) = commits p" "set (read_only p) = reads p"
    "set (items (nonempty (should_commit_of p))) = commits p" "set (items (nonempty (read_only_of p))) = reads p"
  using assms items_members nonempty_members
  by (auto simp: participants_ok_def should_commit_def read_only_def commits_def reads_def)

lemma union_members:
  assumes "participants_ok p" "participants_ok q"
  shows "participants_ok (union q p)" "commits (union q p) = commits p \<union> commits q"
    "reads (union q p) = (reads p \<union> reads q) - (commits p \<union> commits q)"
proof -
  note c = fold_add_commit[OF assms(1), of "should_commit q"]
  note r = fold_add_read[OF c[THEN conjunct1], of "read_only q"]
  show "participants_ok (union q p)" "commits (union q p) = commits p \<union> commits q"
    using c r lists_of[OF assms(2)] by (auto simp: union_def)
  have "commits p \<inter> reads p = {}" using assms(1) by (simp add: participants_ok_def)
  then show "reads (union q p) = (reads p \<union> reads q) - (commits p \<union> commits q)"
    using c r lists_of[OF assms(2)] assms(2) by (auto simp: union_def participants_ok_def)
qed

lemma retain_members:
  assumes "participants_ok p"
  shows "participants_ok (retain_as_read_only p)" "commits (retain_as_read_only p) = {}"
    "reads (retain_as_read_only p) = reads p \<union> commits p"
proof -
  have d: "dset_ok (read_only_of p)" "dset_ok (should_commit_of p)" using assms by (auto simp: participants_ok_def)
  note f = fold_dict_update[OF d(1), of "should_commit_of p"]
  show e: "commits (retain_as_read_only p) = {}" by (simp add: retain_as_read_only_def commits_def members_def refs_def)
  show "reads (retain_as_read_only p) = reads p \<union> commits p"
    using f items_members[OF d(2)] by (auto simp: retain_as_read_only_def reads_def commits_def)
  show "participants_ok (retain_as_read_only p)"
    using f e by (simp add: participants_ok_def retain_as_read_only_def dset_ok_def)
qed

section \<open>Claims\<close>

lemma from_headers:
  assumes "participants_ok p"
  shows "participants_ok (fold from_header hs p) \<and>
    commits (fold from_header hs p) = commits p \<union> (\<Union>(h, d) \<in> set hs. if h = PARTICIPANTS then set (items d) else {}) \<and>
    reads (fold from_header hs p) = (reads p \<union> (\<Union>(h, d) \<in> set hs. if h = PARTICIPANTS_READ_ONLY then set (items d) else {})) -
      commits (fold from_header hs p) \<and>
    saw_legacy_to_abort (fold from_header hs p) = (saw_legacy_to_abort p \<or> PARTICIPANTS_TO_ABORT \<in> fst ` set hs)"
  using assms
proof (induction hs arbitrary: p)
  case Nil
  then show ?case by (auto simp: participants_ok_def)
next
  case (Cons a hs)
  obtain h d where a: "a = (h, d)" by force
  have ok: "participants_ok (from_header a p)" and
    "commits (from_header a p) = commits p \<union> (if h = PARTICIPANTS then set (items d) else {}) \<and>
     reads (from_header a p) = (if h = PARTICIPANTS then reads p - set (items d)
       else if h = PARTICIPANTS_READ_ONLY then reads p \<union> (set (items d) - commits p) else reads p) \<and>
     saw_legacy_to_abort (from_header a p) = (saw_legacy_to_abort p \<or> h = PARTICIPANTS_TO_ABORT)"
    using fold_add_commit[OF Cons.prems, of "items d"] fold_add_read[OF Cons.prems, of "items d"] Cons.prems
    by (cases h; auto simp: a participants_ok_def commits_def reads_def)+
  with Cons.IH[OF ok] show ?case by (auto simp: a split: if_splits)
qed

text \<open>
  What a call reports is what its caller learns: the participants decoded from the headers of a
  reply, in whatever order they arrive and among other headers, are classified as they were on the
  other side; the same holds for what the database keeps.  A peer that does not know about read-only
  participants is told to commit all of them.
\<close>

theorem participants_wire:
  assumes "participants_ok p" "mset hs = mset (to_grpc_metadata aware p @ map (\<lambda>(k, d). (OtherHeader k, d)) others)"
  shows "participants_ok (from_grpc_metadata hs) \<and>
    commits (from_grpc_metadata hs) = (if aware then commits p else commits p \<union> reads p) \<and>
    reads (from_grpc_metadata hs) = (if aware then reads p else {}) \<and>
    commits (from_sidecar_participants (to_sidecar p)) = commits p \<and>
    reads (from_sidecar_participants (to_sidecar p)) = reads p"
proof -
  have hs: "set hs = set (to_grpc_metadata aware p) \<union> (\<lambda>(k, d). (OtherHeader k, d)) ` set others"
    using arg_cong[OF assms(2), of set_mset] by (simp only: set_mset_mset set_append set_map)
  have ok: "dset_ok (should_commit_of p)" "dset_ok (read_only_of p)" "commits p \<inter> reads p = {}"
    using assms(1) by (auto simp: participants_ok_def)
  have "dset_ok []" by (simp add: dset_ok_def)
  from fold_dict_update[OF this, of "should_commit_of p @ read_only_of p"]
  have m: "set (items (nonempty (merge_dsets (should_commit_of p) (read_only_of p)))) = commits p \<union> reads p"
    using nonempty_members items_members ok(1,2)
    by (simp add: merge_dsets_def commits_def reads_def) (simp add: members_def refs_def items_def)
  have c: "commits (from_grpc_metadata hs) = (if aware then commits p else commits p \<union> reads p)"
    using from_headers[OF init_ok(1), of hs] lists_of[OF assms(1)] m
    by (auto simp: from_grpc_metadata_def hs to_grpc_metadata_def split: if_splits)
  moreover have "reads (from_grpc_metadata hs) = (if aware then reads p else {})"
    using from_headers[OF init_ok(1), of hs] lists_of[OF assms(1)] c ok(3)
    by (auto simp: from_grpc_metadata_def hs to_grpc_metadata_def split: if_splits)
  moreover have "participants_ok (from_grpc_metadata hs)"
    using from_headers[OF init_ok(1), of hs] by (simp add: from_grpc_metadata_def)
  moreover note c1 = fold_add_commit[OF init_ok(1), of "items (nonempty (should_commit_of p))"]
  note c2 = fold_add_read[OF c1[THEN conjunct1], of "items (nonempty (read_only_of p))"]
  have "commits (from_sidecar_participants (to_sidecar p)) = commits p"
    "reads (from_sidecar_participants (to_sidecar p)) = reads p"
    using c1 c2 lists_of[OF assms(1)] ok(3) by (auto simp: from_sidecar_participants_def to_sidecar_def)
  ultimately show ?thesis by blast
qed

definition participants1 :: participants where
  "participants1 = add True ([1], [3]) (add False ([1], [2]) participants_init)"

lemma participants1_ok: "participants_ok participants1"
  by (auto simp: participants1_def intro!: add_read(1) add_commit(1))

theorem participants_wire_witness:
  "commits (from_grpc_metadata ((OtherHeader [7], []) # rev (to_grpc_metadata True participants1))) = commits participants1"
  using participants_wire[OF participants1_ok, of "(OtherHeader [7], []) # rev (to_grpc_metadata True participants1)" True "[([7], [])]"]
  by simp

text \<open>
  Merging participants: the result of a merge classifies as to commit what either side has to
  commit, and as read-only what is only read on both, so that the order in which replies are merged,
  and merging one twice, make no difference; a participant's writes are never lost by a merge with a
  nested transaction that was demoted to read-only, and no participant is forgotten.
\<close>

theorem participants_merge:
  assumes "participants_ok p" "participants_ok q" "participants_ok r"
  shows "participants_ok (union q p) \<and>
    commits (union q p) = commits p \<union> commits q \<and> reads (union q p) = (reads p \<union> reads q) - (commits p \<union> commits q) \<and>
    commits (union r (union q p)) = commits (union q (union r p)) \<and> reads (union r (union q p)) = reads (union q (union r p)) \<and>
    commits (union (union r q) p) = commits (union r (union q p)) \<and> reads (union (union r q) p) = reads (union r (union q p)) \<and>
    commits (union q (union q p)) = commits (union q p) \<and> reads (union q (union q p)) = reads (union q p) \<and>
    commits (union (retain_as_read_only q) p) = commits p \<and>
    set (should_prepare False (union (retain_as_read_only q) p)) = set (should_prepare False p) \<union> set (should_prepare False q)"
proof -
  note qp = union_members[OF assms(1,2)] and rp = union_members[OF assms(1,3)] and rq = union_members[OF assms(2,3)]
    and rt = retain_members[OF assms(2)]
  have "reads (union r (union q p)) = reads (union q (union r p))" "commits (union r (union q p)) = commits (union q (union r p))"
    using union_members[OF qp(1) assms(3)] union_members[OF rp(1) assms(2)] qp rp by auto
  moreover have "reads (union (union r q) p) = reads (union r (union q p))" "commits (union (union r q) p) = commits (union r (union q p))"
    using union_members[OF assms(1) rq(1)] union_members[OF qp(1) assms(3)] qp rq by auto
  moreover have "reads (union q (union q p)) = reads (union q p)" "commits (union q (union q p)) = commits (union q p)"
    using union_members[OF qp(1) assms(2)] qp by auto
  moreover note u = union_members[OF assms(1) rt(1)]
  have "commits (union (retain_as_read_only q) p) = commits p" using u rt by simp
  moreover have "set (should_prepare False (union (retain_as_read_only q) p)) = set (should_prepare False p) \<union> set (should_prepare False q)"
    using lists_of[OF u(1)] lists_of[OF assms(1)] lists_of[OF assms(2)] u rt by (auto simp: should_prepare_def)
  ultimately show ?thesis using qp by blast
qed

theorem participants_merge_witness:
  "commits (union (retain_as_read_only participants1) participants1) = commits participants1"
  using participants_merge[OF participants1_ok participants1_ok participants1_ok] by blast

end
