(* ===== verification/Nested_Spec.thy ===== *)
theory Nested_Spec
  imports Nested_Txn "HOL-Library.Sublist"
begin

text \<open>
  The specification of nested transactions on one state, a savepoint per nested transaction, and the
  proof that \<open>StateManager.Transaction\<close> (theory \<open>Nested_Txn\<close>) implements it in every run.
\<close>

section \<open>Specification\<close>

record ('s, 'm, 'k) content =
  v_state :: "'s option"
  v_mutations :: "(uuid \<times> 'm) list"
  v_tasks :: "'k task list"
  v_mode :: mode

text \<open>
  \<open>saves a x\<close> is what the nested transaction \<open>x\<close> goes back to when it aborts: the content of the state
  and its owner just before the first call within \<open>x\<close> claimed it.
\<close>

record ('s, 'm, 'k) nest =
  n_owner :: "uuid list"
  n_now :: "('s, 'm, 'k) content"
  n_saves :: "uuid \<Rightarrow> (('s, 'm, 'k) content \<times> uuid list) option"

definition savepoint :: "('s, 'm, 'k) nest \<Rightarrow> ('s, 'm, 'k) content \<times> uuid list" where
  "savepoint a = ((n_now a)\<lparr>v_mode := if n_owner a = [] then SHARED else v_mode (n_now a)\<rparr>, n_owner a)"

definition nest_claim :: "uuid list \<Rightarrow> ('s, 'm, 'k) nest \<Rightarrow> ('s, 'm, 'k) nest" where
  "nest_claim tids a = a\<lparr>n_owner := tids,
     n_saves := (\<lambda>x. if x \<in> set (tl tids) \<and> x \<notin> set (n_owner a) then Some (savepoint a) else n_saves a x)\<rparr>"

definition keep_saves :: "uuid list \<Rightarrow> (uuid \<Rightarrow> 'v option) \<Rightarrow> uuid \<Rightarrow> 'v option" where
  "keep_saves owner f = (\<lambda>x. if x \<in> set (tl owner) then f x else None)"

definition nest_relinquish :: "uuid \<Rightarrow> bool \<Rightarrow> ('s, 'm, 'k) nest \<Rightarrow> ('s, 'm, 'k) nest" where
  "nest_relinquish x ab a =
     (if x \<notin> set (n_owner a) then a
      else if ab then
        (case n_saves a x of None \<Rightarrow> a
         | Some (v, ow) \<Rightarrow> a\<lparr>n_owner := ow, n_now := v, n_saves := keep_saves ow (n_saves a)\<rparr>)
      else let ow = takeWhile (\<lambda>y. y \<noteq> x) (n_owner a) in a\<lparr>n_owner := ow, n_saves := keep_saves ow (n_saves a)\<rparr>)"

section \<open>Runs\<close>

text \<open>
  The chains of transaction ids a transaction uses: each nested transaction has one path from the root
  (its context's ids are its parent's and its own).
\<close>

definition chains :: "uuid \<Rightarrow> uuid list set \<Rightarrow> bool" where
  "chains root C \<longleftrightarrow>
     (\<forall>c \<in> C. c \<noteq> [] \<and> hd c = root \<and> distinct c) \<and>
     (\<forall>c \<in> C. \<forall>n. 0 < n \<longrightarrow> take n c \<in> C) \<and>
     (\<forall>c \<in> C. \<forall>d \<in> C. \<forall>x \<in> set c \<inter> set d. takeWhile (\<lambda>y. y \<noteq> x) c = takeWhile (\<lambda>y. y \<noteq> x) d)"

text \<open>
  The state of a run: the participant and the nested transactions that have completed.  A completed one
  makes no further calls; a call that completes leaves its tasks and its idempotency key, which are
  new.
\<close>

record ('s, 'm, 'k) own_sys =
  part :: "('s, 'm, 'k) participant"
  completed :: "uuid set"

datatype ('s, 'm, 'k) own_event =
    Claim "uuid list"
  | Load nat 's
  | Complete "uuid list" "('s, 'k) effects" "uuid option" "(uuid \<times> 'm) option" nat
  | Upgrade
  | Relinquish uuid bool lock
  | CallBegin
  | CallEnd

definition fresh_effects :: "('s, 'k) effects \<Rightarrow> (uuid \<times> 'm) option \<Rightarrow> ('s, 'm, 'k) participant \<Rightarrow> bool" where
  "fresh_effects e mutation p \<longleftrightarrow>
     (\<forall>ts. e_tasks e = Some ts \<longrightarrow> task_uuid ` set ts \<inter> task_uuid ` set (tasks p) = {}) \<and>
     (\<forall>k m. mutation = Some (k, m) \<longrightarrow> k \<notin> fst ` set (idempotent_mutations p))"

inductive own_step :: "'s proto \<Rightarrow> uuid \<Rightarrow> uuid list set \<Rightarrow> ('s, 'm, 'k) own_sys \<Rightarrow> ('s, 'm, 'k) own_event \<Rightarrow>
    ('s, 'm, 'k) own_sys \<Rightarrow> bool"
  for P :: "'s proto" and root :: uuid and C :: "uuid list set" where
  own_claim: "tids \<in> C \<Longrightarrow> set tids \<inter> completed s = {} \<Longrightarrow> is_claimable_by tids (part s) \<Longrightarrow>
    own_step P root C s (Claim tids) (s\<lparr>part := claim_ownership P tids (part s)\<rparr>)"
| own_load: "own_step P root C s (Load a v) (s\<lparr>part := load_in_transaction a (Some v) (part s)\<rparr>)"
| own_complete: "fresh_effects e mu (part s) \<Longrightarrow> writer_complete tids e key mu copy (part s) = Inr p \<Longrightarrow>
    own_step P root C s (Complete tids e key mu copy) (s\<lparr>part := p\<rparr>)"
| own_upgrade: "own_step P root C s Upgrade (s\<lparr>part := (part s)\<lparr>t_mode := EXCLUSIVE\<rparr>\<rparr>)"
| own_relinquish: "x \<noteq> root \<Longrightarrow> relinquish_ownership P x ab l (part s) = Inr (p, l') \<Longrightarrow>
    own_step P root C s (Relinquish x ab l)
      \<lparr>part = p, completed = completed s \<union> (if x \<in> set (owner_ids (part s))
         then set (dropWhile (\<lambda>y. y \<noteq> x) (owner_ids (part s))) else {x})\<rparr>"
| own_call_begin: "own_step P root C s CallBegin (s\<lparr>part := (part s)\<lparr>call_count := call_count (part s) + 1\<rparr>\<rparr>)"
| own_call_end: "own_step P root C s CallEnd
    (s\<lparr>part := notify_ownership_changed ((part s)\<lparr>call_count := call_count (part s) - 1\<rparr>)\<rparr>)"

inductive_cases own_stepE: "own_step P root C s e t"

section \<open>Abstraction\<close>

definition content_of :: "('s, 'm, 'k) participant \<Rightarrow> ('s, 'm, 'k) content" where
  "content_of p = \<lparr>v_state = map_option snd (t_state p), v_mutations = idempotent_mutations p, v_tasks = tasks p,
     v_mode = t_mode p\<rparr>"

definition restored :: "'s proto \<Rightarrow> snapshot \<Rightarrow> ('s, 'm, 'k) participant \<Rightarrow> ('s, 'm, 'k) content \<times> uuid list" where
  "restored P sn p =
     (\<lparr>v_state = map_option (of_bytes P) (sn_state sn),
       v_mutations = filter (\<lambda>(k, _). k \<in> sn_mutation_keys sn) (idempotent_mutations p),
       v_tasks = filter (\<lambda>t. task_uuid t \<in> sn_task_uuids sn) (tasks p), v_mode = sn_mode sn\<rparr>, sn_owner_ids sn)"

definition first_with :: "uuid \<Rightarrow> snapshot list \<Rightarrow> snapshot option" where
  "first_with x sns = find (\<lambda>sn. x \<in> set (sn_ids sn)) sns"

definition nest_of :: "'s proto \<Rightarrow> ('s, 'm, 'k) participant \<Rightarrow> ('s, 'm, 'k) nest" where
  "nest_of P p = \<lparr>n_owner = owner_ids p, n_now = content_of p,
     n_saves = keep_saves (owner_ids p) (\<lambda>x. map_option (\<lambda>sn. restored P sn p) (first_with x (snapshots p)))\<rparr>"

lemma nest_of_fields [simp]:
  "n_owner (nest_of P p) = owner_ids p" "n_now (nest_of P p) = content_of p"
  by (simp_all add: nest_of_def)

section \<open>The invariant of the stack\<close>

definition covered :: "uuid list \<Rightarrow> snapshot list \<Rightarrow> bool" where
  "covered owner sns \<longleftrightarrow> (\<forall>y \<in> set (tl owner). \<exists>sn \<in> set sns. y \<in> set (sn_ids sn))"

text \<open>An older snapshot \<open>a\<close> below a newer one \<open>b\<close>.\<close>

definition below :: "uuid set \<Rightarrow> snapshot \<Rightarrow> snapshot \<Rightarrow> bool" where
  "below dn a b \<longleftrightarrow> set (sn_ids a) \<subseteq> set (sn_owner_ids b) \<union> dn \<and> sn_mutation_keys a \<subseteq> sn_mutation_keys b \<and>
     sn_task_uuids a \<subseteq> sn_task_uuids b \<and> (sn_state a \<noteq> None \<longrightarrow> sn_state b \<noteq> None)"

definition snapshot_ok :: "uuid list set \<Rightarrow> snapshot \<Rightarrow> bool" where
  "snapshot_ok C sn \<longleftrightarrow> sn_ids sn \<in> C \<and> strict_prefix (sn_owner_ids sn) (sn_ids sn)"

definition within :: "uuid set \<Rightarrow> ('s, 'm, 'k) participant \<Rightarrow> snapshot \<Rightarrow> bool" where
  "within dn p sn \<longleftrightarrow> set (sn_ids sn) \<subseteq> set (owner_ids p) \<union> dn \<and>
     sn_mutation_keys sn \<subseteq> fst ` set (idempotent_mutations p) \<and> sn_task_uuids sn \<subseteq> task_uuid ` set (tasks p) \<and>
     (sn_state sn \<noteq> None \<longrightarrow> t_state p \<noteq> None)"

definition own_inv :: "uuid list set \<Rightarrow> ('s, 'm, 'k) own_sys \<Rightarrow> bool" where
  "own_inv C s \<longleftrightarrow> (let p = part s; dn = completed s in
     (owner_ids p = [] \<or> owner_ids p \<in> C) \<and> set (owner_ids p) \<inter> dn = {} \<and>
     covered (owner_ids p) (snapshots p) \<and>
     (\<forall>i < length (snapshots p). covered (sn_owner_ids (snapshots p ! i)) (take i (snapshots p))) \<and>
     sorted_wrt (below dn) (snapshots p) \<and>
     (\<forall>sn \<in> set (snapshots p). snapshot_ok C sn \<and> within dn p sn))"

lemma own_invD:
  assumes "own_inv C s"
  shows "owner_ids (part s) = [] \<or> owner_ids (part s) \<in> C" "set (owner_ids (part s)) \<inter> completed s = {}"
    "covered (owner_ids (part s)) (snapshots (part s))"
    "i < length (snapshots (part s)) \<Longrightarrow> covered (sn_owner_ids (snapshots (part s) ! i)) (take i (snapshots (part s)))"
    "sorted_wrt (below (completed s)) (snapshots (part s))"
    "sn \<in> set (snapshots (part s)) \<Longrightarrow> snapshot_ok C sn \<and> within (completed s) (part s) sn"
  using assms by (auto simp: own_inv_def Let_def)

lemma own_invI:
  assumes "owner_ids (part s) = [] \<or> owner_ids (part s) \<in> C" "set (owner_ids (part s)) \<inter> completed s = {}"
    "covered (owner_ids (part s)) (snapshots (part s))"
    "\<And>i. i < length (snapshots (part s)) \<Longrightarrow> covered (sn_owner_ids (snapshots (part s) ! i)) (take i (snapshots (part s)))"
    "sorted_wrt (below (completed s)) (snapshots (part s))"
    "\<And>sn. sn \<in> set (snapshots (part s)) \<Longrightarrow> snapshot_ok C sn \<and> within (completed s) (part s) sn"
  shows "own_inv C s"
  using assms by (auto simp: own_inv_def Let_def)

section \<open>Chains\<close>

lemma chainsD:
  assumes "chains root C" "c \<in> C"
  shows "c \<noteq> []" "hd c = root" "distinct c" "0 < n \<Longrightarrow> take n c \<in> C"
    "d \<in> C \<Longrightarrow> x \<in> set c \<Longrightarrow> x \<in> set d \<Longrightarrow> takeWhile (\<lambda>y. y \<noteq> x) c = takeWhile (\<lambda>y. y \<noteq> x) d"
  using assms unfolding chains_def by blast+

lemma take_index: "take (index_of x xs) xs = takeWhile (\<lambda>y. y \<noteq> x) xs"
  by (simp add: index_of_def takeWhile_eq_take[symmetric])

lemma takeWhile_split: "x \<in> set xs \<Longrightarrow> xs = takeWhile (\<lambda>y. y \<noteq> x) xs @ x # tl (dropWhile (\<lambda>y. y \<noteq> x) xs)"
  by (induction xs) auto

lemma claimable_prefix: "is_claimable_by tids p \<longleftrightarrow> prefix (owner_ids p) tids"
proof
  assume "is_claimable_by tids p"
  then have "take (length (owner_ids p)) tids = owner_ids p" by (simp add: is_claimable_by_def)
  then show "prefix (owner_ids p) tids" using take_is_prefix[of "length (owner_ids p)" tids] by simp
qed (auto simp: is_claimable_by_def prefix_def)

lemma takeWhile_in_C:
  assumes "chains root C" "c \<in> C" "x \<noteq> root"
  shows "takeWhile (\<lambda>y. y \<noteq> x) c \<in> C"
proof -
  have "takeWhile (\<lambda>y. y \<noteq> x) c \<noteq> []" using chainsD(1,2)[OF assms(1,2)] assms(3) by (cases c) auto
  then have "0 < length (takeWhile (\<lambda>y. y \<noteq> x) c)" by simp
  from chainsD(4)[OF assms(1,2) this] show ?thesis by (simp add: takeWhile_eq_take[symmetric])
qed

lemma tl_member: "chains root C \<Longrightarrow> c \<in> C \<Longrightarrow> y \<in> set (tl c) \<longleftrightarrow> y \<in> set c \<and> y \<noteq> root"
  using chainsD(1-3)[of root C c] by (cases c) auto

section \<open>Finding a snapshot\<close>

lemma first_with_append:
  "first_with x (a @ b) = (case first_with x a of None \<Rightarrow> first_with x b | Some sn \<Rightarrow> Some sn)"
  by (induction a) (auto simp: first_with_def)

lemma first_with_None: "first_with x sns = None \<longleftrightarrow> (\<forall>sn \<in> set sns. x \<notin> set (sn_ids sn))"
  by (auto simp: first_with_def find_None_iff)

lemma first_with_split:
  assumes "first_with x sns = Some sn"
  obtains pre post where "sns = pre @ sn # post" "\<forall>o' \<in> set pre. x \<notin> set (sn_ids o')" "x \<in> set (sn_ids sn)"
  using assms
proof (induction sns arbitrary: thesis)
  case Nil
  then show ?case by (simp add: first_with_def)
next
  case (Cons a sns)
  show ?case
  proof (cases "x \<in> set (sn_ids a)")
    case True
    with Cons.prems Cons.prems(1)[of "[]" sns] show ?thesis by (simp add: first_with_def)
  next
    case False
    with Cons.prems(2) have "first_with x sns = Some sn" by (simp add: first_with_def)
    from Cons.IH[OF _ this] obtain pre post where
      "sns = pre @ sn # post" "\<forall>o' \<in> set pre. x \<notin> set (sn_ids o')" "x \<in> set (sn_ids sn)" by blast
    with False Cons.prems(1)[of "a # pre" post] show ?thesis by simp
  qed
qed

text \<open>Whether the snapshot is popped.\<close>

definition pops :: "uuid \<Rightarrow> bool \<Rightarrow> snapshot list \<Rightarrow> snapshot \<Rightarrow> bool" where
  "pops x ab older sn \<longleftrightarrow> ab \<or> index_of x (sn_ids sn) = 1 \<or>
     (\<exists>o' \<in> set older. (if index_of x (sn_ids sn) = 0 then last (sn_ids sn) else sn_ids sn ! (index_of x (sn_ids sn) - 1)) \<in> set (sn_ids o'))"

lemma pop_snapshot_loop_eq:
  assumes "\<forall>o' \<in> set pre. x \<notin> set (sn_ids o')" "x \<in> set (sn_ids sn)"
  shows "pop_snapshot_loop x ab older (pre @ sn # post) =
    Some (sn, if pops x ab (older @ pre) sn then older @ pre else older @ pre @ sn # post)"
  using assms
proof (induction pre arbitrary: older)
  case Nil
  then show ?case by (simp add: pops_def Let_def list_ex_iff)
qed simp

section \<open>Claims keep the invariant and refine\<close>

lemma claim_cases:
  assumes "chains root C" "tids \<in> C" "is_claimable_by tids p" "owner_ids p \<noteq> tids"
  obtains (first) "tids = [root]" "owner_ids p = []" "claim_ownership P tids p = notify_ownership_changed (p\<lparr>owner_ids := tids\<rparr>)"
  | (push) "strict_prefix (owner_ids p) tids"
      "claim_ownership P tids p = notify_ownership_changed ((push_snapshot P tids p)\<lparr>owner_ids := tids\<rparr>)"
proof -
  have sp: "strict_prefix (owner_ids p) tids" using assms(3,4) by (simp add: claimable_prefix strict_prefix_def)
  show ?thesis
  proof (cases "length tids > 1")
    case True
    then show ?thesis using sp assms(4) by (intro push) (simp_all add: claim_ownership_def)
  next
    case False
    then have "length tids = 1" using chainsD(1)[OF assms(1,2)] by (cases tids) auto
    then obtain y where "tids = [y]" by (auto simp: length_Suc_conv)
    moreover then have "y = root" using chainsD(2)[OF assms(1,2)] by simp
    ultimately show ?thesis using sp assms(4) False
      by (intro first) (auto simp: claim_ownership_def strict_prefix_def prefix_Cons)
  qed
qed

lemma push_snapshot_fields [simp]:
  "owner_ids (push_snapshot P tids p) = owner_ids p" "t_state (push_snapshot P tids p) = t_state p"
  "idempotent_mutations (push_snapshot P tids p) = idempotent_mutations p" "tasks (push_snapshot P tids p) = tasks p"
  "t_mode (push_snapshot P tids p) = t_mode p"
  by (simp_all add: push_snapshot_def Let_def)

lemma notify_fields [simp]:
  "owner_ids (notify_ownership_changed p) = owner_ids p" "t_state (notify_ownership_changed p) = t_state p"
  "idempotent_mutations (notify_ownership_changed p) = idempotent_mutations p"
  "tasks (notify_ownership_changed p) = tasks p" "t_mode (notify_ownership_changed p) = t_mode p"
  "snapshots (notify_ownership_changed p) = snapshots p" "oid (notify_ownership_changed p) = oid p"
  by (simp_all add: notify_ownership_changed_def)

definition new_snapshot :: "'s proto \<Rightarrow> uuid list \<Rightarrow> ('s, 'm, 'k) participant \<Rightarrow> snapshot" where
  "new_snapshot P tids p = last (snapshots (push_snapshot P tids p))"

lemma new_snapshot_fields:
  "snapshots (push_snapshot P tids p) = snapshots p @ [new_snapshot P tids p]"
  "sn_ids (new_snapshot P tids p) = tids" "sn_owner_ids (new_snapshot P tids p) = owner_ids p"
  "sn_mode (new_snapshot P tids p) = (if owner_ids p = [] then SHARED else t_mode p)"
  "sn_state (new_snapshot P tids p) = map_option (\<lambda>(_, s). to_bytes P s) (t_state p)"
  "sn_mutation_keys (new_snapshot P tids p) = fst ` set (idempotent_mutations p)"
  "sn_task_uuids (new_snapshot P tids p) = task_uuid ` set (tasks p)"
  by (simp_all add: new_snapshot_def push_snapshot_def Let_def)

lemma claim_inv:
  assumes ch: "chains root C" and inv: "own_inv C s" and t: "tids \<in> C" "set tids \<inter> completed s = {}"
    and c: "is_claimable_by tids (part s)"
  shows "own_inv C (s\<lparr>part := claim_ownership P tids (part s)\<rparr>)"
proof (cases "owner_ids (part s) = tids")
  case True
  then show ?thesis using inv by (simp add: claim_ownership_def)
next
  case False
  note i = own_invD[OF inv] and n = new_snapshot_fields[of P tids "part s"]
  show ?thesis
  proof (cases rule: claim_cases[OF ch t(1) c False, of P, case_names first push])
    case first
    show ?thesis
    proof (rule own_invI)
      show "snapshot_ok C sn \<and> within (completed (s\<lparr>part := claim_ownership P tids (part s)\<rparr>))
          (part (s\<lparr>part := claim_ownership P tids (part s)\<rparr>)) sn"
        if "sn \<in> set (snapshots (part (s\<lparr>part := claim_ownership P tids (part s)\<rparr>)))" for sn
        using that i(6)[of sn] first by (auto simp: within_def)
    qed (use first t i in \<open>auto simp: covered_def\<close>)
  next
    case push
    have sub: "set (owner_ids (part s)) \<subseteq> set tids" using push(1) by (auto simp: strict_prefix_def prefix_def)
    show ?thesis
    proof (rule own_invI)
      show "covered (sn_owner_ids (snapshots (part (s\<lparr>part := claim_ownership P tids (part s)\<rparr>)) ! j))
          (take j (snapshots (part (s\<lparr>part := claim_ownership P tids (part s)\<rparr>))))"
        if "j < length (snapshots (part (s\<lparr>part := claim_ownership P tids (part s)\<rparr>)))" for j
        using that i(3,4) push n by (cases "j = length (snapshots (part s))") (auto simp: nth_append)
      have "below (completed s) sn (new_snapshot P tids (part s))" if "sn \<in> set (snapshots (part s))" for sn
        using i(6)[OF that] by (auto simp: within_def below_def n)
      then show "sorted_wrt (below (completed (s\<lparr>part := claim_ownership P tids (part s)\<rparr>)))
          (snapshots (part (s\<lparr>part := claim_ownership P tids (part s)\<rparr>)))"
        using i(5) push n by (simp add: sorted_wrt_append)
      show "snapshot_ok C sn \<and> within (completed (s\<lparr>part := claim_ownership P tids (part s)\<rparr>))
          (part (s\<lparr>part := claim_ownership P tids (part s)\<rparr>)) sn"
        if "sn \<in> set (snapshots (part (s\<lparr>part := claim_ownership P tids (part s)\<rparr>)))" for sn
      proof (cases "sn = new_snapshot P tids (part s)")
        case True
        then show ?thesis using push t n by (auto simp: snapshot_ok_def within_def)
      next
        case False
        then have "sn \<in> set (snapshots (part s))" using that push n by auto
        with i(6)[OF this] sub push show ?thesis by (auto simp: within_def)
      qed
      show "covered (owner_ids (part (s\<lparr>part := claim_ownership P tids (part s)\<rparr>)))
          (snapshots (part (s\<lparr>part := claim_ownership P tids (part s)\<rparr>)))"
        using push n list.set_sel(2)[of tids] chainsD(1)[OF ch t(1)] by (auto simp: covered_def)
    qed (use push t in auto)
  qed
qed

lemma restored_cong:
  "idempotent_mutations q = idempotent_mutations p \<Longrightarrow> tasks q = tasks p \<Longrightarrow> restored P sn q = restored P sn p"
  by (simp add: restored_def)

lemma first_with_covered:
  assumes "covered owner sns" "x \<in> set (tl owner)"
  obtains sn where "first_with x sns = Some sn"
  using assms first_with_None[of x sns] by (cases "first_with x sns") (auto simp: covered_def)

lemma claim_refines:
  assumes ch: "chains root C" and inv: "own_inv C s" and t: "tids \<in> C" "set tids \<inter> completed s = {}"
    and c: "is_claimable_by tids (part s)" and rt: "\<forall>v. of_bytes P (to_bytes P v) = v"
  shows "nest_of P (claim_ownership P tids (part s)) = nest_claim tids (nest_of P (part s))"
proof (cases "owner_ids (part s) = tids")
  case True
  have "set (tl tids) \<subseteq> set tids" by (cases tids) auto
  then show ?thesis using True by (auto simp: claim_ownership_def nest_of_def nest_claim_def keep_saves_def fun_eq_iff)
next
  case False
  let ?p = "part s" let ?q = "claim_ownership P tids ?p"
  note i = own_invD[OF inv] and n = new_snapshot_fields[of P tids ?p]
  have same: "idempotent_mutations ?q = idempotent_mutations ?p" "tasks ?q = tasks ?p" "t_state ?q = t_state ?p"
    "t_mode ?q = t_mode ?p" "owner_ids ?q = tids"
    by (simp_all add: claim_ownership_def Let_def)
  have tl_owner: "y \<in> set (tl (owner_ids ?p)) \<longleftrightarrow> y \<in> set (owner_ids ?p) \<and> y \<noteq> root" for y
    using i(1) tl_member[OF ch] by auto
  have sub: "set (owner_ids ?p) \<subseteq> set tids" using c by (auto simp: claimable_prefix prefix_def)
  have "keep_saves tids (\<lambda>x. map_option (\<lambda>sn. restored P sn ?q) (first_with x (snapshots ?q))) x =
      n_saves (nest_claim tids (nest_of P ?p)) x" for x
  proof (cases "x \<in> set (tl tids)")
    case False
    then have "x \<notin> set (tl (owner_ids ?p))" using sub tl_owner tl_member[OF ch t(1)] by auto
    with False show ?thesis by (simp add: keep_saves_def nest_claim_def nest_of_def)
  next
    case True
    show ?thesis
    proof (cases "x \<in> set (owner_ids ?p)")
      case o: True
      then have "x \<in> set (tl (owner_ids ?p))" using True tl_owner tl_member[OF ch t(1)] by auto
      then obtain sn where sn: "first_with x (snapshots ?p) = Some sn" using first_with_covered[OF i(3)] by blast
      have "first_with x (snapshots ?q) = Some sn"
        using claim_cases[OF ch t(1) c False, of P] sn n(1) by cases (auto simp: first_with_append)
      with True o sn \<open>x \<in> set (tl (owner_ids ?p))\<close> show ?thesis
        by (simp add: keep_saves_def nest_claim_def nest_of_def restored_cong[OF same(1,2)])
    next
      case o: False
      have "x \<notin> completed s" using True t(2) list.set_sel(2)[of tids x] by (cases tids) auto
      then have none: "first_with x (snapshots ?p) = None"
        using o i(6) by (force simp: first_with_None within_def)
      have tl: "tl tids \<noteq> []" using True by auto
      have "first_with x (snapshots ?q) = Some (new_snapshot P tids ?p)"
      proof (cases rule: claim_cases[OF ch t(1) c False, of P, case_names first push])
        case push
        have "x \<in> set tids" using True by (cases tids) auto
        then show ?thesis using push none n(1,2) by (simp add: first_with_append) (simp add: first_with_def)
      qed (use tl in simp)
      moreover have "filter (\<lambda>(k, _). k \<in> fst ` set xs) xs = xs" for xs :: "(uuid \<times> 'b) list"
        by (auto simp: filter_id_conv rev_image_eqI)
      moreover have "map_option (of_bytes P) (map_option (\<lambda>(_, s). to_bytes P s) st) = map_option snd st" for st :: "(nat \<times> 'a) option"
        using rt by (cases st) auto
      ultimately show ?thesis using True o
        by (simp add: keep_saves_def nest_claim_def nest_of_def restored_cong[OF same(1,2)])
          (simp add: restored_def n savepoint_def content_of_def filter_id_conv)
    qed
  qed
  then show ?thesis by (simp add: nest_of_def nest_claim_def content_of_def same fun_eq_iff)
qed

section \<open>Relinquishing keeps the invariant and refines\<close>

lemma prefix_before:
  assumes "prefix ow xs" "x \<notin> set ow"
  shows "prefix ow (takeWhile (\<lambda>y. y \<noteq> x) xs)"
proof -
  obtain zs where "xs = ow @ zs" using assms(1) by (auto simp: prefix_def)
  moreover have "\<forall>y \<in> set ow. y \<noteq> x" using assms(2) by auto
  ultimately show ?thesis by (simp add: takeWhile_append2)
qed

lemma first_snapshot:
  assumes ch: "chains root C" and inv: "own_inv C s" and x: "x \<in> set (owner_ids (part s))" "x \<noteq> root"
  obtains pre sn post where "snapshots (part s) = pre @ sn # post" "\<forall>o' \<in> set pre. x \<notin> set (sn_ids o')"
    "x \<in> set (sn_ids sn)" "first_with x (snapshots (part s)) = Some sn" "covered (sn_owner_ids sn) pre"
    "takeWhile (\<lambda>y. y \<noteq> x) (sn_ids sn) = takeWhile (\<lambda>y. y \<noteq> x) (owner_ids (part s))"
    "prefix (sn_owner_ids sn) (takeWhile (\<lambda>y. y \<noteq> x) (owner_ids (part s)))"
    "sn_owner_ids sn = [] \<or> sn_owner_ids sn \<in> C"
proof -
  let ?p = "part s"
  note i = own_invD[OF inv]
  have oC: "owner_ids ?p \<in> C" using i(1) x by auto
  have "x \<in> set (tl (owner_ids ?p))" using tl_member[OF ch oC] x by simp
  then obtain sn where f: "first_with x (snapshots ?p) = Some sn" using first_with_covered[OF i(3)] by blast
  from first_with_split[OF f] obtain pre post where
    s: "snapshots ?p = pre @ sn # post" "\<forall>o' \<in> set pre. x \<notin> set (sn_ids o')" "x \<in> set (sn_ids sn)" by blast
  have ok: "sn_ids sn \<in> C" "strict_prefix (sn_owner_ids sn) (sn_ids sn)" using i(6)[of sn] s(1) by (auto simp: snapshot_ok_def)
  have cov: "covered (sn_owner_ids sn) pre" using i(4)[of "length pre"] s(1) by simp
  have pf: "prefix (sn_owner_ids sn) (sn_ids sn)" using ok(2) by (simp add: strict_prefix_def)
  have oc: "sn_owner_ids sn = [] \<or> sn_owner_ids sn \<in> C"
  proof (cases "sn_owner_ids sn = []")
    case False
    have "take (length (sn_owner_ids sn)) (sn_ids sn) = sn_owner_ids sn" using pf by (auto simp: prefix_def)
    with False chainsD(4)[OF ch ok(1), of "length (sn_owner_ids sn)"] show ?thesis by simp
  qed simp
  have xo: "x \<notin> set (sn_owner_ids sn)"
  proof
    assume a: "x \<in> set (sn_owner_ids sn)"
    then have "sn_owner_ids sn \<in> C" using oc by auto
    from tl_member[OF ch this, of x] a x(2) cov s(2) show False by (auto simp: covered_def)
  qed
  have eq: "takeWhile (\<lambda>y. y \<noteq> x) (sn_ids sn) = takeWhile (\<lambda>y. y \<noteq> x) (owner_ids ?p)"
    by (rule chainsD(5)[OF ch ok(1) oC s(3) x(1)])
  show ?thesis by (rule that[OF s f cov eq _ oc]) (use prefix_before[OF pf xo] eq in simp)
qed

lemma sorted_below_mono: "sorted_wrt (below dn) sns \<Longrightarrow> dn \<subseteq> dn' \<Longrightarrow> sorted_wrt (below dn') sns"
  by (rule sorted_wrt_mono_rel[of _ "below dn"]) (auto simp: below_def)

text \<open>What an abort and a commit leave of the stack and the owner.\<close>

lemma relinquish_abort:
  assumes ch: "chains root C" and inv: "own_inv C s" and x: "x \<in> set (owner_ids (part s))" "x \<noteq> root"
    and r: "relinquish_ownership P x True l (part s) = Inr (q, l')"
  obtains pre sn post where "snapshots (part s) = pre @ sn # post" "first_with x (snapshots (part s)) = Some sn"
    "snapshots q = pre" "owner_ids q = sn_owner_ids sn" "content_of q = fst (restored P sn (part s))"
    "covered (sn_owner_ids sn) pre" "prefix (sn_owner_ids sn) (takeWhile (\<lambda>y. y \<noteq> x) (owner_ids (part s)))"
    "sn_owner_ids sn = [] \<or> sn_owner_ids sn \<in> C" "t_state q = None \<longleftrightarrow> sn_state sn = None"
proof -
  obtain pre sn post where s: "snapshots (part s) = pre @ sn # post"
    "\<forall>o' \<in> set pre. x \<notin> set (sn_ids o')" "x \<in> set (sn_ids sn)" "first_with x (snapshots (part s)) = Some sn"
    "covered (sn_owner_ids sn) pre"
    "takeWhile (\<lambda>y. y \<noteq> x) (sn_ids sn) = takeWhile (\<lambda>y. y \<noteq> x) (owner_ids (part s))"
    "prefix (sn_owner_ids sn) (takeWhile (\<lambda>y. y \<noteq> x) (owner_ids (part s)))"
    "sn_owner_ids sn = [] \<or> sn_owner_ids sn \<in> C" by (rule first_snapshot[OF ch inv x])
  have "pop_snapshot_loop x True [] (snapshots (part s)) = Some (sn, pre)"
    using pop_snapshot_loop_eq[OF s(2,3), of True "[]" post] s(1) by (simp add: pops_def)
  then have "maybe_pop_snapshot x True (part s) = (Some sn, (part s)\<lparr>snapshots := pre\<rparr>)" by (simp add: maybe_pop_snapshot_def)
  with r x(1) obtain p2 where p2: "rollback P sn l ((part s)\<lparr>snapshots := pre\<rparr>) = Inr (p2, l')" "q = notify_ownership_changed p2"
    by (auto simp: relinquish_ownership_def rbind_eq_Inr_iff split: if_splits)
  have f: "snapshots p2 = pre" "owner_ids p2 = sn_owner_ids sn" "content_of p2 = fst (restored P sn (part s))"
    "t_state p2 = None \<longleftrightarrow> sn_state sn = None"
    using p2(1) by (auto simp: rollback_def rbind_eq_Inr_iff Let_def content_of_def restored_def
        split: option.splits if_splits sum.splits)
  show ?thesis
    by (rule that[of pre sn post]) (use s f p2(2) in \<open>auto simp: content_of_def\<close>)
qed

lemma relinquish_commit:
  assumes ch: "chains root C" and inv: "own_inv C s" and x: "x \<in> set (owner_ids (part s))" "x \<noteq> root"
    and r: "relinquish_ownership P x False l (part s) = Inr (q, l')"
  shows "owner_ids q = takeWhile (\<lambda>y. y \<noteq> x) (owner_ids (part s))" "content_of q = content_of (part s)"
    "t_state q = t_state (part s)" "covered (owner_ids q) (snapshots q)" "prefix (snapshots q) (snapshots (part s))"
proof -
  let ?p = "part s"
  obtain pre sn post where s: "snapshots (part s) = pre @ sn # post"
    "\<forall>o' \<in> set pre. x \<notin> set (sn_ids o')" "x \<in> set (sn_ids sn)" "first_with x (snapshots (part s)) = Some sn"
    "covered (sn_owner_ids sn) pre"
    "takeWhile (\<lambda>y. y \<noteq> x) (sn_ids sn) = takeWhile (\<lambda>y. y \<noteq> x) (owner_ids (part s))"
    "prefix (sn_owner_ids sn) (takeWhile (\<lambda>y. y \<noteq> x) (owner_ids (part s)))"
    "sn_owner_ids sn = [] \<or> sn_owner_ids sn \<in> C" by (rule first_snapshot[OF ch inv x])
  have oC: "owner_ids ?p \<in> C" using own_invD(1)[OF inv] x by auto
  let ?ow = "takeWhile (\<lambda>y. y \<noteq> x) (owner_ids ?p)" let ?sns = "if pops x False pre sn then pre else pre @ sn # post"
  have "pop_snapshot_loop x False [] (snapshots ?p) = Some (sn, ?sns)"
    using pop_snapshot_loop_eq[OF s(2,3), of False "[]" post] s(1) by simp
  then have "maybe_pop_snapshot x False ?p = (Some sn, ?p\<lparr>snapshots := ?sns\<rparr>)" by (simp add: maybe_pop_snapshot_def)
  with r x(1) obtain p2 where p2: "notify_streaming_readers x sn (?p\<lparr>snapshots := ?sns, owner_ids := ?ow\<rparr>) = Inr p2"
    "q = notify_ownership_changed p2"
    by (auto simp: relinquish_ownership_def rbind_eq_Inr_iff take_index split: if_splits)
  have f: "owner_ids p2 = ?ow" "content_of p2 = content_of ?p" "t_state p2 = t_state ?p" "snapshots p2 = ?sns"
    using p2(1) by (auto simp: notify_streaming_readers_def Let_def content_of_def split: option.splits if_splits)
  show "owner_ids q = ?ow" "t_state q = t_state ?p" using f(1,3) p2(2) by simp_all
  show "content_of q = content_of ?p" using f(2) p2(2) by (simp add: content_of_def)
  show "prefix (snapshots q) (snapshots ?p)" using f(4) p2(2) s(1) by simp
  have owC: "?ow \<in> C" by (rule takeWhile_in_C[OF ch oC x(2)])
  have "covered ?ow ?sns"
  proof (cases "pops x False pre sn")
    case False
    have "y \<in> set (tl (owner_ids ?p))" if "y \<in> set (tl ?ow)" for y
      using that tl_member[OF ch owC, of y] tl_member[OF ch oC, of y] set_takeWhileD[of y "\<lambda>y. y \<noteq> x" "owner_ids ?p"] by simp
    then show ?thesis using False own_invD(3)[OF inv] s(1) by (auto simp: covered_def)
  next
    case True
    have idx: "index_of x (sn_ids sn) = length ?ow" by (simp add: index_of_def s(6))
    have ne: "?ow \<noteq> []" by (rule chainsD(1)[OF ch owC])
    have "length ?ow = 1 \<or> (\<exists>o' \<in> set pre. last ?ow \<in> set (sn_ids o'))"
    proof -
      have "sn_ids sn = ?ow @ x # tl (dropWhile (\<lambda>y. y \<noteq> x) (sn_ids sn))" using takeWhile_split[OF s(3)] s(6) by simp
      then have "sn_ids sn ! (length ?ow - 1) = last ?ow" using ne by (metis last_conv_nth length_greater_0_conv nth_append diff_less zero_less_one)
      with True idx ne show ?thesis by (auto simp: pops_def)
    qed
    then show ?thesis
    proof
      assume "length ?ow = 1"
      then have "tl ?ow = []" by (cases ?ow) auto
      then show ?thesis by (simp add: covered_def)
    next
      assume "\<exists>o' \<in> set pre. last ?ow \<in> set (sn_ids o')"
      then obtain o' where o': "o' \<in> set pre" "last ?ow \<in> set (sn_ids o')" by blast
      have "sn_ids o' \<in> C" using own_invD(6)[OF inv, of o'] o'(1) s(1) by (simp add: snapshot_ok_def)
      from chainsD(5)[OF ch owC this last_in_set[OF ne] o'(2)]
      have "takeWhile (\<lambda>y. y \<noteq> last ?ow) ?ow = takeWhile (\<lambda>y. y \<noteq> last ?ow) (sn_ids o')" .
      then have "set (butlast ?ow) \<subseteq> set (sn_ids o')"
        unfolding takeWhile_not_last[OF chainsD(3)[OF ch owC]] by (auto dest: set_takeWhileD)
      moreover have e: "set ?ow = insert (last ?ow) (set (butlast ?ow))"
        using arg_cong[OF append_butlast_last_id[OF ne], of set] by (simp only: set_append list.set) blast
      ultimately have "set ?ow \<subseteq> set (sn_ids o')" using o'(2) unfolding e by simp
      then show ?thesis using True o'(1) list.set_sel(2)[OF ne] by (auto simp: covered_def)
    qed
  qed
  then show "covered (owner_ids q) (snapshots q)" using f p2(2) by simp
qed

lemma kept_keys:
  "fst ` set (filter (\<lambda>(k, _). k \<in> K) L) = fst ` set L \<inter> K"
  "task_uuid ` set (filter (\<lambda>t. task_uuid t \<in> U) ts) = task_uuid ` set ts \<inter> U"
  by (auto simp: rev_image_eqI)

lemma relinquish_inv:
  assumes ch: "chains root C" and inv: "own_inv C s" and x: "x \<in> set (owner_ids (part s))" "x \<noteq> root"
    and r: "relinquish_ownership P x ab l (part s) = Inr (q, l')"
  shows "own_inv C \<lparr>part = q, completed = completed s \<union> set (dropWhile (\<lambda>y. y \<noteq> x) (owner_ids (part s)))\<rparr>"
proof -
  let ?p = "part s" let ?dn = "completed s \<union> set (dropWhile (\<lambda>y. y \<noteq> x) (owner_ids ?p))"
  let ?ow = "takeWhile (\<lambda>y. y \<noteq> x) (owner_ids ?p)"
  note i = own_invD[OF inv]
  have oC: "owner_ids ?p \<in> C" using i(1) x by auto
  have parts: "set (owner_ids ?p) = set ?ow \<union> set (dropWhile (\<lambda>y. y \<noteq> x) (owner_ids ?p))"
    "set ?ow \<inter> set (dropWhile (\<lambda>y. y \<noteq> x) (owner_ids ?p)) = {}"
  proof -
    have "distinct (?ow @ dropWhile (\<lambda>y. y \<noteq> x) (owner_ids ?p))" using chainsD(3)[OF ch oC] by simp
    then show "set ?ow \<inter> set (dropWhile (\<lambda>y. y \<noteq> x) (owner_ids ?p)) = {}" unfolding distinct_append by blast
    show "set (owner_ids ?p) = set ?ow \<union> set (dropWhile (\<lambda>y. y \<noteq> x) (owner_ids ?p))"
      by (metis set_append takeWhile_dropWhile_id)
  qed
  show ?thesis
  proof (cases ab)
    case False
    have r': "relinquish_ownership P x False l ?p = Inr (q, l')" using r False by simp
    note c = relinquish_commit[OF ch inv x r']
    obtain post where post: "snapshots ?p = snapshots q @ post" using c(5) by (auto simp: prefix_def)
    show ?thesis
    proof (rule own_invI, goal_cases)
      case 1
      show ?case using takeWhile_in_C[OF ch oC x(2)] c(1) by simp
    next
      case 2
      show ?case using parts i(2) c(1) by auto
    next
      case 3
      show ?case using c(4) by simp
    next
      case (4 j)
      then show ?case using i(4)[of j] post by (simp add: nth_append)
    next
      case 5
      show ?case using sorted_below_mono[of "completed s" "snapshots q" ?dn] i(5) post by (simp add: sorted_wrt_append)
    next
      case (6 sn)
      then have "sn \<in> set (snapshots ?p)" using post by simp
      moreover have "idempotent_mutations q = idempotent_mutations ?p" "tasks q = tasks ?p" using c(2) by (simp_all add: content_of_def)
      ultimately show ?case using i(6)[of sn] parts(1) c(1,3) by (auto simp: within_def)
    qed
  next
    case True
    have r': "relinquish_ownership P x True l ?p = Inr (q, l')" using r True by simp
    obtain pre sn post where a: "snapshots ?p = pre @ sn # post" "first_with x (snapshots ?p) = Some sn"
      "snapshots q = pre" "owner_ids q = sn_owner_ids sn" "content_of q = fst (restored P sn ?p)"
      "covered (sn_owner_ids sn) pre" "prefix (sn_owner_ids sn) ?ow"
      "sn_owner_ids sn = [] \<or> sn_owner_ids sn \<in> C" "t_state q = None \<longleftrightarrow> sn_state sn = None"
      by (rule relinquish_abort[OF ch inv x r'])
    have sub: "set (sn_owner_ids sn) \<subseteq> set ?ow" using a(7) by (auto simp: prefix_def)
    have m: "idempotent_mutations q = filter (\<lambda>(k, _). k \<in> sn_mutation_keys sn) (idempotent_mutations ?p)"
      "tasks q = filter (\<lambda>t. task_uuid t \<in> sn_task_uuids sn) (tasks ?p)" using a(5) by (simp_all add: content_of_def restored_def)
    show ?thesis
    proof (rule own_invI, goal_cases)
      case 2
      show ?case using parts i(2) sub a(4) by auto
    next
      case (4 j)
      then show ?case using i(4)[of j] a(1,3) by (simp add: nth_append)
    next
      case 5
      show ?case using sorted_below_mono[of "completed s" pre ?dn] i(5) a(1,3) by (simp add: sorted_wrt_append)
    next
      case (6 o')
      then have o': "o' \<in> set pre" using a(3) by simp
      then have b: "below (completed s) o' sn" "snapshot_ok C o' \<and> within (completed s) ?p o'"
        using i(5) i(6)[of o'] a(1) by (auto simp: sorted_wrt_append)
      have "sn_mutation_keys o' \<subseteq> fst ` set (idempotent_mutations q)" "sn_task_uuids o' \<subseteq> task_uuid ` set (tasks q)"
        unfolding m kept_keys using b by (simp_all add: below_def within_def)
      then show ?case using b a(4,9) by (auto simp: within_def below_def)
    qed (use a in simp_all)
  qed
qed

lemma relinquish_refines:
  assumes ch: "chains root C" and inv: "own_inv C s" and x: "x \<in> set (owner_ids (part s))" "x \<noteq> root"
    and r: "relinquish_ownership P x ab l (part s) = Inr (q, l')"
  shows "nest_of P q = nest_relinquish x ab (nest_of P (part s))"
proof -
  let ?p = "part s" let ?ow = "takeWhile (\<lambda>y. y \<noteq> x) (owner_ids ?p)"
  note i = own_invD[OF inv]
  have oC: "owner_ids ?p \<in> C" using i(1) x by auto
  have tlx: "x \<in> set (tl (owner_ids ?p))" using tl_member[OF ch oC] x by simp
  show ?thesis
  proof (cases ab)
    case False
    have r': "relinquish_ownership P x False l ?p = Inr (q, l')" using r False by simp
    note c = relinquish_commit[OF ch inv x r']
    obtain post where post: "snapshots ?p = snapshots q @ post" using c(5) by (auto simp: prefix_def)
    have mt: "idempotent_mutations q = idempotent_mutations ?p" "tasks q = tasks ?p" using c(2) by (simp_all add: content_of_def)
    have "keep_saves ?ow (\<lambda>y. map_option (\<lambda>sn. restored P sn q) (first_with y (snapshots q))) y =
        keep_saves ?ow (n_saves (nest_of P ?p)) y" for y
    proof (cases "y \<in> set (tl ?ow)")
      case True
      then obtain sn where sn: "first_with y (snapshots q) = Some sn" using first_with_covered[OF c(4)[unfolded c(1)]] by blast
      have "y \<in> set (tl (owner_ids ?p))"
        using True tl_member[OF ch takeWhile_in_C[OF ch oC x(2)], of y] tl_member[OF ch oC, of y]
          set_takeWhileD[of y "\<lambda>y. y \<noteq> x" "owner_ids ?p"] by simp
      with True sn post show ?thesis
        by (simp add: keep_saves_def nest_of_def first_with_append restored_cong[OF mt])
    qed (simp add: keep_saves_def)
    then have "keep_saves ?ow (\<lambda>y. map_option (\<lambda>sn. restored P sn q) (first_with y (snapshots q))) =
        keep_saves ?ow (n_saves (nest_of P ?p))" by (simp add: fun_eq_iff)
    then show ?thesis using False x c(1,2) by (simp add: nest_relinquish_def nest_of_def Let_def)
  next
    case True
    have r': "relinquish_ownership P x True l ?p = Inr (q, l')" using r True by simp
    obtain pre sn post where a: "snapshots ?p = pre @ sn # post" "first_with x (snapshots ?p) = Some sn"
      "snapshots q = pre" "owner_ids q = sn_owner_ids sn" "content_of q = fst (restored P sn ?p)"
      "covered (sn_owner_ids sn) pre" "prefix (sn_owner_ids sn) ?ow" "sn_owner_ids sn = [] \<or> sn_owner_ids sn \<in> C"
      "t_state q = None \<longleftrightarrow> sn_state sn = None"
      by (rule relinquish_abort[OF ch inv x r'])
    have m: "idempotent_mutations q = filter (\<lambda>(k, _). k \<in> sn_mutation_keys sn) (idempotent_mutations ?p)"
      "tasks q = filter (\<lambda>t. task_uuid t \<in> sn_task_uuids sn) (tasks ?p)" using a(5) by (simp_all add: content_of_def restored_def)
    have "keep_saves (sn_owner_ids sn) (\<lambda>y. map_option (\<lambda>sn. restored P sn q) (first_with y pre)) y =
        keep_saves (sn_owner_ids sn) (n_saves (nest_of P ?p)) y" for y
    proof (cases "y \<in> set (tl (sn_owner_ids sn))")
      case y: True
      then obtain o' where o': "first_with y pre = Some o'" using first_with_covered[OF a(6)] by blast
      then have "o' \<in> set pre" by (auto elim: first_with_split)
      then have b: "below (completed s) o' sn" using i(5) a(1) by (auto simp: sorted_wrt_append)
      have "restored P o' q = restored P o' ?p"
        using b by (auto simp: restored_def m below_def intro!: filter_cong)
      moreover have "y \<in> set (owner_ids ?p)" "y \<noteq> root"
        using y a(7,8) tl_member[OF ch, of "sn_owner_ids sn" y] set_takeWhileD[of y "\<lambda>y. y \<noteq> x" "owner_ids ?p"]
        by (auto simp: prefix_def)
      ultimately show ?thesis using y o' a(1) tl_member[OF ch oC, of y]
        by (simp add: keep_saves_def nest_of_def first_with_append)
    qed (simp add: keep_saves_def)
    moreover have "n_saves (nest_of P ?p) x = Some (restored P sn ?p)" using tlx a(2) by (simp add: nest_of_def keep_saves_def)
    ultimately show ?thesis using True x a(3-5)
      by (simp add: nest_relinquish_def nest_of_def fun_eq_iff restored_def Let_def split: prod.splits)
  qed
qed

section \<open>Effects, and runs\<close>

lemma mutation_put_fresh: "k \<notin> fst ` set d \<Longrightarrow> mutation_put k m d = d @ [(k, m)]"
  by (induction d) auto

text \<open>What an event does to the specification.\<close>

definition apply_effects :: "('s, 'k) effects \<Rightarrow> (uuid \<times> 'm) option \<Rightarrow> ('s, 'm, 'k) content \<Rightarrow> ('s, 'm, 'k) content" where
  "apply_effects e mu v = v\<lparr>
     v_state := (case e_state e of None \<Rightarrow> v_state v | Some x \<Rightarrow> Some x),
     v_mutations := v_mutations v @ (case mu of None \<Rightarrow> [] | Some km \<Rightarrow> [km]),
     v_tasks := v_tasks v @ (case e_tasks e of None \<Rightarrow> [] | Some ts \<Rightarrow> ts)\<rparr>"

fun nest_do :: "('s, 'm, 'k) own_event \<Rightarrow> ('s, 'm, 'k) nest \<Rightarrow> ('s, 'm, 'k) nest" where
  "nest_do (Claim tids) a = nest_claim tids a"
| "nest_do (Load _ v) a = (if v_state (n_now a) = None then a\<lparr>n_now := (n_now a)\<lparr>v_state := Some v\<rparr>\<rparr> else a)"
| "nest_do (Complete _ e _ mu _) a = a\<lparr>n_now := apply_effects e mu (n_now a)\<rparr>"
| "nest_do Upgrade a = a\<lparr>n_now := (n_now a)\<lparr>v_mode := EXCLUSIVE\<rparr>\<rparr>"
| "nest_do (Relinquish x ab _) a = nest_relinquish x ab a"
| "nest_do CallBegin a = a"
| "nest_do CallEnd a = a"

definition nest_step :: "('s, 'm, 'k) nest \<Rightarrow> ('s, 'm, 'k) own_event \<Rightarrow> ('s, 'm, 'k) nest \<Rightarrow> bool" where
  "nest_step a e b \<longleftrightarrow> b = nest_do e a"

definition own_init :: "'s proto \<Rightarrow> uuid \<Rightarrow> uuid list set \<Rightarrow> ('s, 'm, 'k) own_sys \<Rightarrow> bool" where
  "own_init P root C s \<longleftrightarrow> chains root C \<and> (\<forall>v. of_bytes P (to_bytes P v) = v) \<and>
     owner_ids (part s) = [] \<and> snapshots (part s) = [] \<and> completed s = {}"

definition own_ok :: "'s proto \<Rightarrow> uuid \<Rightarrow> uuid list set \<Rightarrow> ('s, 'm, 'k) own_sys \<Rightarrow> bool" where
  "own_ok P root C s \<longleftrightarrow> chains root C \<and> (\<forall>v. of_bytes P (to_bytes P v) = v) \<and> own_inv C s"

text \<open>An effect that only adds leaves the owner and every savepoint as they are.\<close>

lemma own_inv_adds:
  assumes "own_inv C s" "owner_ids q = owner_ids (part s)" "snapshots q = snapshots (part s)"
    "fst ` set (idempotent_mutations (part s)) \<subseteq> fst ` set (idempotent_mutations q)"
    "task_uuid ` set (tasks (part s)) \<subseteq> task_uuid ` set (tasks q)" "t_state (part s) \<noteq> None \<longrightarrow> t_state q \<noteq> None"
  shows "own_inv C (s\<lparr>part := q\<rparr>)"
proof (rule own_invI, goal_cases)
  case (6 sn)
  then have "snapshot_ok C sn \<and> within (completed s) (part s) sn" using own_invD(6)[OF assms(1), of sn] assms(3) by simp
  with assms(2,4-6) show ?case unfolding within_def by auto
qed (use own_invD[OF assms(1)] assms(2,3) in auto)

lemma nest_of_adds:
  assumes inv: "own_inv C s" and f: "owner_ids q = owner_ids (part s)" "snapshots q = snapshots (part s)"
    and d: "idempotent_mutations q = idempotent_mutations (part s) @ ms" "fst ` set ms \<inter> fst ` set (idempotent_mutations (part s)) = {}"
      "tasks q = tasks (part s) @ ts" "task_uuid ` set ts \<inter> task_uuid ` set (tasks (part s)) = {}"
  shows "nest_of P q = (nest_of P (part s))\<lparr>n_now := content_of q\<rparr>"
proof -
  have "restored P sn q = restored P sn (part s)" if "first_with x (snapshots (part s)) = Some sn" for x sn
  proof -
    have "sn \<in> set (snapshots (part s))" using that by (auto elim: first_with_split)
    from own_invD(6)[OF inv this] have "sn_mutation_keys sn \<subseteq> fst ` set (idempotent_mutations (part s))"
      "sn_task_uuids sn \<subseteq> task_uuid ` set (tasks (part s))" by (auto simp: within_def)
    then have "fst ` set ms \<inter> sn_mutation_keys sn = {}" "task_uuid ` set ts \<inter> sn_task_uuids sn = {}" using d(2,4) by blast+
    then have "filter (\<lambda>(k, _). k \<in> sn_mutation_keys sn) ms = []" "filter (\<lambda>t. task_uuid t \<in> sn_task_uuids sn) ts = []"
      by (force simp: filter_empty_conv)+
    then show ?thesis by (simp add: restored_def d)
  qed
  then have "map_option (\<lambda>sn. restored P sn q) (first_with x (snapshots (part s))) =
      map_option (\<lambda>sn. restored P sn (part s)) (first_with x (snapshots (part s)))" for x
    by (cases "first_with x (snapshots (part s))") auto
  then show ?thesis by (simp add: nest_of_def f)
qed

lemma writer_complete_adds:
  assumes "writer_complete tids e key mu copy p = Inr q" "fresh_effects e mu p"
  shows "owner_ids q = owner_ids p" "snapshots q = snapshots p"
    "idempotent_mutations q = idempotent_mutations p @ (case mu of None \<Rightarrow> [] | Some km \<Rightarrow> [km])"
    "tasks q = tasks p @ (case e_tasks e of None \<Rightarrow> [] | Some ts \<Rightarrow> ts)"
    "map_option snd (t_state q) = (case e_state e of None \<Rightarrow> map_option snd (t_state p) | Some x \<Rightarrow> Some x)"
    "t_mode q = t_mode p"
proof -
  obtain p1 where p1: "store_in_transaction tids e key mu copy p = Inr p1"
    "q = p1 \<and> e_tasks e = None \<or> (\<exists>ts. e_tasks e = Some ts \<and> q = p1\<lparr>tasks := tasks p1 @ ts\<rparr>)"
    using assms(1) by (cases "e_tasks e") (auto simp: writer_complete_def rbind_eq_Inr_iff split: if_splits)
  have f: "mutation_put k m (idempotent_mutations p) = idempotent_mutations p @ [(k, m)]" if "mu = Some (k, m)" for k m
    using that assms(2) mutation_put_fresh[of k "idempotent_mutations p"] by (simp add: fresh_effects_def)
  have "owner_ids p1 = owner_ids p" "snapshots p1 = snapshots p" "tasks p1 = tasks p" "t_mode p1 = t_mode p"
    "idempotent_mutations p1 = idempotent_mutations p @ (case mu of None \<Rightarrow> [] | Some km \<Rightarrow> [km])"
    "map_option snd (t_state p1) = (case e_state e of None \<Rightarrow> map_option snd (t_state p) | Some x \<Rightarrow> Some x)"
    using p1(1) f
    by (cases mu; cases "e_state e"; cases "t_state p";
        auto simp: store_in_transaction_def rbind_eq_Inr_iff Let_def split: if_splits prod.splits)+
  then show "owner_ids q = owner_ids p" "snapshots q = snapshots p"
    "idempotent_mutations q = idempotent_mutations p @ (case mu of None \<Rightarrow> [] | Some km \<Rightarrow> [km])"
    "tasks q = tasks p @ (case e_tasks e of None \<Rightarrow> [] | Some ts \<Rightarrow> ts)"
    "map_option snd (t_state q) = (case e_state e of None \<Rightarrow> map_option snd (t_state p) | Some x \<Rightarrow> Some x)"
    "t_mode q = t_mode p"
    using p1(2) by auto
qed

lemma own_step_ok:
  assumes ok: "own_ok P root C s" and st: "own_step P root C s e t"
  shows "own_ok P root C t \<and> nest_of P (part t) = nest_do e (nest_of P (part s))"
proof -
  have ch: "chains root C" and rt: "\<forall>v. of_bytes P (to_bytes P v) = v" and inv: "own_inv C s"
    using ok by (auto simp: own_ok_def)
  have "own_inv C t \<and> nest_of P (part t) = nest_do e (nest_of P (part s))"
    using st
  proof (cases rule: own_step.cases)
    case (own_claim tids)
    then show ?thesis using claim_inv[OF ch inv, of tids P] claim_refines[OF ch inv, of tids P] rt by simp
  next
    case (own_load a v)
    let ?q = "load_in_transaction a (Some v) (part s)"
    have f: "owner_ids ?q = owner_ids (part s)" "snapshots ?q = snapshots (part s)"
      "idempotent_mutations ?q = idempotent_mutations (part s)" "tasks ?q = tasks (part s)" "t_mode ?q = t_mode (part s)"
      "map_option snd (t_state ?q) = (case t_state (part s) of None \<Rightarrow> Some v | Some (_, w) \<Rightarrow> Some w)"
      by (auto simp: load_in_transaction_def split: option.splits)
    have "own_inv C (s\<lparr>part := ?q\<rparr>)"
      by (rule own_inv_adds[OF inv f(1,2)]) (use f in \<open>auto simp: load_in_transaction_def split: option.splits\<close>)
    moreover have "nest_of P ?q = (nest_of P (part s))\<lparr>n_now := content_of ?q\<rparr>"
      by (rule nest_of_adds[OF inv f(1,2), of "[]" "[]"]) (use f in auto)
    moreover have "content_of ?q = (if v_state (content_of (part s)) = None then (content_of (part s))\<lparr>v_state := Some v\<rparr>
        else content_of (part s))"
      using f by (auto simp: content_of_def split: option.splits)
    ultimately show ?thesis using own_load by simp
  next
    case (own_complete e' mu tids key copy p)
    note w = writer_complete_adds[OF own_complete(4,3)]
    have "own_inv C (s\<lparr>part := p\<rparr>)"
      by (rule own_inv_adds[OF inv w(1,2)]) (use w in \<open>auto split: option.splits\<close>)
    moreover have "nest_of P p = (nest_of P (part s))\<lparr>n_now := content_of p\<rparr>"
    proof (rule nest_of_adds[OF inv w(1-3) _ w(4)])
      show "fst ` set (case mu of None \<Rightarrow> [] | Some km \<Rightarrow> [km]) \<inter> fst ` set (idempotent_mutations (part s)) = {}"
        using own_complete(3) by (cases mu; cases "the mu") (simp_all add: fresh_effects_def)
      show "task_uuid ` set (case e_tasks e' of None \<Rightarrow> [] | Some ts \<Rightarrow> ts) \<inter> task_uuid ` set (tasks (part s)) = {}"
        using own_complete(3) by (cases "e_tasks e'") (simp_all add: fresh_effects_def)
    qed
    moreover have "content_of p = apply_effects e' mu (content_of (part s))"
      using w by (auto simp: content_of_def apply_effects_def split: option.splits)
    ultimately show ?thesis using own_complete by simp
  next
    case own_upgrade
    let ?q = "(part s)\<lparr>t_mode := EXCLUSIVE\<rparr>"
    have "own_inv C (s\<lparr>part := ?q\<rparr>)" by (rule own_inv_adds[OF inv]) auto
    moreover have "nest_of P ?q = (nest_of P (part s))\<lparr>n_now := content_of ?q\<rparr>"
      by (rule nest_of_adds[OF inv, of _ "[]" "[]"]) auto
    ultimately show ?thesis using own_upgrade by (simp add: content_of_def)
  next
    case (own_relinquish x ab l p l')
    show ?thesis
    proof (cases "x \<in> set (owner_ids (part s))")
      case True
      then show ?thesis using relinquish_inv[OF ch inv True own_relinquish(3,4)]
          relinquish_refines[OF ch inv True own_relinquish(3,4)] own_relinquish by simp
    next
      case False
      then have "p = part s" using own_relinquish(4) by (simp add: relinquish_ownership_def)
      moreover have "own_inv C \<lparr>part = part s, completed = completed s \<union> {x}\<rparr>"
      proof (rule own_invI, goal_cases)
        case 5
        show ?case using sorted_below_mono[OF own_invD(5)[OF inv], of "completed s \<union> {x}"] by (simp add: subset_insertI)
      next
        case (6 sn)
        with own_invD(6)[OF inv, of sn] show ?case by (auto simp: within_def)
      qed (use own_invD[OF inv] False in auto)
      ultimately show ?thesis using own_relinquish False by (simp add: nest_relinquish_def nest_of_def)
    qed
  next
    case own_call_begin
    let ?q = "(part s)\<lparr>call_count := call_count (part s) + 1\<rparr>"
    have "own_inv C (s\<lparr>part := ?q\<rparr>)" by (rule own_inv_adds[OF inv]) auto
    then show ?thesis using own_call_begin by (simp add: nest_of_def content_of_def restored_def)
  next
    case own_call_end
    let ?q = "notify_ownership_changed ((part s)\<lparr>call_count := call_count (part s) - 1\<rparr>)"
    have "own_inv C (s\<lparr>part := ?q\<rparr>)" by (rule own_inv_adds[OF inv]) auto
    then show ?thesis using own_call_end by (simp add: nest_of_def content_of_def restored_def)
  qed
  with ch rt show ?thesis by (simp add: own_ok_def)
qed

interpretation nested: refinement_system "own_init P root C" "own_step P root C" "own_ok P root C"
  "\<lambda>s. nest_of P (part s)" nest_step
  for P :: "'s proto" and root C
proof
  show "own_ok P root C s" if "own_init P root C s" for s :: "('s, 'm, 'k) own_sys"
    using that by (auto simp: own_init_def own_ok_def own_inv_def covered_def)
qed (auto simp: own_step_ok nest_step_def)

end
