(* ===== verification/Nested_Claims.thy ===== *)
theory Nested_Claims
  imports Nested_Spec
begin

text \<open>
  The properties of nested transactions on a state: rollback and commit of a nested transaction,
  termination of the relinquishing protocol without a failed assertion, wakeups of waiters, and
  sibling deadlocks.
\<close>

section \<open>A concrete run\<close>

definition proto0 :: "bytes proto" where
  "proto0 = \<lparr>to_bytes = id, of_bytes = id, empty_msg = []\<rparr>"

definition part0 :: "(bytes, nat, unit) participant" where
  "part0 = \<lparr>oid = 0, ids = [1], coordinator = ([], []), p_state_type = [7], p_state_ref = [8], p_idempotency_key = None,
     idempotent_mutations = [], stored = False, using_restart_detection = True, t_mode = EXCLUSIVE, p_age = 1,
     unrecoverable_abort = False, snapshots = [], owner_ids = [], changes = 0, call_count = 0, t_state = Some (5, [42]),
     streaming_readers = [], tasks = [], prepared = False, committed_result = None\<rparr>"

definition own0 :: "(bytes, nat, unit) own_sys" where
  "own0 = \<lparr>part = part0, completed = {}\<rparr>"

definition chains0 :: "uuid list set" where
  "chains0 = {[1], [1, 2], [1, 3], [1, 2, 4]}"

lemma chains0_ok: "chains 1 chains0"
proof -
  have "take n c \<in> chains0" if "c \<in> chains0" "0 < n" for n c
  proof -
    have "take (Suc m) c \<in> chains0" for m using that(1) by (cases m; cases "m - 1"; cases "m - 2") (auto simp: chains0_def)
    then show ?thesis using that(2) by (cases n) auto
  qed
  then show ?thesis by (auto simp: chains_def) (auto simp: chains0_def)
qed

lemma own0_init: "own_init proto0 1 chains0 own0"
  using chains0_ok by (simp add: own_init_def proto0_def own0_def part0_def)

definition own1 :: "(bytes, nat, unit) own_sys" where
  "own1 = own0\<lparr>part := claim_ownership proto0 [1, 2, 4] part0\<rparr>"

lemma own1_claim: "own_step proto0 1 chains0 own0 (Claim [1, 2, 4]) own1"
  unfolding own1_def using own_step.own_claim[of "[1, 2, 4]" chains0 own0 proto0 1]
  by (simp add: chains0_def own0_def part0_def is_claimable_by_def)

definition effects0 :: "(bytes, unit) effects" where
  "effects0 = \<lparr>e_state = Some [43], e_tasks = None, colocated_upserts = None\<rparr>"

definition own2 :: "(bytes, nat, unit) own_sys" where
  "own2 = own1\<lparr>part := (part own1)\<lparr>t_state := Some (5, [43])\<rparr>\<rparr>"

lemma own2_complete: "own_step proto0 1 chains0 own1 (Complete [1, 2, 4] effects0 None None 6) own2"
  unfolding own2_def
  by (rule own_step.own_complete)
    (simp_all add: fresh_effects_def effects0_def writer_complete_def store_in_transaction_def own1_def own0_def part0_def
      claim_ownership_def push_snapshot_def notify_ownership_changed_def Let_def proto0_def)

lemma own2_steps: "steps (own_step proto0 1 chains0) own0 [Claim [1, 2, 4], Complete [1, 2, 4] effects0 None None 6] own2"
  by (rule steps_Cons, rule own1_claim, rule steps_Cons, rule own2_complete, rule steps_Nil)

section \<open>Rollback\<close>

text \<open>
  (C7) Nested transactions have savepoints: every run of calls, stores, upgrades, commits and aborts of
  nested transactions on a state does to the state's content, its owner and what each nested
  transaction would go back to exactly what the specification with one savepoint per nested
  transaction does, although the implementation shares one stack of snapshots among them.
\<close>

theorem nested_runs_refine:
  assumes "own_init P root C s" "steps (own_step P root C) s es t"
  shows "nest_of P (part t) = fold nest_do es (nest_of P (part s))"
proof -
  have "steps nest_step a es b \<Longrightarrow> b = fold nest_do es a" for a b :: "('s, 'm, 'k) nest" and es
    by (induction rule: steps.induct) (auto simp: nest_step_def)
  from this[OF nested.steps_refine[OF assms(2) nested.init_inv[OF assms(1)]]] show ?thesis .
qed

theorem nested_runs_refine_witness:
  "nest_of proto0 (part own2) = fold nest_do [Claim [1, 2, 4], Complete [1, 2, 4] effects0 None None 6] (nest_of proto0 part0)"
  using nested_runs_refine[OF own0_init own2_steps] by (simp add: own0_def)

lemma rollback_address:
  assumes "rollback P sn l p = Inr (q, l')" "t_state q = Some (a, v)"
  shows "\<exists>v'. t_state p = Some (a, v')"
  using assms by (auto simp: rollback_def rbind_eq_Inr_iff Let_def split: option.splits if_splits sum.splits)

lemma relinquish_split:
  assumes "relinquish_ownership P x ab l p = Inr (q, l')" "x \<in> set (owner_ids p)"
  obtains sn sns p2 where "q = notify_ownership_changed p2"
    "ab \<and> rollback P sn l (p\<lparr>snapshots := sns\<rparr>) = Inr (p2, l') \<or>
     \<not> ab \<and> notify_streaming_readers x sn (p\<lparr>snapshots := sns, owner_ids := take (index_of x (owner_ids p)) (owner_ids p)\<rparr>) = Inr p2"
proof -
  obtain sn sns where "maybe_pop_snapshot x ab p = (Some sn, p\<lparr>snapshots := sns\<rparr>)"
    using assms by (auto simp: relinquish_ownership_def maybe_pop_snapshot_def split: prod.splits option.splits)
  then show ?thesis using assms that
    by (cases ab) (auto simp: relinquish_ownership_def rbind_eq_Inr_iff split: if_splits)
qed

lemma rollback_changes: "rollback P sn l p = Inr (q, l') \<Longrightarrow> changes q = changes p"
  by (auto simp: rollback_def rbind_eq_Inr_iff Let_def split: option.splits if_splits sum.splits)

lemma notify_readers_fields:
  "notify_streaming_readers x sn p = Inr q \<Longrightarrow> t_state q = t_state p \<and> changes q = changes p"
  by (auto simp: notify_streaming_readers_def Let_def split: option.splits if_splits)

lemma relinquish_address:
  assumes "relinquish_ownership P x ab l p = Inr (q, l')" "t_state q = Some (a, v)"
  shows "\<exists>v'. t_state p = Some (a, v')"
proof (cases "x \<in> set (owner_ids p)")
  case False
  then show ?thesis using assms by (simp add: relinquish_ownership_def)
next
  case True
  obtain sn sns p2 where q: "q = notify_ownership_changed p2"
    "ab \<and> rollback P sn l (p\<lparr>snapshots := sns\<rparr>) = Inr (p2, l') \<or>
     \<not> ab \<and> notify_streaming_readers x sn (p\<lparr>snapshots := sns, owner_ids := take (index_of x (owner_ids p)) (owner_ids p)\<rparr>) = Inr p2"
    by (rule relinquish_split[OF assms(1) True])
  have "t_state p2 = Some (a, v)" using assms(2) q(1) by simp
  with q(2) show ?thesis by (auto dest!: notify_readers_fields dest: rollback_address)
qed

lemma savepoint_kept:
  assumes "steps (\<lambda>s e t. own_step P root C s e t \<and> x \<in> set (owner_ids (part t))) s es t"
    "own_ok P root C s" "x \<in> set (owner_ids (part s))" "x \<noteq> root"
  shows "own_ok P root C t \<and> x \<in> set (owner_ids (part t)) \<and>
    n_saves (nest_of P (part t)) x = n_saves (nest_of P (part s)) x"
  using assms
proof (induction rule: steps.induct)
  case (steps_Cons s e t es u)
  have st: "own_step P root C s e t" and xt: "x \<in> set (owner_ids (part t))" using steps_Cons.hyps(1) by auto
  note o = own_step_ok[OF steps_Cons.prems(1) st]
  have ch: "chains root C" and inv: "own_inv C t" using o by (auto simp: own_ok_def)
  have "owner_ids (part t) \<in> C" using own_invD(1)[OF inv] xt by auto
  then have tl: "x \<in> set (tl (owner_ids (part t)))" using tl_member[OF ch] xt steps_Cons.prems(3) by blast
  have ow: "owner_ids (part t) = n_owner (nest_do e (nest_of P (part s)))" using o by (metis nest_of_fields(1))
  have "n_saves (nest_do e (nest_of P (part s))) x = n_saves (nest_of P (part s)) x"
    using tl ow steps_Cons.prems(2)
    by (cases e) (auto simp: nest_claim_def nest_relinquish_def keep_saves_def Let_def split: option.splits if_splits)
  then show ?case using steps_Cons.IH o xt steps_Cons.prems(3) by simp
qed simp

text \<open>
  (C6) Aborting a nested transaction undoes exactly its effects on a state: whatever calls within it,
  and nested transactions further within it, did between the first claim of the state within the
  nested transaction and its abort, the state's value, tasks and idempotent mutations are again
  those from just before that claim, the state is owned by who owned it then, and the lock mode is
  the one from before the claim if the state had an owner, and \<open>SHARED\<close> if it had none.  An ancestor's reference to the state stays valid.
\<close>

theorem abort_undoes_nested:
  assumes "own_init P root C s0" "steps (own_step P root C) s0 es0 s"
    and "own_step P root C s (Claim tids) s1" "x \<in> set tids" "x \<notin> set (owner_ids (part s))" "x \<noteq> root"
    and "steps (\<lambda>s e t. own_step P root C s e t \<and> x \<in> set (owner_ids (part t))) s1 es t"
    and "own_step P root C t (Relinquish x True l) u"
  shows "map_option snd (t_state (part u)) = map_option snd (t_state (part s)) \<and>
    tasks (part u) = tasks (part s) \<and> idempotent_mutations (part u) = idempotent_mutations (part s) \<and>
    owner_ids (part u) = owner_ids (part s) \<and>
    t_mode (part u) = (if owner_ids (part s) = [] then SHARED else t_mode (part s)) \<and>
    (\<forall>a v. t_state (part u) = Some (a, v) \<longrightarrow> (\<exists>v'. t_state (part t) = Some (a, v')))"
proof -
  have ok: "own_ok P root C s" using nested.steps_inv[OF assms(2) nested.init_inv[OF assms(1)]] .
  note o1 = own_step_ok[OF ok assms(3)]
  have tids: "tids \<in> C" "part s1 = claim_ownership P tids (part s)" using assms(3) by (auto elim: own_step.cases)
  have ow1: "owner_ids (part s1) = tids" using tids(2) by (simp add: claim_ownership_def Let_def)
  have ch: "chains root C" using ok by (simp add: own_ok_def)
  have "x \<in> set (tl tids)" using tl_member[OF ch tids(1)] assms(4,6) by blast
  then have sv: "n_saves (nest_of P (part s1)) x = Some (savepoint (nest_of P (part s)))"
    using o1 assms(5) by (simp add: nest_claim_def)
  have "x \<in> set (owner_ids (part s1))" using ow1 assms(4) by simp
  note k = savepoint_kept[OF assms(7) o1[THEN conjunct1] this assms(6)]
  note o2 = own_step_ok[OF k[THEN conjunct1] assms(8)]
  have "nest_of P (part u) = nest_relinquish x True (nest_of P (part t))" using o2 by simp
  then have "content_of (part u) = fst (savepoint (nest_of P (part s)))" "owner_ids (part u) = snd (savepoint (nest_of P (part s)))"
    using k sv by (auto simp: nest_relinquish_def savepoint_def nest_of_def)
  moreover have "\<exists>v'. t_state (part t) = Some (a, v')" if "t_state (part u) = Some (a, v)" for a v
  proof -
    obtain p l' where p: "relinquish_ownership P x True l (part t) = Inr (p, l')" "part u = p"
      using assms(8) by (auto elim: own_step.cases)
    with relinquish_address[OF p(1)] that show ?thesis by simp
  qed
  ultimately show ?thesis by (simp add: savepoint_def content_of_def)
qed

lemma own2_abort: "\<exists>u. own_step proto0 1 chains0 own2 (Relinquish 2 True (lock_init\<lparr>exclusive := True, exclusive_holder := Some 0\<rparr>)) u"
proof -
  have "case relinquish_ownership proto0 2 True (lock_init\<lparr>exclusive := True, exclusive_holder := Some 0\<rparr>) (part own2) of
      Inl _ \<Rightarrow> False | Inr _ \<Rightarrow> True" by code_simp
  then obtain p l' where "relinquish_ownership proto0 2 True (lock_init\<lparr>exclusive := True, exclusive_holder := Some 0\<rparr>) (part own2) = Inr (p, l')"
    by (auto split: sum.splits)
  from own_step.own_relinquish[OF _ this, of 1 chains0] show ?thesis by auto
qed

theorem abort_undoes_nested_witness:
  "\<exists>u. own_step proto0 1 chains0 own2 (Relinquish 2 True (lock_init\<lparr>exclusive := True, exclusive_holder := Some 0\<rparr>)) u \<and>
    t_state (part own2) = Some (5, [43]) \<and> map_option snd (t_state (part u)) = Some [42] \<and> owner_ids (part u) = [] \<and>
    t_mode (part u) = SHARED"
proof -
  obtain u where u: "own_step proto0 1 chains0 own2 (Relinquish 2 True (lock_init\<lparr>exclusive := True, exclusive_holder := Some 0\<rparr>)) u"
    using own2_abort by blast
  have "steps (\<lambda>s e t. own_step proto0 1 chains0 s e t \<and> 2 \<in> set (owner_ids (part t))) own1
      [Complete [1, 2, 4] effects0 None None 6] own2"
    by (rule steps_one) (use own2_complete in \<open>simp add: own2_def own1_def claim_ownership_def part0_def Let_def\<close>)
  from abort_undoes_nested[OF own0_init steps_Nil own1_claim _ _ _ this u] u show ?thesis
    by (auto simp: own0_def part0_def own2_def)
qed

section \<open>The protocol\<close>

lemma relinquish_succeeds:
  assumes ok: "own_ok P root C s" and x: "x \<noteq> root"
    and lock: "t_mode (part s) = EXCLUSIVE \<Longrightarrow> lock_ok l S E \<and> Some (oid (part s)) \<in># E"
    and readers: "streaming_readers (part s) \<noteq> [] \<Longrightarrow> t_state (part s) \<noteq> None"
  shows "\<exists>q l'. relinquish_ownership P x ab l (part s) = Inr (q, l') \<and> x \<notin> set (owner_ids q)"
proof (cases "x \<in> set (owner_ids (part s))")
  case False
  then show ?thesis by (simp add: relinquish_ownership_def)
next
  case True
  let ?p = "part s"
  have ch: "chains root C" and inv: "own_inv C s" using ok by (auto simp: own_ok_def)
  obtain pre sn post where s: "snapshots ?p = pre @ sn # post" "\<forall>o' \<in> set pre. x \<notin> set (sn_ids o')" "x \<in> set (sn_ids sn)"
    "first_with x (snapshots ?p) = Some sn" "covered (sn_owner_ids sn) pre"
    "takeWhile (\<lambda>y. y \<noteq> x) (sn_ids sn) = takeWhile (\<lambda>y. y \<noteq> x) (owner_ids ?p)"
    "prefix (sn_owner_ids sn) (takeWhile (\<lambda>y. y \<noteq> x) (owner_ids ?p))" "sn_owner_ids sn = [] \<or> sn_owner_ids sn \<in> C"
    by (rule first_snapshot[OF ch inv True x])
  have nx: "x \<notin> set (takeWhile (\<lambda>y. y \<noteq> x) (owner_ids ?p))" by (auto dest: set_takeWhileD)
  then have nx': "x \<notin> set (sn_owner_ids sn)" using s(7) by (auto simp: prefix_def)
  let ?sns = "if pops x ab pre sn then pre else pre @ sn # post" let ?p1 = "?p\<lparr>snapshots := ?sns\<rparr>"
  have mp: "maybe_pop_snapshot x ab ?p = (Some sn, ?p1)"
    using pop_snapshot_loop_eq[OF s(2,3), of ab "[]" post] s(1) by (simp add: maybe_pop_snapshot_def)
  show ?thesis
  proof (cases ab)
    case ab: True
    have st: "sn_state sn \<noteq> None \<longrightarrow> t_state ?p \<noteq> None" using own_invD(6)[OF inv, of sn] s(1) by (simp add: within_def)
    have "\<exists>l'. downgrade (Some (oid ?p)) l = Inr l'" if "t_mode ?p = EXCLUSIVE"
      using lock[OF that] downgrade_spec by blast
    then have "\<exists>p2 l'. rollback P sn l ?p1 = Inr (p2, l') \<and> owner_ids p2 = sn_owner_ids sn"
      using st by (cases "sn_state sn"; cases "t_mode ?p") (auto simp: rollback_def Let_def split: sum.splits)
    then show ?thesis using ab True mp nx' by (auto simp: relinquish_ownership_def)
  next
    case False
    let ?p1' = "?p1\<lparr>owner_ids := takeWhile (\<lambda>y. y \<noteq> x) (owner_ids ?p)\<rparr>"
    have "\<exists>p2. notify_streaming_readers x sn ?p1' = Inr p2 \<and> owner_ids p2 = owner_ids ?p1'"
      using readers by (cases "t_state ?p"; cases "streaming_readers ?p = []") (auto simp: notify_streaming_readers_def Let_def)
    then show ?thesis using False True mp nx by (auto simp: relinquish_ownership_def take_index)
  qed
qed

text \<open>
  Completing a nested transaction never fails at a participant: in every reachable state of a run
  a \<open>RelinquishOwnership\<close>, for a commit or an abort, finds its snapshot and passes every assertion
  (of the lock too, which the transaction holds exclusively when its mode says so), the nested
  transaction no longer owns the state, and delivering the RPC again, as its retries do, changes nothing.
\<close>

theorem relinquish_never_fails:
  assumes "own_init P root C s0" "steps (own_step P root C) s0 es s" "x \<noteq> root"
    and "t_mode (part s) = EXCLUSIVE \<Longrightarrow> lock_ok l S E \<and> Some (oid (part s)) \<in># E"
    and "streaming_readers (part s) \<noteq> [] \<Longrightarrow> t_state (part s) \<noteq> None"
  shows "\<exists>q l'. relinquish_ownership P x ab l (part s) = Inr (q, l') \<and> x \<notin> set (owner_ids q) \<and>
    relinquish_ownership P x ab' l' q = Inr (q, l')"
proof -
  have "own_ok P root C s" using nested.steps_inv[OF assms(2) nested.init_inv[OF assms(1)]] .
  from relinquish_succeeds[OF this assms(3-5)] obtain q l' where
    "relinquish_ownership P x ab l (part s) = Inr (q, l')" "x \<notin> set (owner_ids q)" by blast
  moreover then have "relinquish_ownership P x ab' l' q = Inr (q, l')" by (simp add: relinquish_ownership_def)
  ultimately show ?thesis by blast
qed

lemma lock0_ok: "lock_ok (lock_init\<lparr>exclusive := True, exclusive_holder := Some 0\<rparr>) {#} {#Some 0#}"
  by (auto simp: lock_ok_def holds_def waiting_ok_def lock_init_def)

theorem relinquish_never_fails_witness:
  "\<exists>q l'. relinquish_ownership proto0 2 True (lock_init\<lparr>exclusive := True, exclusive_holder := Some 0\<rparr>) (part own2) = Inr (q, l') \<and>
    2 \<notin> set (owner_ids q)"
proof -
  have "oid (part own2) = 0" "streaming_readers (part own2) = []"
    by (simp_all add: own2_def own1_def claim_ownership_def part0_def push_snapshot_def notify_ownership_changed_def Let_def)
  with lock0_ok relinquish_never_fails[OF own0_init own2_steps, of 2 _ "{#}" "{#Some 0#}"] show ?thesis by force
qed

text \<open>
  No wakeup is lost: whenever a step of a run makes the state claimable by some call, or drains the
  calls in flight, the event on which waiters sleep has been set in that step.
\<close>

theorem ownership_wakes_waiters:
  assumes "own_step P root C s e t" "call_count (part s) \<ge> 0"
    and "\<not> is_claimable_by tids (part s) \<and> is_claimable_by tids (part t) \<or> \<not> drained (part s) \<and> drained (part t)"
  shows "changes (part t) > changes (part s)"
  using assms(1)
proof (cases rule: own_step.cases)
  case (own_claim tids')
  then show ?thesis using assms(3)
    by (auto simp: claim_ownership_def is_claimable_by_def drained_def notify_ownership_changed_def push_snapshot_def Let_def
        split: if_splits)
next
  case (own_load a v)
  then show ?thesis using assms(3) by (auto simp: load_in_transaction_def is_claimable_by_def drained_def split: option.splits)
next
  case (own_complete e' mu tids' key copy p)
  have "call_count p = call_count (part s)"
    using own_complete(4) by (cases "e_state e'"; cases mu; cases "e_tasks e'"; cases "t_state (part s)")
      (auto simp: writer_complete_def store_in_transaction_def Let_def split: if_splits)
  then show ?thesis using assms(3) own_complete(2) writer_complete_adds(1)[OF own_complete(4,3)]
    by (auto simp: is_claimable_by_def drained_def)
next
  case own_upgrade
  then show ?thesis using assms(3) by (auto simp: is_claimable_by_def drained_def)
next
  case (own_relinquish x ab l p l')
  show ?thesis
  proof (cases "x \<in> set (owner_ids (part s))")
    case False
    then show ?thesis using assms(3) own_relinquish by (simp add: relinquish_ownership_def)
  next
    case True
    show ?thesis
      by (rule relinquish_split[OF own_relinquish(4) True])
        (use own_relinquish(2) in \<open>auto dest!: rollback_changes notify_readers_fields simp: notify_ownership_changed_def\<close>)
  qed
next
  case own_call_begin
  then show ?thesis using assms(2,3) by (auto simp: is_claimable_by_def drained_def)
next
  case own_call_end
  then show ?thesis by (simp add: notify_ownership_changed_def)
qed

theorem ownership_wakes_waiters_witness:
  "\<exists>u. own_step proto0 1 chains0 own2 (Relinquish 2 True (lock_init\<lparr>exclusive := True, exclusive_holder := Some 0\<rparr>)) u \<and>
    \<not> is_claimable_by [1, 3] (part own2) \<and> changes (part u) > changes (part own2)"
proof -
  have "case relinquish_ownership proto0 2 True (lock_init\<lparr>exclusive := True, exclusive_holder := Some 0\<rparr>) (part own2) of
      Inl _ \<Rightarrow> False | Inr (p, _) \<Rightarrow> is_claimable_by [1, 3] p" by code_simp
  then obtain p l' where "relinquish_ownership proto0 2 True (lock_init\<lparr>exclusive := True, exclusive_holder := Some 0\<rparr>) (part own2) = Inr (p, l')"
    "is_claimable_by [1, 3] p" by (auto split: sum.splits)
  with own_step.own_relinquish[OF _ this(1), of 1 chains0] obtain u where
    u: "own_step proto0 1 chains0 own2 (Relinquish 2 True (lock_init\<lparr>exclusive := True, exclusive_holder := Some 0\<rparr>)) u"
    "is_claimable_by [1, 3] (part u)" by auto
  have "\<not> is_claimable_by [1, 3] (part own2)" "call_count (part own2) \<ge> 0" by code_simp+
  with ownership_wakes_waiters[OF u(1)] u show ?thesis by blast
qed

section \<open>Sibling deadlocks\<close>

lemma presumed_from_append:
  "presumed_deadlocked_from n (p @ xs) (p @ ys) = presumed_deadlocked_from (n + length p) xs ys"
  by (induction p arbitrary: n) auto

lemma presumed_siblings:
  "p \<noteq> [] \<Longrightarrow> x \<noteq> y \<Longrightarrow>
    presumed_deadlocked_nested_transaction (p @ x # xs) (p @ y # ys) = Inr (if x > y then Some x else None)"
  by (simp add: presumed_deadlocked_nested_transaction_def presumed_from_append)

lemma presumed_relatives:
  "presumed_deadlocked_nested_transaction p (p @ ys) = Inr None"
  "presumed_deadlocked_nested_transaction (p @ xs) p = Inr None"
  using presumed_from_append[of 0 p "[]" ys] presumed_from_append[of 0 p xs "[]"]
  by (simp_all add: presumed_deadlocked_nested_transaction_def)

text \<open>
  (C8) Deadlocks among nested transactions are broken, and only by siblings: in every cycle of sibling
  nested transactions, each with a call waiting for a state that the next one, or something within
  it, owns, at least one presumes a deadlock after its grace period and is told to retry, while the
  oldest never is; a call never gives up on a state owned by its own transaction, by an ancestor or
  by a nested transaction within it.
\<close>

theorem sibling_cycle_broken:
  fixes x :: "nat \<Rightarrow> uuid"
  assumes "p \<noteq> []" "n > 0" "\<And>i. i < n \<Longrightarrow> x i \<noteq> x (Suc i mod n)"
    and "\<And>i. i < n \<Longrightarrow> owner_ids (q i) = p @ x (Suc i mod n) # ys i"
  shows "(\<exists>i < n. abort_if_presumed_sibling_deadlock (p @ x i # xs i) (q i) = Inl (NestedTransactionShouldRetry (x i))) \<and>
    (\<forall>i < n. (\<forall>j < n. x i \<le> x j) \<longrightarrow> abort_if_presumed_sibling_deadlock (p @ x i # xs i) (q i) = Inr ()) \<and>
    abort_if_presumed_sibling_deadlock p (q 0) = Inr () \<and>
    abort_if_presumed_sibling_deadlock (owner_ids (q 0) @ zs) (q 0) = Inr ()"
proof -
  have a: "abort_if_presumed_sibling_deadlock (p @ x i # xs i) (q i) =
      (if x i > x (Suc i mod n) then Inl (NestedTransactionShouldRetry (x i)) else Inr ())" if "i < n" for i
    using presumed_siblings[OF assms(1) assms(3)[OF that], of "xs i" "ys i"] assms(4)[OF that]
    by (simp add: abort_if_presumed_sibling_deadlock_def)
  obtain i where i: "i < n" "\<forall>j < n. x j \<le> x i"
  proof -
    have "finite (x ` {..<n})" "x ` {..<n} \<noteq> {}" using assms(2) by auto
    from Max_in[OF this] obtain i where "i < n" "x i = Max (x ` {..<n})" by auto
    then show ?thesis using that[of i] by simp
  qed
  have "x (Suc i mod n) \<le> x i" using i(2) assms(2) by simp
  then have "x i > x (Suc i mod n)" using assms(3)[OF i(1)] by simp
  with a[OF i(1)] i(1) have "\<exists>i < n. abort_if_presumed_sibling_deadlock (p @ x i # xs i) (q i) = Inl (NestedTransactionShouldRetry (x i))"
    by auto
  moreover have "abort_if_presumed_sibling_deadlock (p @ x j # xs j) (q j) = Inr ()" if "j < n" "\<forall>k < n. x j \<le> x k" for j
  proof -
    have "x j \<le> x (Suc j mod n)" using that(2) assms(2) by simp
    with a[OF that(1)] show ?thesis by simp
  qed
  moreover have "abort_if_presumed_sibling_deadlock p (q 0) = Inr ()"
    using assms(4)[OF assms(2)] presumed_relatives(1) by (simp add: abort_if_presumed_sibling_deadlock_def)
  moreover have "abort_if_presumed_sibling_deadlock (owner_ids (q 0) @ zs) (q 0) = Inr ()"
    using presumed_relatives(2) by (simp add: abort_if_presumed_sibling_deadlock_def)
  ultimately show ?thesis by blast
qed

theorem sibling_cycle_broken_witness:
  "\<exists>i < 2. abort_if_presumed_sibling_deadlock ([1] @ (if i = 0 then 2 else 3) # [])
    (part0\<lparr>owner_ids := [1, if Suc i mod 2 = 0 then 2 else 3]\<rparr>) = Inl (NestedTransactionShouldRetry (if i = 0 then 2 else 3))"
  by (rule sibling_cycle_broken[of "[1]" 2 "\<lambda>i. if i = 0 then 2 else 3"
        "\<lambda>i. part0\<lparr>owner_ids := [1, if Suc i mod 2 = 0 then 2 else 3]\<rparr>" "\<lambda>_. []" "\<lambda>_. []", THEN conjunct1])
    (auto simp: less_2_cases_iff)

end
