(* ===== verification/Uuid7.thy ===== *)
theory Uuid7
  imports Prelude "HOL-Library.Word"
begin

unbundle bit_operations_syntax

text \<open>
  Time-ordered identifiers: \<open>reboot/uuidv7.py\<close>.  A UUID is its 128-bit integer, by which Python compares
  it.  The clock and the random bytes are arguments; the two module-level variables are a record.
  The results: the bit layout of the integer, that the timestamp is read back, and that the
  identifiers of a process strictly increase whatever the clock does.
\<close>

section \<open>The module\<close>

definition UINT_128_MAX :: nat where
  "UINT_128_MAX = push_bit 128 1 - 1"

definition RFC_4122_VERSION_7_FLAGS :: nat where
  "RFC_4122_VERSION_7_FLAGS = push_bit 76 7 OR push_bit 48 0x8000"

record uuid7_globals =
  last_timestamp_v7 :: "nat option"
  last_counter_v7 :: nat

definition uuid7_globals_init :: uuid7_globals where
  "uuid7_globals_init = \<lparr>last_timestamp_v7 = None, last_counter_v7 = 0\<rparr>"

text \<open>\<open>rand\<close>: the ten random bytes read as a big-endian integer.\<close>

definition uuid7_get_counter_and_tail :: "nat \<Rightarrow> nat \<times> nat" where
  "uuid7_get_counter_and_tail rand = (drop_bit 32 rand AND 0x1ffffffffff, rand AND 0xffffffff)"

text \<open>The property \<open>UUID.version\<close> of the standard library: \<open>None\<close> unless the variant is RFC 4122.\<close>

definition uuid_version :: "nat \<Rightarrow> nat option" where
  "uuid_version u =
     (if u AND push_bit 48 0x8000 \<noteq> 0 \<and> u AND push_bit 48 0x4000 = 0
      then Some (drop_bit 76 u AND 0xf) else None)"

datatype uuid7_error = Not_version_7 | Out_of_range

definition uuid7_timestamp_ms :: "nat \<Rightarrow> uuid7_error + nat" where
  "uuid7_timestamp_ms u =
     rbind (py_assert Not_version_7 (uuid_version u = Some 7)) (\<lambda>_. Inr (drop_bit 80 u))"

text \<open>The fields of the integer, from \<open>unix_ts_ms = ...\<close> to the assertion.\<close>

definition uuid7_int :: "nat \<Rightarrow> nat \<Rightarrow> nat \<Rightarrow> nat" where
  "uuid7_int timestamp_ms counter tail =
     (let unix_ts_ms = timestamp_ms AND 0xffffffffffff;
          counter_msbs = drop_bit 30 counter;
          counter_hi = counter_msbs AND 0x0fff;
          counter_lo = counter AND 0x3fffffff;
          tail = tail AND 0xffffffff
      in push_bit 80 unix_ts_ms OR push_bit 64 counter_hi OR push_bit 32 counter_lo OR tail
         OR RFC_4122_VERSION_7_FLAGS)"

text \<open>
  The timestamp, counter and tail of the automatic mode: \<open>now_ms\<close> is the clock in milliseconds,
  \<open>rand\<close> ten and \<open>rand4\<close> four random bytes.
\<close>

definition uuid7_advance :: "nat \<Rightarrow> nat \<Rightarrow> nat \<Rightarrow> uuid7_globals \<Rightarrow> nat \<times> nat \<times> nat" where
  "uuid7_advance now_ms rand rand4 g =
     (case last_timestamp_v7 g of
        None \<Rightarrow> (now_ms, uuid7_get_counter_and_tail rand)
      | Some last_ms \<Rightarrow>
          if now_ms > last_ms then (now_ms, uuid7_get_counter_and_tail rand)
          else let timestamp_ms = (if now_ms < last_ms then last_ms + 1 else now_ms);
                   counter = last_counter_v7 g + 1
               in if counter > 0x3ffffffffff
                  then (timestamp_ms + 1, uuid7_get_counter_and_tail rand)
                  else (timestamp_ms, counter, rand4))"

definition uuid7 :: "nat option \<Rightarrow> nat \<Rightarrow> nat \<Rightarrow> nat \<Rightarrow> uuid7_globals \<Rightarrow> uuid7_error + (nat \<times> uuid7_globals)" where
  "uuid7 timestamp_ms time_ns rand rand4 g =
     (let (ts, counter, tail, g') =
        (case timestamp_ms of
           None \<Rightarrow> (let (ts, counter, tail) = uuid7_advance (time_ns div 1000000) rand rand4 g
                    in (ts, counter, tail, \<lparr>last_timestamp_v7 = Some ts, last_counter_v7 = counter\<rparr>))
         | Some ts \<Rightarrow> (let (counter, tail) = uuid7_get_counter_and_tail rand in (ts, counter, tail, g)));
        u = uuid7_int ts counter tail
      in rbind (py_assert Out_of_range (u \<le> UINT_128_MAX)) (\<lambda>_. Inr (u, g')))"

text \<open>A process that asks for identifiers one after the other.\<close>

fun uuid7_series :: "(nat \<times> nat \<times> nat) list \<Rightarrow> uuid7_globals \<Rightarrow> uuid7_error + nat list" where
  "uuid7_series [] g = Inr []"
| "uuid7_series ((time_ns, rand, rand4) # rest) g =
     rbind (uuid7 None time_ns rand rand4 g) (\<lambda>(u, g').
     rbind (uuid7_series rest g') (\<lambda>us. Inr (u # us)))"

section \<open>The bit layout\<close>

lemma and_mask_mod: "x AND (2 ^ n - 1) = x mod 2 ^ n" for x :: nat
  by (metis mask_eq_exp_minus_1 take_bit_eq_mask take_bit_eq_mod)

lemma mask_literals:
  "x AND 0xffffffffffff = x mod 2 ^ 48"
  "x AND 0x1ffffffffff = x mod 2 ^ 41"
  "x AND 0x3fffffff = x mod 2 ^ 30"
  "x AND 0xffffffff = x mod 2 ^ 32"
  "x AND 0xfff = x mod 2 ^ 12"
  "x AND 0xf = x mod 2 ^ 4" for x :: nat
  using and_mask_mod[of x 48] and_mask_mod[of x 41] and_mask_mod[of x 30] and_mask_mod[of x 32]
    and_mask_mod[of x 12] and_mask_mod[of x 4] by simp_all

lemma or_above: "b < 2 ^ n \<Longrightarrow> push_bit n a OR b = a * 2 ^ n + b" for a b :: nat
proof -
  assume "b < 2 ^ n"
  then have "take_bit n b = b" by (simp add: take_bit_nat_eq_self)
  then have "\<not> bit b k" if "n \<le> k" for k using that by (metis bit_take_bit_iff not_le)
  then have "push_bit n a OR b = push_bit n a + b"
    by (subst disjunctive_add[symmetric]) (auto simp: bit_push_bit_iff)
  then show ?thesis by (simp add: push_bit_eq_mult)
qed

lemma field_bounds:
  assumes "r < 2 ^ 32" "l < 2 ^ 30" "h < 2 ^ 12"
  shows "l * 2 ^ 32 + r < (2::nat) ^ 63"
    "1 * 2 ^ 63 + (l * 2 ^ 32 + r) < 2 ^ 64"
    "h * 2 ^ 64 + (1 * 2 ^ 63 + (l * 2 ^ 32 + r)) < 2 ^ 76"
    "7 * 2 ^ 76 + (h * 2 ^ 64 + (1 * 2 ^ 63 + (l * 2 ^ 32 + r))) < 2 ^ 80"
  using assms by simp_all

lemma uuid7_layout:
  "uuid7_int ts c r = (ts mod 2 ^ 48) * 2 ^ 80 + (7 * 2 ^ 76 +
     ((c div 2 ^ 30 mod 2 ^ 12) * 2 ^ 64 + (1 * 2 ^ 63 + ((c mod 2 ^ 30) * 2 ^ 32 + r mod 2 ^ 32))))"
proof -
  let ?t = "ts mod 2 ^ 48" and ?h = "c div 2 ^ 30 mod 2 ^ 12" and ?l = "c mod 2 ^ 30" and ?r = "r mod 2 ^ 32"
  have flags: "RFC_4122_VERSION_7_FLAGS = push_bit 76 7 OR push_bit 63 1"
    by (simp add: RFC_4122_VERSION_7_FLAGS_def push_bit_eq_mult)
  have "uuid7_int ts c r = push_bit 80 ?t OR (push_bit 76 7 OR (push_bit 64 ?h OR (push_bit 63 1 OR (push_bit 32 ?l OR ?r))))"
    unfolding uuid7_int_def Let_def flags mask_literals drop_bit_eq_div
    by (simp only: or.assoc or.commute or.left_commute)
  moreover have b: "?r < 2 ^ 32" "?l < 2 ^ 30" "?h < 2 ^ 12" by simp_all
  ultimately show ?thesis by (simp only: or_above b field_bounds[OF b])
qed

lemma div_of_multiple: "x < m \<Longrightarrow> (q * m + x) div m = q" for x m q :: nat
  by simp

text \<open>The quotients by which the fields are read back.\<close>

lemma uuid7_int_div:
  "uuid7_int ts c r div 2 ^ 80 = ts mod 2 ^ 48"
  "uuid7_int ts c r div 2 ^ 76 = (ts mod 2 ^ 48) * 16 + 7"
  "uuid7_int ts c r div 2 ^ 63 = (ts mod 2 ^ 48) * 2 ^ 17 + 7 * 2 ^ 13 + (c div 2 ^ 30 mod 2 ^ 12) * 2 + 1"
  "uuid7_int ts c r div 2 ^ 62 = (ts mod 2 ^ 48) * 2 ^ 18 + 7 * 2 ^ 14 + (c div 2 ^ 30 mod 2 ^ 12) * 4 + 2"
proof -
  define t h l r' where d: "t = ts mod 2 ^ 48" "h = c div 2 ^ 30 mod 2 ^ 12" "l = c mod 2 ^ 30" "r' = r mod 2 ^ 32"
  have b: "r' < 2 ^ 32" "l < 2 ^ 30" "h < 2 ^ 12" by (simp_all add: d)
  have u: "uuid7_int ts c r = t * 2 ^ 80 + (7 * 2 ^ 76 + (h * 2 ^ 64 + (1 * 2 ^ 63 + (l * 2 ^ 32 + r'))))"
    by (simp only: uuid7_layout d)
  note f = field_bounds[OF b]
  show "uuid7_int ts c r div 2 ^ 80 = ts mod 2 ^ 48"
    unfolding u d(1)[symmetric] by (rule div_of_multiple, rule f)
  have "uuid7_int ts c r = (t * 16 + 7) * 2 ^ 76 + (h * 2 ^ 64 + (1 * 2 ^ 63 + (l * 2 ^ 32 + r')))" by (simp add: u)
  then show "uuid7_int ts c r div 2 ^ 76 = (ts mod 2 ^ 48) * 16 + 7"
    unfolding d(1)[symmetric] by (simp only: div_of_multiple[OF f(3)])
  have "uuid7_int ts c r = (t * 2 ^ 17 + 7 * 2 ^ 13 + h * 2 + 1) * 2 ^ 63 + (l * 2 ^ 32 + r')" by (simp add: u)
  then show "uuid7_int ts c r div 2 ^ 63 = (ts mod 2 ^ 48) * 2 ^ 17 + 7 * 2 ^ 13 + (c div 2 ^ 30 mod 2 ^ 12) * 2 + 1"
    unfolding d(1,2)[symmetric] by (simp only: div_of_multiple[OF f(1)])
  have "uuid7_int ts c r = (t * 2 ^ 18 + 7 * 2 ^ 14 + h * 4 + 2) * 2 ^ 62 + (l * 2 ^ 32 + r')" by (simp add: u)
  moreover have "l * 2 ^ 32 + r' < 2 ^ 62" using b by simp
  ultimately show "uuid7_int ts c r div 2 ^ 62 = (ts mod 2 ^ 48) * 2 ^ 18 + 7 * 2 ^ 14 + (c div 2 ^ 30 mod 2 ^ 12) * 4 + 2"
    unfolding d(1,2)[symmetric] by (simp only: div_of_multiple)
qed

lemma uuid7_int_fits: "uuid7_int ts c r \<le> UINT_128_MAX"
proof -
  have "uuid7_int ts c r div 2 ^ 80 < 2 ^ 48" unfolding uuid7_int_div by simp
  then have "uuid7_int ts c r < 2 ^ 48 * 2 ^ 80" by (rule iffD1[OF div_less_iff_less_mult, rotated]) simp
  then show ?thesis by (simp add: UINT_128_MAX_def push_bit_eq_mult)
qed

lemma uuid7_int_version: "uuid_version (uuid7_int ts c r) = Some 7"
proof -
  let ?u = "uuid7_int ts c r"
  have "bit ?u 63" unfolding bit_iff_odd uuid7_int_div by simp
  moreover have "\<not> bit ?u 62" unfolding bit_iff_odd uuid7_int_div by simp
  moreover have "push_bit 48 0x8000 = (2::nat) ^ 63" "push_bit 48 0x4000 = (2::nat) ^ 62"
    by (simp_all add: push_bit_eq_mult)
  moreover have "?u AND 2 ^ 63 \<noteq> 0" "?u AND 2 ^ 62 = 0"
    using calculation(1,2) by (simp_all only: and_exp_eq_0_iff_not_bit not_not not_False_eq_True)
  moreover have "drop_bit 76 ?u AND 0xf = 7"
    unfolding mask_literals drop_bit_eq_div uuid7_int_div by (simp add: mod_add_left_eq[symmetric])
  ultimately show ?thesis by (simp only: uuid_version_def if_True simp_thms)
qed

lemma uuid7_int_timestamp: "uuid7_timestamp_ms (uuid7_int ts c r) = Inr (ts mod 2 ^ 48)"
  unfolding uuid7_timestamp_ms_def uuid7_int_version drop_bit_eq_div uuid7_int_div by simp

section \<open>Order\<close>

text \<open>Identifiers compare by timestamp first, then by counter.\<close>

lemma uuid7_int_less:
  assumes "ts < ts' \<or> ts = ts' \<and> c < c'" "ts' < 2 ^ 48" "c' < 2 ^ 42"
  shows "uuid7_int ts c r < uuid7_int ts' c' r'"
  using assms(1)
proof
  assume "ts < ts'"
  then have "uuid7_int ts c r div 2 ^ 80 < uuid7_int ts' c' r' div 2 ^ 80"
    unfolding uuid7_int_div using assms(2) by simp
  then show ?thesis by (meson div_le_mono leD not_le)
next
  assume e: "ts = ts' \<and> c < c'"
  define h h' l l' where d: "h = c div 2 ^ 30" "h' = c' div 2 ^ 30" "l = c mod 2 ^ 30" "l' = c' mod 2 ^ 30"
  have c: "c = h * 2 ^ 30 + l" "c' = h' * 2 ^ 30 + l'" by (simp_all only: d div_mult_mod_eq)
  have b: "l < 2 ^ 30" "l' < 2 ^ 30" by (simp_all add: d)
  have h: "h < 2 ^ 12" "h' < 2 ^ 12" using assms(3) e unfolding d by (simp_all add: div_less_iff_less_mult)
  have "h * 2 ^ 30 + l < h' * 2 ^ 30 + l'" using e c by simp
  with b have "h < h' \<or> h = h' \<and> l < l'" by auto
  moreover have "r mod 2 ^ 32 < 2 ^ 32" "r' mod 2 ^ 32 < 2 ^ 32" by simp_all
  ultimately have "h * 2 ^ 64 + (1 * 2 ^ 63 + (l * 2 ^ 32 + r mod 2 ^ 32)) < h' * 2 ^ 64 + (1 * 2 ^ 63 + (l' * 2 ^ 32 + r' mod 2 ^ 32))"
    using b by auto
  moreover have "h = c div 2 ^ 30 mod 2 ^ 12" "h' = c' div 2 ^ 30 mod 2 ^ 12" using h unfolding d by simp_all
  ultimately show ?thesis using e unfolding uuid7_layout d by simp
qed

lemma counter_and_tail_bound: "fst (uuid7_get_counter_and_tail rand) < 2 ^ 42"
proof -
  have "fst (uuid7_get_counter_and_tail rand) < 2 ^ 41"
    unfolding uuid7_get_counter_and_tail_def fst_conv mask_literals by simp
  then show ?thesis by simp
qed

text \<open>One call in the automatic mode: the pair of timestamp and counter advances, by at most two milliseconds.\<close>

lemma uuid7_advance_increases:
  assumes "uuid7_advance now rand rand4 g = (ts, c, r)" "last_timestamp_v7 g = Some t" "last_counter_v7 g < 2 ^ 42"
  shows "t < ts \<or> t = ts \<and> last_counter_v7 g < c" "c < 2 ^ 42" "ts \<le> max now (t + 2)"
  using assms counter_and_tail_bound[of rand]
  by (auto simp: uuid7_advance_def Let_def split: if_splits)

lemma uuid7_auto:
  "uuid7 None ns rand rand4 g =
     (let (ts, c, r) = uuid7_advance (ns div 1000000) rand rand4 g
      in Inr (uuid7_int ts c r, \<lparr>last_timestamp_v7 = Some ts, last_counter_v7 = c\<rparr>))"
  by (cases "uuid7_advance (ns div 1000000) rand rand4 g") (simp add: uuid7_def uuid7_int_fits)

definition series_bounded :: "(nat \<times> nat \<times> nat) list \<Rightarrow> bool" where
  "series_bounded inputs \<longleftrightarrow> list_all (\<lambda>(ns, _, _). ns div 1000000 + 2 * length inputs < 2 ^ 48) inputs"

lemma list_all_weaken: "list_all P xs \<Longrightarrow> (\<And>x. P x \<Longrightarrow> Q x) \<Longrightarrow> list_all Q xs"
  by (simp add: list_all_iff)

lemma series_increasing:
  assumes "last_timestamp_v7 g = Some t" "last_counter_v7 g < 2 ^ 42"
    "list_all (\<lambda>(ns, _, _). ns div 1000000 + 2 * length inputs < 2 ^ 48) inputs" "t + 2 * length inputs < 2 ^ 48"
  shows "\<exists>us. uuid7_series inputs g = Inr us \<and> length us = length inputs \<and> strictly_sorted us \<and>
    list_all (\<lambda>u. uuid7_int t (last_counter_v7 g) r < u) us"
  using assms
proof (induction inputs g arbitrary: t r rule: uuid7_series.induct)
  case (1 g)
  then show ?case by simp
next
  case (2 ns rand rand4 rest g)
  obtain ts c r' where a: "uuid7_advance (ns div 1000000) rand rand4 g = (ts, c, r')" by (metis prod_cases3)
  let ?g = "\<lparr>last_timestamp_v7 = Some ts, last_counter_v7 = c\<rparr>"
  note adv = uuid7_advance_increases[OF a "2.prems"(1,2)]
  have u: "uuid7 None ns rand rand4 g = Inr (uuid7_int ts c r', ?g)" by (simp add: uuid7_auto a)
  have ts: "ts + 2 * length rest < 2 ^ 48" using adv(3) "2.prems"(3,4) by auto
  have rest: "list_all (\<lambda>(ns, _, _). ns div 1000000 + 2 * length rest < 2 ^ 48) rest"
    using "2.prems"(3) by (auto elim!: list_all_weaken)
  obtain us where us: "uuid7_series rest ?g = Inr us" "length us = length rest" "strictly_sorted us"
      "list_all (\<lambda>u. uuid7_int ts c r' < u) us"
    using "2.IH"[OF u refl _ _ rest ts, of r'] adv(2) by auto
  have lt: "uuid7_int t (last_counter_v7 g) r < uuid7_int ts c r'"
    using adv ts by (intro uuid7_int_less) auto
  have "list_all (\<lambda>v. uuid7_int t (last_counter_v7 g) r < v) us"
    using us(4) lt by (auto simp: list_all_iff dest: less_trans)
  with lt us show ?case by (simp add: u list_all_iff)
qed

section \<open>Claims\<close>

text \<open>
  (C40) The identifiers a process generates strictly increase, one call after the other, although the
  clock may stand still or go backwards and the counter may overflow: \<open>uuid7\<close> never raises and the
  results are in increasing order, as long as the clock stays \<open>2 n\<close> milliseconds below \<open>2\<^sup>4\<^sup>8\<close> for \<open>n\<close> calls.
\<close>

theorem uuid7_monotonic:
  assumes "series_bounded inputs"
  shows "\<exists>us. uuid7_series inputs uuid7_globals_init = Inr us \<and> length us = length inputs \<and> strictly_sorted us"
proof (cases inputs)
  case Nil
  then show ?thesis by simp
next
  case (Cons i rest)
  obtain ns rand rand4 where i: "i = (ns, rand, rand4)" by (metis prod_cases3)
  let ?c = "uuid7_get_counter_and_tail rand"
  let ?g = "\<lparr>last_timestamp_v7 = Some (ns div 1000000), last_counter_v7 = fst ?c\<rparr>"
  have u: "uuid7 None ns rand rand4 uuid7_globals_init = Inr (uuid7_int (ns div 1000000) (fst ?c) (snd ?c), ?g)"
    by (simp add: uuid7_auto uuid7_advance_def uuid7_globals_init_def split: prod.splits)
  have "list_all (\<lambda>(ns, _, _). ns div 1000000 + 2 * length rest < 2 ^ 48) rest"
    using assms by (auto simp: series_bounded_def Cons elim!: list_all_weaken)
  then obtain us where us: "uuid7_series rest ?g = Inr us" "length us = length rest" "strictly_sorted us"
      "list_all (\<lambda>u. uuid7_int (ns div 1000000) (fst ?c) (snd ?c) < u) us"
    using series_increasing[of ?g "ns div 1000000" rest "snd ?c"] counter_and_tail_bound assms
    by (auto simp: series_bounded_def Cons i simp del: split_paired_All)
  then show ?thesis by (simp add: Cons i u list_all_iff)
qed

theorem uuid7_monotonic_witness:
  "series_bounded [(5000000, 7, 1), (5000000, 9, 2), (3000000, 4, 3)] \<and>
   (\<exists>us. uuid7_series [(5000000, 7, 1), (5000000, 9, 2), (3000000, 4, 3)] uuid7_globals_init = Inr us \<and>
      length us = 3 \<and> strictly_sorted us)"
proof -
  have "series_bounded [(5000000, 7, 1), (5000000, 9, 2), (3000000, 4, 3)]" by (simp add: series_bounded_def)
  with uuid7_monotonic[OF this] show ?thesis by auto
qed

text \<open>
  A UUID made from an explicit timestamp below \<open>2\<^sup>4\<^sup>8\<close> fits in 128 bits, is a version 7 UUID, and
  \<open>uuid7_timestamp_ms\<close> reads exactly that timestamp back; the module's state is unchanged.
\<close>

theorem uuid7_timestamp_roundtrip:
  assumes "t < 2 ^ 48"
  shows "\<exists>u. uuid7 (Some t) ns rand rand4 g = Inr (u, g) \<and> u < 2 ^ 128 \<and> uuid_version u = Some 7 \<and>
    uuid7_timestamp_ms u = Inr t"
proof -
  obtain c r where c: "uuid7_get_counter_and_tail rand = (c, r)" by fastforce
  have "uuid7_int t c r < 2 ^ 128" using uuid7_int_fits[of t c r] by (simp add: UINT_128_MAX_def push_bit_eq_mult)
  then show ?thesis
    using assms uuid7_int_timestamp[of t c r] by (simp add: uuid7_def c uuid7_int_fits uuid7_int_version)
qed

theorem uuid7_timestamp_roundtrip_witness:
  "\<exists>u. uuid7 (Some 1700000000000) 0 123456789 0 uuid7_globals_init = Inr (u, uuid7_globals_init) \<and>
     u < 2 ^ 128 \<and> uuid_version u = Some 7 \<and> uuid7_timestamp_ms u = Inr 1700000000000"
  by (rule uuid7_timestamp_roundtrip) simp

end
