(* ===== verification/Two_Phase.thy ===== *)
theory Two_Phase
  imports Nested_Txn State_Ref Uuid7
begin

text \<open>
  Two-phase commit of one transaction: the coordinator and participant halves of
  \<open>SidecarStateManager\<close> in \<open>reboot/aio/state_managers.py\<close>, with restarts of either side.

  Each participant is a state, named by its type and reference, with the server that holds it in
  memory and its records in the database.  The coordinator has a future on which participants
  watch, a place in its control flow and a record in the database.  Coroutines are cut at the
  \<open>await\<close>s where another step can be observed; messages are delivered in any order, any number of
  times where the sender retries, or never.  A restart loses everything but the database.

  The database is \<open>reboot/server/database.cc\<close>, used through the calls of \<open>DatabaseClient\<close>; a database call
  that fails leaves no effect.  The database handles a request to prepare that it has received at some later time, whatever
  becomes of the server that sent it: what is left when the server forgets the transaction here is kept by the system of
  the theory \<open>Two_Phase_Inv\<close>.
\<close>

section \<open>Database\<close>

text \<open>
  A state's transaction in the database: what recovery returns of it, and the state to be written.
  Only a prepared one keeps its contents over a restart.
\<close>

type_synonym ('m, 'k) db_txn = "('m, 'k) stored_txn \<times> bytes option"

text \<open>A prepare request carries the writes under restart detection, and nothing otherwise.\<close>

type_synonym ('m, 'k) db_request = "('m, 'k) db_txn option"

definition db_participant_prepare :: "('m, 'k) db_request \<Rightarrow> ('m, 'k) db_txn option \<Rightarrow> ('m, 'k) db_txn option" where
  "db_participant_prepare req d =
     (case req of Some (st, b) \<Rightarrow> Some (st\<lparr>s_prepared := True\<rparr>, b)
      | None \<Rightarrow> map_option (\<lambda>(st, b). (st\<lparr>s_prepared := True\<rparr>, b)) d)"

definition is_prepared :: "('m, 'k) db_txn option \<Rightarrow> bool" where
  "is_prepared d \<longleftrightarrow> (case d of None \<Rightarrow> False | Some (st, _) \<Rightarrow> s_prepared st)"

text \<open>What a restart of the database's owner leaves of a transaction.\<close>

definition db_recovered :: "('m, 'k) db_txn \<Rightarrow> ('m, 'k) db_txn" where
  "db_recovered = (\<lambda>(st, b). if s_prepared st then (st, b) else (st\<lparr>s_tasks := [], s_mutations := []\<rparr>, None))"

section \<open>Participants\<close>

datatype ('m, 'k) task_status = No_task | In_flight "('m, 'k) db_request" | Raised | Done

text \<open>
  The server's memory for a state, as far as this transaction goes: \<open>txn\<close> is its entry in
  \<open>_participant_transactions\<close>, \<open>sv_state\<close> the entry in \<open>_states\<close>, \<open>sv_queues\<close> the streaming readers
  outside transactions, \<open>sv_mutations\<close> the cache of idempotent mutations, \<open>dispatched\<close> the tasks handed
  to the dispatcher, \<open>recovery_ms\<close> the time of the last restart.
\<close>

record ('s, 'm, 'k) server =
  txn :: "('s, 'm, 'k) participant option"
  prepare_task :: "('m, 'k) task_status"
  sv_state :: "'s option"
  sv_queues :: "('s \<times> uuid option) list list option"
  sv_mutations :: "(uuid \<times> 'm) list option"
  dispatched :: "'k task list"
  recovery_ms :: "nat option"

text \<open>What is fixed for a transaction: its root id, and parameters of the library.\<close>

record ('s, 'k) tp_env =
  root :: uuid
  proto_of :: "'s proto"
  valid_tasks :: "'k task list \<Rightarrow> bool"

definition SORTED_MAP_TYPE_NAME :: pystr where
  "SORTED_MAP_TYPE_NAME = str ''rbt.std.collections.v1.SortedMap''"

definition can_use_restart_detection :: "nat option \<Rightarrow> uuid \<Rightarrow> pystr \<Rightarrow> bool" where
  "can_use_restart_detection recovery r state_type \<longleftrightarrow>
     recovery \<noteq> None \<and> uuid_version r = Some 7 \<and> state_type \<noteq> SORTED_MAP_TYPE_NAME"

text \<open>Whether the server restarted after the transaction was created.\<close>

definition restarted_since :: "nat option \<Rightarrow> uuid \<Rightarrow> bool" where
  "restarted_since recovery r =
     (case (recovery, uuid7_timestamp_ms r) of (Some t, Inr created) \<Rightarrow> t > created | _ \<Rightarrow> False)"

text \<open>
  The part of \<open>transactionally\<close> that makes the state a participant, and \<open>_transaction_participant_start\<close>
  once the lock is acquired: \<open>me\<close> names the new object.  Without restart detection the transaction is
  stored at once.  \<open>Inl\<close>: the call fails and the state does not take part.
\<close>

datatype join_error = Restart_detected | Join_failed txn_error

definition stored_of :: "('s, 'm, 'k) participant \<Rightarrow> ('m, 'k) stored_txn" where
  "stored_of p = \<lparr>s_ids = ids p, s_coordinator = coordinator p, s_state_type = p_state_type p,
     s_state_ref = p_state_ref p, s_prepared = False, s_tasks = tasks p, s_mutations = idempotent_mutations p\<rparr>"

definition participant_start :: "nat \<Rightarrow> ctx \<Rightarrow> ('s, 'm, 'k) server \<Rightarrow>
    join_error + (('s, 'm, 'k) server \<times> ('m, 'k) db_txn option)" where
  "participant_start me c sv =
     (let r = hd (transaction_ids c);
          restart = can_use_restart_detection (recovery_ms sv) r (c_state_type c)
      in if restart \<and> restarted_since (recovery_ms sv) r then Inl Restart_detected
         else case from_context me c restart of
             Inl e \<Rightarrow> Inl (Join_failed e)
           | Inr p \<Rightarrow>
               if restart then Inr (sv\<lparr>txn := Some p, prepare_task := No_task\<rparr>, None)
               else Inr (sv\<lparr>txn := Some (p\<lparr>stored := True\<rparr>), prepare_task := No_task\<rparr>, Some (stored_of p, None)))"

text \<open>
  A call within the transaction leaves the object with other contents; without restart detection its
  writes go to the database at once.
\<close>

definition same_txn :: "('s, 'm, 'k) participant \<Rightarrow> ('s, 'm, 'k) participant \<Rightarrow> bool" where
  "same_txn p q \<longleftrightarrow> oid q = oid p \<and> ids q = ids p \<and> coordinator q = coordinator p \<and>
     p_state_type q = p_state_type p \<and> p_state_ref q = p_state_ref p \<and>
     using_restart_detection q = using_restart_detection p \<and> prepared q = prepared p \<and>
     committed_result q = committed_result p \<and> (stored p \<longrightarrow> stored q)"

definition state_bytes :: "'s proto \<Rightarrow> ('s, 'm, 'k) participant \<Rightarrow> bytes option" where
  "state_bytes P p = (if t_mode p = EXCLUSIVE then map_option (\<lambda>(_, s). to_bytes P s) (t_state p) else None)"

definition stored_work :: "'s proto \<Rightarrow> ('s, 'm, 'k) participant \<Rightarrow> ('m, 'k) db_txn option \<Rightarrow> ('m, 'k) db_txn option" where
  "stored_work P q d = (if using_restart_detection q then d else Some (stored_of q, state_bytes P q))"

section \<open>Preparing a participant\<close>

record prepare_request =
  abort_via_response :: bool
  read_only_aware :: bool
  request_read_only :: bool

datatype prepare_response = Response_prepared | Response_abort | Response_restart_detected nat

text \<open>
  What a handler does next: answer, fail the RPC, wait for ownership, or wait for the task that
  prepares in the database.
\<close>

datatype prepare_step = Answer prepare_response | Rpc_error | Wait_ownership | Wait_task

definition prepare_request_of :: "'s proto \<Rightarrow> ('s, 'm, 'k) participant \<Rightarrow> ('m, 'k) db_request" where
  "prepare_request_of P p =
     (if using_restart_detection p then Some (stored_of p, state_bytes P p) else None)"

text \<open>The object is dropped, and with it the reference to its task.\<close>

definition complete_participant_transaction :: "('s, 'm, 'k) server \<Rightarrow> ('s, 'm, 'k) server" where
  "complete_participant_transaction sv = sv\<lparr>txn := None, prepare_task := No_task\<rparr>"

definition elides :: "bool \<Rightarrow> ('s, 'm, 'k) participant \<Rightarrow> bool" where
  "elides aware p \<longleftrightarrow> t_mode p = SHARED \<and> idempotent_mutations p = [] \<and> using_restart_detection p \<and> aware"

text \<open>
  \<open>transaction_participant_prepare\<close>: the third component says whether the prepare and commit were
  elided.  Marking prepared and committed raises only on a transaction already prepared.
\<close>

definition transaction_participant_prepare :: "('s, 'k) tp_env \<Rightarrow> bool \<Rightarrow> ('s, 'm, 'k) participant \<Rightarrow> ('s, 'm, 'k) server \<Rightarrow>
    prepare_step \<times> ('s, 'm, 'k) server \<times> bool" where
  "transaction_participant_prepare E aware p sv =
     (case wait_ownership_turn (is_claimable_by [hd (ids p)]) p of
        Inl _ \<Rightarrow> (Rpc_error, sv, False)
      | Inr Wait \<Rightarrow> (Wait_ownership, sv, False)
      | Inr Proceed \<Rightarrow>
          if finished p then (Answer Response_prepared, sv, False)
          else if elides aware p then
            (if tasks p \<noteq> [] then (Rpc_error, sv, False)
             else case rbind (prepare p) (\<lambda>(_, q). commit q) of
                 Inl _ \<Rightarrow> (Rpc_error, sv, False)
               | Inr _ \<Rightarrow> (Answer Response_prepared, complete_participant_transaction sv, True))
          else let req = prepare_request_of (proto_of E) p in
            (case prepare_task sv of
               In_flight req' \<Rightarrow> if req' = req then (Wait_task, sv, False) else (Rpc_error, sv, False)
             | Done \<Rightarrow> if prepared p then (Wait_task, sv, False) else (Rpc_error, sv, False)
             | _ \<Rightarrow> (Wait_task, sv\<lparr>prepare_task := In_flight req\<rparr>, False)))"

text \<open>The handler \<open>Prepare\<close>, for the state of type \<open>st\<close>.\<close>

definition Prepare :: "('s, 'k) tp_env \<Rightarrow> pystr \<Rightarrow> prepare_request \<Rightarrow> ('s, 'm, 'k) server \<Rightarrow>
    prepare_step \<times> ('s, 'm, 'k) server \<times> bool" where
  "Prepare E st rq sv =
     (case txn sv of
        None \<Rightarrow>
          (let can = can_use_restart_detection (recovery_ms sv) (root E) st in
           if can \<and> restarted_since (recovery_ms sv) (root E)
           then (if abort_via_response rq then Answer (Response_restart_detected (the (recovery_ms sv))) else Rpc_error, sv, False)
           else if abort_via_response rq
           then (if request_read_only rq \<and> read_only_aware rq \<and> can then Answer Response_prepared
                 else Answer Response_abort, sv, False)
           else (Rpc_error, sv, False))
      | Some p \<Rightarrow>
          if hd (ids p) \<noteq> root E
          then (if abort_via_response rq then Answer Response_abort else Rpc_error, sv, False)
          else if prepared p then (Answer Response_prepared, sv, False)
          else if streaming_readers p \<noteq> [] then (Rpc_error, sv, False)
          else if \<not> valid_tasks E (tasks p) then (Rpc_error, sv, False)
          else if unrecoverable_abort p
          then (if abort_via_response rq then Answer Response_abort else Rpc_error, sv, False)
          else transaction_participant_prepare E (read_only_aware rq) p sv)"

text \<open>The task \<open>prepare_in_database\<close> once the database has answered.\<close>

definition prepare_in_database :: "('s, 'm, 'k) participant \<Rightarrow> ('s, 'm, 'k) server \<Rightarrow> txn_error + ('s, 'm, 'k) server" where
  "prepare_in_database p sv =
     rbind (prepare p) (\<lambda>(_, q). Inr (sv\<lparr>txn := Some q, prepare_task := Done\<rparr>))"

section \<open>Finishing a participant\<close>

text \<open>
  \<open>transaction_participant_commit\<close>: the writes the database has made durable, if it was asked to commit,
  and the server's memory afterwards; an error after that leaves the transaction unfinished.
\<close>

definition commit_in_memory :: "('s, 'm, 'k) participant \<Rightarrow> ('s, 'm, 'k) server \<Rightarrow> txn_error + ('s, 'm, 'k) server" where
  "commit_in_memory p sv =
     rbind (case t_state p of
         Some (_, s) \<Rightarrow> Inr (sv\<lparr>sv_state := Some s,
             sv_queues := map_option (map (\<lambda>q. q @ [(s, p_idempotency_key p)])) (sv_queues sv)\<rparr>)
       | None \<Rightarrow> if sv_queues sv = None \<and> sv_state sv = None then Inr sv else Inl Failed_assert) (\<lambda>sv1.
     let sv2 = sv1\<lparr>dispatched := dispatched sv1 @ tasks p,
                   sv_mutations := map_option (\<lambda>ms. fold (\<lambda>(k, m). mutation_put k m) (idempotent_mutations p) ms) (sv_mutations sv1)\<rparr> in
     rbind (commit p) (\<lambda>_. Inr (complete_participant_transaction sv2)))"

datatype finish_error = Database_error | Txn_failed txn_error

definition lift_txn :: "txn_error + 'a \<Rightarrow> finish_error + 'a" where
  "lift_txn r = (case r of Inl e \<Rightarrow> Inl (Txn_failed e) | Inr x \<Rightarrow> Inr x)"

definition transaction_participant_commit :: "('s, 'm, 'k) participant \<Rightarrow> ('s, 'm, 'k) server \<Rightarrow> ('m, 'k) db_txn option \<Rightarrow>
    ('m, 'k) db_txn option \<times> (finish_error + ('s, 'm, 'k) server)" where
  "transaction_participant_commit p sv d =
     (if finished p then (None, Inr sv)
      else if \<not> prepared p then (None, Inl (Txn_failed Failed_assert))
      else case prepare_task sv of
          In_flight _ \<Rightarrow> (None, Inl (Txn_failed Failed_assert))
        | _ \<Rightarrow> if is_prepared d then (d, lift_txn (commit_in_memory p sv)) else (None, Inl Database_error))"

text \<open>
  \<open>transaction_participant_abort\<close>, once no prepare is in flight: whether the database is told, and the
  memory afterwards.
\<close>

definition transaction_participant_abort :: "('s, 'm, 'k) participant \<Rightarrow> ('s, 'm, 'k) server \<Rightarrow> bool \<times> (finish_error + ('s, 'm, 'k) server)" where
  "transaction_participant_abort p sv =
     (if finished p then (False, Inr sv)
      else (stored p \<or> using_restart_detection p,
            lift_txn (rbind (abort p) (\<lambda>_. Inr (complete_participant_transaction sv)))))"

text \<open>
  Recovery of a participant: \<open>RecoverResponse.participant_transactions\<close> and \<open>from_sidecar\<close>.  The new server knows nothing of a
  prepare that the old one had in flight; the database may handle it later.
\<close>

definition recover_participant :: "nat \<Rightarrow> nat option \<Rightarrow> ('m, 'k) db_txn option \<Rightarrow>
    txn_error + (('s, 'm, 'k) server \<times> ('m, 'k) db_txn option)" where
  "recover_participant me now d =
     (let sv = \<lparr>txn = None, prepare_task = No_task, sv_state = None, sv_queues = None, sv_mutations = None,
                dispatched = [], recovery_ms = now\<rparr>
      in case map_option db_recovered d of
          None \<Rightarrow> Inr (sv, None)
        | Some (st, b) \<Rightarrow> rbind (from_sidecar me st) (\<lambda>p. Inr (sv\<lparr>txn := Some p\<rparr>, Some (st, b))))"

section \<open>Coordinator\<close>

type_synonym pid = "pystr \<times> pystr"

datatype 'a future = Pending | Result 'a

text \<open>
  Where the coordinator's coroutines are: in the body of the transaction; preparing participants, in
  the background when all are read-only, or for the second time after a restart; recording
  \<open>preparing=False\<close>; telling participants to commit; deleting its record; aborting.  The sets are the
  participants that have answered.
\<close>

datatype phase =
    Idle
  | Running
  | Read_only_prepare participants "pid set"
  | Read_only_done
  | Prepare_phase bool participants "pid set"
  | Mark_prepared participants
  | Commit_phase participants "pid set"
  | Cleanup_phase participants
  | Abort_cleanup participants
  | Abort_phase participants
  | Over

text \<open>
  \<open>future\<close> is the entry in \<open>_coordinator_participants\<close>; \<open>put_pending\<close> the write of the record that is on its
  way to the database; \<open>db_record\<close> the record: whether it says \<open>preparing\<close>, and the participants.
  \<open>incarnation\<close> counts restarts, so that an answer reaches only the call that waits for it.
\<close>

record coord =
  future :: "participants future option"
  phase :: phase
  put_pending :: "participants option"
  db_record :: "(bool \<times> participants) option"
  incarnation :: nat

definition coord_init :: coord where
  "coord_init = \<lparr>future = None, phase = Idle, put_pending = None, db_record = None, incarnation = 0\<rparr>"

definition transaction_coordinator_start :: "coord \<Rightarrow> coord option" where
  "transaction_coordinator_start c =
     (if phase c = Idle \<and> future c = None then Some (c\<lparr>future := Some Pending, phase := Running\<rparr>) else None)"

definition transaction_coordinator_complete :: "participants \<Rightarrow> coord \<Rightarrow> coord option" where
  "transaction_coordinator_complete ps c =
     (if phase c \<noteq> Running then None
      else if should_commit ps = [] then Some (c\<lparr>phase := Read_only_prepare ps {}\<rparr>)
      else Some (c\<lparr>phase := Prepare_phase False ps {}, put_pending := Some ps\<rparr>))"

definition database_coordinator_prepare :: "coord \<Rightarrow> coord option" where
  "database_coordinator_prepare c =
     (case put_pending c of None \<Rightarrow> None
      | Some ps \<Rightarrow> Some (c\<lparr>put_pending := None, db_record := Some (True, ps)\<rparr>))"

text \<open>
  \<open>_transaction_coordinator_prepare\<close>: who is sent \<open>Prepare\<close>, with what in the request's \<open>read_only\<close>.
\<close>

fun prepare_targets :: "phase \<Rightarrow> (pid \<times> bool) list" where
  "prepare_targets (Read_only_prepare ps _) = map (\<lambda>x. (x, x \<in> set (read_only ps))) (should_prepare False ps)"
| "prepare_targets (Prepare_phase again ps _) = map (\<lambda>x. (x, x \<in> set (read_only ps))) (should_prepare again ps)"
| "prepare_targets _ = []"

fun prepare_acks :: "phase \<Rightarrow> pid set" where
  "prepare_acks (Read_only_prepare _ acks) = acks"
| "prepare_acks (Prepare_phase _ _ acks) = acks"
| "prepare_acks _ = {}"

text \<open>
  \<open>_transaction_coordinator_abort\<close> up to the call of the database.  Who waits on the future gets \<open>None\<close>,
  who comes later finds no entry: both are told the transaction aborted.
\<close>

definition transaction_coordinator_abort :: "participants \<Rightarrow> coord \<Rightarrow> coord option" where
  "transaction_coordinator_abort ps c =
     (if future c = Some Pending then Some (c\<lparr>future := None, phase := Abort_cleanup ps\<rparr>) else None)"

text \<open>The answer of a participant; an abort of a read-only transaction ends the background task only.\<close>

definition prepare_answered :: "pid \<Rightarrow> prepare_response \<Rightarrow> coord \<Rightarrow> coord option" where
  "prepare_answered x r c =
     (case phase c of
        Read_only_prepare ps acks \<Rightarrow>
          if r = Response_prepared then Some (c\<lparr>phase := Read_only_prepare ps (insert x acks)\<rparr>)
          else Some (c\<lparr>future := Some (Result ps), phase := Read_only_done\<rparr>)
      | Prepare_phase again ps acks \<Rightarrow>
          if r = Response_prepared then Some (c\<lparr>phase := Prepare_phase again ps (insert x acks)\<rparr>)
          else transaction_coordinator_abort ps c
      | _ \<Rightarrow> None)"

text \<open>
  All have answered, and the record is written: the rest of \<open>_transaction_coordinator_complete\<close>, which
  returns to the caller, or of \<open>_transaction_coordinator_reprepare\<close>.
\<close>

definition prepare_completed :: "coord \<Rightarrow> coord option" where
  "prepare_completed c =
     (if \<not> set (map fst (prepare_targets (phase c))) \<subseteq> prepare_acks (phase c) then None
      else case phase c of
          Read_only_prepare ps _ \<Rightarrow> Some (c\<lparr>future := Some (Result ps), phase := Read_only_done\<rparr>)
        | Prepare_phase again ps _ \<Rightarrow>
            if put_pending c = None then Some (c\<lparr>future := Some (Result ps), phase := Mark_prepared ps\<rparr>) else None
        | _ \<Rightarrow> None)"

definition read_only_pop :: "coord \<Rightarrow> coord option" where
  "read_only_pop c = (if phase c = Read_only_done then Some (c\<lparr>future := None, phase := Over\<rparr>) else None)"

text \<open>\<open>_transaction_coordinator_commit_control_loop\<close>, from one \<open>await\<close> to the next.\<close>

definition commit_loop_mark :: "coord \<Rightarrow> coord option" where
  "commit_loop_mark c =
     (case phase c of Mark_prepared ps \<Rightarrow> Some (c\<lparr>db_record := Some (False, ps), phase := Commit_phase ps {}\<rparr>) | _ \<Rightarrow> None)"

definition commit_answered :: "pid \<Rightarrow> coord \<Rightarrow> coord option" where
  "commit_answered x c =
     (case phase c of Commit_phase ps acks \<Rightarrow> Some (c\<lparr>phase := Commit_phase ps (insert x acks)\<rparr>) | _ \<Rightarrow> None)"

definition commit_retry :: "coord \<Rightarrow> coord option" where
  "commit_retry c = (case phase c of Commit_phase ps _ \<Rightarrow> Some (c\<lparr>phase := Commit_phase ps {}\<rparr>) | _ \<Rightarrow> None)"

text \<open>\<open>del self._coordinator_participants[transaction_id]\<close> raises when there is no entry, and the loop retries.\<close>

definition commit_loop_forget :: "coord \<Rightarrow> coord option" where
  "commit_loop_forget c =
     (case phase c of
        Commit_phase ps acks \<Rightarrow>
          if \<not> set (should_commit ps) \<subseteq> acks then None
          else if future c = None then Some (c\<lparr>phase := Commit_phase ps {}\<rparr>)
          else Some (c\<lparr>future := None, phase := Cleanup_phase ps\<rparr>)
      | _ \<Rightarrow> None)"

definition commit_loop_cleanup :: "bool \<Rightarrow> coord \<Rightarrow> coord option" where
  "commit_loop_cleanup ok c =
     (case phase c of
        Cleanup_phase ps \<Rightarrow> if ok then Some (c\<lparr>db_record := None, phase := Over\<rparr>)
                            else Some (c\<lparr>phase := Commit_phase ps {}\<rparr>)
      | _ \<Rightarrow> None)"

text \<open>The rest of \<open>_transaction_coordinator_abort\<close>: when the database fails, no \<open>Abort\<close> is sent.\<close>

definition abort_cleaned :: "bool \<Rightarrow> coord \<Rightarrow> coord option" where
  "abort_cleaned ok c =
     (case phase c of
        Abort_cleanup ps \<Rightarrow> if ok then Some (c\<lparr>db_record := None, phase := Abort_phase ps\<rparr>)
                            else Some (c\<lparr>phase := Over\<rparr>)
      | _ \<Rightarrow> None)"

text \<open>The handler \<open>Watch\<close>: \<open>None\<close> while the future is pending, otherwise whether the participant must abort.\<close>

definition Watch :: "pid \<Rightarrow> coord \<Rightarrow> bool option" where
  "Watch x c =
     (case future c of
        None \<Rightarrow> Some True
      | Some Pending \<Rightarrow> None
      | Some (Result ps) \<Rightarrow> Some (x \<notin> set (should_commit ps @ read_only ps)))"

text \<open>A restart of the coordinator's server, with \<open>recover\<close>: the record decides how it goes on.\<close>

definition recover_coordinator :: "coord \<Rightarrow> coord" where
  "recover_coordinator c =
     (let c' = c\<lparr>put_pending := None, incarnation := Suc (incarnation c)\<rparr>
      in case db_record c of
          None \<Rightarrow> c'\<lparr>future := None, phase := Over\<rparr>
        | Some (preparing, ps) \<Rightarrow>
            if preparing then c'\<lparr>future := Some Pending, phase := Prepare_phase True ps {}\<rparr>
            else c'\<lparr>future := Some (Result ps), phase := Commit_phase ps {}\<rparr>)"

end
