(* ===== verification/Two_Phase_Inv.thy ===== *)
theory Two_Phase_Inv
  imports Two_Phase
begin

text \<open>
  Runs of two-phase commit: the participants, the coordinator and the messages between them as one
  transition system, the invariant of its runs, and that every step keeps it.
\<close>

section \<open>The system\<close>

text \<open>
  \<open>db\<close> and \<open>applied\<close> are the database: the transaction of a state, and what a commit has made durable.
  \<open>handlers\<close> are the \<open>Prepare\<close> handlers that wait, with the object they have looked up.  \<open>elided\<close>,
  \<open>outcome\<close> and \<open>plist\<close> record history: who skipped its prepare and commit, the outcome the coordinator
  has made known, the participants it was given.

  A request to prepare that the database has not handled is the \<open>In_flight\<close> of the server's task, and in
  \<open>late_prepares\<close> once the server has forgotten the task; the flag says whether it has by a restart or by
  completing the transaction as read-only, and not by a commit or an abort.
\<close>

record ('s, 'm, 'k) tp_sys =
  co :: coord
  srv :: "pid \<Rightarrow> ('s, 'm, 'k) server"
  db :: "pid \<Rightarrow> ('m, 'k) db_txn option"
  applied :: "pid \<Rightarrow> ('m, 'k) db_txn option"
  prepare_calls :: "(nat \<times> pid \<times> bool) set"
  handlers :: "(nat \<times> pid \<times> nat) set"
  prepare_replies :: "(nat \<times> pid \<times> prepare_response) set"
  commit_calls :: "(nat \<times> pid) set"
  commit_replies :: "(nat \<times> pid) set"
  abort_calls :: "pid set"
  watch_replies :: "(pid \<times> bool) set"
  elided :: "pid set"
  outcome :: "bool option"
  plist :: "participants option"
  next_oid :: nat
  late_prepares :: "(pid \<times> ('m, 'k) db_request \<times> bool) set"

datatype ('s, 'm, 'k) tp_event =
    Start
  | Join pid ctx
  | Work pid "('s, 'm, 'k) participant"
  | Complete participants
  | Fail participants
  | Put_record
  | Send_prepare pid
  | Prepare_rpc nat pid bool
  | Db_prepare pid
  | Db_prepare_fails pid
  | Db_prepare_late pid "('m, 'k) db_request" bool
  | Prepare_return nat pid nat
  | Recv_prepare pid prepare_response
  | Prepared_all
  | Read_only_pop
  | Mark
  | Send_commit pid
  | Commit_rpc nat pid
  | Recv_commit pid
  | Commit_retry
  | Forget
  | Cleanup bool
  | Abort_cleaned bool
  | Send_abort pid
  | Abort_rpc pid
  | Watch_rpc pid
  | Watch_return pid bool
  | Restart_coordinator
  | Restart_participant pid "nat option"

definition blank_server :: "nat option \<Rightarrow> ('s, 'm, 'k) server" where
  "blank_server now = \<lparr>txn = None, prepare_task = No_task, sv_state = None, sv_queues = None,
     sv_mutations = None, dispatched = [], recovery_ms = now\<rparr>"

definition tp_init :: "(pid \<Rightarrow> ('s, 'm, 'k) server) \<Rightarrow> ('s, 'm, 'k) tp_sys" where
  "tp_init servers = \<lparr>co = coord_init, srv = servers, db = (\<lambda>_. None), applied = (\<lambda>_. None), prepare_calls = {},
     handlers = {}, prepare_replies = {}, commit_calls = {}, commit_replies = {}, abort_calls = {}, watch_replies = {},
     elided = {}, outcome = None, plist = None, next_oid = 0, late_prepares = {}\<rparr>"

definition with_co :: "coord option \<Rightarrow> (coord \<Rightarrow> ('s, 'm, 'k) tp_sys) \<Rightarrow> ('s, 'm, 'k) tp_sys option" where
  "with_co r f = map_option f r"

text \<open>A commit and an abort at the participant; the coordinator is answered only when they return.\<close>

definition commit_at :: "pid \<Rightarrow> ('s, 'm, 'k) participant \<Rightarrow> ('s, 'm, 'k) tp_sys \<Rightarrow> bool \<times> ('s, 'm, 'k) tp_sys" where
  "commit_at x p s =
     (case transaction_participant_commit p (srv s x) (db s x) of
        (w, r) \<Rightarrow>
          let s1 = (case w of None \<Rightarrow> s
                    | Some d \<Rightarrow> s\<lparr>applied := (applied s)(x := Some d), db := (db s)(x := None)\<rparr>)
          in (case r of Inl _ \<Rightarrow> (False, s1) | Inr sv \<Rightarrow> (True, s1\<lparr>srv := (srv s1)(x := sv)\<rparr>)))"

definition abort_at :: "pid \<Rightarrow> ('s, 'm, 'k) participant \<Rightarrow> ('s, 'm, 'k) tp_sys \<Rightarrow> ('s, 'm, 'k) tp_sys option" where
  "abort_at x p s =
     (case prepare_task (srv s x) of
        In_flight _ \<Rightarrow> None
      | _ \<Rightarrow> (case transaction_participant_abort p (srv s x) of
               (tell, r) \<Rightarrow>
                 let s1 = (if tell then s\<lparr>db := (db s)(x := None)\<rparr> else s)
                 in (case r of Inl _ \<Rightarrow> Some s1 | Inr sv \<Rightarrow> Some (s1\<lparr>srv := (srv s1)(x := sv)\<rparr>))))"

text \<open>The handlers \<open>Commit\<close> and \<open>Abort\<close>, and the end of a participant's watch.\<close>

definition Commit_handler :: "('s, 'k) tp_env \<Rightarrow> pid \<Rightarrow> ('s, 'm, 'k) tp_sys \<Rightarrow> bool \<times> ('s, 'm, 'k) tp_sys" where
  "Commit_handler E x s =
     (case txn (srv s x) of None \<Rightarrow> (True, s)
      | Some p \<Rightarrow> if hd (ids p) \<noteq> root E then (True, s) else commit_at x p s)"

definition Abort_handler :: "('s, 'k) tp_env \<Rightarrow> pid \<Rightarrow> ('s, 'm, 'k) tp_sys \<Rightarrow> ('s, 'm, 'k) tp_sys option" where
  "Abort_handler E x s =
     (case txn (srv s x) of None \<Rightarrow> Some s
      | Some p \<Rightarrow> if hd (ids p) \<noteq> root E then Some s else abort_at x p s)"

definition transaction_participant_watch :: "pid \<Rightarrow> bool \<Rightarrow> ('s, 'm, 'k) tp_sys \<Rightarrow> ('s, 'm, 'k) tp_sys option" where
  "transaction_participant_watch x ab s =
     (case txn (srv s x) of None \<Rightarrow> None
      | Some p \<Rightarrow> if \<not> ab \<and> prepared p then Some (snd (commit_at x p s)) else abort_at x p s)"

text \<open>A delivery of \<open>Prepare\<close>.\<close>

definition prepare_at :: "('s, 'k) tp_env \<Rightarrow> nat \<Rightarrow> pid \<Rightarrow> bool \<Rightarrow> ('s, 'm, 'k) tp_sys \<Rightarrow> ('s, 'm, 'k) tp_sys" where
  "prepare_at E n x ro s =
     (let rq = \<lparr>abort_via_response = True, read_only_aware = True, request_read_only = ro\<rparr> in
      case Prepare E (fst x) rq (srv s x) of
        (st, sv, el) \<Rightarrow>
          let s1 = s\<lparr>srv := (srv s)(x := sv), elided := (if el then insert x (elided s) else elided s)\<rparr> in
          (case st of
             Answer r \<Rightarrow> s1\<lparr>prepare_replies := insert (n, x, r) (prepare_replies s)\<rparr>
           | Rpc_error \<Rightarrow> s1
           | _ \<Rightarrow> (case txn (srv s x) of None \<Rightarrow> s1
                   | Some p \<Rightarrow> s1\<lparr>handlers := insert (n, x, oid p) (handlers s)\<rparr>)))"

text \<open>
  A handler that waits returns once the object it has looked up is prepared or finished; it answers
  prepared in both cases.
\<close>

definition may_return :: "pid \<Rightarrow> nat \<Rightarrow> ('s, 'm, 'k) tp_sys \<Rightarrow> bool" where
  "may_return x ob s = (case txn (srv s x) of None \<Rightarrow> True | Some p \<Rightarrow> oid p = ob \<longrightarrow> prepared p)"

text \<open>Where the handler of a transaction can raise, or be cancelled.\<close>

fun may_fail :: "participants \<Rightarrow> phase \<Rightarrow> bool" where
  "may_fail ps Running = True"
| "may_fail ps (Prepare_phase again ps' _) = (\<not> again \<and> ps' = ps)"
| "may_fail ps _ = False"

fun tp_act :: "('s, 'k) tp_env \<Rightarrow> ('s, 'm, 'k) tp_event \<Rightarrow> ('s, 'm, 'k) tp_sys \<Rightarrow> ('s, 'm, 'k) tp_sys option" where
  "tp_act E Start s = with_co (transaction_coordinator_start (co s)) (\<lambda>c. s\<lparr>co := c\<rparr>)"
| "tp_act E (Join x c) s =
     (if phase (co s) = Idle \<or> txn (srv s x) \<noteq> None \<or> transaction_ids c = [] \<or> hd (transaction_ids c) \<noteq> root E
         \<or> (c_state_type c, c_state_ref c) \<noteq> x then None
      else case participant_start (next_oid s) c (srv s x) of
          Inl _ \<Rightarrow> Some s
        | Inr (sv, d) \<Rightarrow> Some (s\<lparr>srv := (srv s)(x := sv), db := (db s)(x := d), next_oid := Suc (next_oid s)\<rparr>))"
| "tp_act E (Work x q) s =
     (case txn (srv s x) of None \<Rightarrow> None
      | Some p \<Rightarrow> if prepared p \<or> \<not> same_txn p q then None
                  else Some (s\<lparr>srv := (srv s)(x := (srv s x)\<lparr>txn := Some q\<rparr>),
                               db := (db s)(x := stored_work (proto_of E) q (db s x))\<rparr>))"
| "tp_act E (Complete ps) s =
     (if set (should_commit ps) \<inter> set (read_only ps) \<noteq> {} then None
      else with_co (transaction_coordinator_complete ps (co s)) (\<lambda>c. s\<lparr>co := c, plist := Some ps\<rparr>))"
| "tp_act E (Fail ps) s =
     (if may_fail ps (phase (co s)) then with_co (transaction_coordinator_abort ps (co s)) (\<lambda>c. s\<lparr>co := c, outcome := Some False\<rparr>) else None)"
| "tp_act E Put_record s = with_co (database_coordinator_prepare (co s)) (\<lambda>c. s\<lparr>co := c\<rparr>)"
| "tp_act E (Send_prepare x) s =
     (case map_of (prepare_targets (phase (co s))) x of None \<Rightarrow> None
      | Some ro \<Rightarrow> Some (s\<lparr>prepare_calls := insert (incarnation (co s), x, ro) (prepare_calls s)\<rparr>))"
| "tp_act E (Prepare_rpc n x ro) s = (if (n, x, ro) \<in> prepare_calls s then Some (prepare_at E n x ro s) else None)"
| "tp_act E (Db_prepare x) s =
     (case (prepare_task (srv s x), txn (srv s x)) of
        (In_flight req, Some p) \<Rightarrow>
          (case (db_participant_prepare req (db s x), prepare_in_database p (srv s x)) of
             (Some d, Inr sv) \<Rightarrow> Some (s\<lparr>srv := (srv s)(x := sv), db := (db s)(x := Some d)\<rparr>)
           | _ \<Rightarrow> None)
      | _ \<Rightarrow> None)"
| "tp_act E (Db_prepare_fails x) s =
     (case prepare_task (srv s x) of
        In_flight _ \<Rightarrow> Some (s\<lparr>srv := (srv s)(x := (srv s x)\<lparr>prepare_task := Raised\<rparr>)\<rparr>) | _ \<Rightarrow> None)"
| "tp_act E (Db_prepare_late x req gone) s =
     (if (x, req, gone) \<in> late_prepares s
      then Some (s\<lparr>db := (db s)(x := db_participant_prepare req (db s x)), late_prepares := late_prepares s - {(x, req, gone)}\<rparr>) else None)"
| "tp_act E (Prepare_return n x ob) s =
     (if (n, x, ob) \<in> handlers s \<and> may_return x ob s
      then Some (s\<lparr>prepare_replies := insert (n, x, Response_prepared) (prepare_replies s)\<rparr>) else None)"
| "tp_act E (Recv_prepare x r) s =
     (if (incarnation (co s), x, r) \<in> prepare_replies s
      then with_co (prepare_answered x r (co s)) (\<lambda>c. s\<lparr>co := c,
             outcome := (if future c = Some Pending then outcome s else Some (future c \<noteq> None))\<rparr>)
      else None)"
| "tp_act E Prepared_all s = with_co (prepare_completed (co s)) (\<lambda>c. s\<lparr>co := c, outcome := Some True\<rparr>)"
| "tp_act E Read_only_pop s = with_co (read_only_pop (co s)) (\<lambda>c. s\<lparr>co := c\<rparr>)"
| "tp_act E Mark s = with_co (commit_loop_mark (co s)) (\<lambda>c. s\<lparr>co := c\<rparr>)"
| "tp_act E (Send_commit x) s =
     (case phase (co s) of
        Commit_phase ps _ \<Rightarrow> if x \<in> set (should_commit ps) then Some (s\<lparr>commit_calls := insert (incarnation (co s), x) (commit_calls s)\<rparr>) else None
      | _ \<Rightarrow> None)"
| "tp_act E (Commit_rpc n x) s =
     (if (n, x) \<in> commit_calls s then
        (case Commit_handler E x s of (ok, s') \<Rightarrow>
           Some (if ok then s'\<lparr>commit_replies := insert (n, x) (commit_replies s')\<rparr> else s'))
      else None)"
| "tp_act E (Recv_commit x) s =
     (if (incarnation (co s), x) \<in> commit_replies s then with_co (commit_answered x (co s)) (\<lambda>c. s\<lparr>co := c\<rparr>) else None)"
| "tp_act E Commit_retry s = with_co (commit_retry (co s)) (\<lambda>c. s\<lparr>co := c\<rparr>)"
| "tp_act E Forget s = with_co (commit_loop_forget (co s)) (\<lambda>c. s\<lparr>co := c\<rparr>)"
| "tp_act E (Cleanup ok) s = with_co (commit_loop_cleanup ok (co s)) (\<lambda>c. s\<lparr>co := c\<rparr>)"
| "tp_act E (Abort_cleaned ok) s = with_co (abort_cleaned ok (co s)) (\<lambda>c. s\<lparr>co := c\<rparr>)"
| "tp_act E (Send_abort x) s =
     (case phase (co s) of
        Abort_phase ps \<Rightarrow> if x \<in> set (should_prepare False ps) then Some (s\<lparr>abort_calls := insert x (abort_calls s)\<rparr>) else None
      | _ \<Rightarrow> None)"
| "tp_act E (Abort_rpc x) s = (if x \<in> abort_calls s then Abort_handler E x s else None)"
| "tp_act E (Watch_rpc x) s =
     (if txn (srv s x) = None then None
      else case Watch x (co s) of None \<Rightarrow> None
        | Some ab \<Rightarrow> Some (s\<lparr>watch_replies := insert (x, ab) (watch_replies s)\<rparr>))"
| "tp_act E (Watch_return x ab) s =
     (if (x, ab) \<in> watch_replies s then transaction_participant_watch x ab s else None)"
| "tp_act E Restart_coordinator s =
     (let c = recover_coordinator (co s)
      in Some (s\<lparr>co := c, outcome := (if outcome s = None \<and> future c = None then Some False else outcome s)\<rparr>))"
| "tp_act E (Restart_participant x now) s =
     (case recover_participant (next_oid s) now (db s x) of
        Inl _ \<Rightarrow> None
      | Inr (sv, d) \<Rightarrow> Some (s\<lparr>srv := (srv s)(x := sv), db := (db s)(x := d), next_oid := Suc (next_oid s),
          handlers := {h \<in> handlers s. fst (snd h) \<noteq> x}\<rparr>))"

text \<open>
  The database handles the requests it has received, whatever becomes of who sent them: a step after which the server of
  a state has forgotten its task leaves the request with the database.
\<close>

fun forgets_at :: "('s, 'm, 'k) tp_event \<Rightarrow> (pid \<times> bool) option" where
  "forgets_at (Join x _) = Some (x, False)"
| "forgets_at (Work x _) = Some (x, False)"
| "forgets_at (Prepare_rpc _ x _) = Some (x, True)"
| "forgets_at (Commit_rpc _ x) = Some (x, False)"
| "forgets_at (Abort_rpc x) = Some (x, False)"
| "forgets_at (Watch_return x _) = Some (x, False)"
| "forgets_at (Restart_participant x _) = Some (x, True)"
| "forgets_at _ = None"

definition left_behind :: "('s, 'm, 'k) tp_event \<Rightarrow> ('s, 'm, 'k) tp_sys \<Rightarrow> ('s, 'm, 'k) tp_sys \<Rightarrow> (pid \<times> ('m, 'k) db_request \<times> bool) set" where
  "left_behind e s t =
     (case forgets_at e of None \<Rightarrow> {}
      | Some (x, gone) \<Rightarrow>
        (case prepare_task (srv s x) of
           In_flight req \<Rightarrow> if prepare_task (srv t x) = In_flight req then {} else {(x, req, gone)}
         | _ \<Rightarrow> {}))"

definition tp_do :: "('s, 'k) tp_env \<Rightarrow> ('s, 'm, 'k) tp_event \<Rightarrow> ('s, 'm, 'k) tp_sys \<Rightarrow> ('s, 'm, 'k) tp_sys option" where
  "tp_do E e s = map_option (\<lambda>t. t\<lparr>late_prepares := late_prepares t \<union> left_behind e s t\<rparr>) (tp_act E e s)"

end
