(* ===== verification/Two_Phase_Atomic.thy ===== *)
theory Two_Phase_Atomic
  imports Two_Phase_Inv
begin

text \<open>
  The invariant of two-phase commit and that every step keeps it, except a restart of the coordinator
  while its record says \<open>preparing\<close> although the outcome is known.
\<close>

declare split_paired_All [simp del] split_paired_Ex [simp del]

section \<open>The invariant\<close>

text \<open>What a server's memory and the database hold of the transaction at one state.\<close>

definition sv_ok :: "uuid \<Rightarrow> ('s, 'm, 'k) server \<Rightarrow> ('m, 'k) db_txn option \<Rightarrow> ('m, 'k) db_txn option \<Rightarrow> bool" where
  "sv_ok r sv d ap \<longleftrightarrow>
     (case txn sv of
        None \<Rightarrow> d = None \<and> (\<forall>req. prepare_task sv \<noteq> In_flight req)
      | Some p \<Rightarrow> hd (ids p) = r \<and> (\<forall>st b. d = Some (st, b) \<longrightarrow> hd (s_ids st) = r) \<and>
          (\<forall>st b. prepare_task sv = In_flight (Some (st, b)) \<longrightarrow> hd (s_ids st) = r) \<and>
          \<not> finished p \<and> (stored p \<or> using_restart_detection p) \<and>
          (using_restart_detection p \<and> \<not> prepared p \<longrightarrow> d = None) \<and> (is_prepared d \<longrightarrow> prepared p) \<and> (prepared p \<longrightarrow> is_prepared d \<or> ap \<noteq> None))"

definition local_ok :: "uuid \<Rightarrow> ('s, 'm, 'k) tp_sys \<Rightarrow> bool" where
  "local_ok r s \<longleftrightarrow> (\<forall>x. sv_ok r (srv s x) (db s x) (applied s x))"

text \<open>A participant is settled when nothing more has to happen to its writes, and safe when it can still commit.\<close>

definition settled :: "('s, 'm, 'k) tp_sys \<Rightarrow> pid \<Rightarrow> bool" where
  "settled s x \<longleftrightarrow> applied s x \<noteq> None \<or> x \<in> elided s"

definition durable :: "('s, 'm, 'k) tp_sys \<Rightarrow> pid \<Rightarrow> bool" where
  "durable s x \<longleftrightarrow> is_prepared (db s x) \<and> (case txn (srv s x) of None \<Rightarrow> False | Some p \<Rightarrow> prepared p)"

definition safe :: "('s, 'm, 'k) tp_sys \<Rightarrow> pid \<Rightarrow> bool" where
  "safe s x \<longleftrightarrow> settled s x \<or> durable s x"

text \<open>The participants with something to commit.\<close>

definition writers :: "('s, 'm, 'k) tp_sys \<Rightarrow> pid set" where
  "writers s = (case plist s of None \<Rightarrow> {} | Some ps \<Rightarrow> set (should_commit ps))"

definition requests_ok :: "('s, 'm, 'k) tp_sys \<Rightarrow> bool" where
  "requests_ok s \<longleftrightarrow> (case plist s of
     None \<Rightarrow> prepare_calls s = {} \<and> handlers s = {} \<and> prepare_replies s = {}
   | Some ps \<Rightarrow> set (should_commit ps) \<inter> set (read_only ps) = {} \<and> (\<forall>n x ro. (n, x, ro) \<in> prepare_calls s \<longrightarrow> (ro \<longleftrightarrow> x \<in> set (read_only ps))))"

text \<open>While no outcome is known.\<close>

fun undecided_phase :: "phase \<Rightarrow> ('s, 'm, 'k) tp_sys \<Rightarrow> bool" where
  "undecided_phase Idle s \<longleftrightarrow> future (co s) = None \<and> put_pending (co s) = None \<and> db_record (co s) = None \<and>
     plist s = None \<and> (\<forall>x. txn (srv s x) = None)"
| "undecided_phase Running s \<longleftrightarrow> future (co s) = Some Pending \<and> put_pending (co s) = None \<and>
     db_record (co s) = None \<and> plist s = None"
| "undecided_phase (Read_only_prepare ps acks) s \<longleftrightarrow> future (co s) = Some Pending \<and> put_pending (co s) = None \<and>
     db_record (co s) = None \<and> plist s = Some ps \<and> should_commit ps = []"
| "undecided_phase (Prepare_phase again ps acks) s \<longleftrightarrow> future (co s) = Some Pending \<and> plist s = Some ps \<and>
     (put_pending (co s) = None \<and> db_record (co s) = Some (True, ps) \<or>
      \<not> again \<and> put_pending (co s) = Some ps \<and> db_record (co s) = None) \<and>
     (\<forall>x \<in> acks \<inter> set (should_commit ps). safe s x)"
| "undecided_phase _ s \<longleftrightarrow> False"

definition undecided :: "('s, 'm, 'k) tp_sys \<Rightarrow> bool" where
  "undecided s \<longleftrightarrow> undecided_phase (phase (co s)) s \<and> abort_calls s = {} \<and> commit_calls s = {} \<and> commit_replies s = {} \<and>
     watch_replies s = {} \<and> (\<forall>x. applied s x = None) \<and>
     (\<forall>n x. (n, x, Response_prepared) \<in> prepare_replies s \<and> x \<in> writers s \<longrightarrow> safe s x) \<and>
     (\<forall>n x ob. (n, x, ob) \<in> handlers s \<longrightarrow> settled s x \<or> (\<exists>p. txn (srv s x) = Some p \<and> oid p = ob))"

fun abort_phase_ok :: "phase \<Rightarrow> bool" where
  "abort_phase_ok (Abort_cleanup _) = True"
| "abort_phase_ok (Abort_phase _) = True"
| "abort_phase_ok Over = True"
| "abort_phase_ok _ = False"

definition aborted_ok :: "('s, 'm, 'k) tp_sys \<Rightarrow> bool" where
  "aborted_ok s \<longleftrightarrow> future (co s) = None \<and> abort_phase_ok (phase (co s)) \<and>
     (\<forall>ps. db_record (co s) \<noteq> Some (False, ps)) \<and> commit_calls s = {} \<and> commit_replies s = {} \<and>
     (\<forall>x. (x, False) \<notin> watch_replies s) \<and> (\<forall>x. applied s x = None)"

fun committed_phase :: "phase \<Rightarrow> participants \<Rightarrow> ('s, 'm, 'k) tp_sys \<Rightarrow> bool" where
  "committed_phase Read_only_done ps s \<longleftrightarrow> should_commit ps = [] \<and> db_record (co s) = None"
| "committed_phase (Mark_prepared qs) ps s \<longleftrightarrow> qs = ps \<and> db_record (co s) = Some (True, ps) \<and> future (co s) = Some (Result ps)"
| "committed_phase (Commit_phase qs acks) ps s \<longleftrightarrow> qs = ps \<and> db_record (co s) = Some (False, ps) \<and>
     (\<forall>x \<in> acks \<inter> writers s. settled s x)"
| "committed_phase (Cleanup_phase qs) ps s \<longleftrightarrow> qs = ps \<and> db_record (co s) = Some (False, ps) \<and> future (co s) = None"
| "committed_phase Over ps s \<longleftrightarrow> db_record (co s) = None \<and> future (co s) = None"
| "committed_phase _ ps s \<longleftrightarrow> False"

definition committed_ok :: "('s, 'm, 'k) tp_sys \<Rightarrow> bool" where
  "committed_ok s \<longleftrightarrow> (\<exists>ps. plist s = Some ps \<and> committed_phase (phase (co s)) ps s \<and>
     (future (co s) = Some (Result ps) \<or> future (co s) = None \<and> (\<forall>x \<in> writers s. settled s x))) \<and>
     put_pending (co s) = None \<and> abort_calls s = {} \<and> (\<forall>x \<in> writers s. safe s x) \<and>
     (\<forall>n x. (n, x) \<in> commit_replies s \<and> x \<in> writers s \<longrightarrow> settled s x) \<and>
     (\<forall>x. (x, True) \<in> watch_replies s \<and> x \<in> writers s \<longrightarrow> settled s x)"

definition tp_inv :: "uuid \<Rightarrow> ('s, 'm, 'k) tp_sys \<Rightarrow> bool" where
  "tp_inv r s \<longleftrightarrow> local_ok r s \<and> requests_ok s \<and>
     (case outcome s of None \<Rightarrow> undecided s | Some False \<Rightarrow> aborted_ok s | Some True \<Rightarrow> committed_ok s)"

section \<open>Participants keep their part\<close>

lemma finished_simp [simp]: "finished (p\<lparr>prepared := b\<rparr>) = finished p" "finished (p\<lparr>stored := b\<rparr>) = finished p"
  by (simp_all add: finished_def)

lemma from_context_fields:
  assumes "from_context me c r = Inr p"
  shows "\<not> finished p" "\<not> prepared p" "using_restart_detection p = r" "ids p = transaction_ids c" "oid p = me"
  using assms by (auto simp: from_context_def participant_init_def Let_def finished_def)

lemma from_sidecar_fields:
  assumes "from_sidecar me st = Inr p"
  shows "\<not> finished p" "prepared p = s_prepared st" "stored p" "ids p = s_ids st" "\<not> using_restart_detection p"
  using assms by (auto simp: from_sidecar_def participant_init_def finished_def split: if_splits)

lemma is_prepared_simps [simp]:
  "\<not> is_prepared None"
  "is_prepared (Some (st, b)) = s_prepared st"
  by (simp_all add: is_prepared_def)

lemma stored_of_unprepared [simp]: "\<not> s_prepared (stored_of p)"
  by (simp add: stored_of_def)

text \<open>Two systems that differ only in what one state's server and database hold.\<close>

definition elsewhere :: "pid \<Rightarrow> ('s, 'm, 'k) tp_sys \<Rightarrow> ('s, 'm, 'k) tp_sys \<Rightarrow> bool" where
  "elsewhere x s t \<longleftrightarrow> (\<forall>y. y \<noteq> x \<longrightarrow> srv t y = srv s y \<and> db t y = db s y \<and> applied t y = applied s y \<and>
     (y \<in> elided t \<longleftrightarrow> y \<in> elided s))"

definition same_talk :: "('s, 'm, 'k) tp_sys \<Rightarrow> ('s, 'm, 'k) tp_sys \<Rightarrow> bool" where
  "same_talk s t \<longleftrightarrow> co t = co s \<and> prepare_calls t = prepare_calls s \<and> commit_calls t = commit_calls s \<and> abort_calls t = abort_calls s \<and>
     watch_replies t = watch_replies s \<and> outcome t = outcome s \<and> plist t = plist s"

lemma commit_in_memory_txn: "commit_in_memory p sv = Inr sv' \<Longrightarrow> txn sv' = None \<and> prepare_task sv' = No_task"
  by (auto simp: commit_in_memory_def Let_def rbind_eq_Inr_iff complete_participant_transaction_def)

lemma commit_at_cases:
  assumes "commit_at x p s = (ok, t)" "\<not> finished p"
  obtains (refused) "\<not> ok" "t = s"
  | (stuck) d where "\<not> ok" "db s x = Some d" "prepared p" "\<And>r. prepare_task (srv s x) \<noteq> In_flight r"
      "t = s\<lparr>applied := (applied s)(x := Some d), db := (db s)(x := None)\<rparr>"
  | (completed) d sv where "ok" "db s x = Some d" "prepared p" "txn sv = None" "prepare_task sv = No_task"
      "t = s\<lparr>applied := (applied s)(x := Some d), db := (db s)(x := None), srv := (srv s)(x := sv)\<rparr>"
proof (cases "transaction_participant_commit p (srv s x) (db s x)")
  case (Pair w r)
  show thesis
  proof (cases w)
    case None
    with assms Pair have "\<not> ok \<and> t = s"
      by (auto simp: commit_at_def transaction_participant_commit_def split: if_splits task_status.splits)
    then show thesis using refused by blast
  next
    case (Some d)
    with Pair assms(2) have w: "db s x = Some d" "prepared p" "r = lift_txn (commit_in_memory p (srv s x))"
      "\<And>r. prepare_task (srv s x) \<noteq> In_flight r"
      by (auto simp: transaction_participant_commit_def split: if_splits task_status.splits)
    show thesis
    proof (cases r)
      case (Inl e)
      with assms(1) Pair Some show thesis by (intro stuck[OF _ w(1,2,4)]) (auto simp: commit_at_def)
    next
      case (Inr sv)
      with w(3) have "commit_in_memory p (srv s x) = Inr sv" by (auto simp: lift_txn_def split: sum.splits)
      note sv = commit_in_memory_txn[OF this]
      show thesis using assms(1) Pair Some Inr sv by (intro completed[OF _ w(1,2)]) (auto simp: commit_at_def)
    qed
  qed
qed

lemma abort_at_cases:
  assumes "abort_at x p s = Some t" "\<not> finished p"
  obtains "t = s\<lparr>db := (if stored p \<or> using_restart_detection p then (db s)(x := None) else db s),
      srv := (srv s)(x := complete_participant_transaction (srv s x))\<rparr>"
  using assms
  by (cases "prepare_task (srv s x)")
    (auto simp: abort_at_def transaction_participant_abort_def abort_def lift_txn_def Let_def)

lemmas locally = elsewhere_def same_talk_def sv_ok_def settled_def durable_def safe_def

lemma commit_at_effect:
  assumes "commit_at x p s = (ok, t)" "txn (srv s x) = Some p" "sv_ok r (srv s x) (db s x) (applied s x)"
  shows "elsewhere x s t \<and> same_talk s t \<and> handlers t = handlers s \<and> prepare_replies t = prepare_replies s \<and>
    commit_replies t = commit_replies s \<and> elided t = elided s \<and> sv_ok r (srv t x) (db t x) (applied t x)"
    "settled s x \<Longrightarrow> settled t x" "safe s x \<Longrightarrow> safe t x" "ok \<Longrightarrow> settled t x"
proof -
  have nf: "\<not> finished p" using assms(2,3) by (simp add: sv_ok_def)
  show "elsewhere x s t \<and> same_talk s t \<and> handlers t = handlers s \<and> prepare_replies t = prepare_replies s \<and>
    commit_replies t = commit_replies s \<and> elided t = elided s \<and> sv_ok r (srv t x) (db t x) (applied t x)"
    by (rule commit_at_cases[OF assms(1) nf]) (use assms(2,3) in \<open>auto simp: locally\<close>)
  show "settled s x \<Longrightarrow> settled t x" by (rule commit_at_cases[OF assms(1) nf]) (auto simp: locally)
  show "safe s x \<Longrightarrow> safe t x" by (rule commit_at_cases[OF assms(1) nf]) (auto simp: locally)
  show "ok \<Longrightarrow> settled t x" by (rule commit_at_cases[OF assms(1) nf]) (auto simp: locally)
qed

lemma abort_at_effect:
  assumes "abort_at x p s = Some t" "txn (srv s x) = Some p" "sv_ok r (srv s x) (db s x) (applied s x)"
  shows "elsewhere x s t \<and> same_talk s t \<and> handlers t = handlers s \<and> prepare_replies t = prepare_replies s \<and>
    commit_replies t = commit_replies s \<and> elided t = elided s \<and> applied t = applied s \<and>
    sv_ok r (srv t x) (db t x) (applied t x)"
proof -
  have nf: "\<not> finished p" using assms(2,3) by (simp add: sv_ok_def)
  show ?thesis
    by (rule abort_at_cases[OF assms(1) nf])
      (use assms(2,3) in \<open>cases "db s x"; auto simp: locally complete_participant_transaction_def\<close>)
qed

text \<open>What \<open>Prepare\<close> does to the server, and when it answers that the participant is prepared.\<close>

lemma participant_prepare_cases:
  assumes "transaction_participant_prepare E aware p sv = (st, sv', el)" "\<not> finished p" "\<not> prepared p"
  obtains (unchanged) "sv' = sv" "\<not> el" "\<And>r. st \<noteq> Answer r"
  | (elided) "sv' = complete_participant_transaction sv" "el" "st = Answer Response_prepared" "using_restart_detection p"
  | (task) req where "sv' = sv\<lparr>prepare_task := In_flight req\<rparr>" "\<not> el" "st = Wait_task"
      "req = prepare_request_of (proto_of E) p"
proof (cases "wait_ownership_turn (is_claimable_by [hd (ids p)]) p")
  case (Inl e)
  with assms show thesis by (intro unchanged) (auto simp: transaction_participant_prepare_def)
next
  case (Inr w)
  show thesis
  proof (cases w)
    case Wait
    with Inr assms show thesis by (intro unchanged) (auto simp: transaction_participant_prepare_def)
  next
    case Proceed
    show thesis
    proof (cases "elides aware p")
      case True
      have "rbind (prepare p) (\<lambda>(_, q). commit q) = Inr (p\<lparr>prepared := True, committed_result := Some True\<rparr>)"
        using assms(2,3) by (simp add: prepare_def commit_def)
      with Proceed True Inr assms show thesis
        by (cases "tasks p = []") (auto simp: transaction_participant_prepare_def elides_def intro: unchanged elided)
    next
      case False
      with Proceed Inr assms show thesis
        by (cases "prepare_task sv")
          (auto simp: transaction_participant_prepare_def Let_def split: if_splits intro: unchanged task)
    qed
  qed
qed

lemma Prepare_cases:
  assumes "Prepare E ty rq sv = (st, sv', el)" "sv_ok r sv d ap"
  obtains (absent) "txn sv = None" "sv' = sv" "\<not> el" "st \<noteq> Wait_task" "st \<noteq> Wait_ownership"
      "st = Answer Response_prepared \<Longrightarrow> request_read_only rq"
  | (already) p where "txn sv = Some p" "sv' = sv" "\<not> el" "prepared p"
  | (unchanged) p where "txn sv = Some p" "sv' = sv" "\<not> el" "st \<noteq> Answer Response_prepared"
  | (elided) p where "txn sv = Some p" "\<not> prepared p" "sv' = complete_participant_transaction sv" "el" "st = Answer Response_prepared"
      "using_restart_detection p"
  | (task) p req where "txn sv = Some p" "\<not> prepared p" "sv' = sv\<lparr>prepare_task := In_flight req\<rparr>" "\<not> el" "st = Wait_task"
      "req = prepare_request_of (proto_of E) p"
proof (cases "txn sv")
  case None
  with assms(1) show thesis by (auto simp: Prepare_def Let_def split: if_splits intro!: absent)
next
  case (Some p)
  have nf: "\<not> finished p" using assms(2) Some by (simp add: sv_ok_def)
  show thesis
  proof (cases "hd (ids p) = root E \<and> \<not> prepared p \<and> streaming_readers p = [] \<and> valid_tasks E (tasks p) \<and> \<not> unrecoverable_abort p")
    case True
    with Some assms(1) have tp: "transaction_participant_prepare E (read_only_aware rq) p sv = (st, sv', el)"
      by (simp add: Prepare_def)
    show thesis
    proof (cases rule: participant_prepare_cases[OF tp nf conjunct1[OF conjunct2[OF True]], case_names a b c])
      case a
      show thesis by (rule unchanged[OF Some a(1,2)]) (simp add: a(3))
    next
      case b
      show thesis by (rule elided[OF Some _ b]) (simp add: True)
    next
      case (c req)
      show thesis by (rule task[OF Some _ c]) (simp add: True)
    qed
  next
    case False
    with Some assms(1) show thesis by (auto simp: Prepare_def split: if_splits intro: already unchanged)
  qed
qed

section \<open>Steps of participants\<close>

text \<open>
  A step at one state that neither commit_calls nor abort_calls there: what is settled or safe stays so, and
  the coordinator's side is untouched.
\<close>

definition quiet :: "uuid \<Rightarrow> pid \<Rightarrow> ('s, 'm, 'k) tp_sys \<Rightarrow> ('s, 'm, 'k) tp_sys \<Rightarrow> bool" where
  "quiet r x s t \<longleftrightarrow> elsewhere x s t \<and> same_talk s t \<and> sv_ok r (srv t x) (db t x) (applied t x) \<and>
     (settled s x \<longrightarrow> settled t x) \<and> (safe s x \<longrightarrow> safe t x) \<and> applied t = applied s \<and>
     commit_replies t = commit_replies s \<and>
     (phase (co s) = Idle \<and> txn (srv s x) = None \<longrightarrow> txn (srv t x) = None)"

text \<open>New answers and waiting handlers are justified.\<close>

definition answers_ok :: "('s, 'm, 'k) tp_sys \<Rightarrow> ('s, 'm, 'k) tp_sys \<Rightarrow> bool" where
  "answers_ok s t \<longleftrightarrow>
     (undecided s \<and> requests_ok s \<longrightarrow>
       (\<forall>n y. (n, y, Response_prepared) \<in> prepare_replies t \<and> y \<in> writers s \<longrightarrow> safe t y) \<and>
       (\<forall>n y ob. (n, y, ob) \<in> handlers t \<longrightarrow> settled t y \<or> (\<exists>p. txn (srv t y) = Some p \<and> oid p = ob))) \<and>
     (plist s = None \<and> requests_ok s \<longrightarrow> handlers t = {} \<and> prepare_replies t = {})"

lemma elsewhere_settled: "elsewhere x s t \<Longrightarrow> y \<noteq> x \<Longrightarrow> settled t y = settled s y"
  and elsewhere_safe: "elsewhere x s t \<Longrightarrow> y \<noteq> x \<Longrightarrow> safe t y = safe s y"
  by (auto simp: elsewhere_def settled_def safe_def durable_def)

lemma elsewhere_local:
  "local_ok r s \<Longrightarrow> elsewhere x s t \<Longrightarrow> sv_ok r (srv t x) (db t x) (applied t x) \<Longrightarrow> local_ok r t"
  by (metis elsewhere_def local_ok_def)

lemma same_talk_writers: "same_talk s t \<Longrightarrow> writers t = writers s"
  by (simp add: same_talk_def writers_def)

lemma same_talk_phases:
  assumes "same_talk s t" "\<And>y. safe s y \<Longrightarrow> safe t y" "\<And>y. settled s y \<Longrightarrow> settled t y"
  shows "phase (co s) \<noteq> Idle \<or> (\<forall>y. txn (srv s y) = None \<longrightarrow> txn (srv t y) = None) \<Longrightarrow>
      undecided_phase (phase (co s)) s \<Longrightarrow> undecided_phase (phase (co t)) t"
    "committed_phase (phase (co s)) ps s \<Longrightarrow> committed_phase (phase (co t)) ps t"
  using assms same_talk_writers[OF assms(1)]
  by (cases "phase (co s)"; auto simp: same_talk_def)+

lemma quiet_mono:
  assumes "quiet r x s t"
  shows "settled s y \<Longrightarrow> settled t y" "safe s y \<Longrightarrow> safe t y"
  using assms elsewhere_settled[of x s t y] elsewhere_safe[of x s t y] by (auto simp: quiet_def)

lemma quiet_undecided:
  assumes "quiet r x s t" "answers_ok s t" "undecided s" "requests_ok s"
  shows "undecided t"
proof -
  have q: "elsewhere x s t" "same_talk s t" "applied t = applied s" "commit_replies t = commit_replies s"
    "phase (co s) = Idle \<and> txn (srv s x) = None \<longrightarrow> txn (srv t x) = None"
    using assms(1) by (auto simp: quiet_def)
  have idle: "phase (co s) \<noteq> Idle \<or> (\<forall>y. txn (srv s y) = None \<longrightarrow> txn (srv t y) = None)"
    using q(1,5) by (metis elsewhere_def)
  have "undecided_phase (phase (co t)) t"
    using assms(3) same_talk_phases(1)[OF q(2) quiet_mono(2,1)[OF assms(1)] idle] by (simp add: undecided_def)
  moreover have "abort_calls t = {}" "commit_calls t = {}" "commit_replies t = {}" "watch_replies t = {}" "\<forall>x. applied t x = None"
    using assms(3) q by (simp_all add: undecided_def same_talk_def)
  moreover have "(\<forall>n y. (n, y, Response_prepared) \<in> prepare_replies t \<and> y \<in> writers s \<longrightarrow> safe t y)"
    "(\<forall>n y ob. (n, y, ob) \<in> handlers t \<longrightarrow> settled t y \<or> (\<exists>p. txn (srv t y) = Some p \<and> oid p = ob))"
    using assms(2,3,4) unfolding answers_ok_def by blast+
  ultimately show ?thesis
    unfolding undecided_def same_talk_writers[OF q(2)] by simp
qed

lemma quiet_committed:
  assumes "quiet r x s t" "committed_ok s"
  shows "committed_ok t"
proof -
  have q: "same_talk s t" "commit_replies t = commit_replies s" using assms(1) by (auto simp: quiet_def)
  note mono = quiet_mono[OF assms(1)]
  note w = same_talk_writers[OF q(1)]
  obtain ps where "plist s = Some ps" "committed_phase (phase (co s)) ps s"
      "future (co s) = Some (Result ps) \<or> future (co s) = None \<and> (\<forall>x \<in> writers s. settled s x)"
    using assms(2) by (auto simp: committed_ok_def)
  moreover have "committed_phase (phase (co t)) ps t"
    using same_talk_phases(2)[OF q(1) mono(2) mono(1)] calculation(2) by blast
  ultimately show ?thesis
    using assms(2) q mono w unfolding committed_ok_def same_talk_def by metis
qed

lemma quiet_inv:
  assumes "tp_inv r s" "quiet r x s t" "answers_ok s t"
  shows "tp_inv r t"
proof -
  have s: "local_ok r s" "requests_ok s" using assms(1) by (auto simp: tp_inv_def)
  have q: "elsewhere x s t" "same_talk s t" "sv_ok r (srv t x) (db t x) (applied t x)" using assms(2) by (auto simp: quiet_def)
  have "local_ok r t" using elsewhere_local[OF s(1) q(1,3)] .
  moreover have "requests_ok t"
    using s(2) q(2) assms(3) unfolding requests_ok_def same_talk_def answers_ok_def by (auto split: option.splits)
  moreover have "aborted_ok s \<Longrightarrow> aborted_ok t"
    using assms(2) by (simp add: aborted_ok_def quiet_def same_talk_def)
  ultimately show ?thesis
    using assms(1) q(2) quiet_undecided[OF assms(2,3) _ s(2)] quiet_committed[OF assms(2)]
    by (auto simp: tp_inv_def same_talk_def split: option.splits bool.splits)
qed

lemma answers_ok_I:
  assumes "quiet r x s t"
    "\<And>n y. (n, y, Response_prepared) \<in> prepare_replies t \<Longrightarrow> undecided s \<Longrightarrow> requests_ok s \<Longrightarrow> y \<in> writers s \<Longrightarrow>
       (n, y, Response_prepared) \<in> prepare_replies s \<or> safe t y"
    "\<And>n y ob. (n, y, ob) \<in> handlers t \<Longrightarrow> (n, y, ob) \<in> handlers s \<or> (\<exists>p. txn (srv t y) = Some p \<and> oid p = ob)"
    "\<And>n ob p. (n, x, ob) \<in> handlers t \<Longrightarrow> txn (srv s x) = Some p \<Longrightarrow> oid p = ob \<Longrightarrow> settled t x \<or> (\<exists>q. txn (srv t x) = Some q \<and> oid q = ob)"
    "plist s = None \<Longrightarrow> requests_ok s \<Longrightarrow> handlers t = {} \<and> prepare_replies t = {}"
  shows "answers_ok s t"
proof -
  have e: "\<And>y. y \<noteq> x \<Longrightarrow> srv t y = srv s y" using assms(1) by (auto simp: quiet_def elsewhere_def)
  have "safe t y" if "undecided s" "requests_ok s" "(n, y, Response_prepared) \<in> prepare_replies t" "y \<in> writers s" for n y
    using assms(2)[OF that(3,1,2,4)] that(1,4) quiet_mono(2)[OF assms(1), of y] unfolding undecided_def by blast
  moreover have "settled t y \<or> (\<exists>p. txn (srv t y) = Some p \<and> oid p = ob)"
    if "undecided s" "(n, y, ob) \<in> handlers t" for n y ob
    using that assms(3)[OF that(2)] assms(4)[of n ob] e[of y] quiet_mono(1)[OF assms(1), of y]
    unfolding undecided_def by metis
  ultimately show ?thesis using assms(5) unfolding answers_ok_def by blast
qed

lemma answers_ok_same:
  assumes "quiet r x s t" "prepare_replies t = prepare_replies s" "handlers t = handlers s"
    "\<And>p. txn (srv s x) = Some p \<Longrightarrow> \<exists>q. txn (srv t x) = Some q \<and> oid q = oid p"
  shows "answers_ok s t"
proof (rule answers_ok_I[OF assms(1)])
  fix n ob p
  assume "txn (srv s x) = Some p" "oid p = ob"
  then show "settled t x \<or> (\<exists>q. txn (srv t x) = Some q \<and> oid q = ob)" using assms(4) by blast
qed (use assms(2,3) in \<open>auto simp: requests_ok_def\<close>)

lemma sv_okD: "local_ok r s \<Longrightarrow> sv_ok r (srv s x) (db s x) (applied s x)"
  by (simp add: local_ok_def)

lemma quiet_I:
  assumes "elsewhere x s t" "same_talk s t" "sv_ok r (srv t x) (db t x) (applied t x)" "applied t = applied s"
    "commit_replies t = commit_replies s" "settled s x \<longrightarrow> settled t x" "durable s x \<longrightarrow> durable t x"
    "phase (co s) = Idle \<and> txn (srv s x) = None \<longrightarrow> txn (srv t x) = None"
  shows "quiet r x s t"
  using assms by (auto simp: quiet_def safe_def)

lemma participant_start_ok:
  assumes "participant_start me c sv = Inr (sv', d)"
  shows "sv_ok (hd (transaction_ids c)) sv' d a"
proof -
  let ?r = "can_use_restart_detection (recovery_ms sv) (hd (transaction_ids c)) (c_state_type c)"
  obtain p where p: "from_context me c ?r = Inr p"
    and sv: "sv' = sv\<lparr>txn := Some (if ?r then p else p\<lparr>stored := True\<rparr>), prepare_task := No_task\<rparr>"
      "d = (if ?r then None else Some (stored_of p, None))"
    using assms by (auto simp: participant_start_def Let_def split: if_splits sum.splits)
  show ?thesis using from_context_fields[OF p] by (simp add: sv sv_ok_def stored_of_def)
qed

lemma join_inv:
  assumes "tp_inv (root E) s" "tp_act E (Join x c) s = Some t"
  shows "tp_inv (root E) t"
proof (cases "participant_start (next_oid s) c (srv s x)")
  case (Inl e)
  with assms show ?thesis by (auto split: if_splits)
next
  case (Inr r)
  obtain sv d where r: "r = (sv, d)" by fastforce
  have g: "txn (srv s x) = None" "phase (co s) \<noteq> Idle" "hd (transaction_ids c) = root E"
    and t: "t = s\<lparr>srv := (srv s)(x := sv), db := (db s)(x := d), next_oid := Suc (next_oid s)\<rparr>"
    using assms(2) Inr r by (auto split: if_splits)
  have "sv_ok (root E) sv d a" for a
    using participant_start_ok[of "next_oid s" c "srv s x" sv d] Inr r g(3) by simp
  note ok = this
  have q: "quiet (root E) x s t"
    by (rule quiet_I) (use g ok in \<open>auto simp: t elsewhere_def same_talk_def settled_def durable_def\<close>)
  have "answers_ok s t"
    by (rule answers_ok_same[OF q]) (simp_all add: t g)
  then show ?thesis by (rule quiet_inv[OF assms(1) q])
qed

lemma work_inv:
  assumes "tp_inv (root E) s" "tp_act E (Work x q) s = Some t"
  shows "tp_inv (root E) t"
proof -
  obtain p where p: "txn (srv s x) = Some p" "\<not> prepared p" "same_txn p q"
    and t: "t = s\<lparr>srv := (srv s)(x := (srv s x)\<lparr>txn := Some q\<rparr>), db := (db s)(x := stored_work (proto_of E) q (db s x))\<rparr>"
    using assms(2) by (auto split: option.splits if_splits)
  have s: "sv_ok (root E) (srv s x) (db s x) (applied s x)" using assms(1) by (auto simp: tp_inv_def local_ok_def)
  have "sv_ok (root E) (srv t x) (db t x) (applied t x)"
    using s p by (auto simp: t sv_ok_def stored_work_def same_txn_def finished_def stored_of_def)
  then have qu: "quiet (root E) x s t"
    by (intro quiet_I) (use p in \<open>auto simp: t elsewhere_def same_talk_def settled_def durable_def same_txn_def\<close>)
  have "answers_ok s t"
    by (rule answers_ok_same[OF qu]) (use p in \<open>simp_all add: t same_txn_def\<close>)
  then show ?thesis by (rule quiet_inv[OF assms(1) qu])
qed

lemma read_only_not_writer:
  assumes "requests_ok s" "(n, x, True) \<in> prepare_calls s"
  shows "x \<notin> writers s"
proof (cases "plist s")
  case (Some ps)
  with assms show ?thesis by (auto simp: requests_ok_def writers_def)
qed (simp add: writers_def)

lemma prepare_at_eq:
  assumes "Prepare E (fst x) \<lparr>abort_via_response = True, read_only_aware = True, request_read_only = ro\<rparr> (srv s x) = (st, sv, el)"
  shows "prepare_at E n x ro s = s\<lparr>srv := (srv s)(x := sv), elided := (if el then insert x (elided s) else elided s),
     prepare_replies := (case st of Answer r \<Rightarrow> insert (n, x, r) (prepare_replies s) | _ \<Rightarrow> prepare_replies s),
     handlers := (case txn (srv s x) of None \<Rightarrow> handlers s
        | Some p \<Rightarrow> if st = Wait_task \<or> st = Wait_ownership then insert (n, x, oid p) (handlers s) else handlers s)\<rparr>"
  using assms by (cases st; cases "txn (srv s x)") (simp_all add: prepare_at_def)

lemma prepare_inv:
  assumes "tp_inv (root E) s" "tp_act E (Prepare_rpc n x ro) s = Some t"
  shows "tp_inv (root E) t"
proof -
  obtain st sv el where P: "Prepare E (fst x) \<lparr>abort_via_response = True, read_only_aware = True, request_read_only = ro\<rparr> (srv s x) = (st, sv, el)"
    by (metis prod_cases3)
  have call: "(n, x, ro) \<in> prepare_calls s" using assms(2) by (auto split: if_splits)
  have t: "t = s\<lparr>srv := (srv s)(x := sv), elided := (if el then insert x (elided s) else elided s),
     prepare_replies := (case st of Answer r \<Rightarrow> insert (n, x, r) (prepare_replies s) | _ \<Rightarrow> prepare_replies s),
     handlers := (case txn (srv s x) of None \<Rightarrow> handlers s
        | Some p \<Rightarrow> if st = Wait_task \<or> st = Wait_ownership then insert (n, x, oid p) (handlers s) else handlers s)\<rparr>"
    using assms(2) call prepare_at_eq[OF P] by simp
  have s: "sv_ok (root E) (srv s x) (db s x) (applied s x)" using assms(1) by (auto simp: tp_inv_def local_ok_def)
  note C = Prepare_cases[OF P s]
  have q: "quiet (root E) x s t"
  proof (rule quiet_I)
    show "elsewhere x s t" "same_talk s t" "applied t = applied s" "commit_replies t = commit_replies s" "settled s x \<longrightarrow> settled t x"
      by (auto simp: t elsewhere_def same_talk_def settled_def)
    show "sv_ok (root E) (srv t x) (db t x) (applied t x)"
      by (rule C) (use s in \<open>auto simp: t sv_ok_def complete_participant_transaction_def prepare_request_of_def
        stored_of_def split: if_splits\<close>)
    show "durable s x \<longrightarrow> durable t x" by (rule C) (auto simp: t durable_def)
    show "phase (co s) = Idle \<and> txn (srv s x) = None \<longrightarrow> txn (srv t x) = None" by (rule C) (auto simp: t)
  qed
  have "answers_ok s t"
  proof (rule answers_ok_I[OF q])
    fix m y
    assume "(m, y, Response_prepared) \<in> prepare_replies t" "requests_ok s" "y \<in> writers s"
    then have "(m, y, Response_prepared) \<in> prepare_replies s \<or> y = x \<and> st = Answer Response_prepared"
      by (auto simp: t split: prepare_step.splits)
    moreover have "safe t x" if "st = Answer Response_prepared" "x \<in> writers s"
      by (rule C) (use that s call read_only_not_writer[OF \<open>requests_ok s\<close>] in
        \<open>auto simp: t sv_ok_def safe_def settled_def durable_def\<close>)
    ultimately show "(m, y, Response_prepared) \<in> prepare_replies s \<or> safe t y" using \<open>y \<in> writers s\<close> by blast
  next
    fix m y ob
    assume "(m, y, ob) \<in> handlers t"
    then have "(m, y, ob) \<in> handlers s \<or>
        y = x \<and> (st = Wait_task \<or> st = Wait_ownership) \<and> (\<exists>p. txn (srv s x) = Some p \<and> oid p = ob)"
      by (auto simp: t split: option.splits if_splits)
    moreover have "txn (srv t x) = txn (srv s x)" if "st = Wait_task \<or> st = Wait_ownership"
      by (rule C) (use that in \<open>auto simp: t\<close>)
    ultimately show "(m, y, ob) \<in> handlers s \<or> (\<exists>p. txn (srv t y) = Some p \<and> oid p = ob)" by auto
  next
    fix m ob p
    assume p: "txn (srv s x) = Some p" "oid p = ob"
    show "settled t x \<or> (\<exists>q. txn (srv t x) = Some q \<and> oid q = ob)"
      by (rule C) (use p in \<open>auto simp: t settled_def\<close>)
  next
    assume "plist s = None" "requests_ok s"
    with call show "handlers t = {} \<and> prepare_replies t = {}" by (simp add: requests_ok_def)
  qed
  then show ?thesis by (rule quiet_inv[OF assms(1) q])
qed

lemma db_participant_prepare_prepared:
  assumes "db_participant_prepare req d = Some d'"
  shows "is_prepared (Some d')" "hd (s_ids (fst d')) = hd (s_ids (fst (the (if req = None then d else req))))"
  using assms by (cases d'; auto simp: db_participant_prepare_def split: option.splits)+

lemma db_prepare_inv:
  assumes "tp_inv (root E) s" "tp_act E (Db_prepare x) s = Some t"
  shows "tp_inv (root E) t"
proof -
  obtain req p d where p: "txn (srv s x) = Some p" "\<not> prepared p" "prepare_task (srv s x) = In_flight req"
      "db_participant_prepare req (db s x) = Some d"
    and t: "t = s\<lparr>srv := (srv s)(x := (srv s x)\<lparr>txn := Some (p\<lparr>prepared := True\<rparr>), prepare_task := Done\<rparr>), db := (db s)(x := Some d)\<rparr>"
    using assms(2)
    by (auto simp: prepare_in_database_def prepare_def split: task_status.splits option.splits if_splits)
  have s: "sv_ok (root E) (srv s x) (db s x) (applied s x)" using assms(1) by (auto simp: tp_inv_def local_ok_def)
  have d: "is_prepared (Some d)" "hd (s_ids (fst d)) = root E"
    using s p db_participant_prepare_prepared[OF p(4)]
    by (cases "db s x"; cases req; auto simp: sv_ok_def db_participant_prepare_def)+
  have q: "quiet (root E) x s t"
    by (rule quiet_I) (use s p(1,2) d in \<open>auto simp: t elsewhere_def same_talk_def settled_def durable_def sv_ok_def\<close>)
  have "answers_ok s t"
    by (rule answers_ok_same[OF q]) (use p in \<open>simp_all add: t\<close>)
  then show ?thesis by (rule quiet_inv[OF assms(1) q])
qed

lemma db_prepare_fails_inv:
  assumes "tp_inv (root E) s" "tp_act E (Db_prepare_fails x) s = Some t"
  shows "tp_inv (root E) t"
proof -
  have t: "t = s\<lparr>srv := (srv s)(x := (srv s x)\<lparr>prepare_task := Raised\<rparr>)\<rparr>"
    using assms(2) by (auto split: task_status.splits)
  have s: "sv_ok (root E) (srv s x) (db s x) (applied s x)" using assms(1) by (auto simp: tp_inv_def local_ok_def)
  have q: "quiet (root E) x s t"
    by (rule quiet_I) (use s in \<open>auto simp: t elsewhere_def same_talk_def settled_def durable_def sv_ok_def split: option.splits\<close>)
  have "answers_ok s t"
    by (rule answers_ok_same[OF q]) (simp_all add: t)
  then show ?thesis by (rule quiet_inv[OF assms(1) q])
qed

lemma prepare_return_inv:
  assumes "tp_inv (root E) s" "tp_act E (Prepare_return n x ob) s = Some t"
  shows "tp_inv (root E) t"
proof -
  have h: "(n, x, ob) \<in> handlers s" "may_return x ob s"
    and t: "t = s\<lparr>prepare_replies := insert (n, x, Response_prepared) (prepare_replies s)\<rparr>"
    using assms(2) by (auto split: if_splits)
  have s: "sv_ok (root E) (srv s x) (db s x) (applied s x)" using assms(1) by (auto simp: tp_inv_def local_ok_def)
  have q: "quiet (root E) x s t"
    by (rule quiet_I) (use s in \<open>auto simp: t elsewhere_def same_talk_def settled_def durable_def\<close>)
  have "answers_ok s t"
  proof (rule answers_ok_I[OF q])
    fix m y
    assume r: "(m, y, Response_prepared) \<in> prepare_replies t" and u: "undecided s"
    have "settled s x \<or> (\<exists>p. txn (srv s x) = Some p \<and> oid p = ob)" using u h(1) unfolding undecided_def by blast
    then have "safe s x"
    proof
      assume "\<exists>p. txn (srv s x) = Some p \<and> oid p = ob"
      then obtain p where p: "txn (srv s x) = Some p" "oid p = ob" by blast
      then have "prepared p" using h(2) by (simp add: may_return_def)
      moreover have "prepared p \<Longrightarrow> is_prepared (db s x) \<or> applied s x \<noteq> None" using s p(1) by (simp add: sv_ok_def)
      moreover have "durable s x = (is_prepared (db s x) \<and> prepared p)" using p(1) by (simp add: durable_def)
      ultimately show ?thesis unfolding safe_def settled_def by blast
    qed (simp add: safe_def)
    then have "safe t x" by (rule quiet_mono(2)[OF q])
    with r show "(m, y, Response_prepared) \<in> prepare_replies s \<or> safe t y" by (auto simp: t)
  next
    assume "plist s = None" "requests_ok s"
    with h(1) show "handlers t = {} \<and> prepare_replies t = {}" by (simp add: requests_ok_def)
  qed (auto simp: t)
  then show ?thesis by (rule quiet_inv[OF assms(1) q])
qed

lemma recover_participant_cases:
  assumes "recover_participant me now d = Inr (sv, d')"
  obtains "d = None" "d' = None" "txn sv = None" "prepare_task sv = No_task"
  | p where "d \<noteq> None" "is_prepared d' = is_prepared d" "txn sv = Some p" "\<not> finished p" "prepared p = is_prepared d" "stored p"
      "\<not> using_restart_detection p" "ids p = s_ids (fst (the d))" "s_ids (fst (the d')) = s_ids (fst (the d))" "prepare_task sv = No_task"
proof (cases d)
  case None
  with assms that(1) show thesis by (auto simp: recover_participant_def)
next
  case (Some e)
  obtain st b where e: "db_recovered e = (st, b)" by fastforce
  then have "is_prepared d = s_prepared st" "s_ids st = s_ids (fst e)"
    using Some by (cases e; auto simp: db_recovered_def split: if_splits)+
  moreover obtain p where "from_sidecar me st = Inr p" "txn sv = Some p" "d' = Some (st, b)" "prepare_task sv = No_task"
    using assms Some e by (auto simp: recover_participant_def Let_def rbind_eq_Inr_iff)
  ultimately show thesis using Some from_sidecar_fields[of me st p] by (intro that(2)) auto
qed

lemma restart_participant_inv:
  assumes "tp_inv (root E) s" "tp_act E (Restart_participant x now) s = Some t"
  shows "tp_inv (root E) t"
proof -
  obtain sv d where r: "recover_participant (next_oid s) now (db s x) = Inr (sv, d)"
    and t: "t = s\<lparr>srv := (srv s)(x := sv), db := (db s)(x := d), next_oid := Suc (next_oid s),
          handlers := {h \<in> handlers s. fst (snd h) \<noteq> x}\<rparr>"
    using assms(2) by (auto split: sum.splits)
  have s: "sv_ok (root E) (srv s x) (db s x) (applied s x)" using assms(1) by (auto simp: tp_inv_def local_ok_def)
  have ids: "hd (s_ids (fst (the (db s x)))) = root E" if "db s x \<noteq> None"
    using s that by (cases "txn (srv s x)") (auto simp: sv_ok_def)
  have q: "quiet (root E) x s t"
  proof (rule quiet_I)
    show "sv_ok (root E) (srv t x) (db t x) (applied t x)"
      by (rule recover_participant_cases[OF r]) (use ids in \<open>auto simp: t sv_ok_def\<close>)
    show "durable s x \<longrightarrow> durable t x"
      by (rule recover_participant_cases[OF r]) (auto simp: t durable_def)
    show "phase (co s) = Idle \<and> txn (srv s x) = None \<longrightarrow> txn (srv t x) = None"
      by (rule recover_participant_cases[OF r]; cases "txn (srv s x)") (use s in \<open>simp_all add: t sv_ok_def\<close>)
  qed (auto simp: t elsewhere_def same_talk_def settled_def)
  have "answers_ok s t"
    by (rule answers_ok_I[OF q]) (auto simp: t requests_ok_def)
  then show ?thesis by (rule quiet_inv[OF assms(1) q])
qed

section \<open>Commits and aborts of participants\<close>

lemma committed_phase_mono:
  assumes "same_talk s t" "\<And>y. settled s y \<Longrightarrow> settled t y" "committed_phase (phase (co s)) ps s"
  shows "committed_phase (phase (co t)) ps t"
  using assms same_talk_writers[OF assms(1)] by (cases "phase (co s)") (auto simp: same_talk_def)

lemma committed_ok_mono:
  assumes "same_talk s t" "committed_ok s" and settled: "\<And>y. settled s y \<Longrightarrow> settled t y"
    and safe: "\<And>y. y \<in> writers s \<Longrightarrow> safe s y \<Longrightarrow> safe t y"
    and replies: "\<And>n y. (n, y) \<in> commit_replies t \<Longrightarrow> y \<in> writers s \<Longrightarrow> settled t y"
  shows "committed_ok t"
proof -
  note w = same_talk_writers[OF assms(1)]
  obtain ps where ps: "plist s = Some ps" "committed_phase (phase (co s)) ps s"
      "future (co s) = Some (Result ps) \<or> future (co s) = None \<and> (\<forall>x \<in> writers s. settled s x)"
    using assms(2) by (auto simp: committed_ok_def)
  have "committed_phase (phase (co t)) ps t" by (rule committed_phase_mono[OF assms(1) settled ps(2)])
  moreover have "future (co t) = Some (Result ps) \<or> future (co t) = None \<and> (\<forall>x \<in> writers s. settled t x)"
    using ps(3) settled assms(1) unfolding same_talk_def by metis
  moreover have "\<forall>x \<in> writers s. safe t x" "put_pending (co t) = None" "abort_calls t = {}"
    using assms(1,2) safe unfolding committed_ok_def same_talk_def by auto
  moreover have "\<forall>x. (x, True) \<in> watch_replies t \<and> x \<in> writers s \<longrightarrow> settled t x"
    using assms(1,2) settled unfolding committed_ok_def same_talk_def by metis
  ultimately show ?thesis
    using ps(1) assms(1) replies unfolding committed_ok_def w same_talk_def by metis
qed

lemma tp_inv_outcome:
  assumes "tp_inv r s"
  shows "outcome s = None \<Longrightarrow> undecided s" "outcome s = Some False \<Longrightarrow> aborted_ok s" "outcome s = Some True \<Longrightarrow> committed_ok s"
    "local_ok r s" "requests_ok s" "sv_ok r (srv s x) (db s x) (applied s x)"
  using assms by (auto simp: tp_inv_def local_ok_def)

lemma committed_inv:
  assumes "tp_inv r s" "outcome s = Some True" "elsewhere x s t" "same_talk s t" "sv_ok r (srv t x) (db t x) (applied t x)"
    "handlers t = handlers s" "prepare_replies t = prepare_replies s"
    "settled s x \<Longrightarrow> settled t x" "x \<in> writers s \<Longrightarrow> safe s x \<Longrightarrow> safe t x"
    "\<And>n y. (n, y) \<in> commit_replies t \<Longrightarrow> y \<in> writers s \<Longrightarrow> (n, y) \<in> commit_replies s \<or> settled t y"
  shows "tp_inv r t"
proof -
  note s = tp_inv_outcome[OF assms(1)]
  have settled: "settled s y \<Longrightarrow> settled t y" and safe: "y \<in> writers s \<Longrightarrow> safe s y \<Longrightarrow> safe t y" for y
    using elsewhere_settled[OF assms(3), of y] elsewhere_safe[OF assms(3), of y] assms(8,9) by metis+
  have "committed_ok t"
  proof (rule committed_ok_mono[OF assms(4) s(3)[OF assms(2)] settled safe])
    fix n y
    assume "(n, y) \<in> commit_replies t" "y \<in> writers s"
    then show "settled t y"
      using assms(10)[of n y] s(3)[OF assms(2)] settled[of y] unfolding committed_ok_def by blast
  qed
  moreover have "requests_ok t"
    using s(5) assms(4,6,7) by (cases "plist s") (auto simp: requests_ok_def same_talk_def)
  ultimately show ?thesis
    using elsewhere_local[OF s(4) assms(3,5)] assms(2,4) by (simp add: tp_inv_def same_talk_def)
qed

lemma commit_rpc_inv:
  assumes "tp_inv (root E) s" "tp_act E (Commit_rpc n x) s = Some t"
  shows "tp_inv (root E) t"
proof -
  note s = tp_inv_outcome[OF assms(1)]
  obtain ok s' where call: "(n, x) \<in> commit_calls s" and h: "Commit_handler E x s = (ok, s')"
    and t: "t = (if ok then s'\<lparr>commit_replies := insert (n, x) (commit_replies s')\<rparr> else s')"
    using assms(2) by (auto split: if_splits prod.splits)
  have out: "outcome s = Some True"
    using call s(1,2) unfolding undecided_def aborted_ok_def by (cases "outcome s"; cases "the (outcome s)") auto
  note C = s(3)[OF out]
  show ?thesis
  proof (cases "txn (srv s x)")
    case None
    have h': "ok" "s' = s" using h None by (simp_all add: Commit_handler_def)
    have "x \<in> writers s \<Longrightarrow> settled s x"
      using C None unfolding committed_ok_def safe_def durable_def by auto
    then show ?thesis
      using s(6)[of x] h'
      by (intro committed_inv[OF assms(1) out, of x])
        (auto simp: t elsewhere_def same_talk_def settled_def safe_def durable_def)
  next
    case (Some p)
    then have c: "commit_at x p s = (ok, s')" using h s(6)[of x] by (simp add: Commit_handler_def sv_ok_def)
    note e = commit_at_effect[OF c Some s(6)]
    have same: "srv t = srv s'" "db t = db s'" "applied t = applied s'" "elided t = elided s'" "same_talk s' t"
      "handlers t = handlers s'" "prepare_replies t = prepare_replies s'"
      "commit_replies t = (if ok then insert (n, x) (commit_replies s') else commit_replies s')"
      by (simp_all add: t same_talk_def)
    have eq: "settled t y = settled s' y" "safe t y = safe s' y" for y
      by (simp_all add: settled_def safe_def durable_def same)
    show ?thesis
    proof (rule committed_inv[OF assms(1) out, of x])
      show "elsewhere x s t" using e(1) by (simp add: elsewhere_def same)
      show "same_talk s t" using e(1) same(5) by (simp add: same_talk_def)
      show "sv_ok (root E) (srv t x) (db t x) (applied t x)" using e(1) by (simp add: same)
      show "handlers t = handlers s" "prepare_replies t = prepare_replies s" using e(1) by (simp_all add: same)
      show "settled s x \<Longrightarrow> settled t x" "safe s x \<Longrightarrow> safe t x" using e(2,3) by (simp_all add: eq)
      fix m y
      assume "(m, y) \<in> commit_replies t"
      then show "(m, y) \<in> commit_replies s \<or> settled t y" using e(1,4) by (auto simp: same(8) eq split: if_splits)
    qed
  qed
qed

lemma abort_at_aborted_inv:
  assumes "tp_inv r s" "outcome s = Some False" "txn (srv s x) = Some p" "abort_at x p s = Some t"
  shows "tp_inv r t"
proof -
  note s = tp_inv_outcome[OF assms(1)]
  note e = abort_at_effect[OF assms(4,3) s(6)]
  have "requests_ok t" using s(5) e by (cases "plist s") (auto simp: requests_ok_def same_talk_def)
  moreover have "aborted_ok t" using s(2)[OF assms(2)] e by (simp add: aborted_ok_def same_talk_def)
  moreover have "local_ok r t" using elsewhere_local[OF s(4)] e by blast
  ultimately show ?thesis using e assms(2) by (simp add: tp_inv_def same_talk_def)
qed

lemma abort_at_committed_inv:
  assumes "tp_inv r s" "outcome s = Some True" "txn (srv s x) = Some p" "abort_at x p s = Some t"
    "x \<in> writers s \<Longrightarrow> settled s x"
  shows "tp_inv r t"
proof -
  note s = tp_inv_outcome[OF assms(1)]
  note e = abort_at_effect[OF assms(4,3) s(6)]
  have settled: "settled t y = settled s y" for y using e by (simp add: settled_def)
  show ?thesis
    by (rule committed_inv[OF assms(1,2), of x]) (use e assms(5) in \<open>auto simp: settled safe_def\<close>)
qed

lemma abort_rpc_inv:
  assumes "tp_inv (root E) s" "tp_act E (Abort_rpc x) s = Some t"
  shows "tp_inv (root E) t"
proof -
  note s = tp_inv_outcome[OF assms(1)]
  have call: "x \<in> abort_calls s" and h: "Abort_handler E x s = Some t"
    using assms(2) by (auto split: if_splits)
  have out: "outcome s = Some False"
    using call s(1,3) unfolding undecided_def committed_ok_def by (cases "outcome s"; cases "the (outcome s)") auto
  show ?thesis
  proof (cases "txn (srv s x)")
    case None
    with h assms(1) show ?thesis by (simp add: Abort_handler_def)
  next
    case (Some p)
    then have "abort_at x p s = Some t \<or> t = s" using h by (auto simp: Abort_handler_def split: if_splits)
    then show ?thesis using abort_at_aborted_inv[OF assms(1) out Some] assms(1) by blast
  qed
qed

lemma commit_at_committed_inv:
  assumes "tp_inv r s" "outcome s = Some True" "txn (srv s x) = Some p"
  shows "tp_inv r (snd (commit_at x p s))"
proof -
  obtain ok t where c: "commit_at x p s = (ok, t)" by fastforce
  note e = commit_at_effect[OF c assms(3) tp_inv_outcome(6)[OF assms(1)]]
  show ?thesis unfolding c snd_conv
    by (rule committed_inv[OF assms(1,2), of x]) (use e in auto)
qed

lemma watch_return_inv:
  assumes "tp_inv (root E) s" "tp_act E (Watch_return x ab) s = Some t"
  shows "tp_inv (root E) t"
proof -
  note s = tp_inv_outcome[OF assms(1)]
  have reply: "(x, ab) \<in> watch_replies s" and h: "transaction_participant_watch x ab s = Some t"
    using assms(2) by (auto split: if_splits)
  obtain p where p: "txn (srv s x) = Some p" using h by (auto simp: transaction_participant_watch_def split: option.splits)
  have "outcome s \<noteq> None" using reply s(1) unfolding undecided_def by (cases "outcome s") auto
  then consider (no) "outcome s = Some False" | (yes) "outcome s = Some True" by (cases "the (outcome s)") auto
  then show ?thesis
  proof cases
    case no
    with reply s(2) have "ab" unfolding aborted_ok_def by (cases ab) auto
    with h p have "abort_at x p s = Some t" by (simp add: transaction_participant_watch_def)
    then show ?thesis by (rule abort_at_aborted_inv[OF assms(1) no p])
  next
    case yes
    show ?thesis
    proof (cases "\<not> ab \<and> prepared p")
      case True
      with h p have "t = snd (commit_at x p s)" by (simp add: transaction_participant_watch_def)
      then show ?thesis using commit_at_committed_inv[OF assms(1) yes p] by simp
    next
      case False
      with h p have a: "abort_at x p s = Some t" by (auto simp: transaction_participant_watch_def)
      have "settled s x" if "x \<in> writers s"
        using that s(3)[OF yes] reply False p unfolding committed_ok_def safe_def durable_def by (cases ab) auto
      then show ?thesis by (rule abort_at_committed_inv[OF assms(1) yes p a])
    qed
  qed
qed

section \<open>Steps of the coordinator\<close>

definition same_places :: "('s, 'm, 'k) tp_sys \<Rightarrow> ('s, 'm, 'k) tp_sys \<Rightarrow> bool" where
  "same_places s t \<longleftrightarrow> srv t = srv s \<and> db t = db s \<and> applied t = applied s \<and> elided t = elided s \<and>
     handlers t = handlers s \<and> prepare_replies t = prepare_replies s \<and> commit_replies t = commit_replies s"

lemma same_places_settled: "same_places s t \<Longrightarrow> settled t = settled s"
  and same_places_safe: "same_places s t \<Longrightarrow> safe t = safe s"
  by (simp_all add: fun_eq_iff same_places_def settled_def safe_def durable_def)

lemma tp_inv_places:
  assumes "tp_inv r s" "same_places s t" "requests_ok t"
    "case outcome t of None \<Rightarrow> undecided t | Some False \<Rightarrow> aborted_ok t | Some True \<Rightarrow> committed_ok t"
  shows "tp_inv r t"
  using assms by (simp add: tp_inv_def local_ok_def same_places_def)

text \<open>The outcome, from the coordinator's phase.\<close>

lemma phase_outcome:
  assumes "tp_inv r s"
  shows "phase (co s) \<in> {Idle, Running} \<Longrightarrow> outcome s = None"
    "phase (co s) = Read_only_prepare ps acks \<Longrightarrow> outcome s = None"
    "phase (co s) = Prepare_phase again ps acks \<Longrightarrow> outcome s = None"
    "phase (co s) = Read_only_done \<Longrightarrow> outcome s = Some True"
    "phase (co s) = Mark_prepared ps \<Longrightarrow> outcome s = Some True"
    "phase (co s) = Commit_phase ps acks \<Longrightarrow> outcome s = Some True"
    "phase (co s) = Cleanup_phase ps \<Longrightarrow> outcome s = Some True"
    "phase (co s) = Abort_cleanup ps \<Longrightarrow> outcome s = Some False"
    "phase (co s) = Abort_phase ps \<Longrightarrow> outcome s = Some False"
proof -
  have a: "undecided s \<or> aborted_ok s \<or> committed_ok s" "outcome s = None \<longrightarrow> undecided s"
    "outcome s = Some False \<longrightarrow> aborted_ok s" "outcome s = Some True \<longrightarrow> committed_ok s"
    using assms by (auto simp: tp_inv_def split: option.splits bool.splits)
  have b: "undecided s \<Longrightarrow> undecided_phase (phase (co s)) s" "aborted_ok s \<Longrightarrow> abort_phase_ok (phase (co s))"
    "committed_ok s \<Longrightarrow> \<exists>ps. committed_phase (phase (co s)) ps s"
    by (auto simp: undecided_def aborted_ok_def committed_ok_def)
  have c: "outcome s = None \<or> outcome s = Some False \<or> outcome s = Some True" by (cases "outcome s") auto
  show "phase (co s) \<in> {Idle, Running} \<Longrightarrow> outcome s = None"
    "phase (co s) = Read_only_prepare ps acks \<Longrightarrow> outcome s = None"
    "phase (co s) = Prepare_phase again ps acks \<Longrightarrow> outcome s = None"
    "phase (co s) = Read_only_done \<Longrightarrow> outcome s = Some True"
    "phase (co s) = Mark_prepared ps \<Longrightarrow> outcome s = Some True"
    "phase (co s) = Commit_phase ps acks \<Longrightarrow> outcome s = Some True"
    "phase (co s) = Cleanup_phase ps \<Longrightarrow> outcome s = Some True"
    "phase (co s) = Abort_cleanup ps \<Longrightarrow> outcome s = Some False"
    "phase (co s) = Abort_phase ps \<Longrightarrow> outcome s = Some False"
    using a b c by auto
qed

lemma start_inv:
  assumes "tp_inv r s" "tp_act E Start s = Some t"
  shows "tp_inv r t"
proof -
  have p: "phase (co s) = Idle" and t: "t = s\<lparr>co := (co s)\<lparr>future := Some Pending, phase := Running\<rparr>\<rparr>"
    using assms(2) by (auto simp: with_co_def transaction_coordinator_start_def split: if_splits)
  have o: "outcome s = None" using phase_outcome(1)[OF assms(1)] p by simp
  have u: "undecided s" "requests_ok s" using tp_inv_outcome[OF assms(1)] o by auto
  have places: "same_places s t" by (simp add: t same_places_def)
  note eq = same_places_settled[OF places] same_places_safe[OF places]
  show ?thesis
    by (rule tp_inv_places[OF assms(1) places])
      (use u p o in \<open>auto simp: t requests_ok_def undecided_def writers_def eq[unfolded t]\<close>)
qed

end
