(* ===== verification/Two_Phase_Steps.thy ===== *)
theory Two_Phase_Steps
  imports Two_Phase_Atomic
begin

text \<open>
  Two-phase commit, continued: the steps of the coordinator keep the invariant, and so does every run in
  which the coordinator does not restart while its record disagrees with the outcome it has made known and
  the database handles no prepare that a restart has left behind.
\<close>

lemma co_update_simps [simp]:
  "settled (s\<lparr>co := c\<rparr>) = settled s" "safe (s\<lparr>co := c\<rparr>) = safe s" "writers (s\<lparr>co := c\<rparr>) = writers s"
  by (simp_all add: fun_eq_iff settled_def safe_def durable_def writers_def)

lemma requests_ok_same:
  assumes "requests_ok s" "same_places s t" "plist t = plist s" "prepare_calls t = prepare_calls s"
  shows "requests_ok t"
  using assms by (cases "plist s") (auto simp: requests_ok_def same_places_def)

lemma undecided_same:
  assumes "undecided s" "same_places s t" "plist t = plist s" "undecided_phase (phase (co t)) t"
    "abort_calls t = {}" "commit_calls t = {}" "watch_replies t = {}"
  shows "undecided t"
proof -
  have "writers t = writers s" by (simp add: writers_def assms(3))
  with assms show ?thesis
    unfolding undecided_def same_places_safe[OF assms(2)] same_places_settled[OF assms(2)] same_places_def by auto
qed

lemma complete_inv:
  assumes "tp_inv r s" "tp_act E (Complete ps) s = Some t"
  shows "tp_inv r t"
proof -
  obtain c where ps: "set (should_commit ps) \<inter> set (read_only ps) = {}" and p: "phase (co s) = Running" and t: "t = s\<lparr>co := c, plist := Some ps\<rparr>"
    and c: "c = (if should_commit ps = [] then (co s)\<lparr>phase := Read_only_prepare ps {}\<rparr>
                 else (co s)\<lparr>phase := Prepare_phase False ps {}, put_pending := Some ps\<rparr>)"
    using assms(2) by (auto simp: with_co_def transaction_coordinator_complete_def split: if_splits)
  have o: "outcome s = None" using phase_outcome(1)[OF assms(1)] p by simp
  have u: "undecided s" "requests_ok s" using tp_inv_outcome[OF assms(1)] o by auto
  then have none: "plist s = None" using p by (simp add: undecided_def)
  have places: "same_places s t" by (simp add: t same_places_def)
  show ?thesis
  proof (rule tp_inv_places[OF assms(1) places])
    show "requests_ok t" using u(2) none ps by (simp add: t requests_ok_def)
    have "undecided t" using u p none same_places_settled[OF places]
      by (auto simp: t c undecided_def requests_ok_def)
    then show "case outcome t of None \<Rightarrow> undecided t | Some False \<Rightarrow> aborted_ok t | Some True \<Rightarrow> committed_ok t"
      using o by (simp add: t)
  qed
qed

text \<open>An abort of the coordinator, from a state without an outcome.\<close>

lemma coordinator_abort_inv:
  assumes "tp_inv r s" "outcome s = None" "transaction_coordinator_abort ps (co s) = Some c"
  shows "tp_inv r (s\<lparr>co := c, outcome := Some False\<rparr>)"
proof -
  have c: "c = (co s)\<lparr>future := None, phase := Abort_cleanup ps\<rparr>"
    using assms(3) by (auto simp: transaction_coordinator_abort_def split: if_splits)
  have u: "undecided s" "requests_ok s" using tp_inv_outcome[OF assms(1)] assms(2) by auto
  have rec: "\<forall>ps. db_record (co s) \<noteq> Some (False, ps)" using u(1) by (cases "phase (co s)") (auto simp: undecided_def)
  have places: "same_places s (s\<lparr>co := c, outcome := Some False\<rparr>)" by (simp add: same_places_def)
  show ?thesis
    by (rule tp_inv_places[OF assms(1) places requests_ok_same[OF u(2) places]])
      (use u(1) rec in \<open>auto simp: undecided_def aborted_ok_def c\<close>)
qed

lemma may_fail_undecided: "tp_inv r s \<Longrightarrow> may_fail ps (phase (co s)) \<Longrightarrow> outcome s = None"
  using phase_outcome[of r s] by (cases "phase (co s)") auto

lemma fail_inv:
  assumes "tp_inv r s" "tp_act E (Fail ps) s = Some t"
  shows "tp_inv r t"
  using assms coordinator_abort_inv[OF assms(1) may_fail_undecided[OF assms(1)]]
  by (auto simp: with_co_def split: if_splits)

lemma put_record_inv:
  assumes "tp_inv r s" "tp_act E Put_record s = Some t"
  shows "tp_inv r t"
proof -
  obtain ps where ps: "put_pending (co s) = Some ps" and t: "t = s\<lparr>co := (co s)\<lparr>put_pending := None, db_record := Some (True, ps)\<rparr>\<rparr>"
    using assms(2) by (auto simp: with_co_def database_coordinator_prepare_def split: option.splits)
  note s = tp_inv_outcome[OF assms(1)]
  have places: "same_places s t" by (simp add: t same_places_def)
  note eq = same_places_settled[OF places] same_places_safe[OF places]
  have "outcome s \<noteq> Some True" using s(3) ps by (auto simp: committed_ok_def)
  then consider "outcome s = None" | "outcome s = Some False" by (cases "outcome s") auto
  then have "case outcome t of None \<Rightarrow> undecided t | Some False \<Rightarrow> aborted_ok t | Some True \<Rightarrow> committed_ok t"
  proof cases
    case 1
    have "undecided_phase (phase (co t)) t"
      using s(1)[OF 1] ps by (cases "phase (co s)") (auto simp: undecided_def t eq[unfolded t])
    then have "undecided t"
      by (rule undecided_same[OF s(1)[OF 1] places, rotated]) (use s(1)[OF 1] in \<open>simp_all add: t undecided_def\<close>)
    with 1 show ?thesis by (simp add: t)
  next
    case 2
    with s(2)[OF 2] show ?thesis by (simp add: t aborted_ok_def)
  qed
  moreover have "requests_ok t" by (rule requests_ok_same[OF s(5) places]) (simp_all add: t)
  ultimately show ?thesis by (intro tp_inv_places[OF assms(1) places])
qed

lemma send_prepare_inv:
  assumes "tp_inv r s" "tp_act E (Send_prepare x) s = Some t"
  shows "tp_inv r t"
proof -
  obtain ro where ro: "(x, ro) \<in> set (prepare_targets (phase (co s)))"
    and t: "t = s\<lparr>prepare_calls := insert (incarnation (co s), x, ro) (prepare_calls s)\<rparr>"
    using assms(2) by (auto dest: map_of_SomeD split: option.splits)
  note s = tp_inv_outcome[OF assms(1)]
  have o: "outcome s = None" using ro phase_outcome(2,3)[OF assms(1)] by (cases "phase (co s)") auto
  obtain ps where ps: "plist s = Some ps" "ro \<longleftrightarrow> x \<in> set (read_only ps)"
    using ro s(1)[OF o] by (cases "phase (co s)") (auto simp: undecided_def)
  have places: "same_places s t" by (simp add: t same_places_def)
  note eq = same_places_settled[OF places] same_places_safe[OF places]
  have "requests_ok t" using s(5) ps by (auto simp: t requests_ok_def)
  moreover have "undecided_phase (phase (co t)) t"
    using s(1)[OF o] by (cases "phase (co s)") (auto simp: undecided_def t eq[unfolded t])
  then have "undecided t"
    by (rule undecided_same[OF s(1)[OF o] places, rotated]) (use s(1)[OF o] in \<open>simp_all add: t undecided_def\<close>)
  ultimately show ?thesis using o by (intro tp_inv_places[OF assms(1) places]) (simp_all add: t)
qed

lemma committed_I:
  assumes "same_places s t" "plist t = Some ps" "committed_phase (phase (co t)) ps t"
    "future (co t) = Some (Result ps) \<or> future (co t) = None \<and> (\<forall>x \<in> set (should_commit ps). settled s x)"
    "put_pending (co t) = None" "abort_calls t = {}" "\<forall>x \<in> set (should_commit ps). safe s x"
    "\<And>n x. (n, x) \<in> commit_replies s \<Longrightarrow> x \<in> set (should_commit ps) \<Longrightarrow> settled s x"
    "\<And>x. (x, True) \<in> watch_replies t \<Longrightarrow> x \<in> set (should_commit ps) \<Longrightarrow> settled s x"
  shows "committed_ok t"
proof -
  have w: "writers t = set (should_commit ps)" by (simp add: writers_def assms(2))
  have r: "commit_replies t = commit_replies s" using assms(1) by (simp add: same_places_def)
  show ?thesis
    unfolding committed_ok_def w r same_places_safe[OF assms(1)] same_places_settled[OF assms(1)]
    using assms(2-9) by auto
qed

lemma committed_D:
  assumes "committed_ok s"
  obtains ps where "plist s = Some ps" "writers s = set (should_commit ps)" "committed_phase (phase (co s)) ps s"
    "future (co s) = Some (Result ps) \<or> future (co s) = None \<and> (\<forall>x \<in> set (should_commit ps). settled s x)"
    "put_pending (co s) = None" "abort_calls s = {}" "\<forall>x \<in> set (should_commit ps). safe s x"
    "\<And>n x. (n, x) \<in> commit_replies s \<Longrightarrow> x \<in> set (should_commit ps) \<Longrightarrow> settled s x"
    "\<And>x. (x, True) \<in> watch_replies s \<Longrightarrow> x \<in> set (should_commit ps) \<Longrightarrow> settled s x"
proof -
  obtain ps where ps: "plist s = Some ps" "committed_phase (phase (co s)) ps s"
      "future (co s) = Some (Result ps) \<or> future (co s) = None \<and> (\<forall>x \<in> writers s. settled s x)"
    using assms by (auto simp: committed_ok_def)
  have w: "writers s = set (should_commit ps)" by (simp add: writers_def ps(1))
  show thesis
    by (rule that[OF ps(1) w ps(2) ps(3)[unfolded w]]) (use assms in \<open>auto simp: committed_ok_def w\<close>)
qed

text \<open>The outcome becomes known: all that have something to commit are prepared.\<close>

lemma publish_inv:
  assumes "tp_inv r s" "outcome s = None" "plist s = Some ps" "\<forall>x \<in> set (should_commit ps). safe s x"
    "future c = Some (Result ps)" "put_pending c = None"
    "committed_phase (phase c) ps (s\<lparr>co := c, outcome := Some True\<rparr>)"
  shows "tp_inv r (s\<lparr>co := c, outcome := Some True\<rparr>)"
proof -
  note s = tp_inv_outcome[OF assms(1)]
  let ?t = "s\<lparr>co := c, outcome := Some True\<rparr>"
  have places: "same_places s ?t" by (simp add: same_places_def)
  have u: "abort_calls s = {}" "commit_replies s = {}" "watch_replies s = {}"
    using s(1)[OF assms(2)] by (simp_all add: undecided_def)
  have "committed_ok ?t"
    by (rule committed_I[OF places]) (use assms(3-7) u in simp_all)
  then show ?thesis
    by (intro tp_inv_places[OF assms(1) places requests_ok_same[OF s(5) places]]) simp_all
qed

lemma targets_writers: "set (should_commit ps) \<subseteq> set (should_prepare again ps)"
  by (auto simp: should_prepare_def)

lemma recv_prepare_inv:
  assumes "tp_inv r s" "tp_act E (Recv_prepare x resp) s = Some t"
  shows "tp_inv r t"
proof -
  note s = tp_inv_outcome[OF assms(1)]
  obtain c where reply: "(incarnation (co s), x, resp) \<in> prepare_replies s" and c: "prepare_answered x resp (co s) = Some c"
    and t: "t = s\<lparr>co := c, outcome := (if future c = Some Pending then outcome s else Some (future c \<noteq> None))\<rparr>"
    using assms(2) by (cases "(incarnation (co s), x, resp) \<in> prepare_replies s") (auto simp: with_co_def)
  have o: "outcome s = None"
    using c phase_outcome(2,3)[OF assms(1)] by (cases "phase (co s)") (auto simp: prepare_answered_def)
  note u = s(1)[OF o]
  have places: "same_places s t" by (simp add: t same_places_def)
  have req: "requests_ok t" by (rule requests_ok_same[OF s(5) places]) (simp_all add: t)
  show ?thesis
  proof (cases "phase (co s)")
    case (Read_only_prepare ps acks)
    have f: "future (co s) = Some Pending" "plist s = Some ps" "should_commit ps = []" "put_pending (co s) = None" "db_record (co s) = None"
      using u Read_only_prepare by (simp_all add: undecided_def)
    show ?thesis
    proof (cases "resp = Response_prepared")
      case True
      then have c': "c = (co s)\<lparr>phase := Read_only_prepare ps (insert x acks)\<rparr>"
        using c Read_only_prepare by (simp add: prepare_answered_def)
      have "undecided t"
        by (rule undecided_same[OF u places]) (use u f in \<open>simp_all add: t c' undecided_def\<close>)
      with o f show ?thesis by (intro tp_inv_places[OF assms(1) places req]) (simp add: t c')
    next
      case False
      then have c': "c = (co s)\<lparr>future := Some (Result ps), phase := Read_only_done\<rparr>"
        using c Read_only_prepare by (simp add: prepare_answered_def)
      have "tp_inv r (s\<lparr>co := c, outcome := Some True\<rparr>)"
        by (rule publish_inv[OF assms(1) o f(2)]) (simp_all add: c' f)
      then show ?thesis by (simp add: t c')
    qed
  next
    case (Prepare_phase again ps acks)
    have f: "future (co s) = Some Pending" "plist s = Some ps" using u Prepare_phase by (simp_all add: undecided_def)
    show ?thesis
    proof (cases "resp = Response_prepared")
      case True
      then have c': "c = (co s)\<lparr>phase := Prepare_phase again ps (insert x acks)\<rparr>"
        using c Prepare_phase by (simp add: prepare_answered_def)
      have "x \<in> set (should_commit ps) \<Longrightarrow> safe s x"
        using u reply True f(2) unfolding undecided_def writers_def by auto
      moreover have ph: "phase (co t) = Prepare_phase again ps (insert x acks)" by (simp add: t c')
      ultimately have "undecided_phase (phase (co t)) t"
        unfolding ph undecided_phase.simps same_places_safe[OF places]
        using u Prepare_phase f unfolding undecided_def by (auto simp: c' t)
      then have "undecided t"
        by (rule undecided_same[OF u places, rotated]) (use u in \<open>simp_all add: t undecided_def\<close>)
      with o f show ?thesis by (intro tp_inv_places[OF assms(1) places req]) (simp add: t c')
    next
      case False
      then have a: "transaction_coordinator_abort ps (co s) = Some c"
        using c Prepare_phase by (simp add: prepare_answered_def)
      then have "future c = None" by (auto simp: transaction_coordinator_abort_def split: if_splits)
      with coordinator_abort_inv[OF assms(1) o a] show ?thesis by (simp add: t)
    qed
  qed (use c in \<open>auto simp: prepare_answered_def\<close>)
qed

lemma prepared_all_inv:
  assumes "tp_inv r s" "tp_act E Prepared_all s = Some t"
  shows "tp_inv r t"
proof -
  note s = tp_inv_outcome[OF assms(1)]
  obtain c where c: "prepare_completed (co s) = Some c" and t: "t = s\<lparr>co := c, outcome := Some True\<rparr>"
    using assms(2) by (auto simp: with_co_def)
  have o: "outcome s = None"
    using c phase_outcome(2,3)[OF assms(1)] by (cases "phase (co s)") (auto simp: prepare_completed_def split: if_splits)
  note u = s(1)[OF o]
  show ?thesis
  proof (cases "phase (co s)")
    case (Read_only_prepare ps acks)
    then have "c = (co s)\<lparr>future := Some (Result ps), phase := Read_only_done\<rparr>"
      using c by (simp add: prepare_completed_def split: if_splits)
    moreover have "plist s = Some ps" "should_commit ps = []" "put_pending (co s) = None" "db_record (co s) = None"
      using u Read_only_prepare by (simp_all add: undecided_def)
    ultimately show ?thesis unfolding t by (intro publish_inv[OF assms(1) o]) simp_all
  next
    case (Prepare_phase again ps acks)
    then have "c = (co s)\<lparr>future := Some (Result ps), phase := Mark_prepared ps\<rparr>" and p: "put_pending (co s) = None"
      and acks: "set (should_prepare again ps) \<subseteq> acks"
      using c by (auto simp: prepare_completed_def split: if_splits)
    moreover have "plist s = Some ps" "db_record (co s) = Some (True, ps)"
      "\<forall>x \<in> acks \<inter> set (should_commit ps). safe s x"
      using u Prepare_phase p by (simp_all add: undecided_def)
    moreover from this(3) have "\<forall>x \<in> set (should_commit ps). safe s x" using acks targets_writers by blast
    ultimately show ?thesis unfolding t by (intro publish_inv[OF assms(1) o]) simp_all
  qed (use c in \<open>auto simp: prepare_completed_def split: if_splits\<close>)
qed

text \<open>Steps after the outcome is known to be commit.\<close>

lemma committed_step:
  assumes "tp_inv r s" "outcome s = Some True" "plist s = Some ps"
    "committed_phase (phase c) ps (s\<lparr>co := c\<rparr>)"
    "future c = Some (Result ps) \<or> future c = None \<and> (\<forall>x \<in> set (should_commit ps). settled s x)"
    "put_pending c = None"
  shows "tp_inv r (s\<lparr>co := c\<rparr>)"
proof -
  note s = tp_inv_outcome[OF assms(1)]
  have places: "same_places s (s\<lparr>co := c\<rparr>)" by (simp add: same_places_def)
  have "committed_ok (s\<lparr>co := c\<rparr>)"
  proof (rule committed_D[OF s(3)[OF assms(2)]])
    fix qs
    assume "plist s = Some qs" "abort_calls s = {}" "\<forall>x \<in> set (should_commit qs). safe s x"
      "\<And>n x. (n, x) \<in> commit_replies s \<Longrightarrow> x \<in> set (should_commit qs) \<Longrightarrow> settled s x"
      "\<And>x. (x, True) \<in> watch_replies s \<Longrightarrow> x \<in> set (should_commit qs) \<Longrightarrow> settled s x"
    then show ?thesis
      by (intro committed_I[OF places]) (use assms(3-6) in simp_all)
  qed
  then show ?thesis
    by (intro tp_inv_places[OF assms(1) places requests_ok_same[OF s(5) places]]) (simp_all add: assms(2))
qed

lemma committed_phase_same:
  assumes "same_places s t" "plist t = plist s" "db_record (co t) = db_record (co s)" "future (co t) = future (co s)"
  shows "committed_phase ph ps t = committed_phase ph ps s"
  using assms(2-4) same_places_settled[OF assms(1)] by (cases ph) (simp_all add: writers_def)

lemma commit_loop_inv:
  assumes "tp_inv r s" "f (co s) = Some c"
    "f = read_only_pop \<or> f = commit_loop_mark \<or> f = commit_retry \<or> f = commit_loop_forget \<or> f = commit_loop_cleanup ok \<or>
     (f = commit_answered x \<and> (incarnation (co s), x) \<in> commit_replies s)"
  shows "tp_inv r (s\<lparr>co := c\<rparr>)"
proof -
  have o: "outcome s = Some True"
    using assms(2,3) phase_outcome(4-7)[OF assms(1)]
    by (cases "phase (co s)") (auto simp: read_only_pop_def commit_loop_mark_def commit_retry_def commit_loop_forget_def
        commit_loop_cleanup_def commit_answered_def split: if_splits)
  obtain ps where ps: "plist s = Some ps" "writers s = set (should_commit ps)" "committed_phase (phase (co s)) ps s"
    "future (co s) = Some (Result ps) \<or> future (co s) = None \<and> (\<forall>x \<in> set (should_commit ps). settled s x)"
    "put_pending (co s) = None"
    "\<And>n x. (n, x) \<in> commit_replies s \<Longrightarrow> x \<in> set (should_commit ps) \<Longrightarrow> settled s x"
    using committed_D[OF tp_inv_outcome(3)[OF assms(1) o]] by metis
  have "committed_phase (phase c) ps (s\<lparr>co := c\<rparr>) \<and>
      (future c = Some (Result ps) \<or> future c = None \<and> (\<forall>x \<in> set (should_commit ps). settled s x)) \<and> put_pending c = None"
    using assms(3)
  proof (elim disjE)
    assume f: "f = read_only_pop"
    then show ?thesis using assms(2) ps by (auto simp: read_only_pop_def split: if_splits)
  next
    assume f: "f = commit_loop_mark"
    then show ?thesis using assms(2) ps by (cases "phase (co s)") (auto simp: commit_loop_mark_def)
  next
    assume f: "f = commit_retry"
    then show ?thesis using assms(2) ps by (cases "phase (co s)") (auto simp: commit_retry_def)
  next
    assume f: "f = commit_loop_forget"
    then show ?thesis using assms(2) ps by (cases "phase (co s)") (auto simp: commit_loop_forget_def split: if_splits)
  next
    assume f: "f = commit_loop_cleanup ok"
    then show ?thesis using assms(2) ps by (cases "phase (co s)") (auto simp: commit_loop_cleanup_def split: if_splits)
  next
    assume f: "f = commit_answered x \<and> (incarnation (co s), x) \<in> commit_replies s"
    then have "x \<in> set (should_commit ps) \<Longrightarrow> settled s x" using ps(6) by blast
    then show ?thesis using f assms(2) ps by (cases "phase (co s)") (auto simp: commit_answered_def)
  qed
  then show ?thesis by (intro committed_step[OF assms(1) o ps(1)]) simp_all
qed

lemma send_commit_inv:
  assumes "tp_inv r s" "tp_act E (Send_commit x) s = Some t"
  shows "tp_inv r t"
proof -
  note s = tp_inv_outcome[OF assms(1)]
  obtain ps acks where p: "phase (co s) = Commit_phase ps acks"
    and t: "t = s\<lparr>commit_calls := insert (incarnation (co s), x) (commit_calls s)\<rparr>"
    using assms(2) by (auto split: phase.splits if_splits)
  have o: "outcome s = Some True" by (rule phase_outcome(6)[OF assms(1) p])
  have places: "same_places s t" by (simp add: t same_places_def)
  have "committed_ok t"
    using s(3)[OF o] committed_phase_same[OF places] same_places_settled[OF places] same_places_safe[OF places]
    by (auto simp: committed_ok_def t writers_def)
  with o show ?thesis
    by (intro tp_inv_places[OF assms(1) places requests_ok_same[OF s(5) places]]) (simp_all add: t)
qed

lemma abort_cleaned_inv:
  assumes "tp_inv r s" "tp_act E (Abort_cleaned ok) s = Some t"
  shows "tp_inv r t"
proof -
  note s = tp_inv_outcome[OF assms(1)]
  obtain c where c: "abort_cleaned ok (co s) = Some c" and t: "t = s\<lparr>co := c\<rparr>" using assms(2) by (auto simp: with_co_def)
  have o: "outcome s = Some False"
    using c phase_outcome(8)[OF assms(1)] by (cases "phase (co s)") (auto simp: abort_cleaned_def)
  have places: "same_places s t" by (simp add: t same_places_def)
  have "aborted_ok t"
    using s(2)[OF o] c by (cases "phase (co s)") (auto simp: aborted_ok_def t abort_cleaned_def split: if_splits)
  with o show ?thesis
    by (intro tp_inv_places[OF assms(1) places requests_ok_same[OF s(5) places]]) (simp_all add: t)
qed

lemma send_abort_inv:
  assumes "tp_inv r s" "tp_act E (Send_abort x) s = Some t"
  shows "tp_inv r t"
proof -
  note s = tp_inv_outcome[OF assms(1)]
  obtain ps where p: "phase (co s) = Abort_phase ps" and t: "t = s\<lparr>abort_calls := insert x (abort_calls s)\<rparr>"
    using assms(2) by (auto split: phase.splits if_splits)
  have o: "outcome s = Some False" by (rule phase_outcome(9)[OF assms(1) p])
  have places: "same_places s t" by (simp add: t same_places_def)
  have "aborted_ok t" using s(2)[OF o] by (simp add: aborted_ok_def t)
  with o show ?thesis
    by (intro tp_inv_places[OF assms(1) places requests_ok_same[OF s(5) places]]) (simp_all add: t)
qed

lemma watch_rpc_inv:
  assumes "tp_inv r s" "tp_act E (Watch_rpc x) s = Some t"
  shows "tp_inv r t"
proof -
  note s = tp_inv_outcome[OF assms(1)]
  obtain ab where x: "txn (srv s x) \<noteq> None" and w: "Watch x (co s) = Some ab"
    and t: "t = s\<lparr>watch_replies := insert (x, ab) (watch_replies s)\<rparr>"
    using assms(2) by (cases "txn (srv s x)"; cases "Watch x (co s)") auto
  have places: "same_places s t" by (simp add: t same_places_def)
  have req: "requests_ok t" by (rule requests_ok_same[OF s(5) places]) (simp_all add: t)
  have "outcome s \<noteq> None"
  proof
    assume "outcome s = None"
    from s(1)[OF this] show False using x w by (cases "phase (co s)") (auto simp: undecided_def Watch_def)
  qed
  then consider (no) "outcome s = Some False" | (yes) "outcome s = Some True" by (cases "the (outcome s)") auto
  then show ?thesis
  proof cases
    case no
    have "aborted_ok t" using s(2)[OF no] w by (auto simp: aborted_ok_def t Watch_def)
    with no show ?thesis by (intro tp_inv_places[OF assms(1) places req]) (simp add: t)
  next
    case yes
    obtain ps where ps: "plist s = Some ps" "writers s = set (should_commit ps)" "committed_phase (phase (co s)) ps s"
      "future (co s) = Some (Result ps) \<or> future (co s) = None \<and> (\<forall>x \<in> set (should_commit ps). settled s x)"
      "put_pending (co s) = None" "abort_calls s = {}" "\<forall>x \<in> set (should_commit ps). safe s x"
      "\<And>n x. (n, x) \<in> commit_replies s \<Longrightarrow> x \<in> set (should_commit ps) \<Longrightarrow> settled s x"
      "\<And>x. (x, True) \<in> watch_replies s \<Longrightarrow> x \<in> set (should_commit ps) \<Longrightarrow> settled s x"
      using committed_D[OF s(3)[OF yes]] by metis
    have new: "ab \<Longrightarrow> x \<in> set (should_commit ps) \<Longrightarrow> settled s x" using ps(4) w by (auto simp: Watch_def)
    have "committed_ok t"
      by (rule committed_I[OF places, of ps])
        (use ps new committed_phase_same[OF places] in \<open>auto simp: t\<close>)
    with yes show ?thesis by (intro tp_inv_places[OF assms(1) places req]) (simp add: t)
  qed
qed

section \<open>Restarts of the coordinator\<close>

text \<open>
  The coordinator has told participants or its caller the outcome, while the database still has the
  record that says \<open>preparing\<close>.
\<close>

definition risky :: "('s, 'm, 'k) tp_sys \<Rightarrow> bool" where
  "risky s \<longleftrightarrow> outcome s \<noteq> None \<and> (\<exists>ps. db_record (co s) = Some (True, ps))"

lemma restart_inv:
  assumes "tp_inv r s" "tp_act E Restart_coordinator s = Some t" "\<not> risky s"
  shows "tp_inv r t"
proof -
  note s = tp_inv_outcome[OF assms(1)]
  let ?c = "recover_coordinator (co s)"
  have t: "t = s\<lparr>co := ?c, outcome := (if outcome s = None \<and> future ?c = None then Some False else outcome s)\<rparr>"
    using assms(2) by (simp add: Let_def)
  have places: "same_places s t" by (simp add: t same_places_def)
  have req: "requests_ok t" by (rule requests_ok_same[OF s(5) places]) (simp_all add: t)
  consider (none) "outcome s = None" | (no) "outcome s = Some False" | (yes) "outcome s = Some True"
    by (cases "outcome s") auto
  then show ?thesis
  proof cases
    case none
    note u = s(1)[OF none]
    show ?thesis
    proof (cases "db_record (co s)")
      case None
      then have c: "?c = (co s)\<lparr>put_pending := None, incarnation := Suc (incarnation (co s)), future := None, phase := Over\<rparr>"
        by (simp add: recover_coordinator_def)
      have "aborted_ok t" using u by (auto simp: t c None undecided_def aborted_ok_def)
      then show ?thesis using none by (intro tp_inv_places[OF assms(1) places req]) (simp add: t c)
    next
      case (Some rec)
      obtain ps where rec: "rec = (True, ps)" "plist s = Some ps"
        using u Some by (cases "phase (co s)") (auto simp: undecided_def)
      then have c: "?c = (co s)\<lparr>put_pending := None, incarnation := Suc (incarnation (co s)), future := Some Pending,
          phase := Prepare_phase True ps {}\<rparr>"
        using Some by (simp add: recover_coordinator_def)
      have "undecided t"
        by (rule undecided_same[OF u places]) (use u Some rec in \<open>simp_all add: t c undecided_def\<close>)
      then show ?thesis using none by (intro tp_inv_places[OF assms(1) places req]) (simp add: t c)
    qed
  next
    case no
    have rec: "db_record (co s) = None"
      using s(2)[OF no] assms(3) no by (cases "db_record (co s)") (auto simp: risky_def aborted_ok_def)
    have "aborted_ok t" using s(2)[OF no] rec by (simp add: t aborted_ok_def recover_coordinator_def)
    then show ?thesis using no by (intro tp_inv_places[OF assms(1) places req]) (simp add: t)
  next
    case yes
    obtain ps where ps: "plist s = Some ps" "writers s = set (should_commit ps)" "committed_phase (phase (co s)) ps s"
      "future (co s) = Some (Result ps) \<or> future (co s) = None \<and> (\<forall>x \<in> set (should_commit ps). settled s x)"
      using committed_D[OF s(3)[OF yes]] by metis
    have "db_record (co s) = Some (False, ps) \<or> db_record (co s) = None \<and> (\<forall>x \<in> set (should_commit ps). settled s x)"
      using ps(3,4) assms(3) yes by (cases "phase (co s)") (auto simp: risky_def)
    then have "tp_inv r (s\<lparr>co := ?c\<rparr>)"
      using ps by (intro committed_step[OF assms(1) yes ps(1)]) (auto simp: recover_coordinator_def)
    moreover have "t = s\<lparr>co := ?c\<rparr>" using yes by (simp add: t)
    ultimately show ?thesis by simp
  qed
qed

section \<open>All runs\<close>

definition tp_step :: "('s, 'k) tp_env \<Rightarrow> ('s, 'm, 'k) tp_sys \<Rightarrow> ('s, 'm, 'k) tp_event \<Rightarrow> ('s, 'm, 'k) tp_sys \<Rightarrow> bool" where
  "tp_step E s e t \<longleftrightarrow> tp_do E e s = Some t"

text \<open>
  Steps other than a restart of the coordinator at a risky moment, and than the database's handling of a request that a
  server left behind when it restarted (or completed a transaction as read-only).  A request left behind by a
  commit or an abort is not excluded: that there is none is part of the invariant.
\<close>

definition tp_safe_step :: "('s, 'k) tp_env \<Rightarrow> ('s, 'm, 'k) tp_sys \<Rightarrow> ('s, 'm, 'k) tp_event \<Rightarrow> ('s, 'm, 'k) tp_sys \<Rightarrow> bool" where
  "tp_safe_step E s e t \<longleftrightarrow> tp_step E s e t \<and> \<not> (e = Restart_coordinator \<and> risky s) \<and> (\<forall>x req. e \<noteq> Db_prepare_late x req True)"

definition servers_fresh :: "(pid \<Rightarrow> ('s, 'm, 'k) server) \<Rightarrow> bool" where
  "servers_fresh sv \<longleftrightarrow> (\<forall>x. txn (sv x) = None \<and> prepare_task (sv x) = No_task)"

definition tp_start :: "('s, 'm, 'k) tp_sys \<Rightarrow> bool" where
  "tp_start s \<longleftrightarrow> (\<exists>sv. servers_fresh sv \<and> s = tp_init sv)"

text \<open>No commit and no abort finishes a transaction while the database still has to handle its prepare.\<close>

definition none_late :: "('s, 'm, 'k) tp_sys \<Rightarrow> bool" where
  "none_late s \<longleftrightarrow> (\<forall>x req. (x, req, False) \<notin> late_prepares s)"

lemma late_prepares_update [simp]:
  "settled (s\<lparr>late_prepares := L\<rparr>) = settled s" "safe (s\<lparr>late_prepares := L\<rparr>) = safe s" "writers (s\<lparr>late_prepares := L\<rparr>) = writers s"
  by (simp_all add: fun_eq_iff settled_def safe_def durable_def writers_def)

lemma tp_inv_late [simp]: "tp_inv r (s\<lparr>late_prepares := L\<rparr>) = tp_inv r s"
proof -
  let ?t = "s\<lparr>late_prepares := L\<rparr>"
  have ph: "undecided_phase ph ?t = undecided_phase ph s" "committed_phase ph ps ?t = committed_phase ph ps s" for ph ps
    by (cases ph; simp)+
  have "requests_ok ?t = requests_ok s" by (cases "plist s") (simp_all add: requests_ok_def)
  moreover have "undecided ?t = undecided s" "aborted_ok ?t = aborted_ok s" "committed_ok ?t = committed_ok s"
    by (simp_all add: undecided_def aborted_ok_def committed_ok_def ph)
  ultimately show ?thesis by (simp add: tp_inv_def local_ok_def split: option.split bool.split)
qed

text \<open>What the steps of the system do to the requests left behind.\<close>

lemma commit_at_late: "late_prepares (snd (commit_at x p s)) = late_prepares s"
  by (auto simp: commit_at_def Let_def split: prod.splits option.splits sum.splits)

lemma abort_at_late: "abort_at x p s = Some t \<Longrightarrow> late_prepares t = late_prepares s"
  by (auto simp: abort_at_def Let_def split: task_status.splits prod.splits sum.splits if_splits)

lemma commit_at_waits: "\<not> finished p \<Longrightarrow> prepare_task (srv s x) = In_flight req \<Longrightarrow> srv (snd (commit_at x p s)) x = srv s x"
  by (auto simp: commit_at_def transaction_participant_commit_def)

lemma abort_at_waits: "prepare_task (srv s x) = In_flight req \<Longrightarrow> abort_at x p s = None"
  by (simp add: abort_at_def)

lemma tp_start_inv: "tp_start s \<Longrightarrow> tp_inv r s \<and> none_late s"
  by (auto simp: tp_start_def servers_fresh_def tp_init_def tp_inv_def local_ok_def sv_ok_def requests_ok_def undecided_def coord_init_def none_late_def)

lemma commit_handler_waits:
  assumes "sv_ok r (srv s x) (db s x) (applied s x)" "prepare_task (srv s x) = In_flight req"
  shows "srv (snd (Commit_handler E x s)) x = srv s x"
  using assms commit_at_waits[OF _ assms(2)]
  by (cases "txn (srv s x)") (auto simp: Commit_handler_def sv_ok_def)

lemma act_late: "tp_act E e s = Some t \<Longrightarrow> late_prepares t \<subseteq> late_prepares s"
proof (cases e)
  case (Prepare_rpc n x ro)
  assume "tp_act E e s = Some t"
  with Prepare_rpc show ?thesis
    by (cases "Prepare E (fst x) \<lparr>abort_via_response = True, read_only_aware = True, request_read_only = ro\<rparr> (srv s x)")
      (auto simp: prepare_at_eq split: if_splits)
next
  case (Commit_rpc n x)
  assume "tp_act E e s = Some t"
  with Commit_rpc have "late_prepares t = late_prepares (snd (Commit_handler E x s))" by (auto split: if_splits prod.splits)
  then show ?thesis using commit_at_late[of x _ s] by (auto simp: Commit_handler_def split: option.splits if_splits)
next
  case (Abort_rpc x)
  assume "tp_act E e s = Some t"
  with Abort_rpc show ?thesis by (auto simp: Abort_handler_def dest: abort_at_late split: if_splits option.splits)
next
  case (Watch_return x ab)
  assume "tp_act E e s = Some t"
  with Watch_return show ?thesis
    by (auto simp: transaction_participant_watch_def commit_at_late dest: abort_at_late split: if_splits option.splits)
qed (auto simp: with_co_def Let_def split: if_splits option.splits sum.splits task_status.splits phase.splits)

text \<open>Only a restart, or a completion as read-only, leaves a request behind.\<close>

lemma left_behind_gone:
  assumes "tp_inv r s" "tp_act E e s = Some t" "(x, req, gone) \<in> left_behind e s t"
  shows gone
proof -
  have f: "forgets_at e = Some (x, gone)" "prepare_task (srv s x) = In_flight req" "prepare_task (srv t x) \<noteq> In_flight req"
    using assms(3) by (auto simp: left_behind_def split: option.splits prod.splits task_status.splits if_splits)
  note sv = tp_inv_outcome(6)[OF assms(1), of x]
  then obtain p where p: "txn (srv s x) = Some p" "\<not> finished p" using f(2) by (cases "txn (srv s x)") (auto simp: sv_ok_def)
  note c = commit_at_waits[OF p(2) f(2)]
  note h = commit_handler_waits[OF sv f(2), of E]
  show ?thesis
    using f assms(2) p c h abort_at_waits[OF f(2), of p]
    by (cases e) (auto simp: Abort_handler_def transaction_participant_watch_def split: if_splits prod.splits)
qed

lemma tp_act_inv:
  assumes "tp_inv (root E) s" and d: "tp_act E e s = Some t" "e = Restart_coordinator \<Longrightarrow> \<not> risky s"
    "\<And>x req. e \<noteq> Db_prepare_late x req True" and "none_late s"
  shows "tp_inv (root E) t"
proof (cases e)
  case Read_only_pop
  then obtain c where "read_only_pop (co s) = Some c" "t = s\<lparr>co := c\<rparr>" using d(1) by (auto simp: with_co_def)
  then show ?thesis using commit_loop_inv[OF assms(1), where f = read_only_pop and c = c] by blast
next
  case Mark
  then obtain c where "commit_loop_mark (co s) = Some c" "t = s\<lparr>co := c\<rparr>" using d(1) by (auto simp: with_co_def)
  then show ?thesis using commit_loop_inv[OF assms(1), where f = commit_loop_mark and c = c] by blast
next
  case (Recv_commit x)
  then obtain c where "(incarnation (co s), x) \<in> commit_replies s" "commit_answered x (co s) = Some c" "t = s\<lparr>co := c\<rparr>"
    using d(1) by (auto simp: with_co_def split: if_splits)
  then show ?thesis using commit_loop_inv[OF assms(1), of "commit_answered x" c _ x] by blast
next
  case Commit_retry
  then obtain c where "commit_retry (co s) = Some c" "t = s\<lparr>co := c\<rparr>" using d(1) by (auto simp: with_co_def)
  then show ?thesis using commit_loop_inv[OF assms(1), where f = commit_retry and c = c] by blast
next
  case Forget
  then obtain c where "commit_loop_forget (co s) = Some c" "t = s\<lparr>co := c\<rparr>" using d(1) by (auto simp: with_co_def)
  then show ?thesis using commit_loop_inv[OF assms(1), where f = commit_loop_forget and c = c] by blast
next
  case (Cleanup ok)
  then obtain c where "commit_loop_cleanup ok (co s) = Some c" "t = s\<lparr>co := c\<rparr>" using d(1) by (auto simp: with_co_def)
  then show ?thesis using commit_loop_inv[OF assms(1), where f = "commit_loop_cleanup ok" and c = c] by blast
next
  case Restart_coordinator
  with d show ?thesis using restart_inv[OF assms(1)] by blast
next
  case Start
  show ?thesis by (rule start_inv[OF assms(1) d(1)[unfolded Start]])
next
  case (Join x c)
  show ?thesis by (rule join_inv[OF assms(1) d(1)[unfolded Join]])
next
  case (Work x q)
  show ?thesis by (rule work_inv[OF assms(1) d(1)[unfolded Work]])
next
  case (Complete ps)
  show ?thesis by (rule complete_inv[OF assms(1) d(1)[unfolded Complete]])
next
  case (Fail ps)
  show ?thesis by (rule fail_inv[OF assms(1) d(1)[unfolded Fail]])
next
  case Put_record
  show ?thesis by (rule put_record_inv[OF assms(1) d(1)[unfolded Put_record]])
next
  case (Send_prepare x)
  show ?thesis by (rule send_prepare_inv[OF assms(1) d(1)[unfolded Send_prepare]])
next
  case (Prepare_rpc n x ro)
  show ?thesis by (rule prepare_inv[OF assms(1) d(1)[unfolded Prepare_rpc]])
next
  case (Db_prepare x)
  show ?thesis by (rule db_prepare_inv[OF assms(1) d(1)[unfolded Db_prepare]])
next
  case (Db_prepare_fails x)
  show ?thesis by (rule db_prepare_fails_inv[OF assms(1) d(1)[unfolded Db_prepare_fails]])
next
  case (Prepare_return n x ob)
  show ?thesis by (rule prepare_return_inv[OF assms(1) d(1)[unfolded Prepare_return]])
next
  case (Recv_prepare x resp)
  show ?thesis by (rule recv_prepare_inv[OF assms(1) d(1)[unfolded Recv_prepare]])
next
  case Prepared_all
  show ?thesis by (rule prepared_all_inv[OF assms(1) d(1)[unfolded Prepared_all]])
next
  case (Send_commit x)
  show ?thesis by (rule send_commit_inv[OF assms(1) d(1)[unfolded Send_commit]])
next
  case (Commit_rpc n x)
  show ?thesis by (rule commit_rpc_inv[OF assms(1) d(1)[unfolded Commit_rpc]])
next
  case (Abort_cleaned ok)
  show ?thesis by (rule abort_cleaned_inv[OF assms(1) d(1)[unfolded Abort_cleaned]])
next
  case (Send_abort x)
  show ?thesis by (rule send_abort_inv[OF assms(1) d(1)[unfolded Send_abort]])
next
  case (Abort_rpc x)
  show ?thesis by (rule abort_rpc_inv[OF assms(1) d(1)[unfolded Abort_rpc]])
next
  case (Watch_rpc x)
  show ?thesis by (rule watch_rpc_inv[OF assms(1) d(1)[unfolded Watch_rpc]])
next
  case (Watch_return x ab)
  show ?thesis by (rule watch_return_inv[OF assms(1) d(1)[unfolded Watch_return]])
next
  case (Restart_participant x now)
  show ?thesis by (rule restart_participant_inv[OF assms(1) d(1)[unfolded Restart_participant]])
next
  case (Db_prepare_late x req gone)
  with d(1) assms(5) have "gone" by (cases gone) (auto simp: none_late_def split: if_splits)
  with Db_prepare_late d(3) show ?thesis by simp
qed

lemma tp_step_inv:
  assumes "tp_inv (root E) s \<and> none_late s" "tp_safe_step E s e t"
  shows "tp_inv (root E) t \<and> none_late t"
proof -
  obtain u where u: "tp_act E e s = Some u" "t = u\<lparr>late_prepares := late_prepares u \<union> left_behind e s u\<rparr>"
    "e = Restart_coordinator \<Longrightarrow> \<not> risky s" "\<And>x req. e \<noteq> Db_prepare_late x req True"
    using assms(2) by (auto simp: tp_safe_step_def tp_step_def tp_do_def)
  have "tp_inv (root E) u" by (rule tp_act_inv[OF _ u(1,3,4)]) (use assms(1) in simp_all)
  moreover have "none_late t"
    using assms(1) act_late[OF u(1)] left_behind_gone[OF _ u(1), of "root E"] by (auto simp: u(2) none_late_def)
  ultimately show ?thesis by (simp add: u(2))
qed

interpretation two_phase: invariant_system tp_start "tp_safe_step E" "\<lambda>s. tp_inv (root E) s \<and> none_late s" for E
  by unfold_locales (rule tp_start_inv tp_step_inv, assumption+)+

end
