(* ===== verification/Two_Phase_Claims.thy ===== *)
theory Two_Phase_Claims
  imports Two_Phase_Steps "HOL-Library.Code_Target_Nat"
begin

text \<open>
  What two-phase commit guarantees, four runs in which it does not (two in which the coordinator
  restarts while its record disagrees with the outcome it has made known, one in which a
  participant restarts before it has prepared, and one in which it restarts while the database has still to
  handle its prepare), and a cleanup that is never repeated.
\<close>

declare split_paired_All [simp del] split_paired_Ex [simp del]

section \<open>Runs as functions\<close>

fun tp_run :: "('s, 'k) tp_env \<Rightarrow> ('s, 'm, 'k) tp_event list \<Rightarrow> ('s, 'm, 'k) tp_sys \<Rightarrow> ('s, 'm, 'k) tp_sys option" where
  "tp_run E [] s = Some s"
| "tp_run E (e # es) s = (case tp_do E e s of None \<Rightarrow> None | Some t \<Rightarrow> tp_run E es t)"

lemma tp_run_steps: "tp_run E es s = Some t \<Longrightarrow> steps (tp_step E) s es t"
  by (induction es arbitrary: s) (auto intro: steps.intros simp: tp_step_def split: option.splits)

text \<open>Events that are safe at any moment.\<close>

fun ordinary :: "('s, 'm, 'k) tp_event \<Rightarrow> bool" where
  "ordinary Restart_coordinator = False"
| "ordinary (Db_prepare_late _ _ gone) = (\<not> gone)"
| "ordinary _ = True"

lemma ordinary_safe: "tp_do E e s = Some t \<Longrightarrow> ordinary e \<Longrightarrow> tp_safe_step E s e t"
  by (auto simp: tp_safe_step_def tp_step_def)

lemma tp_run_safe:
  "tp_run E es s = Some t \<Longrightarrow> list_all ordinary es \<Longrightarrow> steps (tp_safe_step E) s es t"
  by (induction es arbitrary: s) (auto intro: steps.intros ordinary_safe split: option.splits)

lemma tp_start_reach: "tp_start s \<Longrightarrow> steps (tp_safe_step E) s es t \<Longrightarrow> reach tp_start (tp_safe_step E) t"
  by (auto intro: reach_steps reach_init)

lemma tp_init_start: "servers_fresh sv \<Longrightarrow> tp_start (tp_init sv)"
  by (auto simp: tp_start_def)

lemma run_reach:
  assumes "tp_run E es (tp_init sv) = Some t" "servers_fresh sv" "list_all ordinary es"
  shows "reach tp_start (tp_safe_step E) t"
  using tp_start_reach[OF tp_init_start[OF assms(2)] tp_run_safe[OF assms(1,3)]] .

text \<open>A run whose result satisfies an executable test.\<close>

lemma run_ends:
  assumes "case tp_run E es (tp_init sv) of None \<Rightarrow> False | Some t \<Rightarrow> P t"
  obtains t where "tp_run E es (tp_init sv) = Some t" "P t"
  using assms by (auto split: option.splits)

section \<open>The outcome is final\<close>

lemma quiet_outcome: "tp_act E e s = Some t \<Longrightarrow> (case e of Join _ _ \<Rightarrow> True | Work _ _ \<Rightarrow> True | Prepare_rpc _ _ _ \<Rightarrow> True
    | Db_prepare _ \<Rightarrow> True | Db_prepare_fails _ \<Rightarrow> True | Db_prepare_late _ _ _ \<Rightarrow> True | Prepare_return _ _ _ \<Rightarrow> True | Restart_participant _ _ \<Rightarrow> True
    | Send_prepare _ \<Rightarrow> True | Send_commit _ \<Rightarrow> True | Send_abort _ \<Rightarrow> True | Watch_rpc _ \<Rightarrow> True | _ \<Rightarrow> False) \<Longrightarrow>
    outcome t = outcome s \<and> plist t = plist s"
  by (cases e) (auto simp: prepare_at_def Let_def split: if_splits option.splits sum.splits prod.splits prepare_step.splits
      task_status.splits phase.splits)

lemma co_outcome: "tp_act E e s = Some t \<Longrightarrow> (case e of Start \<Rightarrow> True | Put_record \<Rightarrow> True | Read_only_pop \<Rightarrow> True | Mark \<Rightarrow> True
    | Recv_commit _ \<Rightarrow> True | Commit_retry \<Rightarrow> True | Forget \<Rightarrow> True | Cleanup _ \<Rightarrow> True | Abort_cleaned _ \<Rightarrow> True | _ \<Rightarrow> False) \<Longrightarrow>
    outcome t = outcome s \<and> plist t = plist s"
  by (cases e) (auto simp: with_co_def split: if_splits)

lemma finishing_talk:
  assumes "tp_inv (root E) s" "tp_act E e s = Some t" "e = Commit_rpc n x \<or> e = Abort_rpc x \<or> e = Watch_return x ab"
  shows "outcome t = outcome s \<and> plist t = plist s"
proof -
  note sv = tp_inv_outcome(6)[OF assms(1)]
  have commit: "outcome (snd (commit_at x p s)) = outcome s \<and> plist (snd (commit_at x p s)) = plist s" if "txn (srv s x) = Some p" for p
    using commit_at_effect(1)[OF prod.collapse[symmetric] that sv] by (simp add: same_talk_def)
  have abort: "outcome u = outcome s \<and> plist u = plist s" if "txn (srv s x) = Some p" "abort_at x p s = Some u" for p u
    using abort_at_effect[OF that(2,1) sv] by (simp add: same_talk_def)
  show ?thesis
    using assms(2,3) commit abort
    by (cases "txn (srv s x)")
      (auto simp: Commit_handler_def Abort_handler_def transaction_participant_watch_def split: if_splits prod.splits)
qed

lemma act_outcome_stable:
  assumes "tp_inv (root E) s" "tp_act E e s = Some t" "outcome s \<noteq> None"
  shows "outcome t = outcome s \<and> plist t = plist s"
proof -
  note po = phase_outcome[OF assms(1)]
  show ?thesis
  proof (cases e)
    case (Complete ps)
    then show ?thesis
      using assms(2,3) po(1) by (auto simp: with_co_def transaction_coordinator_complete_def split: if_splits)
  next
    case (Fail ps)
    then show ?thesis using assms(2,3) may_fail_undecided[OF assms(1), of ps] by (auto split: if_splits)
  next
    case (Recv_prepare x r)
    then show ?thesis using assms(2,3) po(2,3)
      by (cases "phase (co s)") (auto simp: with_co_def prepare_answered_def split: if_splits)
  next
    case Prepared_all
    then show ?thesis using assms(2,3) po(2,3)
      by (cases "phase (co s)") (auto simp: with_co_def prepare_completed_def split: if_splits)
  next
    case (Commit_rpc n x)
    then show ?thesis using finishing_talk[OF assms(1,2)] by blast
  next
    case (Abort_rpc x)
    then show ?thesis using finishing_talk[OF assms(1,2)] by blast
  next
    case (Watch_return x ab)
    then show ?thesis using finishing_talk[OF assms(1,2)] by blast
  next
    case Restart_coordinator
    then show ?thesis using assms(2,3) by (auto simp: Let_def)
  qed (use quiet_outcome[OF assms(2)] co_outcome[OF assms(2)] in simp_all)
qed

lemma outcome_stable:
  assumes "tp_inv (root E) s" "tp_do E e s = Some t" "outcome s \<noteq> None"
  shows "outcome t = outcome s \<and> plist t = plist s"
  using act_outcome_stable[OF assms(1) _ assms(3)] assms(2) by (fastforce simp: tp_do_def)

lemma outcome_stable_steps:
  assumes "steps (tp_safe_step E) s es t" "tp_inv (root E) s \<and> none_late s" "outcome s \<noteq> None"
  shows "outcome t = outcome s \<and> plist t = plist s"
  using assms
proof (induction rule: steps.induct)
  case (steps_Cons s e t es u)
  have "outcome t = outcome s \<and> plist t = plist s"
    by (rule outcome_stable[OF conjunct1[OF steps_Cons.prems(1)] _ steps_Cons.prems(2), of e])
      (use steps_Cons.hyps(1) in \<open>simp add: tp_safe_step_def tp_step_def\<close>)
  with steps_Cons.IH tp_step_inv[OF steps_Cons.prems(1) steps_Cons.hyps(1)] steps_Cons.prems(2) show ?case by simp
qed simp

section \<open>Scenarios\<close>

text \<open>Arithmetic equations by which identifiers are evaluated.\<close>

lemma uuid_version_code [code]:
  "uuid_version u = (if odd (u div 2 ^ 63) \<and> even (u div 2 ^ 62) then Some (u div 2 ^ 76 mod 16) else None)"
proof -
  have e: "push_bit 48 0x8000 = (2::nat) ^ 63" "push_bit 48 0x4000 = (2::nat) ^ 62"
    by (simp_all add: push_bit_eq_mult)
  show ?thesis
    unfolding uuid_version_def e and_exp_eq_0_iff_not_bit bit_iff_odd mask_literals drop_bit_eq_div by simp
qed

lemma uuid7_timestamp_ms_code [code]:
  "uuid7_timestamp_ms u = (if uuid_version u = Some 7 then Inr (u div 2 ^ 80) else Inl Not_version_7)"
  by (simp add: uuid7_timestamp_ms_def drop_bit_eq_div)

declare uuid7_layout [code]

text \<open>Two states \<open>a0\<close> and \<open>b0\<close> written by a transaction that runs on \<open>a0\<close>; neither server has restarted since it was created.\<close>

definition E0 :: "(nat, nat) tp_env" where
  "E0 = \<lparr>root = uuid7_int 5 0 0, proto_of = \<lparr>to_bytes = (\<lambda>n. [n]), of_bytes = hd, empty_msg = 0\<rparr>, valid_tasks = (\<lambda>_. True)\<rparr>"

definition a0 :: pid where "a0 = (str ''A'', str ''a'')"

definition b0 :: pid where "b0 = (str ''B'', str ''b'')"

definition map0 :: pid where "map0 = (SORTED_MAP_TYPE_NAME, str ''m'')"

definition ctx0 :: "pid \<Rightarrow> ctx" where
  "ctx0 x = \<lparr>c_kind = WriterKind, transaction_ids = [uuid7_int 5 0 0], retry_age = None, c_coordinator = a0,
     c_state_type = fst x, c_state_ref = snd x, c_idempotency_key = None\<rparr>"

definition ps0 :: "pid \<Rightarrow> participants" where
  "ps0 x = add False x (add False a0 participants_init)"

definition servers0 :: "pid \<Rightarrow> (nat, nat, nat) server" where
  "servers0 = (\<lambda>_. blank_server (Some 0))"

text \<open>Both join, the coordinator writes its record, both prepare and answer.\<close>

definition prepared_run :: "pid \<Rightarrow> (nat, nat, nat) tp_event list" where
  "prepared_run x = [Start, Join a0 (ctx0 a0), Join x (ctx0 x), Complete (ps0 x), Put_record,
     Send_prepare a0, Send_prepare x, Prepare_rpc 0 a0 False, Prepare_rpc 0 x False, Db_prepare a0, Db_prepare x,
     Prepare_return 0 a0 0, Prepare_return 0 x 1]"

definition answers_run :: "pid \<Rightarrow> (nat, nat, nat) tp_event list" where
  "answers_run x = [Recv_prepare a0 Response_prepared, Recv_prepare x Response_prepared, Prepared_all]"

definition lost :: "('s, 'm, 'k) tp_sys \<Rightarrow> pid \<Rightarrow> bool" where
  "lost s x \<longleftrightarrow> applied s x = None \<and> x \<notin> elided s \<and> db s x = None \<and> txn (srv s x) = None"

lemma servers0_fresh: "servers_fresh servers0"
  by (simp add: servers_fresh_def servers0_def blank_server_def)

text \<open>\<open>a0\<close> learns the outcome by watching and commits; the coordinator restarts before it has recorded that all are prepared.\<close>

definition watch_run :: "(nat, nat, nat) tp_event list" where
  "watch_run = prepared_run b0 @ answers_run b0 @ [Watch_rpc a0, Watch_return a0 False]"

definition early_commit_run :: "(nat, nat, nat) tp_event list" where
  "early_commit_run = watch_run @ [Restart_coordinator,
     Send_prepare a0, Prepare_rpc 1 a0 False, Recv_prepare a0 (Response_abort), Abort_cleaned True, Send_abort b0, Abort_rpc b0]"

lemma early_commit_run_ends:
  "case tp_run E0 early_commit_run (tp_init servers0) of None \<Rightarrow> False
   | Some t \<Rightarrow> applied t a0 \<noteq> None \<and> lost t b0 \<and> plist t = Some (ps0 b0)"
  by code_simp

text \<open>
  The caller cancels after both have prepared; \<open>b0\<close> asks and is told to abort, but before it does the
  coordinator restarts, finds its record and prepares again.
\<close>

definition late_abort_run :: "(nat, nat, nat) tp_event list" where
  "late_abort_run = prepared_run b0 @ [Fail (ps0 b0), Watch_rpc b0, Restart_coordinator,
     Send_prepare a0, Send_prepare b0, Prepare_rpc 1 a0 False, Prepare_rpc 1 b0 False] @ answers_run b0 @
     [Mark, Send_commit a0, Commit_rpc 1 a0, Watch_return b0 True]"

lemma late_abort_run_ends:
  "case tp_run E0 late_abort_run (tp_init servers0) of None \<Rightarrow> False
   | Some t \<Rightarrow> applied t a0 \<noteq> None \<and> lost t b0 \<and> plist t = Some (ps0 b0)"
  by code_simp

text \<open>A sorted map is written, its server restarts, and then the transaction prepares and commits.\<close>

definition written :: "(nat, nat, nat) participant" where
  "written = (case from_context 1 (ctx0 map0) False of Inr p \<Rightarrow> p\<lparr>stored := True, t_state := Some (0, 7)\<rparr>)"

definition lost_write_run :: "(nat, nat, nat) tp_event list" where
  "lost_write_run = [Start, Join a0 (ctx0 a0), Join map0 (ctx0 map0), Work map0 written, Restart_participant map0 (Some 9),
     Complete (ps0 map0), Put_record, Send_prepare a0, Send_prepare map0, Prepare_rpc 0 a0 False, Prepare_rpc 0 map0 False,
     Db_prepare a0, Db_prepare map0, Prepare_return 0 a0 0, Prepare_return 0 map0 2] @ answers_run map0 @
     [Mark, Send_commit a0, Commit_rpc 0 a0, Send_commit map0, Commit_rpc 0 map0]"

lemma lost_write_run_ends:
  "case tp_run E0 lost_write_run (tp_init servers0) of None \<Rightarrow> False
   | Some t \<Rightarrow> outcome t = Some True \<and> applied t a0 \<noteq> None \<and> map_option snd (applied t map0) = Some None \<and>
       state_bytes (proto_of E0) written = Some [7]"
  by code_simp

text \<open>
  The server of \<open>b0\<close> restarts while the database has still to handle its request; the transaction is aborted, and then the
  database handles the request.
\<close>

definition prepare_request0 :: "(nat, nat) db_request" where
  "prepare_request0 = (case from_context 1 (ctx0 b0) True of Inr (p :: (nat, nat, nat) participant) \<Rightarrow> prepare_request_of (proto_of E0) p)"

definition orphan_run :: "(nat, nat, nat) tp_event list" where
  "orphan_run = [Start, Join a0 (ctx0 a0), Join b0 (ctx0 b0), Complete (ps0 b0), Put_record, Send_prepare b0, Prepare_rpc 0 b0 False,
     Restart_participant b0 (Some 9), Prepare_rpc 0 b0 False, Recv_prepare b0 (Response_restart_detected 9), Abort_cleaned True,
     Send_abort b0, Abort_rpc b0, Db_prepare_late b0 prepare_request0 True]"

lemma orphan_run_ends:
  "case tp_run E0 orphan_run (tp_init servers0) of None \<Rightarrow> False
   | Some t \<Rightarrow> outcome t = Some False \<and> db_record (co t) = None \<and> is_prepared (db t b0) \<and> txn (srv t b0) = None"
  by code_simp

lemma watch_run_ends:
  "case tp_run E0 watch_run (tp_init servers0) of None \<Rightarrow> False
   | Some t \<Rightarrow> applied t a0 \<noteq> None \<and> plist t = Some (ps0 b0) \<and> outcome t = Some True"
  by code_simp

definition full_run :: "(nat, nat, nat) tp_event list" where
  "full_run = prepared_run b0 @ answers_run b0 @ [Mark, Send_commit a0, Send_commit b0, Commit_rpc 0 a0, Commit_rpc 0 b0,
     Recv_commit a0, Recv_commit b0, Forget]"

lemma full_run_ends:
  "case tp_run E0 full_run (tp_init servers0) of None \<Rightarrow> False
   | Some t \<Rightarrow> phase (co t) = Cleanup_phase (ps0 b0) \<and> tp_run E0 [Cleanup False, Send_commit a0, Recv_commit a0, Recv_commit b0, Forget] t \<noteq> None"
  by code_simp

section \<open>A failed cleanup\<close>

text \<open>What the coordinator's record says once it has marked the transaction prepared, restarts included.\<close>

definition marked :: "coord \<Rightarrow> bool" where
  "marked c \<longleftrightarrow>
     (case phase c of
        Mark_prepared ps \<Rightarrow> put_pending c = None
      | Commit_phase ps _ \<Rightarrow> put_pending c = None \<and> db_record c = Some (False, ps)
      | Cleanup_phase ps \<Rightarrow> put_pending c = None \<and> db_record c = Some (False, ps) \<and> future c = None
      | _ \<Rightarrow> True)"

definition stuck :: "participants \<Rightarrow> coord \<Rightarrow> bool" where
  "stuck ps c \<longleftrightarrow> (\<exists>acks. phase c = Commit_phase ps acks) \<and> future c = None \<and> put_pending c = None \<and>
     db_record c = Some (False, ps)"

lemmas coord_steps = transaction_coordinator_start_def transaction_coordinator_complete_def database_coordinator_prepare_def
  transaction_coordinator_abort_def prepare_answered_def prepare_completed_def read_only_pop_def commit_loop_mark_def
  commit_answered_def commit_retry_def commit_loop_forget_def commit_loop_cleanup_def abort_cleaned_def

text \<open>What an event does to the coordinator alone.\<close>

fun co_next :: "('s, 'm, 'k) tp_event \<Rightarrow> coord \<Rightarrow> coord option" where
  "co_next Start c = transaction_coordinator_start c"
| "co_next (Complete ps) c = transaction_coordinator_complete ps c"
| "co_next (Fail ps) c = (if may_fail ps (phase c) then transaction_coordinator_abort ps c else None)"
| "co_next Put_record c = database_coordinator_prepare c"
| "co_next (Recv_prepare x r) c = prepare_answered x r c"
| "co_next Prepared_all c = prepare_completed c"
| "co_next Read_only_pop c = read_only_pop c"
| "co_next Mark c = commit_loop_mark c"
| "co_next (Recv_commit x) c = commit_answered x c"
| "co_next Commit_retry c = commit_retry c"
| "co_next Forget c = commit_loop_forget c"
| "co_next (Cleanup ok) c = commit_loop_cleanup ok c"
| "co_next (Abort_cleaned ok) c = abort_cleaned ok c"
| "co_next Restart_coordinator c = Some (recover_coordinator c)"
| "co_next _ c = Some c"

lemma commit_at_co [simp]: "co (snd (commit_at x p s)) = co s"
  by (auto simp: commit_at_def Let_def split: prod.splits option.splits sum.splits)

lemma abort_at_co: "abort_at x p s = Some t \<Longrightarrow> co t = co s"
  by (auto simp: abort_at_def Let_def split: task_status.splits prod.splits sum.splits if_splits)

lemma prepare_at_co [simp]: "co (prepare_at E n x ro s) = co s"
  by (auto simp: prepare_at_def Let_def split: prod.splits prepare_step.splits option.splits)

lemma commit_at_pair_co: "commit_at x p s = (ok, t) \<Longrightarrow> co t = co s"
  using commit_at_co[of x p s] by simp

lemma finishing_co:
  assumes "tp_act E e s = Some t" "e = Commit_rpc n x \<or> e = Abort_rpc x \<or> e = Watch_return x ab"
  shows "co t = co s"
proof (cases "txn (srv s x)")
  case (Some p)
  obtain ok u where c: "commit_at x p s = (ok, u)" by (cases "commit_at x p s")
  then have "co u = co s" by (rule commit_at_pair_co)
  with Some c assms show ?thesis
    by (auto simp: Commit_handler_def Abort_handler_def transaction_participant_watch_def split: if_splits dest: abort_at_co)
qed (use assms in \<open>auto simp: Commit_handler_def Abort_handler_def transaction_participant_watch_def split: if_splits\<close>)

lemma tp_act_co: "tp_act E e s = Some t \<Longrightarrow> co_next e (co s) = Some (co t)"
proof (cases e)
  case (Commit_rpc n x)
  assume "tp_act E e s = Some t"
  from finishing_co[OF this, of n x] Commit_rpc show ?thesis by simp
next
  case (Abort_rpc x)
  assume "tp_act E e s = Some t"
  from finishing_co[OF this, of _ x] Abort_rpc show ?thesis by simp
next
  case (Watch_return x ab)
  assume "tp_act E e s = Some t"
  from finishing_co[OF this, of _ x ab] Watch_return show ?thesis by simp
qed (auto simp: with_co_def Let_def split: if_splits option.splits sum.splits task_status.splits phase.splits)

lemma tp_do_co: "tp_do E e s = Some t \<Longrightarrow> co_next e (co s) = Some (co t)"
  by (auto simp: tp_do_def dest: tp_act_co)

lemma prepared_all_marks: "prepare_completed c = Some d \<Longrightarrow>
    (case phase d of Mark_prepared ps \<Rightarrow> put_pending d = None | Read_only_done \<Rightarrow> True | _ \<Rightarrow> False)"
  by (auto simp: prepare_completed_def split: if_splits phase.splits)

lemma answered_phase: "prepare_answered x r c = Some d \<Longrightarrow>
    (case phase d of Mark_prepared _ \<Rightarrow> False | Commit_phase _ _ \<Rightarrow> False | Cleanup_phase _ \<Rightarrow> False | _ \<Rightarrow> True)"
  by (auto simp: prepare_answered_def transaction_coordinator_abort_def split: if_splits phase.splits)

lemma marked_other: "(case phase d of Mark_prepared _ \<Rightarrow> False | Commit_phase _ _ \<Rightarrow> False | Cleanup_phase _ \<Rightarrow> False | _ \<Rightarrow> True) \<Longrightarrow> marked d"
  by (simp add: marked_def split: phase.splits)

lemma marked_next:
  assumes "co_next e c = Some d" "marked c"
  shows "marked d"
proof (cases e)
  case Prepared_all
  then show ?thesis using prepared_all_marks[of c d] assms(1) by (auto simp: marked_def split: phase.splits)
next
  case (Recv_prepare x r)
  then show ?thesis using marked_other answered_phase[of x r c d] assms(1) by simp
next
  case Put_record
  then show ?thesis using assms by (auto simp: marked_def database_coordinator_prepare_def split: phase.splits option.splits)
next
  case Restart_coordinator
  then show ?thesis using assms by (auto simp: marked_def recover_coordinator_def Let_def split: option.splits)
qed (use assms in \<open>auto simp: marked_def coord_steps split: if_splits phase.splits\<close>)

lemma marked_step: "tp_step E s e t \<Longrightarrow> marked (co s) \<Longrightarrow> marked (co t)"
  by (auto simp: tp_step_def dest: tp_do_co marked_next)

lemma marked_reach: "reach tp_start (tp_step E) s \<Longrightarrow> marked (co s)"
proof (induction rule: reach.induct)
  case (reach_init s)
  then show ?case by (auto simp: tp_start_def tp_init_def coord_init_def marked_def)
qed (rule marked_step)

lemma stuck_next:
  assumes "co_next e c = Some d" "stuck ps c" "e \<noteq> Restart_coordinator"
  shows "stuck ps d"
proof -
  obtain acks where "phase c = Commit_phase ps acks" using assms(2) by (auto simp: stuck_def)
  then show ?thesis using assms by (cases e) (auto simp: stuck_def coord_steps split: if_splits)
qed

lemma stuck_step: "tp_step E s e t \<Longrightarrow> e \<noteq> Restart_coordinator \<Longrightarrow> stuck ps (co s) \<Longrightarrow> stuck ps (co t)"
  by (auto simp: tp_step_def dest: tp_do_co stuck_next)

lemma stuck_steps: "steps (tp_step E) s es t \<Longrightarrow> Restart_coordinator \<notin> set es \<Longrightarrow> stuck ps (co s) \<Longrightarrow> stuck ps (co t)"
  by (induction rule: steps.induct) (auto dest: stuck_step)

section \<open>Claims\<close>

text \<open>
  (C1) Atomicity.  In every run in which the coordinator does not restart between making its outcome
  known and having it in its record, and in which the database does not handle a prepare after the server that
  asked for it has restarted or has completed the transaction as read-only, once the writes of one state are committed, every participant with
  something to commit has committed too, or had nothing to write, or is durably prepared with its
  transaction still pending, whatever messages are lost, delayed or repeated and whichever servers restart.
\<close>

theorem commit_is_atomic:
  assumes "reach tp_start (tp_safe_step E) s" "applied s x \<noteq> None" "plist s = Some ps" "y \<in> set (should_commit ps)"
  shows "applied s y \<noteq> None \<or> y \<in> elided s \<or>
    is_prepared (db s y) \<and> (\<exists>p. txn (srv s y) = Some p \<and> prepared p \<and> \<not> finished p)"
proof -
  note inv = two_phase.reach_inv[OF assms(1)]
  note s = tp_inv_outcome[OF conjunct1[OF inv]]
  have "outcome s = Some True"
    using s(1,2) assms(2) by (cases "outcome s"; cases "the (outcome s)") (auto simp: undecided_def aborted_ok_def)
  then have "safe s y" using s(3) assms(3,4) by (auto simp: committed_ok_def writers_def)
  then show ?thesis
    using s(6)[of y] by (cases "txn (srv s y)") (auto simp: safe_def settled_def durable_def sv_ok_def)
qed

theorem commit_is_atomic_witness:
  "\<exists>s :: (nat, nat, nat) tp_sys. reach tp_start (tp_safe_step E0) s \<and> applied s a0 \<noteq> None \<and> plist s = Some (ps0 b0) \<and>
     (applied s b0 \<noteq> None \<or> b0 \<in> elided s \<or>
      is_prepared (db s b0) \<and> (\<exists>p. txn (srv s b0) = Some p \<and> prepared p \<and> \<not> finished p))"
proof (rule run_ends[OF watch_run_ends])
  fix t
  assume t: "tp_run E0 watch_run (tp_init servers0) = Some t"
    and e: "applied t a0 \<noteq> None \<and> plist t = Some (ps0 b0) \<and> outcome t = Some True"
  have r: "reach tp_start (tp_safe_step E0) t"
    by (rule run_reach[OF t servers0_fresh]) (simp add: watch_run_def prepared_run_def answers_run_def)
  have "b0 \<in> set (should_commit (ps0 b0))" by code_simp
  with commit_is_atomic[OF r, of a0 "ps0 b0" b0] r e show ?thesis by blast
qed

text \<open>
  (C2) The outcome a coordinator makes known is final in the runs in which the coordinator does not restart
  between making its outcome known and having it in its record, and the database handles no prepare after
  the server that asked for it has restarted or has completed the transaction as read-only: once it is known, no later step
  changes it; after a commit every participant with something to commit stays able to, and the
  coordinator forgets the transaction only after all of them have committed.
\<close>

theorem outcome_is_final:
  assumes "reach tp_start (tp_safe_step E) s" "outcome s = Some True" "plist s = Some ps" "steps (tp_safe_step E) s es t"
  shows "outcome t = Some True \<and> list_all (safe t) (should_commit ps) \<and>
    (future (co t) = Some (Result ps) \<or> list_all (settled t) (should_commit ps))"
proof -
  note inv = two_phase.reach_inv[OF assms(1)]
  have t: "outcome t = Some True" "plist t = Some ps" using outcome_stable_steps[OF assms(4) inv] assms(2,3) by auto
  have "committed_ok t" using tp_inv_outcome(3)[OF conjunct1[OF two_phase.steps_inv[OF assms(4) inv]] t(1)] .
  then show ?thesis using t by (auto simp: committed_ok_def writers_def list_all_iff)
qed

theorem outcome_is_final_witness:
  "\<exists>s t :: (nat, nat, nat) tp_sys. reach tp_start (tp_safe_step E0) s \<and> outcome s = Some True \<and> plist s = Some (ps0 b0) \<and>
     steps (tp_safe_step E0) s [] t \<and> outcome t = Some True \<and> list_all (safe t) (should_commit (ps0 b0))"
proof (rule run_ends[OF watch_run_ends])
  fix t
  assume t: "tp_run E0 watch_run (tp_init servers0) = Some t"
    and e: "applied t a0 \<noteq> None \<and> plist t = Some (ps0 b0) \<and> outcome t = Some True"
  have r: "reach tp_start (tp_safe_step E0) t"
    by (rule run_reach[OF t servers0_fresh]) (simp add: watch_run_def prepared_run_def answers_run_def)
  have n: "steps (tp_safe_step E0) t [] t" by (rule steps_Nil)
  show ?thesis
    using outcome_is_final[OF r _ _ n, of "ps0 b0"] r n e by blast
qed



text \<open>
  (C4) A restart of the coordinator at the wrong moment breaks atomicity.  The coordinator resolves the
  future on which participants watch before it has recorded that all are prepared: one participant may
  learn the outcome and commit; after a restart the coordinator prepares again, that participant no
  longer knows the transaction and answers abort, and the other participant, prepared all along, is
  aborted.
\<close>

theorem restart_breaks_atomicity:
  "\<exists>s t :: (nat, nat, nat) tp_sys. tp_start s \<and> steps (tp_step E0) s early_commit_run t \<and>
     plist t = Some (ps0 b0) \<and> set (should_commit (ps0 b0)) = {a0, b0} \<and> applied t a0 \<noteq> None \<and>
     applied t b0 = None \<and> b0 \<notin> elided t \<and> db t b0 = None \<and> txn (srv t b0) = None"
proof (rule run_ends[OF early_commit_run_ends])
  fix t
  assume t: "tp_run E0 early_commit_run (tp_init servers0) = Some t"
    and e: "applied t a0 \<noteq> None \<and> lost t b0 \<and> plist t = Some (ps0 b0)"
  have "set (should_commit (ps0 b0)) = {a0, b0}" by code_simp
  then show ?thesis using tp_run_steps[OF t] tp_init_start[OF servers0_fresh] e by (auto simp: lost_def)
qed

text \<open>
  So does a restart while aborting.  The coordinator tells participants to abort before it has
  deleted its record; if it restarts in between it prepares the transaction again, and a participant
  that still holds the earlier answer aborts after it has said that it is prepared.
\<close>

theorem restart_while_aborting_breaks_atomicity:
  "\<exists>s t :: (nat, nat, nat) tp_sys. tp_start s \<and> steps (tp_step E0) s late_abort_run t \<and>
     plist t = Some (ps0 b0) \<and> set (should_commit (ps0 b0)) = {a0, b0} \<and> applied t a0 \<noteq> None \<and>
     applied t b0 = None \<and> b0 \<notin> elided t \<and> db t b0 = None \<and> txn (srv t b0) = None"
proof (rule run_ends[OF late_abort_run_ends])
  fix t
  assume t: "tp_run E0 late_abort_run (tp_init servers0) = Some t"
    and e: "applied t a0 \<noteq> None \<and> lost t b0 \<and> plist t = Some (ps0 b0)"
  have "set (should_commit (ps0 b0)) = {a0, b0}" by code_simp
  then show ?thesis using tp_run_steps[OF t] tp_init_start[OF servers0_fresh] e by (auto simp: lost_def)
qed

text \<open>
  (C5) A participant that restarts before it has prepared loses its writes and still prepares.  A
  transaction on a sorted map is stored when it begins; recovered without its writes, it is meant to
  abort, but the object ignores the flag that says so: it answers \<open>Prepare\<close>, the coordinator reports success,
  and the commit leaves the map without what was written.
\<close>

theorem restart_loses_writes:
  "\<exists>s t :: (nat, nat, nat) tp_sys. tp_start s \<and> steps (tp_safe_step E0) s lost_write_run t \<and> outcome t = Some True \<and>
     applied t a0 \<noteq> None \<and> state_bytes (proto_of E0) written = Some [7] \<and> map_option snd (applied t map0) = Some None"
proof (rule run_ends[OF lost_write_run_ends])
  fix t
  assume t: "tp_run E0 lost_write_run (tp_init servers0) = Some t"
    and e: "outcome t = Some True \<and> applied t a0 \<noteq> None \<and> map_option snd (applied t map0) = Some None \<and>
       state_bytes (proto_of E0) written = Some [7]"
  have "steps (tp_safe_step E0) (tp_init servers0) lost_write_run t"
    by (rule tp_run_safe[OF t]) (simp add: lost_write_run_def answers_run_def)
  then show ?thesis using tp_init_start[OF servers0_fresh] e by blast
qed

text \<open>
  Nothing makes recovery wait for a prepare that the database has received and not handled: when the server of a
  participant restarts at that moment it finds nothing to recover, the coordinator aborts, and the database then
  has a prepared transaction that no server knows.
\<close>

theorem restart_orphans_prepare:
  "\<exists>s t :: (nat, nat, nat) tp_sys. tp_start s \<and> steps (tp_step E0) s orphan_run t \<and> outcome t = Some False \<and>
     db_record (co t) = None \<and> is_prepared (db t b0) \<and> txn (srv t b0) = None"
proof (rule run_ends[OF orphan_run_ends])
  fix t
  assume t: "tp_run E0 orphan_run (tp_init servers0) = Some t"
    and e: "outcome t = Some False \<and> db_record (co t) = None \<and> is_prepared (db t b0) \<and> txn (srv t b0) = None"
  show ?thesis using tp_run_steps[OF t] tp_init_start[OF servers0_fresh] e by blast
qed

text \<open>
  A cleanup that fails is never repeated.  The commit loop deletes its entry of
  \<open>_coordinator_participants\<close> before it asks the database to delete the record; when that call fails, every
  further turn of the loop raises at the missing entry, so that whatever happens short of a restart the
  record stays and the loop goes on telling the participants to commit.
\<close>

theorem failed_cleanup_never_repeated:
  assumes "reach tp_start (tp_step E) s" "phase (co s) = Cleanup_phase ps" "tp_do E (Cleanup False) s = Some u"
    "steps (tp_step E) u es t" "Restart_coordinator \<notin> set es"
  shows "db_record (co t) = Some (False, ps) \<and> (\<exists>acks. phase (co t) = Commit_phase ps acks) \<and> commit_loop_cleanup True (co t) = None"
proof -
  have "stuck ps (co u)"
    using marked_reach[OF assms(1)] assms(2,3) by (auto simp: tp_do_def marked_def stuck_def with_co_def commit_loop_cleanup_def)
  then have "stuck ps (co t)" by (rule stuck_steps[OF assms(4,5)])
  then show ?thesis by (auto simp: stuck_def commit_loop_cleanup_def)
qed

theorem failed_cleanup_never_repeated_witness:
  "\<exists>s u t :: (nat, nat, nat) tp_sys. reach tp_start (tp_step E0) s \<and> phase (co s) = Cleanup_phase (ps0 b0) \<and>
     tp_do E0 (Cleanup False) s = Some u \<and> steps (tp_step E0) u [Send_commit a0, Recv_commit a0, Recv_commit b0, Forget] t \<and> db_record (co t) = Some (False, ps0 b0)"
proof (rule run_ends[OF full_run_ends])
  fix s
  assume s: "tp_run E0 full_run (tp_init servers0) = Some s"
    and e: "phase (co s) = Cleanup_phase (ps0 b0) \<and> tp_run E0 [Cleanup False, Send_commit a0, Recv_commit a0, Recv_commit b0, Forget] s \<noteq> None"
  then obtain u t where u: "tp_do E0 (Cleanup False) s = Some u"
    and t: "tp_run E0 [Send_commit a0, Recv_commit a0, Recv_commit b0, Forget] u = Some t"
    by (auto split: option.splits)
  have r: "reach tp_start (tp_step E0) s"
    by (rule reach_steps[OF tp_run_steps[OF s]]) (auto intro: reach_init tp_init_start servers0_fresh)
  show ?thesis
    using failed_cleanup_never_repeated[OF r _ u tp_run_steps[OF t], of "ps0 b0"] r u tp_run_steps[OF t] e by fastforce
qed

end
