(* ===== verification/Concurrently.thy ===== *)
theory Concurrently
  imports Prelude Complex_Main
begin

text \<open>
  Bounded concurrency: \<open>reboot/aio/concurrently.py\<close>.

  \<open>AdaptiveConcurrencyLimiter\<close> is a record with the operations \<open>limit\<close>, \<open>on_sample\<close> and \<open>_update_limit\<close>; its
  floats are rationals, so that rounding errors are not modelled.  \<open>_concurrently\<close>, an asynchronous
  generator, is a transition system: it waits for one of its tasks to complete, hands a result to its
  consumer, or has ended.  Which tasks complete, with what outcome and after what time, and when the
  consumer stops, is up to the events.  Logging is left out.
\<close>

section \<open>The limiter\<close>

datatype limiter_error = Bad_setting | Zero_division

record limiter_settings =
  initial_limit :: int
  max_limit :: "int option"
  min_limit :: int
  set_rtt_tolerance :: rat
  set_smoothing :: rat
  set_growth_factor :: rat
  long_window :: int
  set_min_window_samples :: int

definition DEFAULT_MIN_WINDOW_SAMPLES :: int where "DEFAULT_MIN_WINDOW_SAMPLES = 5"

definition DEFAULT_INITIAL_LIMIT :: int where "DEFAULT_INITIAL_LIMIT = DEFAULT_MIN_WINDOW_SAMPLES"

definition DEFAULT_MAX_LIMIT :: int where "DEFAULT_MAX_LIMIT = 1000"

definition default_settings :: "int option \<Rightarrow> limiter_settings" where
  "default_settings m = \<lparr>initial_limit = DEFAULT_INITIAL_LIMIT, max_limit = m, min_limit = 1, set_rtt_tolerance = 3 / 2,
     set_smoothing = 1 / 2, set_growth_factor = 1 / 2, long_window = 100, set_min_window_samples = DEFAULT_MIN_WINDOW_SAMPLES\<rparr>"

record limiter =
  l_limit :: rat
  l_max_limit :: int
  l_min_limit :: int
  rtt_tolerance :: rat
  smoothing :: rat
  growth_factor :: rat
  decay :: rat
  min_window_samples :: int
  long_rtt :: "rat option"
  window_samples :: "rat list"

text \<open>\<open>max_limit or DEFAULT_MAX_LIMIT\<close>: zero is falsy.\<close>

definition limiter_init :: "limiter_settings \<Rightarrow> limiter_error + limiter" where
  "limiter_init c =
     (let mx = (case max_limit c of None \<Rightarrow> DEFAULT_MAX_LIMIT | Some m \<Rightarrow> if m = 0 then DEFAULT_MAX_LIMIT else m) in
      rbind (py_assert Bad_setting (initial_limit c > 0 \<and> mx > 0 \<and> min_limit c \<ge> 1 \<and> set_rtt_tolerance c > 0 \<and>
          0 < set_smoothing c \<and> set_smoothing c \<le> 1 \<and> 0 < set_growth_factor c \<and> set_growth_factor c \<le> 1 \<and>
          long_window c > 0 \<and> set_min_window_samples c > 0)) (\<lambda>_.
      Inr \<lparr>l_limit = of_int (max (min (initial_limit c) mx) (min_limit c)), l_max_limit = mx, l_min_limit = min_limit c,
        rtt_tolerance = set_rtt_tolerance c, smoothing = set_smoothing c, growth_factor = set_growth_factor c,
        decay = 2 / of_int (long_window c + 1), min_window_samples = set_min_window_samples c,
        long_rtt = None, window_samples = []\<rparr>))"

text \<open>\<open>round\<close> of Python rounds halves to the even neighbour.\<close>

definition py_round :: "rat \<Rightarrow> int" where
  "py_round x =
     (let f = \<lfloor>x\<rfloor>; d = x - of_int f
      in if d < 1 / 2 then f else if d > 1 / 2 then f + 1 else if even f then f else f + 1)"

definition limiter_limit :: "limiter \<Rightarrow> int" where
  "limiter_limit l = max (l_min_limit l) (min (l_max_limit l) (py_round (l_limit l)))"

definition update_limit :: "limiter \<Rightarrow> limiter_error + limiter" where
  "update_limit l =
     (let short_rtt = sum_list (window_samples l) / of_nat (length (window_samples l)) in
      case long_rtt l of
        None \<Rightarrow> Inr (l\<lparr>long_rtt := Some short_rtt\<rparr>)
      | Some previous \<Rightarrow>
          if short_rtt = 0 then Inl Zero_division
          else let gradient = max (1 / 2) (min 1 (rtt_tolerance l * previous / short_rtt));
                   new_limit = gradient * l_limit l * (1 + growth_factor l);
                   smoothed = (1 - smoothing l) * l_limit l + smoothing l * new_limit
               in Inr (l\<lparr>long_rtt := Some (previous + (short_rtt - previous) * decay l),
                        l_limit := max (of_int (l_min_limit l)) (min (of_int (l_max_limit l)) smoothed)\<rparr>))"

definition on_sample :: "rat \<Rightarrow> limiter \<Rightarrow> limiter_error + limiter" where
  "on_sample rtt l =
     (let l1 = l\<lparr>window_samples := window_samples l @ [rtt]\<rparr>
      in if int (length (window_samples l1)) \<ge> min_window_samples l1
         then rbind (update_limit l1) (\<lambda>l2. Inr (l2\<lparr>window_samples := []\<rparr>))
         else Inr l1)"

section \<open>The generator\<close>

text \<open>
  The source of awaitables: the next one, with the element it stands for in \<open>for_each\<close> mode, or an
  exception raised by the source, after which it ends.
\<close>

datatype ('a, 'e) source_item = Next 'a | Source_raises 'e

datatype ('v, 'e) task_outcome = Returned 'v | Failed 'e | Was_cancelled

datatype ('v, 'e) yielded = Value 'v | Exception 'e

datatype 'e conc_error = Raise 'e | Cancelled_error | Limiter_error limiter_error

datatype 'e conc_end = Finished | Raised "'e conc_error" | Closed

datatype 'e conc_pc = Waiting | At_yield | Ended "'e conc_end"

text \<open>\<open>truthy\<close> is what Python says of an exception object in \<open>exception or task.result()\<close>.\<close>

record 'e conc_config =
  for_each :: bool
  return_exceptions :: bool
  conc_limit :: "int option"
  adaptive :: bool
  truthy :: "'e \<Rightarrow> bool"

text \<open>
  Tasks are numbered in the order of their creation.  \<open>created\<close> is what they run, \<open>pending\<close> the set of
  tasks, \<open>batch\<close> what \<open>asyncio.wait\<close> has returned and is not yet looked at, \<open>handled\<close> what has been looked
  at, \<open>cancelled\<close> the tasks cancelled at the end.
\<close>

record ('a, 'v, 'e) conc =
  source :: "('a, 'e) source_item list"
  created :: "'a list"
  pending :: "nat list"
  batch :: "(nat \<times> ('v, 'e) task_outcome \<times> rat) list"
  exhausted :: bool
  conc_limiter :: "limiter option"
  yields :: "('a option \<times> ('v, 'e) yielded) list"
  handled :: "(nat \<times> ('v, 'e) task_outcome) list"
  cancelled :: "nat list"
  pc :: "'e conc_pc"

definition effective_limit :: "'e conc_config \<Rightarrow> ('a, 'v, 'e) conc \<Rightarrow> int" where
  "effective_limit cfg s = (case conc_limiter s of Some l \<Rightarrow> limiter_limit l | None \<Rightarrow> the (conc_limit cfg))"

text \<open>The loop of \<open>fill\<close>: what is left of the source, tasks created, tasks pending, exhausted, exception.\<close>

fun fill_loop :: "int \<Rightarrow> ('a, 'e) source_item list \<Rightarrow> 'a list \<Rightarrow> nat list \<Rightarrow>
    ('a, 'e) source_item list \<times> 'a list \<times> nat list \<times> bool \<times> 'e option" where
  "fill_loop cap [] cr pend = ([], cr, pend, int (length pend) < cap, None)"
| "fill_loop cap (Next a # src) cr pend =
     (if int (length pend) < cap then fill_loop cap src (cr @ [a]) (pend @ [length cr]) else (Next a # src, cr, pend, False, None))"
| "fill_loop cap (Source_raises e # src) cr pend =
     (if int (length pend) < cap then ([], cr, pend, False, Some e) else (Source_raises e # src, cr, pend, False, None))"

text \<open>The \<open>finally\<close> block.\<close>

definition conc_finally :: "'e conc_end \<Rightarrow> ('a, 'v, 'e) conc \<Rightarrow> ('a, 'v, 'e) conc" where
  "conc_finally r s = s\<lparr>cancelled := pending s, pc := Ended r\<rparr>"

definition fill :: "'e conc_config \<Rightarrow> ('a, 'v, 'e) conc \<Rightarrow> 'e option \<times> ('a, 'v, 'e) conc" where
  "fill cfg s =
     (if exhausted s then (None, s)
      else case fill_loop (effective_limit cfg s) (source s) (created s) (pending s) of
        (src, cr, pend, ex, err) \<Rightarrow> (err, s\<lparr>source := src, created := cr, pending := pend, exhausted := ex\<rparr>))"

text \<open>What becomes of a completed task: the item to yield, or the exception raised.\<close>

definition task_item :: "'e conc_config \<Rightarrow> ('v, 'e) task_outcome \<Rightarrow> 'e conc_error + ('v, 'e) yielded" where
  "task_item cfg oc =
     (case oc of
        Was_cancelled \<Rightarrow> Inl Cancelled_error
      | Returned v \<Rightarrow> Inr (Value v)
      | Failed e \<Rightarrow> if return_exceptions cfg \<and> truthy cfg e then Inr (Exception e) else Inl (Raise e))"

definition sample :: "rat \<Rightarrow> limiter option \<Rightarrow> limiter_error + limiter option" where
  "sample rtt l = (case l of None \<Rightarrow> Inr None | Some l' \<Rightarrow> rbind (on_sample rtt l') (\<lambda>l2. Inr (Some l2)))"

text \<open>The body of \<open>for task in done\<close> up to the \<open>yield\<close>.\<close>

definition process :: "'e conc_config \<Rightarrow> nat \<times> ('v, 'e) task_outcome \<times> rat \<Rightarrow> ('a, 'v, 'e) conc \<Rightarrow> ('a, 'v, 'e) conc" where
  "process cfg d s =
     (case d of (t, oc, rtt) \<Rightarrow>
        let s1 = s\<lparr>pending := removeAll t (pending s), handled := handled s @ [(t, oc)]\<rparr> in
        case sample rtt (conc_limiter s) of
          Inl e \<Rightarrow> conc_finally (Raised (Limiter_error e)) s1
        | Inr l \<Rightarrow>
            (let s2 = s1\<lparr>conc_limiter := l\<rparr> in
             case task_item cfg oc of
               Inl e \<Rightarrow> conc_finally (Raised e) s2
             | Inr y \<Rightarrow> s2\<lparr>yields := yields s2 @ [(if for_each cfg then Some (created s ! t) else None, y)], pc := At_yield\<rparr>))"

text \<open>From one task of the batch to the next, and back to \<open>while len(pending) > 0\<close>.\<close>

definition next_turn :: "'e conc_config \<Rightarrow> ('a, 'v, 'e) conc \<Rightarrow> ('a, 'v, 'e) conc" where
  "next_turn cfg s =
     (case batch s of
        d # ds \<Rightarrow> process cfg d (s\<lparr>batch := ds\<rparr>)
      | [] \<Rightarrow> if pending s = [] then conc_finally Finished s else s\<lparr>pc := Waiting\<rparr>)"

definition fill_turn :: "'e conc_config \<Rightarrow> ('a, 'v, 'e) conc \<Rightarrow> ('a, 'v, 'e) conc" where
  "fill_turn cfg s =
     (case fill cfg s of (Some e, s1) \<Rightarrow> conc_finally (Raised (Raise e)) s1 | (None, s1) \<Rightarrow> next_turn cfg s1)"

text \<open>The start: the checks of the arguments, the limiter, the first \<open>fill\<close>.\<close>

definition conc_blank :: "('a, 'e) source_item list \<Rightarrow> limiter option \<Rightarrow> ('a, 'v, 'e) conc" where
  "conc_blank src l = \<lparr>source = src, created = [], pending = [], batch = [], exhausted = False, conc_limiter = l,
     yields = [], handled = [], cancelled = [], pc = Waiting\<rparr>"

definition conc_start :: "'e conc_config \<Rightarrow> ('a, 'e) source_item list \<Rightarrow> limiter_error + ('a, 'v, 'e) conc" where
  "conc_start cfg src =
     (let go = (\<lambda>l. Inr (fill_turn cfg (conc_blank src l))) in
      if adaptive cfg
      then rbind (py_assert Bad_setting (case conc_limit cfg of None \<Rightarrow> True | Some n \<Rightarrow> n > 0)) (\<lambda>_.
           rbind (limiter_init (default_settings (conc_limit cfg))) (\<lambda>l. go (Some l)))
      else rbind (py_assert Bad_setting (case conc_limit cfg of None \<Rightarrow> False | Some n \<Rightarrow> n > 0)) (\<lambda>_. go None))"

text \<open>
  Events: some tasks complete while the generator waits; the consumer asks for the next item; it
  stops; the generator is cancelled while it waits.
\<close>

datatype ('v, 'e) conc_event =
    Completed "(nat \<times> ('v, 'e) task_outcome \<times> rat) list" | Resume | Close | Cancel

fun conc_do :: "'e conc_config \<Rightarrow> ('v, 'e) conc_event \<Rightarrow> ('a, 'v, 'e) conc \<Rightarrow> ('a, 'v, 'e) conc option" where
  "conc_do cfg (Completed b) s =
     (if pc s = Waiting \<and> b \<noteq> [] \<and> distinct (map fst b) \<and> set (map fst b) \<subseteq> set (pending s)
      then Some (next_turn cfg (s\<lparr>batch := b\<rparr>)) else None)"
| "conc_do cfg Resume s = (if pc s = At_yield then Some (fill_turn cfg s) else None)"
| "conc_do cfg Close s = (if pc s = At_yield then Some (conc_finally Closed s) else None)"
| "conc_do cfg Cancel s = (if pc s = Waiting then Some (conc_finally (Raised Cancelled_error) s) else None)"

definition conc_step :: "'e conc_config \<Rightarrow> ('a, 'v, 'e) conc \<Rightarrow> ('v, 'e) conc_event \<Rightarrow> ('a, 'v, 'e) conc \<Rightarrow> bool" where
  "conc_step cfg s e t \<longleftrightarrow> conc_do cfg e s = Some t"

section \<open>Bounds of the limiter\<close>

definition limiter_ok :: "int \<Rightarrow> limiter \<Rightarrow> bool" where
  "limiter_ok mx l \<longleftrightarrow> l_max_limit l = mx \<and> l_min_limit l = 1 \<and> mx \<ge> 1 \<and>
     of_int (l_min_limit l) \<le> l_limit l \<and> l_limit l \<le> of_int (l_max_limit l)"

definition ceiling_of :: "int option \<Rightarrow> int" where
  "ceiling_of m = (case m of None \<Rightarrow> DEFAULT_MAX_LIMIT | Some n \<Rightarrow> n)"

lemma limiter_init_ok:
  assumes "limiter_init (default_settings m) = Inr l" "case m of None \<Rightarrow> True | Some n \<Rightarrow> n > 0"
  shows "limiter_ok (ceiling_of m) l"
  using assms
  by (cases m) (auto simp: limiter_init_def default_settings_def limiter_ok_def ceiling_of_def rbind_eq_Inr_iff Let_def
      DEFAULT_MAX_LIMIT_def DEFAULT_INITIAL_LIMIT_def DEFAULT_MIN_WINDOW_SAMPLES_def)

lemma update_limit_ok: "update_limit l = Inr l' \<Longrightarrow> limiter_ok mx l \<Longrightarrow> limiter_ok mx l'"
  by (auto simp: update_limit_def limiter_ok_def Let_def split: option.splits if_splits)

lemma on_sample_ok: "on_sample rtt l = Inr l' \<Longrightarrow> limiter_ok mx l \<Longrightarrow> limiter_ok mx l'"
proof -
  assume s: "on_sample rtt l = Inr l'" and ok: "limiter_ok mx l"
  have ok1: "limiter_ok mx (l\<lparr>window_samples := ws\<rparr>)" for ws using ok by (simp add: limiter_ok_def)
  have ok2: "limiter_ok mx (k\<lparr>window_samples := ws\<rparr>)" if "limiter_ok mx k" for ws k using that by (simp add: limiter_ok_def)
  show ?thesis
    using s ok1 by (auto simp: on_sample_def Let_def rbind_eq_Inr_iff intro: ok2 update_limit_ok split: if_splits)
qed

lemma limiter_limit_bounds: "limiter_ok mx l \<Longrightarrow> 1 \<le> limiter_limit l \<and> limiter_limit l \<le> mx"
  by (auto simp: limiter_ok_def limiter_limit_def)

definition lim_ok :: "'e conc_config \<Rightarrow> limiter option \<Rightarrow> bool" where
  "lim_ok cfg l \<longleftrightarrow>
     (case l of Some k \<Rightarrow> limiter_ok (ceiling_of (conc_limit cfg)) k
      | None \<Rightarrow> conc_limit cfg \<noteq> None \<and> the (conc_limit cfg) > 0)"

lemma sample_ok: "sample rtt l = Inr l' \<Longrightarrow> lim_ok cfg l \<Longrightarrow> lim_ok cfg l'"
  by (auto simp: sample_def lim_ok_def rbind_eq_Inr_iff intro: on_sample_ok split: option.splits)

lemma effective_limit_bounds:
  "lim_ok cfg (conc_limiter s) \<Longrightarrow> 1 \<le> effective_limit cfg s \<and> effective_limit cfg s \<le> ceiling_of (conc_limit cfg)"
  by (auto simp: lim_ok_def effective_limit_def ceiling_of_def limiter_limit_bounds split: option.splits dest: limiter_limit_bounds)

section \<open>Invariant of the generator\<close>

text \<open>
  What holds at every moment of a run over the source \<open>src\<close>: tasks are what the source has given, each
  is pending or handled and not both, the yields are the handled tasks in order, and there are never
  more pending tasks than the ceiling of the limit.
\<close>

definition ended_badly :: "'e conc_pc \<Rightarrow> bool" where
  "ended_badly p \<longleftrightarrow> (\<exists>e. p = Ended (Raised e))"

definition yield_of :: "'e conc_config \<Rightarrow> 'a list \<Rightarrow> nat \<times> ('v, 'e) task_outcome \<Rightarrow> 'a option \<times> ('v, 'e) yielded" where
  "yield_of cfg cr = (\<lambda>(t, oc). (if for_each cfg then Some (cr ! t) else None,
     case oc of Returned v \<Rightarrow> Value v | Failed e \<Rightarrow> Exception e | Was_cancelled \<Rightarrow> undefined))"

definition tasks_ok :: "('a, 'v, 'e) conc \<Rightarrow> bool" where
  "tasks_ok s \<longleftrightarrow> distinct (pending s) \<and> distinct (map fst (handled s)) \<and>
     set (pending s) \<inter> set (map fst (handled s)) = {} \<and>
     set (pending s) \<union> set (map fst (handled s)) = {0..<length (created s)}"

definition source_ok :: "('a, 'e) source_item list \<Rightarrow> ('a, 'v, 'e) conc \<Rightarrow> bool" where
  "source_ok src s \<longleftrightarrow> (\<exists>rest. src = map Next (created s) @ rest \<and> (ended_badly (pc s) \<or> rest = source s)) \<and>
     (exhausted s \<longrightarrow> source s = [])"

definition batch_ok :: "('a, 'v, 'e) conc \<Rightarrow> bool" where
  "batch_ok s \<longleftrightarrow> distinct (map fst (batch s)) \<and> set (map fst (batch s)) \<subseteq> set (pending s)"

definition yields_ok :: "'e conc_config \<Rightarrow> ('a, 'v, 'e) conc \<Rightarrow> bool" where
  "yields_ok cfg s \<longleftrightarrow> ended_badly (pc s) \<or> (yields s = map (yield_of cfg (created s)) (handled s) \<and>
     (\<forall>d\<in>set (handled s). \<exists>y. task_item cfg (snd d) = Inr y))"

definition conc_inv :: "'e conc_config \<Rightarrow> ('a, 'e) source_item list \<Rightarrow> ('a, 'v, 'e) conc \<Rightarrow> bool" where
  "conc_inv cfg src s \<longleftrightarrow> lim_ok cfg (conc_limiter s) \<and> tasks_ok s \<and> source_ok src s \<and> batch_ok s \<and> yields_ok cfg s \<and>
     int (length (pending s)) \<le> ceiling_of (conc_limit cfg) \<and>
     (case pc s of Waiting \<Rightarrow> pending s \<noteq> []
      | At_yield \<Rightarrow> True
      | Ended r \<Rightarrow> cancelled s = pending s \<and> (r = Finished \<longrightarrow> pending s = [] \<and> exhausted s))"

lemma fill_loop_props:
  assumes "fill_loop cap src cr pend = (src', cr', pend', ex, err)"
  shows "\<exists>new. cr' = cr @ new \<and> pend' = pend @ [length cr..<length cr'] \<and>
    (\<exists>rest. src = map Next new @ rest \<and> (err = None \<longrightarrow> rest = src')) \<and>
    (int (length pend') \<le> cap \<or> pend' = pend) \<and> (ex \<longrightarrow> src' = []) \<and>
    (err = None \<longrightarrow> \<not> ex \<longrightarrow> cap \<le> int (length pend'))"
  using assms
proof (induction cap src cr pend rule: fill_loop.induct)
  case (2 cap a src cr pend)
  show ?case
  proof (cases "int (length pend) < cap")
    case True
    then have f: "fill_loop cap src (cr @ [a]) (pend @ [length cr]) = (src', cr', pend', ex, err)" using "2.prems" by simp
    from "2.IH"[OF True f] obtain new rest where n: "cr' = (cr @ [a]) @ new"
      "pend' = (pend @ [length cr]) @ [length (cr @ [a])..<length cr']" "src = map Next new @ rest" "err = None \<longrightarrow> rest = src'"
      "int (length pend') \<le> cap \<or> pend' = pend @ [length cr]" "ex \<longrightarrow> src' = []" "err = None \<longrightarrow> \<not> ex \<longrightarrow> cap \<le> int (length pend')"
      by blast
    have "[length cr..<length cr'] = length cr # [Suc (length cr)..<length cr']" using n(1) by (intro upt_conv_Cons) simp
    then have "pend' = pend @ [length cr..<length cr']" using n(2) by simp
    moreover have "int (length pend') \<le> cap" using n(5) True by auto
    ultimately show ?thesis using n by (intro exI[of _ "a # new"]) auto
  qed (use "2.prems" in auto)
qed (auto split: if_splits)

text \<open>The parts of the invariant that hold between the \<open>await\<close>s, whatever comes next.\<close>

definition base_ok :: "'e conc_config \<Rightarrow> ('a, 'e) source_item list \<Rightarrow> ('a, 'v, 'e) conc \<Rightarrow> bool" where
  "base_ok cfg src s \<longleftrightarrow> lim_ok cfg (conc_limiter s) \<and> tasks_ok s \<and> (\<exists>rest. src = map Next (created s) @ rest) \<and>
     (exhausted s \<longrightarrow> source s = []) \<and> batch_ok s \<and> int (length (pending s)) \<le> ceiling_of (conc_limit cfg)"

definition core_ok :: "'e conc_config \<Rightarrow> ('a, 'e) source_item list \<Rightarrow> ('a, 'v, 'e) conc \<Rightarrow> bool" where
  "core_ok cfg src s \<longleftrightarrow> base_ok cfg src s \<and> src = map Next (created s) @ source s \<and>
     yields s = map (yield_of cfg (created s)) (handled s) \<and> (\<forall>d\<in>set (handled s). \<exists>y. task_item cfg (snd d) = Inr y)"

lemma core_of_inv: "conc_inv cfg src s \<Longrightarrow> \<not> ended_badly (pc s) \<Longrightarrow> core_ok cfg src s"
  by (auto simp: conc_inv_def base_ok_def core_ok_def source_ok_def yields_ok_def)

lemma inv_of_core: "core_ok cfg src s \<Longrightarrow> pc s = Waiting \<and> pending s \<noteq> [] \<or> pc s = At_yield \<Longrightarrow> conc_inv cfg src s"
  by (auto simp: conc_inv_def base_ok_def core_ok_def source_ok_def yields_ok_def)

lemma yield_of_append: "t < length cr \<Longrightarrow> yield_of cfg (cr @ new) (t, oc) = yield_of cfg cr (t, oc)"
  by (simp add: yield_of_def nth_append)

lemma raised_inv: "base_ok cfg src s \<Longrightarrow> conc_inv cfg src (conc_finally (Raised e) s)"
  by (auto simp: conc_inv_def base_ok_def conc_finally_def source_ok_def tasks_ok_def batch_ok_def yields_ok_def ended_badly_def)

lemma finally_inv:
  assumes "core_ok cfg src s" "r = Finished \<longrightarrow> pending s = [] \<and> exhausted s"
  shows "conc_inv cfg src (conc_finally r s)"
  using assms
  by (auto simp: conc_inv_def base_ok_def core_ok_def conc_finally_def source_ok_def tasks_ok_def batch_ok_def yields_ok_def)

lemma tasks_ok_extend:
  assumes "tasks_ok s" "length (created s) \<le> m"
  shows "distinct (pending s @ [length (created s)..<m]) \<and>
    set (pending s @ [length (created s)..<m]) \<inter> set (map fst (handled s)) = {} \<and>
    set (pending s @ [length (created s)..<m]) \<union> set (map fst (handled s)) = {0..<m}"
proof -
  let ?n = "length (created s)"
  have u: "set (pending s) \<union> set (map fst (handled s)) = {0..<?n}" and d: "distinct (pending s)"
    and i: "set (pending s) \<inter> set (map fst (handled s)) = {}" using assms(1) by (auto simp: tasks_ok_def)
  have lt: "x < ?n" if "x \<in> set (pending s) \<union> set (map fst (handled s))" for x using that unfolding u by simp
  have "set (pending s) \<inter> {?n..<m} = {}" "set (map fst (handled s)) \<inter> {?n..<m} = {}"
    using lt by (auto simp del: set_map dest!: lt[OF UnI1] lt[OF UnI2])
  moreover have "{0..<?n} \<union> {?n..<m} = {0..<m}" using assms(2) by auto
  ultimately show ?thesis using u d i by (auto simp del: set_map)
qed

lemma fill_core:
  assumes "core_ok cfg src s" "fill cfg s = (err, t)"
  shows "base_ok cfg src t \<and> (err = None \<longrightarrow> core_ok cfg src t \<and> (pending t = [] \<longrightarrow> exhausted t)) \<and>
    batch t = batch s \<and> pc t = pc s \<and> handled t = handled s"
proof (cases "exhausted s")
  case True
  then show ?thesis using assms by (auto simp: fill_def core_ok_def)
next
  case False
  obtain src' cr' pend' ex err' where l: "fill_loop (effective_limit cfg s) (source s) (created s) (pending s) = (src', cr', pend', ex, err')"
    by (cases "fill_loop (effective_limit cfg s) (source s) (created s) (pending s)")
  from False assms(2) l have t: "err' = err" "t = s\<lparr>source := src', created := cr', pending := pend', exhausted := ex\<rparr>"
    by (auto simp: fill_def)
  from fill_loop_props[OF l] t(1) obtain new rest where n: "cr' = created s @ new" "pend' = pending s @ [length (created s)..<length cr']"
    "source s = map Next new @ rest" "err = None \<longrightarrow> rest = src'" "int (length pend') \<le> effective_limit cfg s \<or> pend' = pending s"
    "ex \<longrightarrow> src' = []" "err = None \<longrightarrow> \<not> ex \<longrightarrow> effective_limit cfg s \<le> int (length pend')" by blast
  have b: "base_ok cfg src s" and src: "src = map Next (created s) @ source s" and y: "yields s = map (yield_of cfg (created s)) (handled s)"
    using assms(1) by (auto simp: core_ok_def)
  have lim: "1 \<le> effective_limit cfg s" "effective_limit cfg s \<le> ceiling_of (conc_limit cfg)"
    using effective_limit_bounds b by (auto simp: base_ok_def)
  have tk: "tasks_ok s" using b by (simp add: base_ok_def)
  have below: "\<And>n. n \<in> set (pending s) \<union> set (map fst (handled s)) \<Longrightarrow> n < length (created s)"
    using tk unfolding tasks_ok_def by (metis atLeastLessThan_iff)
  have "tasks_ok t" using tasks_ok_extend[OF tk, of "length cr'"] tk n(1) by (auto simp: tasks_ok_def t(2) n(2))
  moreover have "int (length pend') \<le> ceiling_of (conc_limit cfg)" using n(5) lim b by (auto simp: base_ok_def)
  moreover have "batch_ok t" using b n(2) by (auto simp: base_ok_def batch_ok_def t(2))
  ultimately have bt: "base_ok cfg src t"
    using b src n(3,6) by (auto simp: base_ok_def t(2) n(1))
  have "map (yield_of cfg cr') (handled s) = map (yield_of cfg (created s)) (handled s)"
  proof (rule map_cong[OF refl])
    fix d assume "d \<in> set (handled s)"
    then have "fst d < length (created s)" by (intro below) simp
    then show "yield_of cfg cr' d = yield_of cfg (created s) d" by (cases d) (simp add: n(1) yield_of_append)
  qed
  then have "core_ok cfg src t" if "err = None"
    using that bt src n(3,4) y assms(1) by (auto simp: core_ok_def t(2) n(1))
  moreover have "exhausted t" if "err = None" "pending t = []"
    using that n(7) lim t(2) by auto
  ultimately show ?thesis using bt t(2) by auto
qed


lemma handle_base:
  assumes "base_ok cfg src s" "batch s = (t, oc, rtt) # ds" "lim_ok cfg l"
    "s' = s\<lparr>batch := ds, pending := removeAll t (pending s), handled := handled s @ [(t, oc)], conc_limiter := l\<rparr>"
  shows "base_ok cfg src s'"
proof -
  have b: "tasks_ok s" "batch_ok s" "int (length (pending s)) \<le> ceiling_of (conc_limit cfg)" using assms(1) by (auto simp: base_ok_def)
  then have t: "t \<in> set (pending s)" "t \<notin> set (map fst ds)" "distinct (map fst ds)" "set (map fst ds) \<subseteq> set (pending s)"
    using assms(2) by (auto simp: batch_ok_def)
  have "tasks_ok s'" using b(1) t(1) by (auto simp: tasks_ok_def assms(4) distinct_removeAll)
  moreover have "batch_ok s'" using t by (auto simp: batch_ok_def assms(4))
  moreover have "int (length (removeAll t (pending s))) \<le> ceiling_of (conc_limit cfg)"
    using b(3) length_removeAll_less_eq[of t "pending s"] by linarith
  ultimately show ?thesis using assms(1,3) by (auto simp: base_ok_def assms(4))
qed

lemma yield_of_item: "task_item cfg oc = Inr y \<Longrightarrow> yield_of cfg cr (t, oc) = (if for_each cfg then Some (cr ! t) else None, y)"
  by (auto simp: task_item_def yield_of_def split: task_outcome.splits if_splits)

lemma process_inv:
  assumes "core_ok cfg src s" "batch s = d # ds"
  shows "conc_inv cfg src (process cfg d (s\<lparr>batch := ds\<rparr>))"
proof -
  obtain t oc rtt where d: "d = (t, oc, rtt)" by (cases d)
  have b: "base_ok cfg src s" using assms(1) by (auto simp only: core_ok_def)
  note hb = handle_base[OF b assms(2)[unfolded d] _ refl]
  have lim: "lim_ok cfg (conc_limiter s)" using b by (simp add: base_ok_def)
  show ?thesis
  proof (cases "sample rtt (conc_limiter s)")
    case (Inl e)
    then show ?thesis using raised_inv[OF hb[OF lim]] by (simp add: process_def d)
  next
    case (Inr l)
    have b2: "base_ok cfg src (s\<lparr>batch := ds, pending := removeAll t (pending s), handled := handled s @ [(t, oc)], conc_limiter := l\<rparr>)"
      by (rule hb) (rule sample_ok[OF Inr lim])
    show ?thesis
    proof (cases "task_item cfg oc")
      case (Inl e)
      then show ?thesis using raised_inv[OF b2] Inr by (simp add: process_def d)
    next
      case item: (Inr y)
      let ?u = "s\<lparr>batch := ds, pending := removeAll t (pending s), handled := handled s @ [(t, oc)], conc_limiter := l,
        yields := yields s @ [(if for_each cfg then Some (created s ! t) else None, y)], pc := At_yield\<rparr>"
      have "core_ok cfg src ?u"
        using assms(1) b2 item by (simp add: core_ok_def base_ok_def tasks_ok_def batch_ok_def yield_of_item[OF item])
      then have "conc_inv cfg src ?u" by (rule inv_of_core) simp
      moreover have "process cfg d (s\<lparr>batch := ds\<rparr>) = ?u" using Inr item by (simp add: process_def d)
      ultimately show ?thesis by (simp only:)
    qed
  qed
qed

lemma next_turn_inv:
  assumes "core_ok cfg src s" "pending s = [] \<Longrightarrow> exhausted s"
  shows "conc_inv cfg src (next_turn cfg s)"
proof (cases "batch s")
  case Nil
  have "core_ok cfg src (s\<lparr>pc := Waiting\<rparr>)" using assms(1) by (simp add: core_ok_def base_ok_def tasks_ok_def batch_ok_def)
  then show ?thesis
    using Nil assms finally_inv[OF assms(1), of Finished] inv_of_core[of cfg src "s\<lparr>pc := Waiting\<rparr>"] by (auto simp: next_turn_def)
next
  case (Cons d ds)
  then show ?thesis using process_inv[OF assms(1) Cons] by (simp add: next_turn_def)
qed

lemma fill_turn_inv:
  assumes "core_ok cfg src s"
  shows "conc_inv cfg src (fill_turn cfg s)"
proof -
  obtain err t where f: "fill cfg s = (err, t)" by (cases "fill cfg s")
  note ft = fill_core[OF assms f]
  show ?thesis
  proof (cases err)
    case None
    then show ?thesis using ft f next_turn_inv[of cfg src t] by (auto simp: fill_turn_def)
  next
    case (Some e)
    then show ?thesis using ft f raised_inv[of cfg src t] by (auto simp: fill_turn_def)
  qed
qed

lemma conc_start_blank:
  assumes "conc_start cfg src = Inr s"
  shows "\<exists>l. lim_ok cfg l \<and> s = fill_turn cfg (conc_blank src l)"
proof (cases "adaptive cfg")
  case True
  then obtain l where "limiter_init (default_settings (conc_limit cfg)) = Inr l" "case conc_limit cfg of None \<Rightarrow> True | Some n \<Rightarrow> n > 0"
    "s = fill_turn cfg (conc_blank src (Some l))"
    using assms by (auto simp: conc_start_def Let_def rbind_eq_Inr_iff)
  then show ?thesis using limiter_init_ok by (intro exI[of _ "Some l"]) (simp add: lim_ok_def)
next
  case False
  then show ?thesis using assms
    by (intro exI[of _ None]) (auto simp: conc_start_def Let_def rbind_eq_Inr_iff lim_ok_def split: option.splits)
qed

lemma conc_start_inv:
  assumes "conc_start cfg src = Inr s"
  shows "conc_inv cfg src s"
proof -
  obtain l where l: "lim_ok cfg l" and s: "s = fill_turn cfg (conc_blank src l)" using conc_start_blank[OF assms] by blast
  have "0 \<le> ceiling_of (conc_limit cfg)"
    using l by (auto simp: lim_ok_def limiter_ok_def ceiling_of_def split: option.splits)
  then show ?thesis unfolding s
    by (intro fill_turn_inv) (simp add: conc_blank_def core_ok_def base_ok_def tasks_ok_def batch_ok_def l)
qed

lemma conc_step_inv:
  assumes "conc_inv cfg src s" "conc_step cfg s e t"
  shows "conc_inv cfg src t"
proof -
  have step: "conc_do cfg e s = Some t" using assms(2) by (simp add: conc_step_def)
  have core: "core_ok cfg src s"
    using step by (intro core_of_inv[OF assms(1)]) (cases e; auto simp: ended_badly_def split: if_splits)
  show ?thesis
  proof (cases e)
    case (Completed b)
    then have w: "pc s = Waiting" "b \<noteq> []" "distinct (map fst b)" "set (map fst b) \<subseteq> set (pending s)" "t = next_turn cfg (s\<lparr>batch := b\<rparr>)"
      using step by (auto split: if_splits)
    have "core_ok cfg src (s\<lparr>batch := b\<rparr>)" using core w(3,4) by (simp add: core_ok_def base_ok_def tasks_ok_def batch_ok_def)
    moreover have "pending s \<noteq> []" using w(2,4) by (cases b) auto
    ultimately show ?thesis using next_turn_inv[of cfg src "s\<lparr>batch := b\<rparr>"] w(5) by simp
  next
    case Resume
    then show ?thesis using step fill_turn_inv[OF core] by (auto split: if_splits)
  next
    case Close
    then show ?thesis using step finally_inv[OF core, of Closed] by (auto split: if_splits)
  next
    case Cancel
    then show ?thesis using step raised_inv[of cfg src s] core by (auto simp: core_ok_def split: if_splits)
  qed
qed

text \<open>A run of the generator over \<open>src\<close>.\<close>

definition conc_initial :: "'e conc_config \<Rightarrow> ('a, 'e) source_item list \<Rightarrow> ('a, 'v, 'e) conc \<Rightarrow> bool" where
  "conc_initial cfg src s \<longleftrightarrow> conc_start cfg src = Inr s"

interpretation conc: invariant_system "conc_initial cfg src" "conc_step cfg" "conc_inv cfg src" for cfg src
  by unfold_locales (auto simp: conc_initial_def intro: conc_start_inv conc_step_inv)

section \<open>Every run ends\<close>

text \<open>Twice the number of tasks not yet handled, and what the place in the control flow still allows.\<close>

definition potential :: "('a, 'e) source_item list \<Rightarrow> ('a, 'v, 'e) conc \<Rightarrow> nat" where
  "potential src s = 2 * (length src - length (handled s)) + (case pc s of Waiting \<Rightarrow> 1 | At_yield \<Rightarrow> 2 | Ended _ \<Rightarrow> 0)"

lemma handled_bound: "conc_inv cfg src s \<Longrightarrow> length (handled s) \<le> length src"
proof -
  assume i: "conc_inv cfg src s"
  then have d: "distinct (map fst (handled s))" and u: "set (map fst (handled s)) \<subseteq> {0..<length (created s)}"
    by (auto simp: conc_inv_def tasks_ok_def)
  have "length (handled s) = card (set (map fst (handled s)))" using distinct_card[OF d] by simp
  also have "\<dots> \<le> length (created s)" using card_mono[OF _ u] by simp
  also have "\<dots> \<le> length src" using i by (auto simp: conc_inv_def source_ok_def)
  finally show ?thesis .
qed

lemma fill_handled: "fill cfg s = (err, t) \<Longrightarrow> handled t = handled s \<and> batch t = batch s"
  by (auto simp: fill_def split: if_splits prod.splits)

lemma process_turn: "handled (process cfg d s) = handled s @ [(fst d, fst (snd d))] \<and> pc (process cfg d s) \<noteq> Waiting"
  by (auto simp: process_def conc_finally_def Let_def split: prod.splits sum.splits)

lemma next_turn_progress:
  "batch s \<noteq> [] \<Longrightarrow> length (handled (next_turn cfg s)) = Suc (length (handled s)) \<and> pc (next_turn cfg s) \<noteq> Waiting"
  "batch s = [] \<Longrightarrow> handled (next_turn cfg s) = handled s \<and> pc (next_turn cfg s) \<noteq> At_yield"
  using process_turn[of cfg "hd (batch s)" "s\<lparr>batch := tl (batch s)\<rparr>"]
  by (auto simp: next_turn_def conc_finally_def split: list.splits)

lemma fill_turn_progress:
  "length (handled (fill_turn cfg s)) = Suc (length (handled s)) \<and> pc (fill_turn cfg s) \<noteq> Waiting \<and> batch s \<noteq> [] \<or>
   handled (fill_turn cfg s) = handled s \<and> pc (fill_turn cfg s) \<noteq> At_yield"
proof -
  obtain err t where f: "fill cfg s = (err, t)" by (cases "fill cfg s")
  have "handled t = handled s" "batch t = batch s" using fill_handled[OF f] by auto
  then show ?thesis
    using next_turn_progress[of t cfg] f by (cases err; cases "batch t = []") (auto simp: fill_turn_def conc_finally_def)
qed

lemma potential_step:
  assumes "conc_inv cfg src s" "conc_step cfg s e t"
  shows "potential src t < potential src s"
proof -
  have step: "conc_do cfg e s = Some t" using assms(2) by (simp add: conc_step_def)
  have le: "length (handled t) \<le> length src" by (rule handled_bound[OF conc_step_inv[OF assms]])
  show ?thesis
  proof (cases e)
    case (Completed b)
    then have "pc s = Waiting" "length (handled t) = Suc (length (handled s))"
      using step next_turn_progress(1)[of "s\<lparr>batch := b\<rparr>" cfg] by (auto split: if_splits)
    then show ?thesis using le by (auto simp: potential_def split: conc_pc.splits)
  next
    case Resume
    then show ?thesis using step le fill_turn_progress[of cfg s] by (auto simp: potential_def split: if_splits conc_pc.splits)
  qed (use step in \<open>auto simp: potential_def conc_finally_def split: if_splits\<close>)
qed

lemma potential_steps: "steps (conc_step cfg) s es t \<Longrightarrow> conc_inv cfg src s \<Longrightarrow> length es + potential src t \<le> potential src s"
proof (induction rule: steps.induct)
  case (steps_Cons s e t es u)
  then show ?case using potential_step[OF steps_Cons.prems steps_Cons.hyps(1)] conc_step_inv[OF steps_Cons.prems steps_Cons.hyps(1)] by auto
qed simp

lemma start_potential: "conc_start cfg src = Inr s \<Longrightarrow> potential src s \<le> 2 * length src + 1"
proof -
  assume "conc_start cfg src = Inr s"
  then obtain l where s: "s = fill_turn cfg (conc_blank src l)" using conc_start_blank by blast
  show ?thesis
    using fill_turn_progress[of cfg "conc_blank src l"] unfolding s
    by (auto simp: potential_def conc_blank_def split: conc_pc.splits)
qed

section \<open>Runs as functions\<close>

fun conc_run :: "'e conc_config \<Rightarrow> ('v, 'e) conc_event list \<Rightarrow> ('a, 'v, 'e) conc \<Rightarrow> ('a, 'v, 'e) conc option" where
  "conc_run cfg [] s = Some s"
| "conc_run cfg (e # es) s = (case conc_do cfg e s of None \<Rightarrow> None | Some t \<Rightarrow> conc_run cfg es t)"

lemma conc_run_steps: "conc_run cfg es s = Some t \<Longrightarrow> steps (conc_step cfg) s es t"
  by (induction es arbitrary: s) (auto intro: steps.intros simp: conc_step_def split: option.splits)

definition cfg0 :: "nat conc_config" where
  "cfg0 = \<lparr>for_each = True, return_exceptions = True, conc_limit = Some 2, adaptive = True, truthy = (\<lambda>_. True)\<rparr>"

definition src0 :: "(nat, nat) source_item list" where
  "src0 = [Next 10, Next 20, Next 30]"

definition events0 :: "(nat, nat) conc_event list" where
  "events0 = [Completed [(1, Returned 7, 1), (0, Failed 4, 2)], Resume, Resume, Completed [(2, Returned 9, 1)], Resume]"

lemma events0_end:
  "case conc_start cfg0 src0 of Inl _ \<Rightarrow> False | Inr s \<Rightarrow> (case conc_run cfg0 events0 s of None \<Rightarrow> False
     | Some t \<Rightarrow> pc t = Ended Finished \<and> yields t = [(Some 20, Value (7 :: nat)), (Some 10, Exception 4), (Some 30, Value 9)])"
  by code_simp

lemma conc_run_ends:
  assumes "case conc_start cfg src of Inl _ \<Rightarrow> False | Inr s \<Rightarrow> (case conc_run cfg es s of None \<Rightarrow> False | Some t \<Rightarrow> P t)"
  obtains s t where "conc_initial cfg src s" "steps (conc_step cfg) s es t" "reach (conc_initial cfg src) (conc_step cfg) t" "P t"
proof -
  obtain s t where s: "conc_start cfg src = Inr s" "conc_run cfg es s = Some t" and p: "P t"
    using assms by (auto split: sum.splits option.splits)
  have i: "conc_initial cfg src s" using s(1) by (simp add: conc_initial_def)
  note st = conc_run_steps[OF s(2)]
  show thesis by (rule that[of s t, OF i st reach_steps[where init = "conc_initial cfg src", OF st reach_init[of "conc_initial cfg src", OF i]] p])
qed

section \<open>Claims\<close>

text \<open>
  (C12) A run of \<open>concurrently\<close> that ends without an exception has run every awaitable of the source exactly
  once and yielded, in the order the tasks were looked at, the result of each, with its own element in
  \<open>for_each\<close> mode, and exceptions as values only when asked to.
\<close>

theorem concurrently_yields_each_once:
  assumes "reach (conc_initial cfg src) (conc_step cfg) s" "pc s = Ended Finished"
  shows "src = map Next (created s) \<and> mset (map fst (handled s)) = mset [0..<length src] \<and>
    yields s = map (yield_of cfg (created s)) (handled s) \<and>
    list_all (\<lambda>(t, oc). (\<exists>v. oc = Returned v) \<or> return_exceptions cfg \<and> (\<exists>e. oc = Failed e)) (handled s)"
proof -
  have i: "conc_inv cfg src s" by (rule conc.reach_inv[OF assms(1)])
  then have c: "core_ok cfg src s" by (rule core_of_inv) (simp add: assms(2) ended_badly_def)
  have p: "pending s = []" "exhausted s" using i assms(2) by (auto simp: conc_inv_def)
  have src: "src = map Next (created s)" using c p(2) by (auto simp: core_ok_def base_ok_def)
  have "distinct (map fst (handled s))" "set (map fst (handled s)) = {0..<length (created s)}"
    using i p(1) by (auto simp: conc_inv_def tasks_ok_def)
  then have "mset (map fst (handled s)) = mset [0..<length (created s)]"
    using set_eq_iff_mset_eq_distinct[of "map fst (handled s)" "[0..<length (created s)]"] by simp
  moreover have "list_all (\<lambda>(t, oc). (\<exists>v. oc = Returned v) \<or> return_exceptions cfg \<and> (\<exists>e. oc = Failed e)) (handled s)"
    unfolding list_all_iff
  proof
    fix d assume "d \<in> set (handled s)"
    then obtain y where "task_item cfg (snd d) = Inr y" using c by (auto simp: core_ok_def)
    then show "case d of (t, oc) \<Rightarrow> (\<exists>v. oc = Returned v) \<or> return_exceptions cfg \<and> (\<exists>e. oc = Failed e)"
      by (cases d) (auto simp: task_item_def split: task_outcome.splits if_splits)
  qed
  ultimately show ?thesis using src c by (simp add: core_ok_def)
qed

theorem concurrently_yields_each_once_witness:
  "\<exists>s :: (nat, nat, nat) conc. reach (conc_initial cfg0 src0) (conc_step cfg0) s \<and> pc s = Ended Finished \<and>
     yields s = [(Some 20, Value 7), (Some 10, Exception 4), (Some 30, Value 9)] \<and>
     mset (map fst (handled s)) = mset [0..<length src0]"
proof (rule conc_run_ends[OF events0_end])
  fix s t :: "(nat, nat, nat) conc"
  assume r: "reach (conc_initial cfg0 src0) (conc_step cfg0) t"
    and e: "pc t = Ended Finished \<and> yields t = [(Some 20, Value 7), (Some 10, Exception 4), (Some 30, Value 9)]"
  show ?thesis using concurrently_yields_each_once[OF r] r e by blast
qed

text \<open>
  (C14) There are never more tasks at work than the limit the caller has set, or 1000 when none is set,
  and the limit in force, however latencies drive it, stays between one and that ceiling.
\<close>

theorem concurrently_bounded:
  assumes "reach (conc_initial cfg src) (conc_step cfg) s"
  shows "int (length (pending s)) \<le> (case conc_limit cfg of None \<Rightarrow> 1000 | Some n \<Rightarrow> n) \<and>
    1 \<le> effective_limit cfg s \<and> effective_limit cfg s \<le> (case conc_limit cfg of None \<Rightarrow> 1000 | Some n \<Rightarrow> n)"
proof -
  have i: "conc_inv cfg src s" by (rule conc.reach_inv[OF assms])
  then show ?thesis
    using effective_limit_bounds[of cfg s]
    by (cases "conc_limit cfg") (auto simp: conc_inv_def ceiling_of_def DEFAULT_MAX_LIMIT_def)
qed

theorem concurrently_bounded_witness:
  "\<exists>s :: (nat, nat, nat) conc. reach (conc_initial cfg0 src0) (conc_step cfg0) s \<and> int (length (pending s)) \<le> 2 \<and> effective_limit cfg0 s \<le> 2"
proof (rule conc_run_ends[OF events0_end])
  fix s t :: "(nat, nat, nat) conc"
  assume r: "reach (conc_initial cfg0 src0) (conc_step cfg0) t"
  show ?thesis using concurrently_bounded[OF r] r by (auto simp: cfg0_def)
qed

text \<open>
  (C13) \<open>concurrently\<close> terminates and never stalls.  A run over a source of \<open>n\<close> awaitables has at most
  \<open>2 n + 1\<close> steps; while it waits, some task is pending and the completion of any of them lets it go on;
  when the consumer asks for the next item it goes on.  Once it has ended, for whatever reason, every
  task it created has been looked at or cancelled.
\<close>

theorem concurrently_terminates:
  assumes "conc_initial cfg src s" "steps (conc_step cfg) s es t"
  shows "length es \<le> 2 * length src + 1 \<and>
    (case pc t of
       Waiting \<Rightarrow> pending t \<noteq> [] \<and> list_all (\<lambda>n. \<exists>u. conc_step cfg t (Completed [(n, oc, rtt)]) u) (pending t)
     | At_yield \<Rightarrow> \<exists>u. conc_step cfg t Resume u
     | Ended r \<Rightarrow> set (cancelled t) \<union> set (map fst (handled t)) = {0..<length (created t)})"
proof -
  have start: "conc_start cfg src = Inr s" using assms(1) by (simp add: conc_initial_def)
  note inv = conc_start_inv[OF start]
  have "length es \<le> 2 * length src + 1" using potential_steps[OF assms(2) inv] start_potential[OF start] by linarith
  moreover have "conc_inv cfg src t" by (rule conc.steps_inv[OF assms(2) inv])
  ultimately show ?thesis
    by (cases "pc t") (auto simp: conc_inv_def conc_step_def tasks_ok_def list_all_iff)
qed

theorem concurrently_terminates_witness:
  "\<exists>s t :: (nat, nat, nat) conc. conc_initial cfg0 src0 s \<and> steps (conc_step cfg0) s events0 t \<and> length events0 \<le> 2 * length src0 + 1 \<and>
     pc t = Ended Finished \<and> set (cancelled t) \<union> set (map fst (handled t)) = {0..<length (created t)}"
proof (rule conc_run_ends[OF events0_end])
  fix s t :: "(nat, nat, nat) conc"
  assume i: "conc_initial cfg0 src0 s" "steps (conc_step cfg0) s events0 t"
    and e: "pc t = Ended Finished \<and> yields t = [(Some 20, Value 7), (Some 10, Exception 4), (Some 30, Value 9)]"
  show ?thesis using concurrently_terminates[OF i, of Was_cancelled 0] i e by auto
qed

text \<open>
  A task that was cancelled is not returned as a value: with \<open>return_exceptions\<close>, looking at it raises
  \<open>CancelledError\<close> out of the generator, and the other tasks are cancelled.
\<close>

theorem concurrently_raises_on_cancelled_task:
  assumes "reach (conc_initial cfg src) (conc_step cfg) s" "pc s = Waiting" "n \<in> set (pending s)"
    "conc_limiter s = None"
  shows "\<exists>t. conc_step cfg s (Completed [(n, Was_cancelled, rtt)]) t \<and> pc t = Ended (Raised Cancelled_error) \<and>
    yields t = yields s \<and> cancelled t = removeAll n (pending s)"
  using assms by (auto simp: conc_step_def next_turn_def process_def sample_def task_item_def conc_finally_def)

theorem concurrently_raises_on_cancelled_task_witness:
  "\<exists>s :: (nat, nat, nat) conc. reach (conc_initial (cfg0\<lparr>adaptive := False\<rparr>) src0) (conc_step (cfg0\<lparr>adaptive := False\<rparr>)) s \<and> pending s = [0, 1] \<and>
     (\<exists>t. conc_step (cfg0\<lparr>adaptive := False\<rparr>) s (Completed [(0, Was_cancelled, 1)]) t \<and> pc t = Ended (Raised Cancelled_error) \<and>
        yields t = yields s \<and> cancelled t = [1])"
proof -
  have "case conc_start (cfg0\<lparr>adaptive := False\<rparr>) src0 of Inl _ \<Rightarrow> False | Inr s \<Rightarrow> (case conc_run (cfg0\<lparr>adaptive := False\<rparr>) [] s of None \<Rightarrow> False
     | Some (t :: (nat, nat, nat) conc) \<Rightarrow> pc t = Waiting \<and> pending t = [0, 1] \<and> conc_limiter t = None)"
    by code_simp
  then show ?thesis
  proof (rule conc_run_ends)
    fix s t :: "(nat, nat, nat) conc"
    assume r: "reach (conc_initial (cfg0\<lparr>adaptive := False\<rparr>) src0) (conc_step (cfg0\<lparr>adaptive := False\<rparr>)) t"
      and e: "pc t = Waiting \<and> pending t = [0, 1] \<and> conc_limiter t = None"
    show ?thesis using concurrently_raises_on_cancelled_task[OF r, of 0 1] r e by (intro exI[of _ t]) auto
  qed
qed

end
