(* ===== verification/Bloom.thy ===== *)
theory Bloom
  imports Prelude Complex_Main
begin

text \<open>
  \<open>BloomFilter\<close> and \<open>ScalableBloomFilter\<close> of \<open>reboot/aio/state_managers.py\<close>, and the interface their client
  relies on: a set that may report keys it was never given but never misses one it was.

  The hash functions of \<open>hashlib\<close> are a parameter \<open>digest\<close>, of which only the sizes of its results are
  assumed.  Floats are reals; \<open>pack\<close> and \<open>unpack\<close> are little-endian.
\<close>

section \<open>Hash functions\<close>

datatype hashfn = Md5 | Sha1 | Sha256 | Sha384 | Sha512

type_synonym digest = "hashfn \<Rightarrow> bytes \<Rightarrow> bytes"

fun digest_size :: "hashfn \<Rightarrow> nat" where
  "digest_size Md5 = 16" | "digest_size Sha1 = 20" | "digest_size Sha256 = 32" | "digest_size Sha384 = 48"
| "digest_size Sha512 = 64"

definition digest_sizes :: "digest \<Rightarrow> bool" where
  "digest_sizes digest \<longleftrightarrow> (\<forall>h b. length (digest h b) = digest_size h)"

datatype bloom_error = Value_error | Index_error | Struct_error | Overflow_error | Database_failure | Assertion_failure | Key_expired

definition chunk_size :: "nat \<Rightarrow> nat" where
  "chunk_size num_bits = (if num_bits \<ge> 2 ^ 31 then 8 else if num_bits \<ge> 2 ^ 15 then 4 else 2)"

definition hashfn_of :: "nat \<Rightarrow> hashfn" where
  "hashfn_of total_hash_bits =
     (if total_hash_bits > 384 then Sha512 else if total_hash_bits > 256 then Sha384
      else if total_hash_bits > 160 then Sha256 else if total_hash_bits > 128 then Sha1 else Md5)"

text \<open>\<open>pack('I', i)\<close>, and \<open>unpack\<close> of a buffer into unsigned integers of \<open>chunk\<close> bytes; it raises unless the sizes agree.\<close>

definition pack_I :: "nat \<Rightarrow> bytes" where
  "pack_I i = [i mod 256, i div 256 mod 256, i div 65536 mod 256, i div 16777216 mod 256]"

fun le_int :: "bytes \<Rightarrow> nat" where
  "le_int [] = 0"
| "le_int (b # bs) = b + 256 * le_int bs"

fun unpack_ints :: "nat \<Rightarrow> nat \<Rightarrow> bytes \<Rightarrow> nat list" where
  "unpack_ints chunk 0 bs = []"
| "unpack_ints chunk (Suc n) bs = le_int (take chunk bs) # unpack_ints chunk n (drop chunk bs)"

definition unpack :: "nat \<Rightarrow> nat \<Rightarrow> bytes \<Rightarrow> bloom_error + nat list" where
  "unpack chunk n bs = (if length bs = n * chunk then Inr (unpack_ints chunk n bs) else Inl Struct_error)"

text \<open>The loop of \<open>_make_hashfuncs\<close>: digests of the salts with the key, until \<open>left\<close> integers are there.\<close>

fun hash_loop :: "digest \<Rightarrow> hashfn \<Rightarrow> nat \<Rightarrow> nat \<Rightarrow> nat \<Rightarrow> bytes \<Rightarrow> bytes list \<Rightarrow> nat \<Rightarrow> bloom_error + nat list" where
  "hash_loop digest h chunk n num_bits key [] left = Inr []"
| "hash_loop digest h chunk n num_bits key (salt # salts) left =
     rbind (unpack chunk n (digest h (salt @ key))) (\<lambda>uints.
       let ks = map (\<lambda>u. u mod num_bits) (take left uints) in
       if left \<le> n then Inr ks
       else rbind (hash_loop digest h chunk n num_bits key salts (left - n)) (\<lambda>rest. Inr (ks @ rest)))"

definition make_hashfuncs :: "digest \<Rightarrow> nat \<Rightarrow> nat \<Rightarrow> bytes \<Rightarrow> bloom_error + nat list" where
  "make_hashfuncs digest num_slices num_bits key =
     (let chunk = chunk_size num_bits;
          h = hashfn_of (8 * num_slices * chunk);
          n = digest_size h div chunk;
          num_salts = num_slices div n + (if num_slices mod n \<noteq> 0 then 1 else 0);
          salts = map (\<lambda>i. digest h (pack_I i)) [0..<num_salts]
      in hash_loop digest h chunk n num_bits key salts num_slices)"

section \<open>\<open>BloomFilter\<close>\<close>

record bloom =
  capacity :: nat
  error_rate :: real
  num_slices :: nat
  bits_per_slice :: nat
  num_bits :: nat
  count :: nat
  bitarray :: "bool list"

definition bloom_init :: "nat \<Rightarrow> real \<Rightarrow> bloom_error + bloom" where
  "bloom_init cap rate =
     (if \<not> cap > 0 then Inl Value_error
      else if \<not> (0 < rate \<and> rate < 1) then Inl Value_error
      else let k = nat \<lceil>log 2 (1 / rate)\<rceil>;
               m = nat \<lceil>(real cap * \<bar>ln rate\<bar>) / (real k * (ln 2)\<^sup>2)\<rceil>
           in Inr \<lparr>capacity = cap, error_rate = rate, num_slices = k, bits_per_slice = m, num_bits = k * m, count = 0,
                bitarray = replicate (k * m) False\<rparr>)"

text \<open>An index of the bit array, out of range as Python has it.\<close>

definition bit_at :: "bool list \<Rightarrow> nat \<Rightarrow> bloom_error + bool" where
  "bit_at bs i = (if i < length bs then Inr (bs ! i) else Inl Index_error)"

fun contains_loop :: "nat \<Rightarrow> bool list \<Rightarrow> nat list \<Rightarrow> nat \<Rightarrow> bloom_error + bool" where
  "contains_loop m bs [] offset = Inr True"
| "contains_loop m bs (k # ks) offset =
     rbind (bit_at bs (offset + k)) (\<lambda>b. if \<not> b then Inr False else contains_loop m bs ks (offset + m))"

definition bloom_contains :: "digest \<Rightarrow> bytes \<Rightarrow> bloom \<Rightarrow> bloom_error + bool" where
  "bloom_contains digest key f =
     rbind (make_hashfuncs digest (num_slices f) (bits_per_slice f) key) (\<lambda>hashes.
       contains_loop (bits_per_slice f) (bitarray f) hashes 0)"

text \<open>The loop of \<open>add\<close>: the bits and whether all of them were found.\<close>

fun add_loop :: "nat \<Rightarrow> bool \<Rightarrow> bool \<Rightarrow> bool \<Rightarrow> bool list \<Rightarrow> nat list \<Rightarrow> nat \<Rightarrow> bloom_error + (bool list \<times> bool)" where
  "add_loop m skip full found bs [] offset = Inr (bs, found)"
| "add_loop m skip full found bs (k # ks) offset =
     rbind (bit_at bs (offset + k)) (\<lambda>b.
       let missing = (\<not> skip \<and> found \<and> \<not> b) in
       if missing \<and> full then Inl Index_error
       else add_loop m skip full (found \<and> \<not> missing) (bs[offset + k := True]) ks (offset + m))"

definition bloom_add :: "digest \<Rightarrow> bool \<Rightarrow> bytes \<Rightarrow> bloom \<Rightarrow> bloom_error + (bool \<times> bloom)" where
  "bloom_add digest skip_check key f =
     (if skip_check \<and> count f = capacity f then Inl Index_error
      else rbind (make_hashfuncs digest (num_slices f) (bits_per_slice f) key) (\<lambda>hashes.
        rbind (add_loop (bits_per_slice f) skip_check (count f = capacity f) True (bitarray f) hashes 0) (\<lambda>(bs, found).
          if skip_check \<or> \<not> found then Inr (False, f\<lparr>bitarray := bs, count := count f + 1\<rparr>)
          else Inr (True, f\<lparr>bitarray := bs\<rparr>))))"

section \<open>\<open>ScalableBloomFilter\<close>\<close>

definition MAX_CAPACITY :: nat where "MAX_CAPACITY = 1000000"

definition INITIAL_CAPACITY :: nat where "INITIAL_CAPACITY = 100"

definition ERROR_RATE :: real where "ERROR_RATE = 1 / 10000000"

definition TIGHTENING_RATIO :: real where "TIGHTENING_RATIO = 9 / 10"

type_synonym filters = "bloom list"

definition scalable_init :: "bloom_error + filters" where
  "scalable_init = rbind (bloom_init INITIAL_CAPACITY ERROR_RATE) (\<lambda>f. Inr [f])"

fun contains_any :: "digest \<Rightarrow> bytes \<Rightarrow> filters \<Rightarrow> bloom_error + bool" where
  "contains_any digest key [] = Inr False"
| "contains_any digest key (f # fs) =
     rbind (bloom_contains digest key f) (\<lambda>b. if b then Inr True else contains_any digest key fs)"

definition scalable_contains :: "digest \<Rightarrow> bytes \<Rightarrow> filters \<Rightarrow> bloom_error + bool" where
  "scalable_contains digest key fs = contains_any digest key (rev fs)"

definition next_capacity :: "nat \<Rightarrow> nat" where
  "next_capacity c = (if c = MAX_CAPACITY then c else c * 10)"

definition scalable_add :: "digest \<Rightarrow> bytes \<Rightarrow> filters \<Rightarrow> bloom_error + (bool \<times> filters)" where
  "scalable_add digest key fs =
     rbind (scalable_contains digest key fs) (\<lambda>found.
       if found then Inr (True, fs)
       else let f = last fs in
         if count f = capacity f
         then rbind (bloom_init (next_capacity (capacity f)) (error_rate f * TIGHTENING_RATIO)) (\<lambda>g.
              rbind (bloom_add digest True key g) (\<lambda>(_, g'). Inr (False, fs @ [g'])))
         else rbind (bloom_add digest True key f) (\<lambda>(_, f'). Inr (False, butlast fs @ [f'])))"

section \<open>Hashes are in range\<close>

lemma unpack_ints_length [simp]: "length (unpack_ints chunk n bs) = n"
  by (induction chunk n bs rule: unpack_ints.induct) auto

text \<open>Every digest divides into whole integers: \<open>struct.unpack\<close> never raises.\<close>

lemma chunk_divides:
  assumes "c \<in> {2, 4, 8}"
  shows "digest_size (hashfn_of (8 * k * c)) div c * c = digest_size (hashfn_of (8 * k * c)) \<and> 0 < digest_size (hashfn_of (8 * k * c)) div c"
  using assms by (auto simp: hashfn_of_def)

lemma chunk_size_range: "chunk_size n \<in> {2, 4, 8}"
  by (simp add: chunk_size_def)

lemma hash_loop_ok:
  assumes "digest_sizes digest" "n * chunk = digest_size h" "0 < n" "0 < nb" "left \<le> n * length salts"
  shows "\<exists>ks. hash_loop digest h chunk n nb key salts left = Inr ks \<and> length ks = left \<and> (\<forall>k\<in>set ks. k < nb)"
  using assms(5)
proof (induction salts arbitrary: left)
  case (Cons salt salts)
  let ?u = "unpack_ints chunk n (digest h (salt @ key))"
  have u: "unpack chunk n (digest h (salt @ key)) = Inr ?u"
    using assms(1,2) by (simp add: unpack_def digest_sizes_def)
  have lt: "\<forall>k\<in>set (map (\<lambda>u. u mod nb) (take left ?u)). k < nb" using assms(4) by auto
  show ?case
  proof (cases "left \<le> n")
    case True
    then show ?thesis using u lt by (auto simp: min_def)
  next
    case False
    then have "left - n \<le> n * length salts" using Cons.prems by simp
    from Cons.IH[OF this] obtain ks where ks: "hash_loop digest h chunk n nb key salts (left - n) = Inr ks"
      and ln: "length ks = left - n" and kl: "\<forall>k\<in>set ks. k < nb" by blast
    let ?ks = "map (\<lambda>u. u mod nb) (take left ?u) @ ks"
    have "hash_loop digest h chunk n nb key (salt # salts) left = Inr ?ks" using False by (simp add: u ks)
    moreover have "length ?ks = left" using False ln by simp
    moreover have "\<forall>k\<in>set ?ks. k < nb" using lt kl unfolding set_append by blast
    ultimately show ?thesis by blast
  qed
qed simp

lemma salts_suffice:
  fixes k n :: nat
  assumes "0 < n"
  shows "k \<le> n * (k div n + (if k mod n \<noteq> 0 then 1 else 0))"
proof -
  have "n * (k div n) + k mod n = k" "k mod n < n" using assms by simp_all
  then have "k mod n \<noteq> 0 \<Longrightarrow> k \<le> n * (k div n) + n" "k mod n = 0 \<Longrightarrow> k \<le> n * (k div n)" by linarith+
  then show ?thesis by (simp add: distrib_left)
qed

lemma make_hashfuncs_ok:
  assumes "digest_sizes digest" "0 < nb"
  shows "\<exists>ks. make_hashfuncs digest k nb key = Inr ks \<and> length ks = k \<and> (\<forall>i\<in>set ks. i < nb)"
proof -
  let ?c = "chunk_size nb" let ?h = "hashfn_of (8 * k * ?c)" let ?n = "digest_size ?h div ?c"
  have n: "?n * ?c = digest_size ?h" "0 < ?n" using chunk_divides[OF chunk_size_range, of k nb] by auto
  have "k \<le> ?n * (k div ?n + (if k mod ?n \<noteq> 0 then 1 else 0))"
    by (rule salts_suffice[OF n(2)])
  then show ?thesis
    unfolding make_hashfuncs_def Let_def by (intro hash_loop_ok[OF assms(1) n assms(2)]) simp
qed

section \<open>Filters are well formed and never miss a key\<close>

definition bloom_ok :: "bloom \<Rightarrow> bool" where
  "bloom_ok f \<longleftrightarrow> 0 < num_slices f \<and> 0 < bits_per_slice f \<and> num_bits f = num_slices f * bits_per_slice f \<and>
     length (bitarray f) = num_bits f \<and> count f \<le> capacity f \<and> 0 < capacity f \<and> 0 < error_rate f \<and> error_rate f < 1"

lemma bloom_init_ok:
  assumes "0 < cap" "0 < rate" "rate < 1"
  shows "\<exists>f. bloom_init cap rate = Inr f \<and> bloom_ok f \<and> count f = 0 \<and> capacity f = cap \<and> error_rate f = rate"
proof -
  let ?k = "nat \<lceil>log 2 (1 / rate)\<rceil>"
  have k: "0 < ?k" using assms(2,3) by (simp add: zero_less_log_cancel_iff)
  have "0 < (real cap * \<bar>ln rate\<bar>) / (real ?k * (ln 2)\<^sup>2)"
    using assms k by (intro divide_pos_pos mult_pos_pos) auto
  then have "0 < nat \<lceil>(real cap * \<bar>ln rate\<bar>) / (real ?k * (ln 2)\<^sup>2)\<rceil>" by (simp only: zero_less_nat_eq zero_less_ceiling)
  then show ?thesis using assms k by (auto simp: bloom_init_def bloom_ok_def Let_def)
qed

text \<open>Each slice gets one bit.\<close>

fun positions :: "nat \<Rightarrow> nat list \<Rightarrow> nat \<Rightarrow> nat list" where
  "positions m [] offset = []"
| "positions m (k # ks) offset = (offset + k) # positions m ks (offset + m)"

lemma positions_bound: "\<forall>k\<in>set ks. k < m \<Longrightarrow> p \<in> set (positions m ks offset) \<Longrightarrow> p < offset + length ks * m"
proof (induction m ks offset rule: positions.induct)
  case (2 m k ks offset)
  show ?case
  proof (cases "p = offset + k")
    case True
    then show ?thesis using "2.prems"(1) by simp
  next
    case False
    then have "p < offset + m + length ks * m" using "2.IH" "2.prems" by simp
    then show ?thesis by simp
  qed
qed simp

lemma contains_loop_iff:
  "\<forall>p\<in>set (positions m ks offset). p < length bs \<Longrightarrow>
   contains_loop m bs ks offset = Inr (\<forall>p\<in>set (positions m ks offset). bs ! p)"
  by (induction m bs ks offset rule: contains_loop.induct) (auto simp: bit_at_def)

definition set_bits :: "bool list \<Rightarrow> nat list \<Rightarrow> bool list" where
  "set_bits bs ps = fold (\<lambda>p bs. bs[p := True]) ps bs"

lemma set_bits_simps [simp]:
  "set_bits bs [] = bs" "set_bits bs (p # ps) = set_bits (bs[p := True]) ps" "length (set_bits bs ps) = length bs"
proof -
  show "length (set_bits bs ps) = length bs" by (induction ps arbitrary: bs) (simp_all add: set_bits_def)
qed (simp_all add: set_bits_def)

lemma set_bits_mono: "i < length bs \<Longrightarrow> bs ! i \<Longrightarrow> set_bits bs ps ! i"
proof (induction ps arbitrary: bs)
  case (Cons p ps)
  then have "bs[p := True] ! i" by (cases "i = p") auto
  then show ?case using Cons by simp
qed simp

lemma set_bits_sets: "p \<in> set ps \<Longrightarrow> p < length bs \<Longrightarrow> set_bits bs ps ! p"
  by (induction ps arbitrary: bs) (auto intro: set_bits_mono)

lemma add_loop_skip:
  "\<forall>p\<in>set (positions m ks offset). p < length bs \<Longrightarrow>
   add_loop m True full found bs ks offset = Inr (set_bits bs (positions m ks offset), found)"
  by (induction m "True" full found bs ks offset rule: add_loop.induct) (auto simp: bit_at_def)

definition hash_positions :: "digest \<Rightarrow> bytes \<Rightarrow> bloom \<Rightarrow> nat list" where
  "hash_positions digest key f =
     (case make_hashfuncs digest (num_slices f) (bits_per_slice f) key of Inr ks \<Rightarrow> positions (bits_per_slice f) ks 0 | Inl _ \<Rightarrow> [])"

lemma hashes_of:
  assumes "digest_sizes digest" "bloom_ok f"
  obtains ks where "make_hashfuncs digest (num_slices f) (bits_per_slice f) key = Inr ks"
    "hash_positions digest key f = positions (bits_per_slice f) ks 0"
    "\<forall>p\<in>set (hash_positions digest key f). p < length (bitarray f)"
proof -
  obtain ks where ks: "make_hashfuncs digest (num_slices f) (bits_per_slice f) key = Inr ks" "length ks = num_slices f"
    "\<forall>k\<in>set ks. k < bits_per_slice f"
    using make_hashfuncs_ok[OF assms(1), of "bits_per_slice f" "num_slices f" key] assms(2) by (auto simp: bloom_ok_def)
  have "\<forall>p\<in>set (positions (bits_per_slice f) ks 0). p < length (bitarray f)"
    using positions_bound[OF ks(3), of _ 0] ks(2) assms(2) by (auto simp: bloom_ok_def)
  then show thesis using ks that by (simp add: hash_positions_def)
qed

lemma bloom_contains_eq:
  assumes "digest_sizes digest" "bloom_ok f"
  shows "bloom_contains digest key f = Inr (\<forall>p\<in>set (hash_positions digest key f). bitarray f ! p)"
  by (rule hashes_of[OF assms, of key]) (simp add: bloom_contains_def contains_loop_iff)

lemma bloom_add_eq:
  assumes "digest_sizes digest" "bloom_ok f" "count f < capacity f"
  shows "bloom_add digest True key f =
    Inr (False, f\<lparr>bitarray := set_bits (bitarray f) (hash_positions digest key f), count := Suc (count f)\<rparr>)"
  by (rule hashes_of[OF assms(1,2), of key]) (use assms(3) in \<open>simp add: bloom_add_def add_loop_skip\<close>)

lemma hash_positions_update [simp]:
  "hash_positions digest key (f\<lparr>bitarray := b, count := c\<rparr>) = hash_positions digest key f"
  by (cases "make_hashfuncs digest (num_slices f) (bits_per_slice f) key") (simp_all add: hash_positions_def)

lemma bloom_add_ok:
  assumes "digest_sizes digest" "bloom_ok f" "count f < capacity f"
  shows "\<exists>f'. bloom_add digest True key f = Inr (False, f') \<and> bloom_ok f' \<and> capacity f' = capacity f \<and>
    bloom_contains digest key f' = Inr True \<and>
    (\<forall>key'. bloom_contains digest key' f = Inr True \<longrightarrow> bloom_contains digest key' f' = Inr True)"
proof -
  let ?f = "f\<lparr>bitarray := set_bits (bitarray f) (hash_positions digest key f), count := Suc (count f)\<rparr>"
  have ok: "bloom_ok ?f" using assms(2,3) by (simp add: bloom_ok_def)
  have bound: "\<forall>p\<in>set (hash_positions digest k f). p < length (bitarray f)" for k by (rule hashes_of[OF assms(1,2), of k])
  show ?thesis
    using bloom_add_eq[OF assms] ok bound
    by (auto simp: bloom_contains_eq[OF assms(1,2)] bloom_contains_eq[OF assms(1) ok] intro: set_bits_sets set_bits_mono)
qed

definition filters_ok :: "filters \<Rightarrow> bool" where
  "filters_ok fs \<longleftrightarrow> fs \<noteq> [] \<and> list_all bloom_ok fs \<and> list_all (\<lambda>f. capacity f \<in> {100, 1000, 10000, 100000, 1000000}) fs"

lemma contains_any_eq:
  assumes "digest_sizes digest" "list_all bloom_ok fs"
  shows "contains_any digest key fs = Inr (\<exists>f\<in>set fs. bloom_contains digest key f = Inr True)"
  using assms(2)
proof (induction fs)
  case (Cons f fs)
  then obtain b where "bloom_contains digest key f = Inr b" using bloom_contains_eq[OF assms(1)] by auto
  then show ?case using Cons by (cases b) auto
qed simp

lemma scalable_contains_eq:
  assumes "digest_sizes digest" "filters_ok fs"
  shows "scalable_contains digest key fs = Inr (\<exists>f\<in>set fs. bloom_contains digest key f = Inr True)"
  using contains_any_eq[OF assms(1), of "rev fs"] assms(2) by (simp add: scalable_contains_def filters_ok_def)

lemma scalable_init_ok: "\<exists>fs. scalable_init = Inr fs \<and> filters_ok fs"
  using bloom_init_ok[of INITIAL_CAPACITY ERROR_RATE]
  by (auto simp: scalable_init_def filters_ok_def INITIAL_CAPACITY_def ERROR_RATE_def)

lemma next_capacity_cases: "c \<in> {100, 1000, 10000, 100000, 1000000} \<Longrightarrow> next_capacity c \<in> {100, 1000, 10000, 100000, 1000000}"
  by (auto simp: next_capacity_def MAX_CAPACITY_def)

lemma scalable_add_ok:
  assumes d: "digest_sizes digest" and ok: "filters_ok fs"
  shows "\<exists>b fs'. scalable_add digest key fs = Inr (b, fs') \<and> filters_ok fs' \<and> scalable_contains digest key fs' = Inr True \<and>
    (\<forall>key'. scalable_contains digest key' fs = Inr True \<longrightarrow> scalable_contains digest key' fs' = Inr True)"
proof (cases "scalable_contains digest key fs = Inr True")
  case True
  then show ?thesis using ok by (auto simp: scalable_add_def)
next
  case False
  then have f: "scalable_contains digest key fs = Inr False" using scalable_contains_eq[OF d ok] by auto
  let ?l = "last fs"
  have fs: "fs = butlast fs @ [?l]" using ok by (simp add: filters_ok_def)
  have l: "bloom_ok ?l" "capacity ?l \<in> {100, 1000, 10000, 100000, 1000000}"
    using ok by (auto simp: filters_ok_def list_all_iff)
  show ?thesis
  proof (cases "count ?l = capacity ?l")
    case full: True
    have rate: "0 < error_rate ?l * TIGHTENING_RATIO" "error_rate ?l * TIGHTENING_RATIO < 1"
      using l(1) by (auto simp: bloom_ok_def TIGHTENING_RATIO_def)
    have "0 < next_capacity (capacity ?l)" using next_capacity_cases[OF l(2)] by auto
    from bloom_init_ok[OF this rate] obtain g where g: "bloom_init (next_capacity (capacity ?l)) (error_rate ?l * TIGHTENING_RATIO) = Inr g"
      "bloom_ok g" "count g = 0" "capacity g = next_capacity (capacity ?l)" by blast
    have "count g < capacity g" using g(2,3) by (simp add: bloom_ok_def)
    from bloom_add_ok[OF d g(2) this, of key] obtain g' where g': "bloom_add digest True key g = Inr (False, g')" "bloom_ok g'"
      "capacity g' = capacity g" "bloom_contains digest key g' = Inr True" by blast
    have ok': "filters_ok (fs @ [g'])" using ok g(4) g'(2,3) next_capacity_cases[OF l(2)] by (simp add: filters_ok_def)
    have "scalable_add digest key fs = Inr (False, fs @ [g'])" using f full g(1) g'(1) by (simp add: scalable_add_def Let_def)
    then show ?thesis using ok' g'(4) by (auto simp: scalable_contains_eq[OF d ok] scalable_contains_eq[OF d ok'])
  next
    case False
    have "count ?l < capacity ?l" using False l(1) by (simp add: bloom_ok_def)
    from bloom_add_ok[OF d l(1) this, of key] obtain g where g: "bloom_add digest True key ?l = Inr (False, g)" "bloom_ok g"
      "capacity g = capacity ?l" "bloom_contains digest key g = Inr True"
      "\<forall>key'. bloom_contains digest key' ?l = Inr True \<longrightarrow> bloom_contains digest key' g = Inr True" by blast
    have "list_all bloom_ok (butlast fs)" "list_all (\<lambda>f. capacity f \<in> {100, 1000, 10000, 100000, 1000000}) (butlast fs)"
      using ok by (auto simp: filters_ok_def list_all_iff dest: in_set_butlastD)
    then have ok': "filters_ok (butlast fs @ [g])" using g(2,3) l(2) by (simp add: filters_ok_def)
    have "scalable_add digest key fs = Inr (False, butlast fs @ [g])" using f False g(1) by (simp add: scalable_add_def Let_def)
    moreover have "scalable_contains digest key' (butlast fs @ [g]) = Inr True" if "scalable_contains digest key' fs = Inr True" for key'
      using that g(5) scalable_contains_eq[OF d ok, of key'] scalable_contains_eq[OF d ok', of key'] by (subst (asm) fs) (auto simp: ok)
    ultimately show ?thesis using ok' g(4) by (auto simp: scalable_contains_eq[OF d ok'])
  qed
qed

lemma fresh_filter_empty:
  assumes "digest_sizes digest" "scalable_init = Inr fs"
  shows "scalable_contains digest key fs = Inr False"
proof -
  have p: "0 < INITIAL_CAPACITY" "0 < ERROR_RATE" "ERROR_RATE < 1" by (simp_all add: INITIAL_CAPACITY_def ERROR_RATE_def)
  obtain f where f: "bloom_init INITIAL_CAPACITY ERROR_RATE = Inr f" "bloom_ok f" using bloom_init_ok[OF p] by blast
  have bits: "bitarray f = replicate (num_bits f) False" using f(1) p by (auto simp: bloom_init_def Let_def)
  have fs: "fs = [f]" using assms(2) f(1) by (simp add: scalable_init_def)
  obtain ks where ks: "make_hashfuncs digest (num_slices f) (bits_per_slice f) key = Inr ks" "length ks = num_slices f"
    using make_hashfuncs_ok[OF assms(1), of "bits_per_slice f" "num_slices f" key] f(2) by (auto simp: bloom_ok_def)
  then have "\<exists>p. p \<in> set (hash_positions digest key f)"
    using f(2) by (cases ks) (auto simp: hash_positions_def bloom_ok_def)
  moreover have "\<forall>p\<in>set (hash_positions digest key f). p < length (bitarray f)" by (rule hashes_of[OF assms(1) f(2), of key])
  ultimately have "\<not> (\<forall>p\<in>set (hash_positions digest key f). bitarray f ! p)" unfolding bits by fastforce
  then show ?thesis using bloom_contains_eq[OF assms(1) f(2), of key] by (simp add: fs scalable_contains_def)
qed

section \<open>The interface\<close>

fun add_keys :: "('k \<Rightarrow> 'f \<Rightarrow> 'e + (bool \<times> 'f)) \<Rightarrow> 'k list \<Rightarrow> 'f \<Rightarrow> 'e + 'f" where
  "add_keys add [] f = Inr f"
| "add_keys add (k # ks) f = rbind (add k f) (\<lambda>(_, f'). add_keys add ks f')"

text \<open>A set that answers every question, accepts every key, and keeps what it was given.\<close>

locale approx_set =
  fixes ok :: "'f \<Rightarrow> bool"
    and add :: "'k \<Rightarrow> 'f \<Rightarrow> 'e + (bool \<times> 'f)"
    and mem :: "'k \<Rightarrow> 'f \<Rightarrow> 'e + bool"
  assumes mem_total: "ok f \<Longrightarrow> \<exists>b. mem k f = Inr b"
    and add_law: "ok f \<Longrightarrow> \<exists>b f'. add k f = Inr (b, f') \<and> ok f' \<and> mem k f' = Inr True \<and>
      (\<forall>k'. mem k' f = Inr True \<longrightarrow> mem k' f' = Inr True)"
begin

lemma add_keys_law:
  "ok f \<Longrightarrow> \<exists>f'. add_keys add ks f = Inr f' \<and> ok f' \<and> (\<forall>k\<in>set ks. mem k f' = Inr True) \<and>
     (\<forall>k. mem k f = Inr True \<longrightarrow> mem k f' = Inr True)"
proof (induction ks arbitrary: f)
  case (Cons k ks)
  obtain b g where g: "add k f = Inr (b, g)" "ok g" "mem k g = Inr True" "\<forall>k'. mem k' f = Inr True \<longrightarrow> mem k' g = Inr True"
    using add_law[OF Cons.prems, of k] by blast
  obtain h where "add_keys add ks g = Inr h" "ok h" "\<forall>k\<in>set ks. mem k h = Inr True" "\<forall>k. mem k g = Inr True \<longrightarrow> mem k h = Inr True"
    using Cons.IH[OF g(2)] by blast
  then show ?case using g by auto
qed simp

end

interpretation bloom_set: approx_set "\<lambda>fs. digest_sizes digest \<and> filters_ok fs" "scalable_add digest" "scalable_contains digest"
  for digest
proof
  show "\<exists>b. scalable_contains digest k fs = Inr b" if "digest_sizes digest \<and> filters_ok fs" for fs k
    using scalable_contains_eq that by blast
  show "\<exists>b fs'. scalable_add digest k fs = Inr (b, fs') \<and> (digest_sizes digest \<and> filters_ok fs') \<and>
      scalable_contains digest k fs' = Inr True \<and>
      (\<forall>k'. scalable_contains digest k' fs = Inr True \<longrightarrow> scalable_contains digest k' fs' = Inr True)"
    if "digest_sizes digest \<and> filters_ok fs" for fs k
    using scalable_add_ok[of digest fs k] that by blast
qed

section \<open>Claims\<close>

text \<open>
  (C11) A scalable Bloom filter is well formed whatever is added to it, in whatever order and number: no
  operation raises (the bit index is always in range, \<open>struct.unpack\<close> always gets a buffer of its size, no
  filter is ever added to at its capacity), every added key is reported, and no single filter outgrows the
  maximal capacity.
\<close>

theorem scalable_filter_well_formed:
  assumes "digest_sizes digest"
  shows "\<exists>fs fs'. scalable_init = Inr fs \<and> add_keys (scalable_add digest) keys fs = Inr fs' \<and>
    list_all (\<lambda>key. scalable_contains digest key fs' = Inr True) keys \<and>
    (\<forall>key. \<exists>b. scalable_contains digest key fs' = Inr b) \<and>
    list_all (\<lambda>f. length (bitarray f) = num_slices f * bits_per_slice f \<and> count f \<le> capacity f \<and> capacity f \<le> MAX_CAPACITY) fs'"
proof -
  obtain fs where fs: "scalable_init = Inr fs" "filters_ok fs" using scalable_init_ok by blast
  obtain fs' where fs': "add_keys (scalable_add digest) keys fs = Inr fs'" "filters_ok fs'"
    "\<forall>key\<in>set keys. scalable_contains digest key fs' = Inr True"
    using bloom_set.add_keys_law[of digest fs keys] assms fs(2) by blast
  have "list_all (\<lambda>f. length (bitarray f) = num_slices f * bits_per_slice f \<and> count f \<le> capacity f \<and> capacity f \<le> MAX_CAPACITY) fs'"
    using fs'(2) by (auto simp: filters_ok_def list_all_iff bloom_ok_def MAX_CAPACITY_def)
  then show ?thesis
    using fs fs' bloom_set.mem_total[of digest fs'] assms by (auto simp: list_all_iff)
qed

text \<open>A hash function for concrete runs.\<close>

definition digest0 :: digest where
  "digest0 h b = replicate (digest_size h) (sum_list b mod 256)"

lemma digest0_sizes: "digest_sizes digest0"
  by (simp add: digest_sizes_def digest0_def)

theorem scalable_filter_well_formed_witness:
  "digest_sizes digest0 \<and> (\<exists>fs fs'. scalable_init = Inr fs \<and> add_keys (scalable_add digest0) [[1, 2], [3]] fs = Inr fs' \<and>
     scalable_contains digest0 [3] fs' = Inr True)"
  using scalable_filter_well_formed[OF digest0_sizes, of "[[1, 2], [3]]"] digest0_sizes by auto

end
