(* ===== verification/Mutations.thy ===== *)
theory Mutations
  imports Bloom Uuid7 "HOL-Library.Sublist"
begin

text \<open>
  \<open>IdempotentMutations\<close> of \<open>reboot/aio/state_managers.py\<close>: which mutations of a state have been made, kept as a
  Bloom filter in front of the database, and how \<open>SidecarStateManager\<close> fills it (\<open>preload\<close>,
  \<open>check_for_idempotent_mutation\<close>, \<open>_store\<close>, \<open>transaction_participant_commit\<close>).

  The mutations of one state in the database are a list without duplicates, queried as \<open>database.cc\<close>
  does: by key within a scope, or all of a scope that have not expired.  A scan by prefix may return
  more, of other states or of other iterations; what it returns of the same state is modelled.
\<close>

section \<open>Mutations in the database\<close>

record 'r mutation =
  m_key :: nat
  m_workflow :: "nat option"
  m_iteration :: "nat option"
  m_response :: 'r

datatype scope = Global | Workflow nat | Iteration nat nat

fun scope_of :: "nat option \<Rightarrow> nat option \<Rightarrow> scope" where
  "scope_of (Some w) (Some i) = Iteration w i"
| "scope_of (Some w) None = Workflow w"
| "scope_of None _ = Global"

definition m_scope :: "'r mutation \<Rightarrow> scope" where
  "m_scope m = scope_of (m_workflow m) (m_iteration m)"

text \<open>The database reads the version without looking at the variant; the first six bytes of an expiring key are its time.\<close>

definition db_version :: "nat \<Rightarrow> nat" where
  "db_version key = key div 2 ^ 76 mod 16"

definition expired :: "nat \<Rightarrow> nat \<Rightarrow> bool" where
  "expired now key \<longleftrightarrow> db_version key = 7 \<and> key div 2 ^ 80 < now"

definition check_idempotency_key_not_expired :: "nat \<Rightarrow> nat \<Rightarrow> bloom_error + unit" where
  "check_idempotency_key_not_expired now_ms key =
     (case uuid7_timestamp_ms key of Inl _ \<Rightarrow> Inr () | Inr timestamp_ms \<Rightarrow> py_assert Key_expired (\<not> timestamp_ms < now_ms))"

text \<open>The database refuses an expiring key in the scope of an iteration.\<close>

definition db_lookup :: "'r mutation list \<Rightarrow> nat \<Rightarrow> nat option \<Rightarrow> nat option \<Rightarrow> bloom_error + 'r mutation list" where
  "db_lookup db key wid it =
     (if wid \<noteq> None \<and> it \<noteq> None \<and> db_version key = 7 then Inl Database_failure
      else Inr (filter (\<lambda>m. m_key m = key \<and> m_scope m = scope_of wid it) db))"

definition db_recover_global :: "nat \<Rightarrow> 'r mutation list \<Rightarrow> 'r mutation list" where
  "db_recover_global now db = filter (\<lambda>m. m_scope m = Global \<and> \<not> expired now (m_key m)) db"

definition db_recover_workflow :: "nat \<Rightarrow> nat \<Rightarrow> 'r mutation list \<Rightarrow> 'r mutation list" where
  "db_recover_workflow now w db = filter (\<lambda>m. m_scope m = Workflow w \<and> \<not> expired now (m_key m)) db"

definition db_recover_iteration :: "nat \<Rightarrow> nat \<Rightarrow> 'r mutation list \<Rightarrow> 'r mutation list" where
  "db_recover_iteration w i db =
     filter (\<lambda>m. case m_scope m of Iteration w' j \<Rightarrow> w' = w \<and> prefix (digits i) (digits j) | _ \<Rightarrow> False) db"

definition slot :: "'r mutation \<Rightarrow> nat \<times> scope" where
  "slot m = (m_key m, m_scope m)"

definition db_put :: "'r mutation \<Rightarrow> 'r mutation list \<Rightarrow> 'r mutation list" where
  "db_put m db = filter (\<lambda>n. slot n \<noteq> slot m) db @ [m]"

section \<open>\<open>IdempotentMutations\<close>\<close>

record idempotent_mutations =
  bloom_filter :: filters
  recovered_workflow_ids :: "nat list"
  recovered_workflow_iterations :: "(nat \<times> nat) list"

text \<open>\<open>uuid.bytes\<close>, and \<open>int.to_bytes(8, 'big')\<close>, which raises on a larger number.\<close>

definition big_endian :: "nat \<Rightarrow> nat \<Rightarrow> bytes" where
  "big_endian n x = map (\<lambda>i. x div 256 ^ (n - 1 - i) mod 256) [0..<n]"

definition make_bloom_key :: "nat \<Rightarrow> nat option \<Rightarrow> nat option \<Rightarrow> bloom_error + bytes" where
  "make_bloom_key key wid it =
     (let k1 = (case wid of None \<Rightarrow> big_endian 16 key | Some w \<Rightarrow> big_endian 16 w @ big_endian 16 key) in
      case it of None \<Rightarrow> Inr k1 | Some i \<Rightarrow> if i < 2 ^ 64 then Inr (big_endian 8 i @ k1) else Inl Overflow_error)"

definition add_to_bloom_filter :: "digest \<Rightarrow> 'r mutation \<Rightarrow> idempotent_mutations \<Rightarrow> bloom_error + idempotent_mutations" where
  "add_to_bloom_filter digest m im =
     rbind (make_bloom_key (m_key m) (m_workflow m) (m_iteration m)) (\<lambda>k.
     rbind (scalable_add digest k (bloom_filter im)) (\<lambda>(_, fs). Inr (im\<lparr>bloom_filter := fs\<rparr>)))"

fun add_mutations :: "digest \<Rightarrow> 'r mutation list \<Rightarrow> idempotent_mutations \<Rightarrow> bloom_error + idempotent_mutations" where
  "add_mutations digest [] im = Inr im"
| "add_mutations digest (m # ms) im = rbind (add_to_bloom_filter digest m im) (add_mutations digest ms)"

definition mutations_init :: "digest \<Rightarrow> 'r mutation list \<Rightarrow> bloom_error + idempotent_mutations" where
  "mutations_init digest ms =
     rbind scalable_init (\<lambda>fs. add_mutations digest ms
       \<lparr>bloom_filter = fs, recovered_workflow_ids = [], recovered_workflow_iterations = []\<rparr>)"

definition recover_workflow :: "digest \<Rightarrow> nat \<Rightarrow> 'r mutation list \<Rightarrow> nat \<Rightarrow> idempotent_mutations \<Rightarrow> bloom_error + idempotent_mutations" where
  "recover_workflow digest now db w im =
     (if w \<in> set (recovered_workflow_ids im) then Inr im
      else rbind (add_mutations digest (db_recover_workflow now w db) im) (\<lambda>im'.
        Inr (im'\<lparr>recovered_workflow_ids := w # recovered_workflow_ids im'\<rparr>)))"

definition recover_workflow_iteration ::
    "digest \<Rightarrow> 'r mutation list \<Rightarrow> nat \<Rightarrow> nat \<Rightarrow> idempotent_mutations \<Rightarrow> bloom_error + idempotent_mutations" where
  "recover_workflow_iteration digest db w i im =
     (if (w, i) \<in> set (recovered_workflow_iterations im) then Inr im
      else rbind (add_mutations digest (db_recover_iteration w i db) im) (\<lambda>im'.
        Inr (im'\<lparr>recovered_workflow_iterations := (w, i) # recovered_workflow_iterations im'\<rparr>)))"

definition complete_workflow_iteration :: "nat \<Rightarrow> nat \<Rightarrow> idempotent_mutations \<Rightarrow> idempotent_mutations" where
  "complete_workflow_iteration w i im =
     im\<lparr>recovered_workflow_iterations := removeAll (w, i) (recovered_workflow_iterations im)\<rparr>"

definition complete_workflow :: "nat \<Rightarrow> idempotent_mutations \<Rightarrow> idempotent_mutations" where
  "complete_workflow w im = im\<lparr>recovered_workflow_ids := removeAll w (recovered_workflow_ids im)\<rparr>"

text \<open>\<open>get\<close> up to its fallback, and the whole of it: a workflow that finds nothing looks outside workflows.\<close>

definition ensure_recovered ::
    "digest \<Rightarrow> nat \<Rightarrow> 'r mutation list \<Rightarrow> nat option \<Rightarrow> nat option \<Rightarrow> idempotent_mutations \<Rightarrow> bloom_error + idempotent_mutations" where
  "ensure_recovered digest now db wid it im =
     (case wid of None \<Rightarrow> Inr im
      | Some w \<Rightarrow> (case it of None \<Rightarrow> recover_workflow digest now db w im
                   | Some i \<Rightarrow> recover_workflow_iteration digest db w i im))"

definition query :: "digest \<Rightarrow> 'r mutation list \<Rightarrow> nat \<Rightarrow> nat option \<Rightarrow> nat option \<Rightarrow> idempotent_mutations \<Rightarrow>
    bloom_error + 'r mutation option" where
  "query digest db key wid it im =
     rbind (make_bloom_key key wid it) (\<lambda>k.
     rbind (scalable_contains digest k (bloom_filter im)) (\<lambda>b.
       if b then rbind (db_lookup db key wid it) (\<lambda>ms.
         if ms = [] then Inr None
         else rbind (py_assert Assertion_failure (length ms = 1)) (\<lambda>_. Inr (Some (hd ms))))
       else Inr None))"

definition mutations_get :: "digest \<Rightarrow> nat \<Rightarrow> 'r mutation list \<Rightarrow> nat \<Rightarrow> nat option \<Rightarrow> nat option \<Rightarrow> idempotent_mutations \<Rightarrow>
    bloom_error + ('r mutation option \<times> idempotent_mutations)" where
  "mutations_get digest now db key wid it im =
     rbind (ensure_recovered digest now db wid it im) (\<lambda>im1.
     rbind (query digest db key wid it im1) (\<lambda>r.
       if r \<noteq> None \<or> wid = None then Inr (r, im1)
       else rbind (query digest db key None None im1) (\<lambda>r'. Inr (r', im1))))"

text \<open>What the caller is after: the mutation of the scope, or else the one outside workflows.\<close>

definition made :: "'r mutation list \<Rightarrow> nat \<Rightarrow> scope \<Rightarrow> 'r mutation option" where
  "made db key sc = find (\<lambda>m. m_key m = key \<and> m_scope m = sc) db"

definition made_or_global :: "'r mutation list \<Rightarrow> nat \<Rightarrow> scope \<Rightarrow> 'r mutation option" where
  "made_or_global db key sc = (case made db key sc of Some m \<Rightarrow> Some m | None \<Rightarrow> made db key Global)"

section \<open>The cache of the state manager\<close>

text \<open>
  For one state: \<open>mut_db\<close> the mutations in the database, \<open>cache\<close> the entry of \<open>_idempotent_mutations\<close>, \<open>loads_entry\<close> the
  future in \<open>_idempotent_mutations_loads\<close>, by a number.  \<open>calls\<close> are the calls to the database that fill the cache, by the number
  of their future: one that the database has not handled, one whose answer is on its way, or a preload with its
  answer, waiting for someone to use it; the flag tells a preload.  \<open>waiting\<close> has the future of each caller that
  waits for one, \<open>woken\<close> counts the callers whose future has failed and that have not gone on.  \<open>storing\<close> and
  \<open>committing\<close> are what the database has written and the server has not added to the cache, \<open>uncommitted\<close> the mutations of
  transactions that a restart has found prepared.
\<close>

datatype 'r call = Asked bool | Answered bool "'r mutation list" | Preloaded "'r mutation list"

record 'r mut_sys =
  mut_db :: "'r mutation list"
  cache :: "idempotent_mutations option"
  loads_entry :: "nat option"
  calls :: "nat \<Rightarrow> 'r call option"
  waiting :: "nat list"
  woken :: nat
  next_load :: nat
  storing :: "'r mutation list"
  committing :: "'r mutation list list"
  uncommitted :: "'r mutation list list"
  clock :: nat

datatype 'r mut_event =
    Tick nat
  | Preload
  | Wait_load
  | Load
  | Load_again
  | Snapshot nat
  | Load_done nat
  | Load_fails nat
  | Expire nat
  | Take_preload nat
  | Store_written "'r mutation"
  | Store "'r mutation"
  | Commit_written "'r mutation list"
  | Commit "'r mutation list"
  | Get nat "nat option" "nat option"
  | Complete_iteration nat nat
  | Complete_workflow nat

definition lift_opt :: "'e + 'a \<Rightarrow> 'a option" where
  "lift_opt r = (case r of Inl _ \<Rightarrow> None | Inr x \<Rightarrow> Some x)"

definition well_scoped :: "'r mutation \<Rightarrow> bool" where
  "well_scoped m \<longleftrightarrow> (m_iteration m \<noteq> None \<longrightarrow> m_workflow m \<noteq> None) \<and>
     (case m_iteration m of None \<Rightarrow> True | Some i \<Rightarrow> i < 2 ^ 64 \<and> db_version (m_key m) \<noteq> 7)"

text \<open>
  \<open>Preload\<close> and \<open>Load\<close> are the calls of \<open>preload\<close> and of \<open>check_for_idempotent_mutation\<close> to the database; a caller of the
  latter that finds a future waits for it (\<open>Wait_load\<close>), and when it fails makes its own call, whoever else does
  (\<open>Load_again\<close>).  \<open>Snapshot\<close> is the database handling a call, \<open>Load_done\<close> and \<open>Load_fails\<close> how it ends, \<open>Expire\<close> the end of the minute
  for which a preload is kept, \<open>Take_preload\<close> its use by \<open>check_for_idempotent_mutation\<close>.
\<close>

definition new_call :: "bool \<Rightarrow> 'r mut_sys \<Rightarrow> 'r mut_sys" where
  "new_call pre s = s\<lparr>calls := (calls s)(next_load s \<mapsto> Asked pre), loads_entry := Some (next_load s), next_load := Suc (next_load s)\<rparr>"

definition preload :: "'r mut_sys \<Rightarrow> 'r mut_sys option" where
  "preload s = (if cache s = None \<and> loads_entry s = None then Some (new_call True s) else None)"

definition load_wait :: "'r mut_sys \<Rightarrow> 'r mut_sys option" where
  "load_wait s =
     (case loads_entry s of Some n \<Rightarrow> if cache s = None then Some (s\<lparr>waiting := n # waiting s\<rparr>) else None | None \<Rightarrow> None)"

definition load_start :: "'r mut_sys \<Rightarrow> 'r mut_sys option" where
  "load_start s = (if cache s = None then Some (new_call False s) else None)"

text \<open>Every \<open>finally\<close> removes the future from the dictionary only if it is its own; a load that finds another one there fails an assertion.\<close>

definition forget_load :: "nat \<Rightarrow> 'r mut_sys \<Rightarrow> 'r mut_sys" where
  "forget_load n s = s\<lparr>calls := (calls s)(n := None), loads_entry := (if loads_entry s = Some n then None else loads_entry s)\<rparr>"

definition preload_answered :: "nat \<Rightarrow> 'r mutation list \<Rightarrow> 'r mut_sys \<Rightarrow> 'r mut_sys" where
  "preload_answered n ms s = s\<lparr>calls := (calls s)(n \<mapsto> Preloaded ms), waiting := removeAll n (waiting s)\<rparr>"

definition load_answered :: "digest \<Rightarrow> nat \<Rightarrow> 'r mutation list \<Rightarrow> 'r mut_sys \<Rightarrow> 'r mut_sys option" where
  "load_answered digest n ms s =
     map_option (\<lambda>im. (forget_load n s)\<lparr>cache := Some im, waiting := removeAll n (waiting s)\<rparr>) (lift_opt (mutations_init digest ms))"

definition load_failed :: "nat \<Rightarrow> 'r mut_sys \<Rightarrow> 'r mut_sys" where
  "load_failed n s = (forget_load n s)\<lparr>waiting := removeAll n (waiting s), woken := woken s + count_list (waiting s) n\<rparr>"

definition preload_expired :: "nat \<Rightarrow> 'r mut_sys \<Rightarrow> 'r mut_sys option" where
  "preload_expired n s = (case calls s n of Some (Preloaded _) \<Rightarrow> Some (forget_load n s) | _ \<Rightarrow> None)"

definition take_preload :: "digest \<Rightarrow> nat \<Rightarrow> 'r mut_sys \<Rightarrow> 'r mut_sys option" where
  "take_preload digest n s =
     (case calls s n of
        Some (Preloaded ms) \<Rightarrow>
          if cache s = None then map_option (\<lambda>im. (forget_load n s)\<lparr>cache := Some im\<rparr>) (lift_opt (mutations_init digest ms)) else None
      | _ \<Rightarrow> None)"

text \<open>
  \<open>_store\<close> outside a transaction, and a commit: first the database, then, when it has answered, the cache.  A call that
  stores a mutation, or runs a transaction, has looked for it before, so that there is a cache; a recovered transaction
  may find none.
\<close>

definition store_mutation_write :: "'r mutation \<Rightarrow> 'r mut_sys \<Rightarrow> 'r mut_sys option" where
  "store_mutation_write m s =
     (if cache s = None then None else Some (s\<lparr>mut_db := db_put m (mut_db s), storing := m # storing s\<rparr>))"

definition store_mutation :: "digest \<Rightarrow> 'r mutation \<Rightarrow> 'r mut_sys \<Rightarrow> 'r mut_sys option" where
  "store_mutation digest m s =
     (case cache s of
        Some im \<Rightarrow> map_option (\<lambda>im'. s\<lparr>cache := Some im', storing := remove1 m (storing s)\<rparr>) (lift_opt (add_to_bloom_filter digest m im))
      | None \<Rightarrow> None)"

definition commit_mutations_write :: "'r mutation list \<Rightarrow> 'r mut_sys \<Rightarrow> 'r mut_sys option" where
  "commit_mutations_write ms s =
     (if ms \<in> set (uncommitted s) \<or> cache s \<noteq> None
      then Some (s\<lparr>mut_db := fold db_put ms (mut_db s), uncommitted := remove1 ms (uncommitted s), committing := ms # committing s\<rparr>)
      else None)"

definition commit_mutations :: "digest \<Rightarrow> 'r mutation list \<Rightarrow> 'r mut_sys \<Rightarrow> 'r mut_sys option" where
  "commit_mutations digest ms s =
     (let s1 = s\<lparr>committing := remove1 ms (committing s)\<rparr>
      in case cache s of
          None \<Rightarrow> Some s1
        | Some im \<Rightarrow> map_option (\<lambda>im'. s1\<lparr>cache := Some im'\<rparr>) (lift_opt (add_mutations digest ms im)))"

lemmas cache_ops [simp] = preload_def load_wait_def load_start_def preload_answered_def preload_expired_def take_preload_def load_answered_def
  load_failed_def store_mutation_write_def store_mutation_def commit_mutations_write_def commit_mutations_def

fun mut_do :: "digest \<Rightarrow> 'r mut_event \<Rightarrow> 'r mut_sys \<Rightarrow> 'r mut_sys option" where
  "mut_do digest (Tick n) s = Some (s\<lparr>clock := clock s + n\<rparr>)"
| "mut_do digest Preload s = preload s"
| "mut_do digest Wait_load s = load_wait s"
| "mut_do digest Load s = (if loads_entry s = None then load_start s else None)"
| "mut_do digest Load_again s = (if woken s = 0 then None else load_start (s\<lparr>woken := woken s - 1\<rparr>))"
| "mut_do digest (Snapshot n) s =
     (case calls s n of
        Some (Asked pre) \<Rightarrow> Some (s\<lparr>calls := (calls s)(n \<mapsto> Answered pre (db_recover_global (clock s) (mut_db s)))\<rparr>)
      | _ \<Rightarrow> None)"
| "mut_do digest (Load_done n) s =
     (case calls s n of
        Some (Answered True ms) \<Rightarrow> Some (preload_answered n ms s)
      | Some (Answered False ms) \<Rightarrow> load_answered digest n ms s
      | _ \<Rightarrow> None)"
| "mut_do digest (Load_fails n) s =
     (case calls s n of Some (Asked _) \<Rightarrow> Some (load_failed n s) | Some (Answered _ _) \<Rightarrow> Some (load_failed n s) | _ \<Rightarrow> None)"
| "mut_do digest (Expire n) s = preload_expired n s"
| "mut_do digest (Take_preload n) s = take_preload digest n s"
| "mut_do digest (Store_written m) s = (if well_scoped m then store_mutation_write m s else None)"
| "mut_do digest (Store m) s = (if m \<in> set (storing s) then store_mutation digest m s else None)"
| "mut_do digest (Commit_written ms) s = (if list_all well_scoped ms then commit_mutations_write ms s else None)"
| "mut_do digest (Commit ms) s = (if ms \<in> set (committing s) then commit_mutations digest ms s else None)"
| "mut_do digest (Get key wid it) s =
     (case cache s of
        Some im \<Rightarrow> map_option (\<lambda>(_, im'). s\<lparr>cache := Some im'\<rparr>) (lift_opt (mutations_get digest (clock s) (mut_db s) key wid it im))
      | None \<Rightarrow> None)"
| "mut_do digest (Complete_iteration w i) s = Some (s\<lparr>cache := map_option (complete_workflow_iteration w i) (cache s)\<rparr>)"
| "mut_do digest (Complete_workflow w) s = Some (s\<lparr>cache := map_option (complete_workflow w) (cache s)\<rparr>)"

definition mut_step :: "digest \<Rightarrow> 'r mut_sys \<Rightarrow> 'r mut_event \<Rightarrow> 'r mut_sys \<Rightarrow> bool" where
  "mut_step digest s e t \<longleftrightarrow> mut_do digest e s = Some t"

section \<open>The filter covers the database\<close>

definition in_filter :: "digest \<Rightarrow> 'r mutation \<Rightarrow> filters \<Rightarrow> bool" where
  "in_filter digest m fs \<longleftrightarrow>
     (\<exists>k. make_bloom_key (m_key m) (m_workflow m) (m_iteration m) = Inr k \<and> scalable_contains digest k fs = Inr True)"

definition recovered_scope :: "idempotent_mutations \<Rightarrow> scope \<Rightarrow> bool" where
  "recovered_scope im sc =
     (case sc of Global \<Rightarrow> True | Workflow w \<Rightarrow> w \<in> set (recovered_workflow_ids im)
      | Iteration w i \<Rightarrow> (w, i) \<in> set (recovered_workflow_iterations im))"

definition covers :: "digest \<Rightarrow> nat \<Rightarrow> 'r mutation list \<Rightarrow> idempotent_mutations \<Rightarrow> bool" where
  "covers digest now db im \<longleftrightarrow> digest_sizes digest \<and> filters_ok (bloom_filter im) \<and>
     (\<forall>m\<in>set db. recovered_scope im (m_scope m) \<and> \<not> expired now (m_key m) \<longrightarrow> in_filter digest m (bloom_filter im))"

definition db_ok :: "'r mutation list \<Rightarrow> bool" where
  "db_ok db \<longleftrightarrow> distinct (map slot db) \<and> list_all well_scoped db"

lemma bloom_key_ok: "well_scoped m \<Longrightarrow> \<exists>k. make_bloom_key (m_key m) (m_workflow m) (m_iteration m) = Inr k"
  by (auto simp: make_bloom_key_def well_scoped_def Let_def split: option.splits)

lemma add_to_bloom_filter_ok:
  fixes m :: "'r mutation"
  assumes "digest_sizes digest" "filters_ok (bloom_filter im)" "well_scoped m"
  shows "\<exists>fs. add_to_bloom_filter digest m im = Inr (im\<lparr>bloom_filter := fs\<rparr>) \<and> filters_ok fs \<and> in_filter digest m fs \<and>
    (\<forall>n :: 'r mutation. in_filter digest n (bloom_filter im) \<longrightarrow> in_filter digest n fs)"
proof -
  obtain k where k: "make_bloom_key (m_key m) (m_workflow m) (m_iteration m) = Inr k" using bloom_key_ok[OF assms(3)] by blast
  obtain b fs where "scalable_add digest k (bloom_filter im) = Inr (b, fs)" "filters_ok fs" "scalable_contains digest k fs = Inr True"
    "\<forall>k'. scalable_contains digest k' (bloom_filter im) = Inr True \<longrightarrow> scalable_contains digest k' fs = Inr True"
    using bloom_set.add_law[of digest "bloom_filter im" k] assms(1,2) by blast
  then show ?thesis using k by (auto simp: add_to_bloom_filter_def in_filter_def)
qed

lemma add_mutations_ok:
  fixes ms :: "'r mutation list"
  assumes "digest_sizes digest" "filters_ok (bloom_filter im)" "list_all well_scoped ms"
  shows "\<exists>fs. add_mutations digest ms im = Inr (im\<lparr>bloom_filter := fs\<rparr>) \<and> filters_ok fs \<and> (\<forall>m\<in>set ms. in_filter digest m fs) \<and>
    (\<forall>n :: 'r mutation. in_filter digest n (bloom_filter im) \<longrightarrow> in_filter digest n fs)"
  using assms(2,3)
proof (induction ms arbitrary: im)
  case (Cons m ms)
  obtain fs where fs: "add_to_bloom_filter digest m im = Inr (im\<lparr>bloom_filter := fs\<rparr>)" "filters_ok fs" "in_filter digest m fs"
    "\<forall>n :: 'r mutation. in_filter digest n (bloom_filter im) \<longrightarrow> in_filter digest n fs"
    using add_to_bloom_filter_ok[OF assms(1), of im m] Cons.prems by auto
  have "\<exists>gs. add_mutations digest ms (im\<lparr>bloom_filter := fs\<rparr>) = Inr (im\<lparr>bloom_filter := gs\<rparr>) \<and> filters_ok gs \<and>
    (\<forall>m\<in>set ms. in_filter digest m gs) \<and> (\<forall>n :: 'r mutation. in_filter digest n fs \<longrightarrow> in_filter digest n gs)"
    using Cons.IH[of "im\<lparr>bloom_filter := fs\<rparr>"] fs(2) Cons.prems(2) by simp
  then obtain gs where "add_mutations digest ms (im\<lparr>bloom_filter := fs\<rparr>) = Inr (im\<lparr>bloom_filter := gs\<rparr>)" "filters_ok gs"
    "\<forall>m\<in>set ms. in_filter digest m gs" "\<forall>n :: 'r mutation. in_filter digest n fs \<longrightarrow> in_filter digest n gs" by blast
  then show ?case using fs by auto
next
  case (Nil im)
  then show ?case by (intro exI[of _ "bloom_filter im"]) simp
qed

lemma recovered_scope_filter [simp]: "recovered_scope (im\<lparr>bloom_filter := fs\<rparr>) sc = recovered_scope im sc"
  by (simp add: recovered_scope_def split: scope.splits)

lemma mutations_init_ok:
  assumes "digest_sizes digest" "list_all well_scoped ms"
  shows "\<exists>im. mutations_init digest ms = Inr im \<and> filters_ok (bloom_filter im) \<and> recovered_workflow_ids im = [] \<and>
    recovered_workflow_iterations im = [] \<and> (\<forall>m\<in>set ms. in_filter digest m (bloom_filter im))"
proof -
  obtain fs where fs: "scalable_init = Inr fs" "filters_ok fs" using scalable_init_ok by blast
  let ?im = "\<lparr>bloom_filter = fs, recovered_workflow_ids = [], recovered_workflow_iterations = []\<rparr>"
  obtain gs where "add_mutations digest ms ?im = Inr (?im\<lparr>bloom_filter := gs\<rparr>)" "filters_ok gs" "\<forall>m\<in>set ms. in_filter digest m gs"
    using add_mutations_ok[OF assms(1), of ?im ms] fs(2) assms(2) by auto
  then show ?thesis using fs(1) by (intro exI[of _ "?im\<lparr>bloom_filter := gs\<rparr>"]) (simp add: mutations_init_def fs(1))
qed

lemma covers_add:
  fixes ms :: "'r mutation list"
  assumes "covers digest now db im" "list_all well_scoped ms"
  shows "\<exists>fs. add_mutations digest ms im = Inr (im\<lparr>bloom_filter := fs\<rparr>) \<and>
    (\<forall>db' im'. bloom_filter im' = fs \<longrightarrow>
       (\<forall>m\<in>set db'. recovered_scope im' (m_scope m) \<and> \<not> expired now (m_key m) \<longrightarrow>
          m \<in> set ms \<or> m \<in> set db \<and> recovered_scope im (m_scope m)) \<longrightarrow> covers digest now db' im')"
proof -
  have c: "digest_sizes digest" "filters_ok (bloom_filter im)" using assms(1) by (auto simp: covers_def)
  obtain gs where "add_mutations digest ms im = Inr (im\<lparr>bloom_filter := gs\<rparr>)" "filters_ok gs" "\<forall>m\<in>set ms. in_filter digest m gs"
    "\<forall>n :: 'r mutation. in_filter digest n (bloom_filter im) \<longrightarrow> in_filter digest n gs"
    using add_mutations_ok[OF c assms(2)] by blast
  then show ?thesis using assms(1) c(1)
    by (intro exI[of _ gs] conjI allI impI) (auto simp only: covers_def)
qed

lemma filter_well_scoped: "list_all well_scoped db \<Longrightarrow> list_all well_scoped (filter P db)"
  by (auto simp: list_all_iff)

lemma ensure_recovered_ok:
  assumes "covers digest now db0 im" "db_ok db" "set db0 \<subseteq> set db"
  shows "\<exists>im'. ensure_recovered digest now db wid it im = Inr im' \<and> covers digest now db0 im' \<and> recovered_scope im' (scope_of wid it)"
proof (cases wid)
  case None
  then show ?thesis using assms(1) by (simp add: ensure_recovered_def recovered_scope_def)
next
  case (Some w)
  have ws: "list_all well_scoped db" using assms(2) by (simp add: db_ok_def)
  show ?thesis
  proof (cases it)
    case None
    obtain fs where fs: "add_mutations digest (db_recover_workflow now w db) im = Inr (im\<lparr>bloom_filter := fs\<rparr>)"
      "\<And>db' im'. bloom_filter im' = fs \<Longrightarrow> (\<forall>m\<in>set db'. recovered_scope im' (m_scope m) \<and> \<not> expired now (m_key m) \<longrightarrow>
          m \<in> set (db_recover_workflow now w db) \<or> m \<in> set db0 \<and> recovered_scope im (m_scope m)) \<Longrightarrow> covers digest now db' im'"
      using covers_add[OF assms(1), of "db_recover_workflow now w db"] ws by (auto simp: db_recover_workflow_def filter_well_scoped)
    let ?im = "im\<lparr>bloom_filter := fs, recovered_workflow_ids := w # recovered_workflow_ids im\<rparr>"
    have "covers digest now db0 ?im"
      by (rule fs(2)) (use assms(3) in \<open>auto simp: recovered_scope_def db_recover_workflow_def split: scope.splits\<close>)
    then show ?thesis
      using Some None fs(1) assms(1) by (auto simp: ensure_recovered_def recover_workflow_def recovered_scope_def)
  next
    case it: (Some i)
    obtain fs where fs: "add_mutations digest (db_recover_iteration w i db) im = Inr (im\<lparr>bloom_filter := fs\<rparr>)"
      "\<And>db' im'. bloom_filter im' = fs \<Longrightarrow> (\<forall>m\<in>set db'. recovered_scope im' (m_scope m) \<and> \<not> expired now (m_key m) \<longrightarrow>
          m \<in> set (db_recover_iteration w i db) \<or> m \<in> set db0 \<and> recovered_scope im (m_scope m)) \<Longrightarrow> covers digest now db' im'"
      using covers_add[OF assms(1), of "db_recover_iteration w i db"] ws by (auto simp: db_recover_iteration_def filter_well_scoped)
    let ?im = "im\<lparr>bloom_filter := fs, recovered_workflow_iterations := (w, i) # recovered_workflow_iterations im\<rparr>"
    have "covers digest now db0 ?im"
      by (rule fs(2)) (use assms(3) in \<open>auto simp: recovered_scope_def db_recover_iteration_def split: scope.splits\<close>)
    then show ?thesis
      using Some it fs(1) assms(1) by (auto simp: ensure_recovered_def recover_workflow_iteration_def recovered_scope_def)
  qed
qed

lemma scope_determines:
  assumes "well_scoped m" "m_scope m = scope_of wid it" "it \<noteq> None \<longrightarrow> wid \<noteq> None"
  shows "m_workflow m = wid \<and> m_iteration m = it"
  using assms by (cases wid; cases it; cases "m_workflow m"; cases "m_iteration m") (auto simp: well_scoped_def m_scope_def)

lemma made_filter:
  assumes "distinct (map slot db)"
  shows "filter (\<lambda>m. m_key m = key \<and> m_scope m = sc) db = (case made db key sc of None \<Rightarrow> [] | Some m \<Rightarrow> [m])"
  using assms
proof (induction db)
  case (Cons m db)
  have "filter (\<lambda>n. m_key n = key \<and> m_scope n = sc) db = []" if "m_key m = key" "m_scope m = sc"
    using Cons.prems that by (auto simp: filter_empty_conv slot_def image_iff)
  then show ?case using Cons by (auto simp: made_def)
qed (simp add: made_def)

text \<open>A lookup may be made in the scope of an iteration only within a workflow, and not with an expiring key.\<close>

definition lookup_ok :: "nat \<Rightarrow> nat option \<Rightarrow> nat option \<Rightarrow> bool" where
  "lookup_ok key wid it \<longleftrightarrow> (case it of None \<Rightarrow> True | Some i \<Rightarrow> wid \<noteq> None \<and> i < 2 ^ 64 \<and> db_version key \<noteq> 7)"

lemma query_ok:
  assumes "covers digest now db0 im" "db_ok db" "recovered_scope im (scope_of wid it)" "\<not> expired now key" "lookup_ok key wid it"
    "\<forall>m \<in> set db. m_key m = key \<longrightarrow> m \<in> set db0"
  shows "query digest db key wid it im = Inr (made db key (scope_of wid it))"
proof -
  have k: "\<exists>k. make_bloom_key key wid it = Inr k"
    using assms(5) by (auto simp: make_bloom_key_def lookup_ok_def Let_def split: option.splits)
  then obtain k where k: "make_bloom_key key wid it = Inr k" by blast
  obtain b where b: "scalable_contains digest k (bloom_filter im) = Inr b"
    using bloom_set.mem_total[of digest "bloom_filter im" k] assms(1) by (auto simp: covers_def)
  have look: "db_lookup db key wid it = Inr (case made db key (scope_of wid it) of None \<Rightarrow> [] | Some m \<Rightarrow> [m])"
    using assms(2,5) made_filter[of db key "scope_of wid it"]
    by (auto simp: db_lookup_def lookup_ok_def db_ok_def split: option.splits)
  have known: b if "made db key (scope_of wid it) = Some m" for m
  proof -
    have m: "m \<in> set db" "m_key m = key" "m_scope m = scope_of wid it" using that by (auto simp: made_def find_Some_iff)
    have "well_scoped m" using m(1) assms(2) by (auto simp: db_ok_def list_all_iff)
    from scope_determines[OF this m(3)] have "m_workflow m = wid" "m_iteration m = it"
      using assms(5) by (auto simp: lookup_ok_def split: option.splits)
    moreover have "in_filter digest m (bloom_filter im)" using assms(1,3,4,6) m by (auto simp: covers_def)
    ultimately show b using k b m(2) by (auto simp: in_filter_def)
  qed
  show ?thesis
    using k b look known by (cases "made db key (scope_of wid it)"; cases b) (auto simp: query_def)
qed

lemma mutations_get_ok:
  assumes "covers digest now db0 im" "db_ok db" "set db0 \<subseteq> set db" "\<not> expired now key" "lookup_ok key wid it"
    "\<forall>m \<in> set db. m_key m = key \<longrightarrow> m \<in> set db0"
  shows "\<exists>im'. mutations_get digest now db key wid it im = Inr (made_or_global db key (scope_of wid it), im') \<and> covers digest now db0 im'"
proof -
  obtain im1 where im1: "ensure_recovered digest now db wid it im = Inr im1" "covers digest now db0 im1" "recovered_scope im1 (scope_of wid it)"
    using ensure_recovered_ok[OF assms(1-3)] by blast
  have q: "query digest db key wid it im1 = Inr (made db key (scope_of wid it))" by (rule query_ok[OF im1(2) assms(2) im1(3) assms(4-6)])
  have "query digest db key None None im1 = Inr (made db key (scope_of None None))"
    by (rule query_ok[OF im1(2) assms(2) _ assms(4)]) (use assms(6) in \<open>simp_all add: recovered_scope_def lookup_ok_def\<close>)
  then show ?thesis
    using q im1(1,2) by (cases "made db key (scope_of wid it)"; cases wid) (auto simp: mutations_get_def made_or_global_def)
qed

section \<open>Runs of the cache\<close>

definition mut_initial :: "digest \<Rightarrow> 'r mut_sys \<Rightarrow> bool" where
  "mut_initial digest s \<longleftrightarrow> digest_sizes digest \<and> db_ok (mut_db s) \<and> cache s = None \<and> loads_entry s = None \<and>
     calls s = (\<lambda>_. None) \<and> waiting s = [] \<and> woken s = 0 \<and> storing s = [] \<and> committing s = []"

text \<open>What the database has written and the server not yet put into the cache, and the rest of the database.\<close>

definition pending :: "'r mut_sys \<Rightarrow> 'r mutation list" where
  "pending s = storing s @ concat (committing s)"

definition settled_db :: "'r mut_sys \<Rightarrow> 'r mutation list" where
  "settled_db s = filter (\<lambda>m. m \<notin> set (pending s)) (mut_db s)"

text \<open>The answer a call has got from the database.\<close>

definition answer_of :: "'r call option \<Rightarrow> 'r mutation list option" where
  "answer_of c = (case c of Some (Answered _ ms) \<Rightarrow> Some ms | Some (Preloaded ms) \<Rightarrow> Some ms | _ \<Rightarrow> None)"

text \<open>An answer tells all that lookups outside workflows need.\<close>

definition snapshot_ok :: "nat \<Rightarrow> 'r mutation list \<Rightarrow> 'r mutation list \<Rightarrow> bool" where
  "snapshot_ok now db ms \<longleftrightarrow> list_all well_scoped ms \<and> set (db_recover_global now db) \<subseteq> set ms"

definition mut_inv :: "digest \<Rightarrow> 'r mut_sys \<Rightarrow> bool" where
  "mut_inv digest s \<longleftrightarrow> digest_sizes digest \<and> db_ok (mut_db s) \<and> list_all well_scoped (pending s) \<and>
     (case cache s of
        Some im \<Rightarrow> covers digest (clock s) (settled_db s) im
      | None \<Rightarrow> (\<forall>n ms. answer_of (calls s n) = Some ms \<longrightarrow> snapshot_ok (clock s) (settled_db s) ms))"

text \<open>
  Steps other than two.  A load ends after another has filled the cache, and overwrites it.  A commit ends that finds no
  cache, while an answer is on its way or kept that the database gave before it had the mutations committed.
\<close>

definition overwrites :: "'r mut_sys \<Rightarrow> 'r mut_event \<Rightarrow> bool" where
  "overwrites s e \<longleftrightarrow> cache s \<noteq> None \<and> (\<exists>n ms. e = Load_done n \<and> calls s n = Some (Answered False ms))"

definition overtakes :: "'r mut_sys \<Rightarrow> 'r mut_event \<Rightarrow> bool" where
  "overtakes s e \<longleftrightarrow> cache s = None \<and>
     (\<exists>ms n as. e = Commit ms \<and> answer_of (calls s n) = Some as \<and> \<not> set (db_recover_global (clock s) ms) \<subseteq> set as)"

definition mut_safe_step :: "digest \<Rightarrow> 'r mut_sys \<Rightarrow> 'r mut_event \<Rightarrow> 'r mut_sys \<Rightarrow> bool" where
  "mut_safe_step digest s e t \<longleftrightarrow> mut_step digest s e t \<and> \<not> overwrites s e \<and> \<not> overtakes s e"

lemma expired_mono: "expired now key \<Longrightarrow> now \<le> now' \<Longrightarrow> expired now' key"
  by (auto simp: expired_def)

lemma covers_mono: "covers digest now db im \<Longrightarrow> now \<le> now' \<Longrightarrow> set db' \<subseteq> set db \<Longrightarrow> covers digest now' db' im"
  by (auto simp: covers_def dest: expired_mono)

lemma snapshot_mono: "snapshot_ok now db ms \<Longrightarrow> now \<le> now' \<Longrightarrow> set db' \<subseteq> set db \<Longrightarrow> snapshot_ok now' db' ms"
  by (auto simp: snapshot_ok_def db_recover_global_def dest: expired_mono)

lemma db_put_ok: "db_ok db \<Longrightarrow> well_scoped m \<Longrightarrow> db_ok (db_put m db)"
  by (auto simp: db_ok_def db_put_def distinct_map_filter list_all_iff)

lemma db_put_set: "set (db_put m db) \<subseteq> insert m (set db)"
  by (auto simp: db_put_def)

lemma db_put_all_ok: "db_ok db \<Longrightarrow> list_all well_scoped ms \<Longrightarrow> db_ok (fold db_put ms db) \<and> set (fold db_put ms db) \<subseteq> set ms \<union> set db"
proof (induction ms arbitrary: db)
  case (Cons m ms)
  then show ?case using db_put_ok[of db m] db_put_set[of m db] by fastforce
qed simp

lemma init_covers:
  assumes "digest_sizes digest" "snapshot_ok now db ms"
  shows "\<exists>im. mutations_init digest ms = Inr im \<and> covers digest now db im"
proof -
  obtain im where im: "mutations_init digest ms = Inr im" "filters_ok (bloom_filter im)" "recovered_workflow_ids im = []"
    "recovered_workflow_iterations im = []" "\<forall>m\<in>set ms. in_filter digest m (bloom_filter im)"
    using mutations_init_ok[OF assms(1), of ms] assms(2) by (auto simp: snapshot_ok_def)
  have "covers digest now db im"
    using im assms by (auto simp: covers_def recovered_scope_def snapshot_ok_def db_recover_global_def split: scope.splits)
  then show ?thesis using im(1) by blast
qed

lemma covers_put:
  assumes "covers digest now db im" "list_all well_scoped ms" "set db' \<subseteq> set ms \<union> set db"
  shows "\<exists>im'. add_mutations digest ms im = Inr im' \<and> covers digest now db' im'"
proof -
  obtain fs where fs: "add_mutations digest ms im = Inr (im\<lparr>bloom_filter := fs\<rparr>)"
    "\<forall>db' im'. bloom_filter im' = fs \<longrightarrow> (\<forall>m\<in>set db'. recovered_scope im' (m_scope m) \<and> \<not> expired now (m_key m) \<longrightarrow>
        m \<in> set ms \<or> m \<in> set db \<and> recovered_scope im (m_scope m)) \<longrightarrow> covers digest now db' im'"
    using covers_add[OF assms(1,2)] by blast
  have "covers digest now db' (im\<lparr>bloom_filter := fs\<rparr>)"
    by (rule fs(2)[rule_format]) (use assms(3) in auto)
  then show ?thesis using fs(1) by blast
qed

lemma covers_completed:
  assumes "covers digest now db im"
  shows "covers digest now db (complete_workflow_iteration w i im)" "covers digest now db (complete_workflow w im)"
  using assms
  by (auto simp: covers_def complete_workflow_iteration_def complete_workflow_def recovered_scope_def split: scope.splits)

lemma get_covers:
  assumes "covers digest now db0 im" "db_ok db" "set db0 \<subseteq> set db" "mutations_get digest now db key wid it im = Inr (r, im')"
  shows "covers digest now db0 im'"
  using ensure_recovered_ok[OF assms(1-3), of wid it] assms(4)
  by (auto simp: mutations_get_def rbind_eq_Inr_iff split: if_splits)

lemma settled_subset: "set (settled_db s) \<subseteq> set (mut_db s)"
  by (auto simp: settled_db_def)

text \<open>A step that does not touch the cache.\<close>

lemma mut_inv_same:
  assumes "mut_inv digest s" "cache t = cache s" "clock s \<le> clock t" "set (settled_db t) \<subseteq> set (settled_db s)" "db_ok (mut_db t)"
    "list_all well_scoped (pending t)"
    "\<And>n ms. cache s = None \<Longrightarrow> answer_of (calls t n) = Some ms \<Longrightarrow> answer_of (calls s n) = Some ms \<or> snapshot_ok (clock t) (settled_db t) ms"
  shows "mut_inv digest t"
  using assms unfolding mut_inv_def
  by (cases "cache s") (auto intro: covers_mono snapshot_mono, blast intro: snapshot_mono)

text \<open>A step that fills the cache from an answer.\<close>

lemma mut_inv_fill:
  assumes "mut_inv digest s" "cache s = None" "answer_of (calls s n) = Some ms" "lift_opt (mutations_init digest ms) = Some im"
    "cache t = Some im" "clock t = clock s" "settled_db t = settled_db s" "mut_db t = mut_db s" "pending t = pending s"
  shows "mut_inv digest t"
proof -
  have "snapshot_ok (clock s) (settled_db s) ms" "digest_sizes digest" using assms(1-3) by (auto simp: mut_inv_def)
  then show ?thesis
    using init_covers[of digest "clock s" "settled_db s" ms] assms by (auto simp: mut_inv_def lift_opt_def split: sum.splits)
qed

text \<open>A step that adds to the cache what the database has written.\<close>

lemma mut_inv_add:
  assumes "mut_inv digest s" "cache s = Some im" "list_all well_scoped ms" "add_mutations digest ms im = Inr im'" "cache t = Some im'"
    "clock t = clock s" "mut_db t = mut_db s" "set (settled_db t) \<subseteq> set ms \<union> set (settled_db s)" "list_all well_scoped (pending t)"
  shows "mut_inv digest t"
  using covers_put[of digest "clock s" "settled_db s" im ms "settled_db t"] assms by (auto simp: mut_inv_def)

lemma set_remove1_insert: "set xs \<subseteq> insert x (set (remove1 x xs))"
  by (induction xs) auto

lemma pending_remove:
  "set (pending s) \<subseteq> insert m (set (pending (s\<lparr>storing := remove1 m (storing s)\<rparr>)))"
  "set (pending s) \<subseteq> set ms \<union> set (pending (s\<lparr>committing := remove1 ms (committing s)\<rparr>))"
  using set_remove1_insert[of "storing s" m] set_remove1_insert[of "committing s" ms] by (auto simp: pending_def)

lemma pending_smaller:
  "list_all well_scoped (pending s) \<Longrightarrow> list_all well_scoped (pending (s\<lparr>storing := remove1 m (storing s)\<rparr>))"
  "list_all well_scoped (pending s) \<Longrightarrow> list_all well_scoped (pending (s\<lparr>committing := remove1 ms (committing s)\<rparr>))"
  using set_remove1_subset[of m "storing s"] set_remove1_subset[of ms "committing s"] by (auto simp: pending_def list_all_iff)

lemmas untouched = pending_def settled_db_def new_call_def forget_load_def answer_of_def

lemma load_step_inv:
  assumes "mut_inv digest s" "mut_do digest e s = Some t" "\<not> overwrites s e"
    "e \<in> {Preload, Wait_load, Load, Load_again} \<or> (\<exists>n. e \<in> {Snapshot n, Load_done n, Load_fails n, Expire n, Take_preload n})"
  shows "mut_inv digest t"
proof -
  note i = assms(1)[unfolded mut_inv_def]
  have snap: "snapshot_ok (clock s) (settled_db s) (db_recover_global (clock s) (mut_db s))"
    using i settled_subset[of s] by (auto simp: snapshot_ok_def db_recover_global_def db_ok_def list_all_iff)
  show ?thesis
  proof (cases "cache t = cache s")
    case True
    have "clock t = clock s \<and> mut_db t = mut_db s \<and> pending t = pending s \<and>
        (\<forall>n ms. answer_of (calls t n) = Some ms \<longrightarrow> answer_of (calls s n) = Some ms \<or> ms = db_recover_global (clock s) (mut_db s))"
      using assms(2,4) by (auto simp: untouched split: if_splits option.splits call.splits bool.splits)
    then show ?thesis
      by (intro mut_inv_same[OF assms(1) True]) (use i snap in \<open>auto simp: settled_db_def\<close>)
  next
    case False
    then obtain n ms im where "calls s n = Some (Answered False ms) \<and> e = Load_done n \<or> calls s n = Some (Preloaded ms) \<and> e = Take_preload n"
      "lift_opt (mutations_init digest ms) = Some im" "cache t = Some im" "clock t = clock s" "mut_db t = mut_db s" "pending t = pending s"
      "e = Take_preload n \<longrightarrow> cache s = None"
      using assms(2,4) by (auto simp: untouched split: if_splits option.splits call.splits bool.splits)
    then show ?thesis
      using assms(3) by (intro mut_inv_fill[OF assms(1), of n ms im]) (auto simp: overwrites_def answer_of_def settled_db_def)
  qed
qed

lemma write_step_inv:
  assumes "mut_inv digest s" "mut_do digest e s = Some t" "e = Store_written m \<or> e = Commit_written ms"
  shows "mut_inv digest t"
proof -
  note i = assms(1)[unfolded mut_inv_def]
  have "cache t = cache s \<and> clock t = clock s \<and> calls t = calls s \<and> db_ok (mut_db t) \<and>
      set (settled_db t) \<subseteq> set (settled_db s) \<and> list_all well_scoped (pending t)"
    using assms(3)
  proof
    assume e: "e = Store_written m"
    then have "well_scoped m" "t = s\<lparr>mut_db := db_put m (mut_db s), storing := m # storing s\<rparr>"
      using assms(2) by (auto split: if_splits)
    then show ?thesis using i db_put_ok[of "mut_db s" m] db_put_set[of m "mut_db s"] by (auto simp: settled_db_def pending_def)
  next
    assume e: "e = Commit_written ms"
    then have "list_all well_scoped ms"
      "t = s\<lparr>mut_db := fold db_put ms (mut_db s), uncommitted := remove1 ms (uncommitted s), committing := ms # committing s\<rparr>"
      using assms(2) by (auto split: if_splits)
    then show ?thesis using i db_put_all_ok[of "mut_db s" ms] by (auto simp: settled_db_def pending_def)
  qed
  then show ?thesis by (intro mut_inv_same[OF assms(1)]) auto
qed

lemma store_step_inv:
  assumes "mut_inv digest s" "mut_do digest (Store m) s = Some t"
  shows "mut_inv digest t"
proof -
  note i = assms(1)[unfolded mut_inv_def]
  obtain im im' where m: "m \<in> set (storing s)" "cache s = Some im" "add_mutations digest [m] im = Inr im'"
    "t = s\<lparr>cache := Some im', storing := remove1 m (storing s)\<rparr>"
    using assms(2) by (auto simp: lift_opt_def split: if_splits option.splits sum.splits)
  have p: "pending t = pending (s\<lparr>storing := remove1 m (storing s)\<rparr>)" by (simp add: m(4) pending_def)
  have "well_scoped m" using m(1) i by (simp add: pending_def list_all_iff)
  moreover have "set (settled_db t) \<subseteq> set [m] \<union> set (settled_db s)"
    using pending_remove(1)[of s m] unfolding p[symmetric] by (auto simp: settled_db_def m(4))
  moreover have "list_all well_scoped (pending t)" using pending_smaller(1)[of s m] i unfolding p by simp
  ultimately show ?thesis by (intro mut_inv_add[OF assms(1) m(2) _ m(3), of t]) (simp_all add: m(4))
qed

lemma commit_step_inv:
  assumes "mut_inv digest s" "mut_do digest (Commit ms) s = Some t" "\<not> overtakes s (Commit ms)"
  shows "mut_inv digest t"
proof -
  note i = assms(1)[unfolded mut_inv_def]
  have ms: "ms \<in> set (committing s)" using assms(2) by (auto split: if_splits)
  have ws: "list_all well_scoped ms" using ms i by (auto simp: pending_def list_all_iff)
  have p: "pending t = pending (s\<lparr>committing := remove1 ms (committing s)\<rparr>)" "mut_db t = mut_db s" "clock t = clock s" "calls t = calls s"
    using assms(2) by (auto simp: pending_def Let_def split: if_splits option.splits)
  have sub: "set (settled_db t) \<subseteq> set ms \<union> set (settled_db s)"
    using pending_remove(2)[of s ms] unfolding p(1)[symmetric] by (auto simp: settled_db_def p(2))
  have pw: "list_all well_scoped (pending t)" using pending_smaller(2)[of s ms] i unfolding p(1) by simp
  show ?thesis
  proof (cases "cache s")
    case None
    then have "cache t = None" using assms(2) by (auto simp: Let_def split: if_splits)
    moreover have "snapshot_ok (clock t) (settled_db t) as" if as: "answer_of (calls t n) = Some as" for n as
    proof -
      have "snapshot_ok (clock s) (settled_db s) as" using i None as p(4) by auto
      moreover have "set (db_recover_global (clock s) ms) \<subseteq> set as"
        using assms(3) None as p(4) by (auto simp: overtakes_def)
      ultimately show ?thesis using sub p(3) by (auto simp: snapshot_ok_def db_recover_global_def)
    qed
    ultimately show ?thesis using i p(2) pw by (simp add: mut_inv_def)
  next
    case (Some im)
    then obtain im' where "add_mutations digest ms im = Inr im'" "cache t = Some im'"
      using assms(2) by (auto simp: Let_def lift_opt_def split: if_splits sum.splits)
    then show ?thesis by (intro mut_inv_add[OF assms(1) Some ws, of im' t]) (use sub pw p in auto)
  qed
qed

lemma mut_step_inv:
  assumes "mut_inv digest s" "mut_safe_step digest s e t"
  shows "mut_inv digest t"
proof -
  have st: "mut_do digest e s = Some t" "\<not> overwrites s e" "\<not> overtakes s e"
    using assms(2) by (simp_all add: mut_safe_step_def mut_step_def)
  note i = assms(1)[unfolded mut_inv_def] and load = load_step_inv[OF assms(1) st(1,2)]
  show ?thesis
  proof (cases e)
    case (Tick n)
    then show ?thesis using st(1) i by (intro mut_inv_same[OF assms(1)]) (auto simp: settled_db_def pending_def)
  next
    case (Store_written m)
    with st(1) write_step_inv[OF assms(1)] show ?thesis by blast
  next
    case (Commit_written ms)
    with st(1) write_step_inv[OF assms(1)] show ?thesis by blast
  next
    case (Store m)
    with st(1) store_step_inv[OF assms(1)] show ?thesis by simp
  next
    case (Commit ms)
    with st(1,3) commit_step_inv[OF assms(1)] show ?thesis by simp
  next
    case (Get key wid it)
    then obtain im r im' where "cache s = Some im" "mutations_get digest (clock s) (mut_db s) key wid it im = Inr (r, im')"
      "t = s\<lparr>cache := Some im'\<rparr>" using st(1) by (auto simp: lift_opt_def split: option.splits sum.splits)
    then show ?thesis using i get_covers[OF _ _ settled_subset] by (auto simp: mut_inv_def settled_db_def pending_def)
  next
    case (Complete_iteration w j)
    then show ?thesis using st(1) i
      by (cases "cache s") (auto simp: mut_inv_def settled_db_def pending_def intro: covers_completed)
  next
    case (Complete_workflow w)
    then show ?thesis using st(1) i
      by (cases "cache s") (auto simp: mut_inv_def settled_db_def pending_def intro: covers_completed)
  qed (use load in simp_all)
qed

interpretation mutations: invariant_system "mut_initial digest" "mut_safe_step digest" "mut_inv digest" for digest
  by unfold_locales (simp add: mut_initial_def mut_inv_def pending_def answer_of_def, rule mut_step_inv)

lemma not_expired:
  assumes "check_idempotency_key_not_expired now key = Inr ()" "uuid_version key \<noteq> None"
  shows "\<not> expired now key"
proof
  assume e: "expired now key"
  have m: "(15 :: nat) = mask 4" by (simp add: mask_eq_exp_minus_1)
  have "uuid_version key = Some (key div 2 ^ 76 mod 16)"
    using assms(2) by (simp add: uuid_version_def drop_bit_eq_div m take_bit_eq_mask[symmetric] take_bit_eq_mod split: if_splits)
  then have "uuid7_timestamp_ms key = Inr (key div 2 ^ 80)"
    using e by (simp add: uuid7_timestamp_ms_def expired_def db_version_def drop_bit_eq_div)
  then show False using assms(1) e by (simp add: check_idempotency_key_not_expired_def expired_def py_assert_def split: if_splits)
qed

section \<open>Claims\<close>

text \<open>
  (C9) The Bloom filter never hides a mutation that was made.  In every run in which no load ends after
  another has filled the cache, and no commit that finds no cache ends while an answer that the
  database gave before it had the committed mutations is on its way or kept from a preload: a lookup
  with a key that has not expired, and of which no mutation is between its write to the database and its
  entry in the filter, gives what the database has: the mutation made with that key in the scope of the call,
  or else outside workflows, or nothing when there is neither, in whatever order mutations were
  stored and committed, workflows recovered and forgotten, and loads, several at a time, failed, preloaded or taken.
\<close>

theorem lookup_agrees_with_database:
  assumes "reach (mut_initial digest) (mut_safe_step digest) s" "cache s = Some im" "key \<notin> m_key ` set (pending s)"
    "check_idempotency_key_not_expired (clock s) key = Inr ()" "uuid_version key \<noteq> None" "lookup_ok key wid it"
  shows "\<exists>im'. mutations_get digest (clock s) (mut_db s) key wid it im = Inr (made_or_global (mut_db s) key (scope_of wid it), im')"
proof -
  have i: "mut_inv digest s" by (rule mutations.reach_inv[OF assms(1)])
  then have c: "covers digest (clock s) (settled_db s) im" "db_ok (mut_db s)" using assms(2) by (auto simp: mut_inv_def)
  have "\<forall>m \<in> set (mut_db s). m_key m = key \<longrightarrow> m \<in> set (settled_db s)" using assms(3) by (auto simp: settled_db_def)
  then show ?thesis using mutations_get_ok[OF c settled_subset not_expired[OF assms(4,5)] assms(6)] by blast
qed

fun mut_run :: "digest \<Rightarrow> 'r mut_event list \<Rightarrow> 'r mut_sys \<Rightarrow> 'r mut_sys option" where
  "mut_run digest [] s = Some s"
| "mut_run digest (e # es) s = (case mut_do digest e s of None \<Rightarrow> None | Some t \<Rightarrow> mut_run digest es t)"

lemma mut_run_steps: "mut_run digest es s = Some t \<Longrightarrow> steps (mut_step digest) s es t"
  by (induction es arbitrary: s) (auto intro: steps.intros simp: mut_step_def split: option.splits)

text \<open>A run in which no commit ends, and no load once the cache is filled.\<close>

fun plainly_safe :: "digest \<Rightarrow> 'r mut_event list \<Rightarrow> 'r mut_sys \<Rightarrow> bool" where
  "plainly_safe digest [] s = True"
| "plainly_safe digest (e # es) s =
     ((case e of Commit _ \<Rightarrow> False | Load_done _ \<Rightarrow> cache s = None | _ \<Rightarrow> True) \<and>
      (case mut_do digest e s of None \<Rightarrow> True | Some t \<Rightarrow> plainly_safe digest es t))"

lemma mut_run_safe: "mut_run digest es s = Some t \<Longrightarrow> plainly_safe digest es s \<Longrightarrow> steps (mut_safe_step digest) s es t"
proof (induction es arbitrary: s)
  case (Cons e es)
  then obtain u where u: "mut_do digest e s = Some u" "mut_run digest es u = Some t" "plainly_safe digest es u"
    by (auto split: option.splits)
  moreover have "mut_safe_step digest s e u"
    using u(1) Cons.prems(2) by (auto simp: mut_safe_step_def mut_step_def overwrites_def overtakes_def)
  ultimately show ?case using Cons.IH by (blast intro: steps.intros)
qed (auto intro: steps.intros)

text \<open>A mutation with a random key, and a database that does not have it yet.\<close>

definition key0 :: nat where
  "key0 = 4 * 2 ^ 76 + 2 ^ 63"

definition m0 :: "nat mutation" where
  "m0 = \<lparr>m_key = key0, m_workflow = None, m_iteration = None, m_response = 42\<rparr>"

definition sys0 :: "nat mut_sys" where
  "sys0 = \<lparr>mut_db = [], cache = None, loads_entry = None, calls = (\<lambda>_. None), waiting = [], woken = 0, next_load = 0,
     storing = [], committing = [], uncommitted = [[m0]], clock = 5\<rparr>"

definition empty_cache :: "filters \<Rightarrow> idempotent_mutations" where
  "empty_cache fs = \<lparr>bloom_filter = fs, recovered_workflow_ids = [], recovered_workflow_iterations = []\<rparr>"

lemma init_empty: "scalable_init = Inr fs \<Longrightarrow> mutations_init digest [] = Inr (empty_cache fs)"
  unfolding mutations_init_def empty_cache_def by (erule ssubst) simp

lemma sys0_initial: "mut_initial digest0 sys0"
  by (simp add: mut_initial_def sys0_def digest0_sizes db_ok_def)

lemma version0: "uuid_version key0 = Some 4"
  by (simp add: key0_def uuid_version_def)

lemma m0_well_scoped: "well_scoped m0"
  by (simp add: m0_def well_scoped_def)

text \<open>A filter that has just been built from nothing answers that the mutation was not made.\<close>

lemma empty_cache_finds_nothing:
  assumes "scalable_init = Inr fs"
  shows "mutations_get digest0 now db key0 None None (empty_cache fs) = Inr (None, empty_cache fs)"
  using fresh_filter_empty[OF digest0_sizes assms]
  by (simp add: mutations_get_def ensure_recovered_def query_def make_bloom_key_def empty_cache_def)

lemma m0_made: "made_or_global [m0] key0 Global = Some m0"
  by (simp add: made_or_global_def made_def m0_def m_scope_def)

lemma empty_cache_add:
  assumes "scalable_init = Inr fs"
  obtains gs where "add_to_bloom_filter digest0 m0 (empty_cache fs) = Inr ((empty_cache fs)\<lparr>bloom_filter := gs\<rparr>)"
proof -
  have "filters_ok fs" using scalable_init_ok assms by (metis sum.inject(2))
  then show thesis using that add_to_bloom_filter_ok[OF digest0_sizes, of "empty_cache fs" m0] m0_well_scoped
    by (auto simp: empty_cache_def)
qed

lemmas run_simps = sys0_def new_call_def forget_load_def db_recover_global_def lift_opt_def db_put_def m0_well_scoped Let_def

theorem lookup_agrees_with_database_witness:
  "\<exists>s im im'. reach (mut_initial digest0) (mut_safe_step digest0) s \<and> cache s = Some im \<and> mut_db s = [m0] \<and>
     mutations_get digest0 (clock s) (mut_db s) key0 None None im = Inr (made_or_global [m0] key0 Global, im')"
proof -
  let ?es = "[Load, Snapshot 0, Load_done 0, Store_written m0, Store m0]"
  obtain fs where fs: "scalable_init = Inr fs" using scalable_init_ok by blast
  obtain gs where gs: "add_to_bloom_filter digest0 m0 (empty_cache fs) = Inr ((empty_cache fs)\<lparr>bloom_filter := gs\<rparr>)"
    by (rule empty_cache_add[OF fs])
  obtain s where s: "mut_run digest0 ?es sys0 = Some s" "plainly_safe digest0 ?es sys0"
    "cache s = Some ((empty_cache fs)\<lparr>bloom_filter := gs\<rparr>)" "mut_db s = [m0]" "clock s = 5" "pending s = []"
    by (simp add: run_simps init_empty[OF fs] gs pending_def)
  have r: "reach (mut_initial digest0) (mut_safe_step digest0) s"
    by (rule reach_steps[OF mut_run_safe[OF s(1,2)]]) (rule reach_init[of "mut_initial digest0", OF sys0_initial])
  have c: "check_idempotency_key_not_expired (clock s) key0 = Inr ()"
    using version0 by (simp add: check_idempotency_key_not_expired_def uuid7_timestamp_ms_def)
  obtain im' where "mutations_get digest0 (clock s) (mut_db s) key0 None None ((empty_cache fs)\<lparr>bloom_filter := gs\<rparr>) =
      Inr (made_or_global (mut_db s) key0 (scope_of None None), im')"
    using lookup_agrees_with_database[OF r s(3), of key0 None None] c version0 s(6) by (auto simp: lookup_ok_def)
  then show ?thesis using r s(3,4) by auto
qed

text \<open>
  (C10) A preload that is overtaken by the commit of a recovered transaction hides its mutations.  The
  preload asks the database before the commit; the commit finds no cache to update; whoever then takes
  the preload builds a filter that lacks the mutation.  A retry of the very call whose transaction was
  recovered, which waits for that transaction before it looks, is told that the mutation was never made.
\<close>

theorem overtaken_preload_hides_mutation:
  "\<exists>t im im'. mut_initial digest0 sys0 \<and>
     steps (mut_step digest0) sys0 [Preload, Snapshot 0, Load_done 0, Commit_written [m0], Commit [m0], Take_preload 0] t \<and>
     cache t = Some im \<and> pending t = [] \<and> made_or_global (mut_db t) key0 Global = Some m0 \<and>
     mutations_get digest0 (clock t) (mut_db t) key0 None None im = Inr (None, im')"
proof -
  let ?es = "[Preload, Snapshot 0, Load_done 0, Commit_written [m0], Commit [m0], Take_preload 0]"
  obtain fs where fs: "scalable_init = Inr fs" using scalable_init_ok by blast
  obtain t where t: "mut_run digest0 ?es sys0 = Some t" "cache t = Some (empty_cache fs)" "mut_db t = [m0]" "pending t = []"
    by (simp add: run_simps init_empty[OF fs] pending_def)
  then show ?thesis
    using sys0_initial mut_run_steps[OF t(1)] m0_made empty_cache_finds_nothing[OF fs, of "clock t" "mut_db t"] by auto
qed

text \<open>
  So does a load that ends late.  When a load fails, all callers that waited for it make a call of their own, and each
  replaces the cache by what its own answer had: a mutation that was stored after the first has filled the
  cache is no longer in the filter when the second is done.
\<close>

theorem overlapping_loads_hide_mutation:
  "\<exists>t im im'. mut_initial digest0 sys0 \<and>
     steps (mut_step digest0) sys0 [Preload, Wait_load, Wait_load, Load_fails 0, Load_again, Load_again, Snapshot 1, Snapshot 2,
       Load_done 1, Store_written m0, Store m0, Load_done 2] t \<and>
     cache t = Some im \<and> pending t = [] \<and> made_or_global (mut_db t) key0 Global = Some m0 \<and>
     mutations_get digest0 (clock t) (mut_db t) key0 None None im = Inr (None, im')"
proof -
  let ?es = "[Preload, Wait_load, Wait_load, Load_fails 0, Load_again, Load_again, Snapshot 1, Snapshot 2,
       Load_done 1, Store_written m0, Store m0, Load_done 2]"
  obtain fs where fs: "scalable_init = Inr fs" using scalable_init_ok by blast
  obtain gs where gs: "add_to_bloom_filter digest0 m0 (empty_cache fs) = Inr ((empty_cache fs)\<lparr>bloom_filter := gs\<rparr>)"
    by (rule empty_cache_add[OF fs])
  obtain t where t: "mut_run digest0 ?es sys0 = Some t" "cache t = Some (empty_cache fs)" "mut_db t = [m0]" "pending t = []"
    by (simp add: run_simps init_empty[OF fs] gs pending_def numeral_2_eq_2)
  then show ?thesis
    using sys0_initial mut_run_steps[OF t(1)] m0_made empty_cache_finds_nothing[OF fs, of "clock t" "mut_db t"] by auto
qed

end
