(* ===== verification/Tasks.thy ===== *)
theory Tasks
  imports State_Ref
begin

text \<open>
  Tasks on one server: \<open>TasksCache\<close> (\<open>reboot/aio/internals/tasks_cache.py\<close>), which keeps the results that
  waiters ask for, and \<open>TasksDispatcher\<close> (\<open>reboot/aio/internals/tasks_dispatcher.py\<close>), which runs tasks, retries
  them, cancels them and tells the cache.

  A task is named by its UUID.  The cache is an ordered dictionary, least recently used first; a
  future is its result, or \<open>None\<close> while it is pending.  What a task's method does is up to the events: it
  is started, stores its result in the database as it completes, returns, or raises.
\<close>

section \<open>Results and descriptions of tasks\<close>

datatype 'r task_result = Response 'r | Status nat pystr

datatype task_status = SCHEDULED | STARTED | SCHEDULED_ITERATION | SCHEDULED_RETRY | COMPLETED | ABORTED | CANCELLED

record task_info =
  status :: task_status
  occurred_at :: nat
  scheduled_at :: "nat option"
  info_method :: pystr
  iterations :: nat
  num_runs_failed_recently :: nat

record task_effect =
  task_uuid :: nat
  method_name :: pystr
  schedule :: "nat option"
  iteration :: nat

definition CANCELLED_CODE :: nat where "CANCELLED_CODE = 1"

definition cancelled_status :: "'r task_result" where
  "cancelled_status = Status CANCELLED_CODE []"

datatype task_error = Already_in_cache | Too_many_tasks | No_result | Not_completed

section \<open>\<open>TasksCache\<close>\<close>

definition TASKS_RESPONSES_CACHE_TARGET_CAPACITY :: nat where "TASKS_RESPONSES_CACHE_TARGET_CAPACITY = 256"

type_synonym 'r entry = "'r task_result option \<times> task_info"

record 'r tasks_cache =
  entries :: "(nat \<times> 'r entry) list"
  prepared_tasks :: "nat list"

definition cache_init :: "'r tasks_cache" where
  "cache_init = \<lparr>entries = [], prepared_tasks = []\<rparr>"

text \<open>\<open>OrderedDict\<close>: a new key goes to the end, an existing one keeps its place; \<open>move_to_end\<close>.\<close>

fun dict_set :: "nat \<Rightarrow> 'a \<Rightarrow> (nat \<times> 'a) list \<Rightarrow> (nat \<times> 'a) list" where
  "dict_set k v [] = [(k, v)]"
| "dict_set k v ((k', v') # d) = (if k' = k then (k, v) # d else (k', v') # dict_set k v d)"

definition dict_del :: "nat \<Rightarrow> (nat \<times> 'a) list \<Rightarrow> (nat \<times> 'a) list" where
  "dict_del k d = filter (\<lambda>e. fst e \<noteq> k) d"

definition move_to_end :: "nat \<Rightarrow> (nat \<times> 'a) list \<Rightarrow> (nat \<times> 'a) list" where
  "move_to_end k d = (case map_of d k of None \<Rightarrow> d | Some v \<Rightarrow> dict_del k d @ [(k, v)])"

definition transaction_prepared_task :: "nat \<Rightarrow> 'r tasks_cache \<Rightarrow> 'r tasks_cache" where
  "transaction_prepared_task u c = c\<lparr>prepared_tasks := u # removeAll u (prepared_tasks c)\<rparr>"

definition transaction_aborted_task :: "nat \<Rightarrow> 'r tasks_cache \<Rightarrow> 'r tasks_cache" where
  "transaction_aborted_task u c = c\<lparr>prepared_tasks := removeAll u (prepared_tasks c)\<rparr>"

definition update_task_info ::
    "nat \<Rightarrow> task_status \<Rightarrow> nat \<Rightarrow> nat option \<Rightarrow> nat option \<Rightarrow> bool \<Rightarrow> 'r tasks_cache \<Rightarrow> 'r tasks_cache" where
  "update_task_info u st occurred sched iters failed c =
     (case map_of (entries c) u of
        None \<Rightarrow> c
      | Some (f, info) \<Rightarrow>
          let info' = info\<lparr>status := st, occurred_at := occurred,
                scheduled_at := (case sched of None \<Rightarrow> scheduled_at info | Some t \<Rightarrow> Some t),
                iterations := (case iters of None \<Rightarrow> iterations info | Some n \<Rightarrow> n),
                num_runs_failed_recently := num_runs_failed_recently info + (if failed then 1 else 0)\<rparr>
          in c\<lparr>entries := move_to_end u (dict_set u (f, info') (entries c))\<rparr>)"

text \<open>The loop of \<open>_trim_cache\<close>: \<open>n\<close> is how many entries would be left.\<close>

fun uuids_to_remove :: "nat \<Rightarrow> (nat \<times> 'r entry) list \<Rightarrow> nat list" where
  "uuids_to_remove n [] = []"
| "uuids_to_remove n ((u, f, _) # d) =
     (if n \<le> TASKS_RESPONSES_CACHE_TARGET_CAPACITY then []
      else if f \<noteq> None then u # uuids_to_remove (n - 1) d else uuids_to_remove n d)"

definition trim_cache :: "'r tasks_cache \<Rightarrow> 'r tasks_cache" where
  "trim_cache c =
     (let rm = uuids_to_remove (length (entries c)) (entries c) in c\<lparr>entries := filter (\<lambda>e. fst e \<notin> set rm) (entries c)\<rparr>)"

definition put_pending_task :: "nat \<Rightarrow> task_effect \<Rightarrow> 'r tasks_cache \<Rightarrow> task_error + 'r tasks_cache" where
  "put_pending_task now t c =
     (let u = task_uuid t;
          info = \<lparr>status = SCHEDULED, occurred_at = now, scheduled_at = schedule t, info_method = method_name t,
            iterations = iteration t, num_runs_failed_recently = 0\<rparr>
      in rbind (py_assert Already_in_cache (u \<notin> fst ` set (entries c))) (\<lambda>_.
         Inr ((trim_cache (c\<lparr>entries := move_to_end u (dict_set u (None, info) (entries c))\<rparr>))
           \<lparr>prepared_tasks := removeAll u (prepared_tasks c)\<rparr>)))"

definition count_last_iteration :: "task_info \<Rightarrow> task_info" where
  "count_last_iteration info = (if status info \<noteq> COMPLETED then info else info\<lparr>iterations := iterations info + 1\<rparr>)"

definition get_tasks :: "'r tasks_cache \<Rightarrow> task_info list" where
  "get_tasks c = map (\<lambda>(u, f, info). count_last_iteration info) (entries c)"

text \<open>\<open>get\<close>: wait for the commit of the transaction that scheduled the task, or report that the task is not cached, or wait for its future.\<close>

datatype cache_get_step = Await_commit | Not_cached | Await_future

definition cache_get :: "nat \<Rightarrow> 'r tasks_cache \<Rightarrow> cache_get_step \<times> 'r tasks_cache" where
  "cache_get u c =
     (if u \<in> set (prepared_tasks c) then (Await_commit, c)
      else if u \<notin> fst ` set (entries c) then (Not_cached, c)
      else (Await_future, trim_cache (c\<lparr>entries := move_to_end u (entries c)\<rparr>)))"

definition resolve_future :: "nat \<Rightarrow> nat \<Rightarrow> 'r task_result \<Rightarrow> 'r tasks_cache \<Rightarrow> 'r tasks_cache" where
  "resolve_future now u r c =
     (case map_of (entries c) u of
        Some (None, info) \<Rightarrow>
          let st = (case r of Response _ \<Rightarrow> COMPLETED | Status code _ \<Rightarrow> if code = CANCELLED_CODE then CANCELLED else ABORTED)
          in trim_cache (c\<lparr>entries := move_to_end u (dict_set u (Some r, info\<lparr>status := st, occurred_at := now\<rparr>) (entries c))\<rparr>)
      | _ \<Rightarrow> c)"

definition put_with_response_or_error :: "nat \<Rightarrow> 'r task_result \<Rightarrow> nat \<Rightarrow> pystr \<Rightarrow> nat \<Rightarrow> 'r tasks_cache \<Rightarrow> 'r tasks_cache" where
  "put_with_response_or_error u r timestamp method iter c =
     (let info = \<lparr>status = (case r of Response _ \<Rightarrow> COMPLETED | Status _ _ \<Rightarrow> ABORTED), occurred_at = timestamp, scheduled_at = None,
            info_method = method, iterations = iter, num_runs_failed_recently = 0\<rparr>;
          d = (if u \<in> fst ` set (entries c) then entries c else dict_set u (Some r, info) (entries c))
      in trim_cache (c\<lparr>entries := move_to_end u d\<rparr>))"

section \<open>\<open>TasksDispatcher\<close>\<close>

definition DISPATCHED_TASKS_LIMIT :: nat where "DISPATCHED_TASKS_LIMIT = 1024"

text \<open>\<open>dispatched\<close> is \<open>_dispatched_tasks\<close>: the tasks that run, with whether they are being cancelled.\<close>

record dispatcher =
  stop_requested :: bool
  dispatched :: "(nat \<times> bool) list"

definition validate_count :: "task_effect list \<Rightarrow> dispatcher \<Rightarrow> task_error + unit" where
  "validate_count ts d = py_assert Too_many_tasks (length (dispatched d) + length ts \<le> DISPATCHED_TASKS_LIMIT)"

definition is_task_cancelled :: "nat \<Rightarrow> dispatcher \<Rightarrow> bool" where
  "is_task_cancelled u d = (map_of (dispatched d) u = Some True)"

text \<open>
  Where the coroutine of a task is: before the method is called, in it, after the result is in the
  database, in a backoff; done; in the clean-up, which stores a cancellation first if there was one.
\<close>

datatype 'r run = Ready | Executing | Stored "'r task_result" | Backing_off | Run_done | Completing | Cleaned

record 'r tasks_sys =
  tcache :: "'r tasks_cache"
  disp :: dispatcher
  runs :: "nat \<Rightarrow> 'r run option"
  interrupted :: "nat set"
  task_db :: "nat \<Rightarrow> 'r task_result option"
  loads :: "(nat \<times> 'r task_result) list"

definition tasks_init :: "(nat \<Rightarrow> 'r task_result option) \<Rightarrow> 'r tasks_sys" where
  "tasks_init db = \<lparr>tcache = cache_init, disp = \<lparr>stop_requested = False, dispatched = []\<rparr>, runs = (\<lambda>_. None),
     interrupted = {}, task_db = db, loads = []\<rparr>"

text \<open>
  \<open>dispatch\<close>: once stopping, nothing; a task already dispatched is skipped.  The assertion of
  \<open>put_pending_task\<close> ends the loop, with the tasks before it dispatched.
\<close>

fun dispatch :: "nat \<Rightarrow> task_effect list \<Rightarrow> 'r tasks_sys \<Rightarrow> 'r tasks_sys \<times> task_error option" where
  "dispatch now [] s = (s, None)"
| "dispatch now (t # ts) s =
     (if stop_requested (disp s) then (s, None)
      else if task_uuid t \<in> fst ` set (dispatched (disp s)) then dispatch now ts s
      else case put_pending_task now t (tcache s) of
          Inl e \<Rightarrow> (s, Some e)
        | Inr c \<Rightarrow> dispatch now ts (s\<lparr>tcache := c,
            disp := (disp s)\<lparr>dispatched := dict_set (task_uuid t) False (dispatched (disp s))\<rparr>,
            runs := (runs s)(task_uuid t := Some Ready)\<rparr>))"

datatype cancel_answer = CANCELLING | NOT_FOUND | OK

definition cancel_task :: "nat \<Rightarrow> 'r tasks_sys \<Rightarrow> cancel_answer \<times> 'r tasks_sys" where
  "cancel_task u s =
     (case map_of (dispatched (disp s)) u of
        Some True \<Rightarrow> (CANCELLING, s)
      | None \<Rightarrow> (NOT_FOUND, s)
      | Some False \<Rightarrow> (OK, s\<lparr>disp := (disp s)\<lparr>dispatched := dict_set u True (dispatched (disp s))\<rparr>, interrupted := insert u (interrupted s)\<rparr>))"

definition stop :: "'r tasks_sys \<Rightarrow> 'r tasks_sys" where
  "stop s = s\<lparr>disp := (disp s)\<lparr>stop_requested := True\<rparr>, interrupted := interrupted s \<union> fst ` set (dispatched (disp s))\<rparr>"

text \<open>The end of a turn of \<open>dispatch_retry_loop\<close>: the future and the description of the task.\<close>

definition finish_task :: "nat \<Rightarrow> nat \<Rightarrow> 'r task_result \<Rightarrow> 'r tasks_cache \<Rightarrow> 'r tasks_cache" where
  "finish_task now u r c =
     (case map_of (entries c) u of
        Some (_, info) \<Rightarrow>
          update_task_info u (case r of Response _ \<Rightarrow> COMPLETED | Status _ _ \<Rightarrow> ABORTED) now None None False
            (c\<lparr>entries := dict_set u (Some r, info) (entries c)\<rparr>)
      | None \<Rightarrow> c)"

text \<open>The callbacks of a task that is done: \<open>cleanup_async\<close> and \<open>cleanup_done\<close>.\<close>

definition cleanup_async :: "nat \<Rightarrow> 'r tasks_sys \<Rightarrow> 'r tasks_sys" where
  "cleanup_async u s = s\<lparr>runs := (runs s)(u := Some (if is_task_cancelled u (disp s) then Completing else Cleaned))\<rparr>"

definition cleanup_done :: "nat \<Rightarrow> nat \<Rightarrow> 'r tasks_sys \<Rightarrow> 'r tasks_sys" where
  "cleanup_done now u s =
     s\<lparr>tcache := (if is_task_cancelled u (disp s) then resolve_future now u cancelled_status (tcache s) else tcache s),
       disp := (disp s)\<lparr>dispatched := dict_del u (dispatched (disp s))\<rparr>, runs := (runs s)(u := None),
       interrupted := interrupted s - {u}\<rparr>"

datatype 'r task_event =
    Dispatch "task_effect list"
  | Begin nat
  | Iterate nat nat "nat option"
  | Store nat "'r task_result"
  | Return nat
  | Fail nat nat
  | Retry nat
  | Interrupt nat
  | Cancel nat
  | Stop
  | Cleanup nat
  | Complete nat
  | Complete_failed nat
  | Cleanup_done nat
  | Prepare_tasks "nat list"
  | Abort_tasks "nat list"
  | Wait nat
  | Load nat
  | Put nat "'r task_result" pystr nat

text \<open>
  \<open>Store\<close> is the state manager making the result of a task durable, \<open>Complete\<close> its \<open>complete_task\<close> with a
  cancellation.  A waiter that does not find the task in the cache loads its result from the database
  (\<open>Load\<close>) and caches it (\<open>Put\<close>); other steps may come in between.
\<close>

fun task_do :: "nat \<Rightarrow> 'r task_event \<Rightarrow> 'r tasks_sys \<Rightarrow> 'r tasks_sys option" where
  "task_do now (Dispatch ts) s = Some (fst (dispatch now ts s))"
| "task_do now (Begin u) s =
     (if runs s u = Some Ready
      then Some (s\<lparr>tcache := update_task_info u STARTED now None None False (tcache s), runs := (runs s)(u := Some Executing)\<rparr>) else None)"
| "task_do now (Iterate u i sched) s =
     (if runs s u = Some Executing
      then Some (s\<lparr>tcache := update_task_info u SCHEDULED_ITERATION now sched (Some i) False (tcache s)\<rparr>) else None)"
| "task_do now (Store u r) s =
     (if runs s u = Some Executing
      then Some (s\<lparr>runs := (runs s)(u := Some (Stored r)), task_db := (task_db s)(u := Some r)\<rparr>) else None)"
| "task_do now (Return u) s =
     (case runs s u of
        Some (Stored r) \<Rightarrow> Some (s\<lparr>tcache := finish_task now u r (tcache s), runs := (runs s)(u := Some Run_done)\<rparr>)
      | _ \<Rightarrow> None)"
| "task_do now (Fail u next) s =
     (if runs s u = Some Executing
      then Some (s\<lparr>tcache := update_task_info u SCHEDULED_RETRY now (Some next) None True (tcache s), runs := (runs s)(u := Some Backing_off)\<rparr>)
      else None)"
| "task_do now (Retry u) s = (if runs s u = Some Backing_off then Some (s\<lparr>runs := (runs s)(u := Some Ready)\<rparr>) else None)"
| "task_do now (Interrupt u) s =
     (if u \<in> interrupted s \<and> runs s u \<noteq> None \<and> runs s u \<notin> {Some Run_done, Some Completing, Some Cleaned}
      then Some (s\<lparr>runs := (runs s)(u := Some Run_done)\<rparr>) else None)"
| "task_do now (Cancel u) s = Some (snd (cancel_task u s))"
| "task_do now Stop s = Some (stop s)"
| "task_do now (Cleanup u) s = (if runs s u = Some Run_done then Some (cleanup_async u s) else None)"
| "task_do now (Complete u) s =
     (if runs s u = Some Completing
      then Some (s\<lparr>runs := (runs s)(u := Some Cleaned), task_db := (task_db s)(u := Some cancelled_status)\<rparr>) else None)"
| "task_do now (Complete_failed u) s = (if runs s u = Some Completing then Some (s\<lparr>runs := (runs s)(u := Some Cleaned)\<rparr>) else None)"
| "task_do now (Cleanup_done u) s = (if runs s u = Some Cleaned then Some (cleanup_done now u s) else None)"
| "task_do now (Prepare_tasks us) s = Some (s\<lparr>tcache := fold transaction_prepared_task us (tcache s)\<rparr>)"
| "task_do now (Abort_tasks us) s = Some (s\<lparr>tcache := fold transaction_aborted_task us (tcache s)\<rparr>)"
| "task_do now (Wait u) s = Some (s\<lparr>tcache := snd (cache_get u (tcache s))\<rparr>)"
| "task_do now (Load u) s =
     (case task_db s u of
        Some r \<Rightarrow> if fst (cache_get u (tcache s)) = Not_cached then Some (s\<lparr>loads := (u, r) # loads s\<rparr>) else None
      | None \<Rightarrow> None)"
| "task_do now (Put u r method iter) s =
     (if (u, r) \<in> set (loads s)
      then Some (s\<lparr>loads := remove1 (u, r) (loads s), tcache := put_with_response_or_error u r now method iter (tcache s)\<rparr>)
      else None)"

definition task_step :: "'r tasks_sys \<Rightarrow> nat \<times> 'r task_event \<Rightarrow> 'r tasks_sys \<Rightarrow> bool" where
  "task_step s e t \<longleftrightarrow> task_do (fst e) (snd e) s = Some t"

section \<open>\<open>TasksServicer\<close>\<close>

text \<open>
  \<open>Wait\<close> and \<open>CancelTask\<close> serve a task only where its state is served: the reference in the request names the
  state the call was routed to, and the placement says that it is on this server.  The middlewares of
  the server (\<open>known\<close>) and the placement are parameters.
\<close>

datatype rpc_abort = Value_error | Invalid_argument | Unavailable | Not_found | Assertion_error

record task_routing =
  known :: "pystr \<Rightarrow> bool"
  server_for_actor :: "pystr \<Rightarrow> nat"
  server_id :: nat

definition check_reference :: "(pystr \<Rightarrow> bytes) \<Rightarrow> pystr \<Rightarrow> pystr \<Rightarrow> rpc_abort + pystr" where
  "check_reference sha1 ref routed =
     (case from_maybe_readable sha1 ref of
        Inl _ \<Rightarrow> Inl Value_error
      | Inr (task_id_state_ref, _) \<Rightarrow> if task_id_state_ref \<noteq> routed then Inl Invalid_argument else Inr task_id_state_ref)"

definition check_authoritative :: "task_routing \<Rightarrow> pystr \<Rightarrow> rpc_abort + unit" where
  "check_authoritative R ref = py_assert Unavailable (server_for_actor R ref = server_id R)"

datatype 'r wait_answer = Waiting_for_commit | Waiting_for_result | Loaded "'r task_result"

definition task_wait ::
    "(pystr \<Rightarrow> bytes) \<Rightarrow> task_routing \<Rightarrow> pystr \<Rightarrow> pystr \<Rightarrow> pystr \<Rightarrow> nat \<Rightarrow> (nat \<Rightarrow> 'r task_result option option) \<Rightarrow>
     'r tasks_cache \<Rightarrow> rpc_abort + 'r wait_answer" where
  "task_wait sha1 R state_type ref routed u load_task_response c =
     rbind (py_assert Value_error (known R state_type)) (\<lambda>_.
     rbind (check_reference sha1 ref routed) (\<lambda>task_id_state_ref.
     rbind (check_authoritative R task_id_state_ref) (\<lambda>_.
       case fst (cache_get u c) of
         Await_commit \<Rightarrow> Inr Waiting_for_commit
       | Await_future \<Rightarrow> Inr Waiting_for_result
       | Not_cached \<Rightarrow>
           (case load_task_response u of
              None \<Rightarrow> Inl Not_found
            | Some None \<Rightarrow> Inl Assertion_error
            | Some (Some r) \<Rightarrow> Inr (Loaded r)))))"

definition task_cancel ::
    "(pystr \<Rightarrow> bytes) \<Rightarrow> task_routing \<Rightarrow> pystr \<Rightarrow> pystr \<Rightarrow> pystr \<Rightarrow> nat \<Rightarrow> 'r tasks_sys \<Rightarrow> rpc_abort + cancel_answer \<times> 'r tasks_sys" where
  "task_cancel sha1 R state_type ref routed u s =
     rbind (check_reference sha1 ref routed) (\<lambda>task_id_state_ref.
     rbind (py_assert Value_error (known R state_type)) (\<lambda>_.
     rbind (check_authoritative R task_id_state_ref) (\<lambda>_. Inr (cancel_task u s))))"

section \<open>The dictionary\<close>

definition look :: "'r tasks_cache \<Rightarrow> nat \<Rightarrow> 'r entry option" where
  "look c u = map_of (entries c) u"

definition keys_ok :: "'r tasks_cache \<Rightarrow> bool" where
  "keys_ok c \<longleftrightarrow> distinct (map fst (entries c))"

lemma dict_set_keys: "fst ` set (dict_set k v d) = insert k (fst ` set d)"
  by (induction k v d rule: dict_set.induct) auto

lemma dict_set_distinct: "distinct (map fst d) \<Longrightarrow> distinct (map fst (dict_set k v d))"
  by (induction k v d rule: dict_set.induct) (auto simp: dict_set_keys)

lemma map_of_dict_set: "map_of (dict_set k v d) = (map_of d)(k \<mapsto> v)"
  by (induction k v d rule: dict_set.induct) (auto simp: fun_eq_iff)

lemma map_of_dict_del: "map_of (dict_del k d) = (map_of d)(k := None)"
  by (induction d) (auto simp: dict_del_def fun_eq_iff)

lemma dict_del_distinct: "distinct (map fst d) \<Longrightarrow> distinct (map fst (dict_del k d))"
  by (simp add: dict_del_def distinct_map_filter)

lemma map_of_move: "map_of (move_to_end k d) = map_of d"
  by (cases "map_of d k") (auto simp: move_to_end_def map_add_def map_of_dict_del fun_eq_iff split: option.splits)

lemma move_distinct: "distinct (map fst d) \<Longrightarrow> distinct (map fst (move_to_end k d))"
  by (auto simp: move_to_end_def dict_del_def distinct_map_filter split: option.splits)

lemma keys_look: "u \<in> fst ` set (entries c) \<longleftrightarrow> look c u \<noteq> None"
  by (simp add: look_def map_of_eq_None_iff)

section \<open>What trimming may remove\<close>

lemma removed_resolved: "u \<in> set (uuids_to_remove n d) \<Longrightarrow> \<exists>r info. (u, Some r, info) \<in> set d"
  by (induction n d rule: uuids_to_remove.induct) (auto split: if_splits)

lemma removed_count:
  "length d \<le> n \<Longrightarrow>
   n \<le> length (uuids_to_remove n d) + max TASKS_RESPONSES_CACHE_TARGET_CAPACITY (n - length d + length (filter (\<lambda>e. fst (snd e) = None) d))"
proof (induction n d rule: uuids_to_remove.induct)
  case (2 n u f i d)
  let ?T = TASKS_RESPONSES_CACHE_TARGET_CAPACITY and ?p = "length (filter (\<lambda>e. fst (snd e) = None) d)"
  consider "n \<le> ?T" | "\<not> n \<le> ?T" "f \<noteq> None" | "\<not> n \<le> ?T" "f = None" by blast
  then show ?case
  proof cases
    case 2
    then have "n - 1 \<le> length (uuids_to_remove (n - 1) d) + max ?T (n - 1 - length d + ?p)" using "2.IH"(1) "2.prems" by simp
    moreover have "n - 1 - length d = n - Suc (length d)" by simp
    ultimately have "n \<le> Suc (length (uuids_to_remove (n - 1) d)) + max ?T (n - Suc (length d) + ?p)" by linarith
    then show ?thesis using 2 by (auto simp del: One_nat_def)
  next
    case 3
    then have "n \<le> length (uuids_to_remove n d) + max ?T (n - length d + ?p)" using "2.IH"(2) "2.prems" by simp
    moreover have "n - length d = Suc (n - Suc (length d))" using "2.prems" by simp
    ultimately show ?thesis using 3 by simp
  qed simp
qed simp

lemma removed_distinct: "distinct (map fst d) \<Longrightarrow> distinct (uuids_to_remove n d) \<and> set (uuids_to_remove n d) \<subseteq> fst ` set d"
  by (induction n d rule: uuids_to_remove.induct) auto

definition trimmed :: "'r tasks_cache \<Rightarrow> 'r tasks_cache \<Rightarrow> bool" where
  "trimmed c c' \<longleftrightarrow> keys_ok c' \<and> prepared_tasks c' = prepared_tasks c \<and>
     (\<forall>u. look c' u = look c u \<or> look c' u = None \<and> (\<exists>r info. look c u = Some (Some r, info)))"

lemma map_of_filter_keys: "map_of (filter (\<lambda>e. fst e \<notin> A) d) u = (if u \<in> A then None else map_of d u)"
  by (induction d) auto

lemma trim_trimmed: "keys_ok c \<Longrightarrow> trimmed c (trim_cache c)"
proof -
  assume k: "keys_ok c"
  then have "distinct (map fst (entries c))" by (simp add: keys_ok_def)
  then have "look c u = Some (Some r, info)" if "(u, Some r, info) \<in> set (entries c)" for u r info
    using that by (simp add: look_def)
  then show ?thesis
    using k removed_resolved[of _ "length (entries c)" "entries c"]
    by (fastforce simp: trimmed_def trim_cache_def look_def keys_ok_def Let_def map_of_filter_keys distinct_map_filter)
qed

lemma put_pending_effect:
  assumes "put_pending_task now t c = Inr c'" "keys_ok c"
  shows "look c (task_uuid t) = None \<and> keys_ok c' \<and> (\<exists>info. look c' (task_uuid t) = Some (None, info)) \<and>
    (\<forall>u. u \<noteq> task_uuid t \<longrightarrow> look c' u = look c u \<or> look c' u = None \<and> (\<exists>r info. look c u = Some (Some r, info)))"
proof -
  obtain info where c': "task_uuid t \<notin> fst ` set (entries c)"
    "c' = (trim_cache (c\<lparr>entries := move_to_end (task_uuid t) (dict_set (task_uuid t) (None, info) (entries c))\<rparr>))
       \<lparr>prepared_tasks := removeAll (task_uuid t) (prepared_tasks c)\<rparr>"
    using assms(1) by (auto simp: put_pending_task_def Let_def rbind_eq_Inr_iff)
  let ?c = "c\<lparr>entries := move_to_end (task_uuid t) (dict_set (task_uuid t) (None, info) (entries c))\<rparr>"
  have "keys_ok ?c" using assms(2) by (simp add: keys_ok_def move_distinct dict_set_distinct)
  note tr = trim_trimmed[OF this]
  have lk: "look ?c = (look c)(task_uuid t \<mapsto> (None, info))" by (simp add: look_def fun_eq_iff map_of_move map_of_dict_set)
  have "look c' u = look (trim_cache ?c) u" "keys_ok c' = keys_ok (trim_cache ?c)" for u by (simp_all add: look_def keys_ok_def c'(2))
  then have l': "look c' u = look (trim_cache ?c) u" "keys_ok c'" for u using tr by (simp_all add: trimmed_def)
  have look: "look c' u = look ?c u \<or> look c' u = None \<and> (\<exists>r info. look ?c u = Some (Some r, info))" for u
    using tr l'(1)[of u] by (simp add: trimmed_def)
  have "look c' (task_uuid t) = Some (None, info)" using look[of "task_uuid t"] by (simp add: lk)
  moreover have "look c' u = look c u \<or> look c' u = None \<and> (\<exists>r info. look c u = Some (Some r, info))" if "u \<noteq> task_uuid t" for u
    using look[of u] that by (simp add: lk)
  ultimately show ?thesis using l'(2) c'(1)[unfolded keys_look] by blast
qed

lemma update_info_look:
  assumes "keys_ok c"
  shows "keys_ok (update_task_info u st occ sched it failed c) \<and>
    (\<forall>v. map_option fst (look (update_task_info u st occ sched it failed c) v) = map_option fst (look c v))"
  using assms
  by (auto simp: update_task_info_def keys_ok_def look_def Let_def map_of_move map_of_dict_set move_distinct dict_set_distinct
      split: option.splits)

lemma finish_look:
  assumes "keys_ok c"
  shows "keys_ok (finish_task now u r c) \<and>
    (\<forall>v. map_option fst (look (finish_task now u r c) v) =
       (if v = u \<and> look c u \<noteq> None then Some (Some r) else map_option fst (look c v)))"
proof (cases "look c u")
  case (Some e)
  obtain f info where e: "map_of (entries c) u = Some (f, info)" using Some by (cases e) (auto simp: look_def)
  let ?c = "c\<lparr>entries := dict_set u (Some r, info) (entries c)\<rparr>"
  have "keys_ok ?c" using assms by (simp add: keys_ok_def dict_set_distinct)
  from update_info_look[OF this] show ?thesis using e by (auto simp: finish_task_def look_def map_of_dict_set)
qed (use assms in \<open>auto simp: finish_task_def look_def\<close>)

text \<open>The future of a task as a waiter finds it.\<close>

definition fut :: "'r tasks_cache \<Rightarrow> nat \<Rightarrow> 'r task_result option option" where
  "fut c u = map_option fst (look c u)"

text \<open>A step of the cache that evicts only resolved futures and otherwise leaves them alone.\<close>

definition evicts :: "'r tasks_cache \<Rightarrow> 'r tasks_cache \<Rightarrow> bool" where
  "evicts c c' \<longleftrightarrow> keys_ok c' \<and> (\<forall>u. fut c' u = fut c u \<or> fut c' u = None \<and> (\<exists>r. fut c u = Some (Some r)))"

lemma trimmed_evicts: "trimmed c c' \<Longrightarrow> evicts c c'"
proof -
  assume t: "trimmed c c'"
  have "fut c' u = fut c u \<or> fut c' u = None \<and> (\<exists>r. fut c u = Some (Some r))" for u
    using t[unfolded trimmed_def, THEN conjunct2, THEN conjunct2, rule_format, of u] by (auto simp: fut_def)
  then show ?thesis using t by (simp add: evicts_def trimmed_def)
qed

lemma evicts_refl: "keys_ok c \<Longrightarrow> evicts c c"
  by (simp add: evicts_def)

lemma update_info_evicts: "keys_ok c \<Longrightarrow> evicts c (update_task_info u st occ sched it failed c)"
  using update_info_look by (fastforce simp: evicts_def fut_def)

lemma trim_with: "keys_ok c' \<Longrightarrow> fut c' = fut c \<Longrightarrow> evicts c (trim_cache c')"
  using trimmed_evicts[OF trim_trimmed, of c'] by (simp add: evicts_def)

lemma get_evicts: "keys_ok c \<Longrightarrow> evicts c (snd (cache_get u c))"
  by (auto simp: cache_get_def evicts_refl intro!: trim_with)
    (simp_all add: keys_ok_def move_distinct fut_def look_def map_of_move fun_eq_iff)

lemma resolve_evicts:
  assumes "keys_ok c"
  shows "\<exists>c1. evicts c1 (resolve_future now u r c) \<and> keys_ok c1 \<and>
    fut c1 = (if fut c u = Some None then (fut c)(u \<mapsto> Some r) else fut c)"
proof (cases "fut c u = Some None")
  case True
  then obtain info where i: "map_of (entries c) u = Some (None, info)" by (auto simp: fut_def look_def)
  let ?i = "info\<lparr>status := (case r of Response _ \<Rightarrow> COMPLETED | Status code _ \<Rightarrow> if code = CANCELLED_CODE then CANCELLED else ABORTED), occurred_at := now\<rparr>"
  let ?c = "c\<lparr>entries := move_to_end u (dict_set u (Some r, ?i) (entries c))\<rparr>"
  have "keys_ok ?c" using assms by (simp add: keys_ok_def move_distinct dict_set_distinct)
  moreover have "fut ?c = (fut c)(u \<mapsto> Some r)" by (simp add: fut_def look_def fun_eq_iff map_of_move map_of_dict_set)
  moreover have "resolve_future now u r c = trim_cache ?c" using i by (simp add: resolve_future_def)
  ultimately show ?thesis using True trimmed_evicts[OF trim_trimmed, of ?c] by auto
next
  case False
  then have "resolve_future now u r c = c"
    by (auto simp: resolve_future_def fut_def look_def split: option.splits)
  then show ?thesis using False assms evicts_refl by auto
qed

lemma put_evicts:
  assumes "keys_ok c"
  shows "\<exists>c1. evicts c1 (put_with_response_or_error u r ts m it c) \<and> keys_ok c1 \<and>
    fut c1 = (if fut c u = None then (fut c)(u \<mapsto> Some r) else fut c)"
proof (cases "fut c u")
  case None
  then have "u \<notin> fst ` set (entries c)" by (simp add: keys_look fut_def)
  then obtain info where e: "put_with_response_or_error u r ts m it c =
      trim_cache (c\<lparr>entries := move_to_end u (dict_set u (Some r, info) (entries c))\<rparr>)"
    by (auto simp: put_with_response_or_error_def Let_def)
  let ?c = "c\<lparr>entries := move_to_end u (dict_set u (Some r, info) (entries c))\<rparr>"
  have "keys_ok ?c" using assms by (simp add: keys_ok_def move_distinct dict_set_distinct)
  moreover have "fut ?c = (fut c)(u \<mapsto> Some r)" by (simp add: fut_def look_def fun_eq_iff map_of_move map_of_dict_set)
  ultimately show ?thesis using trimmed_evicts[OF trim_trimmed, of ?c] e None by auto
next
  case (Some f)
  then have "u \<in> fst ` set (entries c)" by (auto simp: keys_look fut_def)
  then have e: "put_with_response_or_error u r ts m it c = trim_cache (c\<lparr>entries := move_to_end u (entries c)\<rparr>)"
    by (simp add: put_with_response_or_error_def Let_def)
  have "evicts c (put_with_response_or_error u r ts m it c)" unfolding e using assms
    by (intro trim_with) (simp_all add: keys_ok_def move_distinct fut_def look_def map_of_move fun_eq_iff)
  then show ?thesis using Some assms by auto
qed

section \<open>Invariant\<close>

text \<open>
  A task whose coroutine has not come to its end has a pending future in the cache, and until it has
  stored its result the database has none; a resolved future in the cache, and a result that was loaded to be
  cached, is what the database has; a cancelled task has no result but its cancellation.
\<close>

definition active :: "'r run option \<Rightarrow> bool" where
  "active x = (case x of Some Ready \<Rightarrow> True | Some Executing \<Rightarrow> True | Some (Stored _) \<Rightarrow> True | Some Backing_off \<Rightarrow> True | _ \<Rightarrow> False)"

definition future_ok :: "'r task_result option option \<Rightarrow> 'r task_result option \<Rightarrow> 'r run option \<Rightarrow> bool" where
  "future_ok f d x \<longleftrightarrow> (active x \<longrightarrow> f = Some None) \<and> (\<forall>r. f = Some (Some r) \<longrightarrow> d = Some r)"

definition result_ok :: "bool \<Rightarrow> 'r task_result option \<Rightarrow> 'r run option \<Rightarrow> bool" where
  "result_ok canc d x =
     (case x of
        Some Ready \<Rightarrow> d = None
      | Some Executing \<Rightarrow> d = None
      | Some Backing_off \<Rightarrow> d = None
      | Some (Stored r) \<Rightarrow> d = Some r \<and> (canc \<longrightarrow> r = cancelled_status)
      | Some Run_done \<Rightarrow> canc \<longrightarrow> d = None \<or> d = Some cancelled_status
      | Some Completing \<Rightarrow> canc \<and> (d = None \<or> d = Some cancelled_status)
      | Some Cleaned \<Rightarrow> canc \<longrightarrow> d = Some cancelled_status
      | None \<Rightarrow> \<not> canc)"

definition tasks_inv :: "'r tasks_sys \<Rightarrow> bool" where
  "tasks_inv s \<longleftrightarrow> keys_ok (tcache s) \<and> distinct (map fst (dispatched (disp s))) \<and>
     (\<forall>u. (map_of (dispatched (disp s)) u = None) = (runs s u = None)) \<and>
     (\<forall>u. future_ok (fut (tcache s) u) (task_db s u) (runs s u)) \<and>
     (\<forall>u. result_ok (is_task_cancelled u (disp s)) (task_db s u) (runs s u)) \<and>
     (\<forall>u r. (u, r) \<in> set (loads s) \<longrightarrow> task_db s u = Some r)"

text \<open>
  Runs in which what is dispatched has no result yet, no task is cancelled once its result is on its way,
  a task that is cancelled stores its cancellation and nothing else, and the database call of the clean-up does
  not fail.
\<close>

definition in_time :: "'r tasks_sys \<Rightarrow> 'r task_event \<Rightarrow> bool" where
  "in_time s e =
     (case e of
        Dispatch ts \<Rightarrow> list_all (\<lambda>t. task_uuid t \<in> fst ` set (dispatched (disp s)) \<or> task_db s (task_uuid t) = None) ts
      | Cancel u \<Rightarrow> runs s u \<in> {None, Some Ready, Some Executing, Some Backing_off}
      | Store u r \<Rightarrow> is_task_cancelled u (disp s) \<longrightarrow> r = cancelled_status
      | Complete_failed u \<Rightarrow> False
      | _ \<Rightarrow> True)"

definition task_safe_step :: "'r tasks_sys \<Rightarrow> nat \<times> 'r task_event \<Rightarrow> 'r tasks_sys \<Rightarrow> bool" where
  "task_safe_step s e t \<longleftrightarrow> task_step s e t \<and> in_time s (snd e)"

lemma tasks_invD:
  assumes "tasks_inv s"
  shows "keys_ok (tcache s)" "distinct (map fst (dispatched (disp s)))"
    and "map_of (dispatched (disp s)) u = None \<longleftrightarrow> runs s u = None"
    and "future_ok (fut (tcache s) u) (task_db s u) (runs s u)"
    and "result_ok (is_task_cancelled u (disp s)) (task_db s u) (runs s u)"
    and "(u, r) \<in> set (loads s) \<Longrightarrow> task_db s u = Some r"
  using assms unfolding tasks_inv_def by auto

text \<open>What one step may do to the futures of the other tasks: evict a resolved one.\<close>

definition kept :: "'r task_result option option \<Rightarrow> 'r task_result option option \<Rightarrow> bool" where
  "kept f f' \<longleftrightarrow> f' = f \<or> f' = None \<and> (\<exists>r. f = Some (Some r))"

lemma kept_ok: "kept f f' \<Longrightarrow> future_ok f d x \<Longrightarrow> future_ok f' d x"
  by (auto simp: kept_def future_ok_def)

lemma evicts_kept: "evicts c c' \<Longrightarrow> kept (fut c u) (fut c' u)"
  by (simp add: evicts_def kept_def)

text \<open>A step that concerns one task, and changes nothing that the database has.\<close>

lemma local_inv:
  assumes "tasks_inv s" "keys_ok (tcache t)" "distinct (map fst (dispatched (disp t)))"
    and others: "\<And>v. v \<noteq> u \<Longrightarrow> map_of (dispatched (disp t)) v = map_of (dispatched (disp s)) v \<and> runs t v = runs s v \<and>
       task_db t v = task_db s v \<and> kept (fut (tcache s) v) (fut (tcache t) v)"
    and "(map_of (dispatched (disp t)) u = None) = (runs t u = None)"
    and "future_ok (fut (tcache t) u) (task_db t u) (runs t u)"
    and "result_ok (is_task_cancelled u (disp t)) (task_db t u) (runs t u)"
    and "set (loads t) \<subseteq> set (loads s)" "task_db s u = None \<or> task_db t u = task_db s u"
  shows "tasks_inv t"
proof -
  have "future_ok (fut (tcache t) v) (task_db t v) (runs t v)" for v
    using assms(6) others[of v] kept_ok[OF _ tasks_invD(4)[OF assms(1)], of v] by (cases "v = u") auto
  moreover have "result_ok (is_task_cancelled v (disp t)) (task_db t v) (runs t v)" for v
    using assms(7) others[of v] tasks_invD(5)[OF assms(1), of v] by (cases "v = u") (auto simp: is_task_cancelled_def)
  moreover have "(map_of (dispatched (disp t)) v = None) = (runs t v = None)" for v
    using assms(5) others[of v] tasks_invD(3)[OF assms(1), of v] by (cases "v = u") auto
  moreover have "task_db t v = Some r" if "(v, r) \<in> set (loads t)" for v r
  proof -
    have "task_db s v = Some r" using that assms(8) tasks_invD(6)[OF assms(1)] by blast
    then show ?thesis using others[of v] assms(9) by (cases "v = u") auto
  qed
  ultimately show ?thesis using assms(2,3) unfolding tasks_inv_def by blast
qed

lemma cache_inv:
  assumes "tasks_inv s" "keys_ok c" "\<And>v. kept (fut (tcache s) v) (fut c v)"
  shows "tasks_inv (s\<lparr>tcache := c\<rparr>)"
  using assms kept_ok[OF assms(3) tasks_invD(4)[OF assms(1)]] unfolding tasks_inv_def by simp

lemma dispatch_inv:
  "tasks_inv s \<Longrightarrow> in_time s (Dispatch ts) \<Longrightarrow> tasks_inv (fst (dispatch now ts s))"
proof (induction now ts s rule: dispatch.induct)
  case (2 now e ts s)
  let ?u = "task_uuid e"
  show ?case
  proof (cases "stop_requested (disp s) \<or> ?u \<in> fst ` set (dispatched (disp s)) \<or> (\<exists>x. put_pending_task now e (tcache s) = Inl x)")
    case True
    then show ?thesis using 2 by (auto simp: in_time_def)
  next
    case False
    then obtain c where c: "put_pending_task now e (tcache s) = Inr c" by (cases "put_pending_task now e (tcache s)") auto
    let ?s = "s\<lparr>tcache := c, disp := (disp s)\<lparr>dispatched := dict_set ?u False (dispatched (disp s))\<rparr>, runs := (runs s)(?u := Some Ready)\<rparr>"
    note pe = put_pending_effect[OF c tasks_invD(1)[OF "2.prems"(1)]]
    have "tasks_inv ?s"
    proof (rule local_inv[OF "2.prems"(1), where u = ?u])
      show "future_ok (fut (tcache ?s) ?u) (task_db ?s ?u) (runs ?s ?u)" using pe by (auto simp: future_ok_def fut_def)
      show "result_ok (is_task_cancelled ?u (disp ?s)) (task_db ?s ?u) (runs ?s ?u)"
        using "2.prems"(2) False by (simp add: result_ok_def in_time_def)
      fix v assume "v \<noteq> ?u"
      with pe have "look c v = look (tcache s) v \<or> look c v = None \<and> (\<exists>r info. look (tcache s) v = Some (Some r, info))" by blast
      with \<open>v \<noteq> ?u\<close> show "map_of (dispatched (disp ?s)) v = map_of (dispatched (disp s)) v \<and> runs ?s v = runs s v \<and> task_db ?s v = task_db s v \<and>
        kept (fut (tcache s) v) (fut (tcache ?s) v)"
        by (auto simp: map_of_dict_set fut_def kept_def)
    qed (use pe tasks_invD(2)[OF "2.prems"(1)] in \<open>simp_all add: dict_set_distinct map_of_dict_set\<close>)
    moreover have "in_time ?s (Dispatch ts)"
      using "2.prems"(2) by (auto simp: in_time_def dict_set_keys list_all_iff)
    ultimately show ?thesis using "2.IH"(2) False c by auto
  qed
qed simp

text \<open>A coroutine that moves on: its future, its result.\<close>

lemma run_inv:
  assumes "tasks_inv s" "runs s u = Some x" "keys_ok c" "\<And>v. v \<noteq> u \<Longrightarrow> fut c v = fut (tcache s) v"
    "future_ok (fut c u) d (Some y)" "result_ok (is_task_cancelled u (disp s)) d (Some y)"
    "task_db s u = None \<or> d = task_db s u"
  shows "tasks_inv (s\<lparr>tcache := c, runs := (runs s)(u := Some y), task_db := (task_db s)(u := d)\<rparr>)"
  by (rule local_inv[OF assms(1), where u = u])
    (use assms tasks_invD(2)[OF assms(1)] tasks_invD(3)[OF assms(1), of u] in \<open>auto simp: kept_def\<close>)

lemma move_inv:
  assumes "tasks_inv s" "runs s u = Some x" "keys_ok c" "\<And>v. v \<noteq> u \<Longrightarrow> fut c v = fut (tcache s) v"
    "future_ok (fut c u) (task_db s u) (Some y)" "result_ok (is_task_cancelled u (disp s)) (task_db s u) (Some y)"
  shows "tasks_inv (s\<lparr>tcache := c, runs := (runs s)(u := Some y)\<rparr>)"
  using run_inv[OF assms(1,2,3,4,5,6)] by simp

lemma plain_move_inv:
  assumes "tasks_inv s" "runs s u = Some x" "active (Some y) \<Longrightarrow> active (Some x)"
    "result_ok (is_task_cancelled u (disp s)) (task_db s u) (Some y)"
  shows "tasks_inv (s\<lparr>runs := (runs s)(u := Some y)\<rparr>)"
  using move_inv[OF assms(1,2) tasks_invD(1)[OF assms(1)] refl _ assms(4)] tasks_invD(4)[OF assms(1), of u] assms(2,3)
  by (simp add: future_ok_def)

lemma info_fut: "keys_ok c \<Longrightarrow> keys_ok (update_task_info u st occ sched it failed c) \<and> fut (update_task_info u st occ sched it failed c) = fut c"
  using update_info_look by (simp add: fut_def fun_eq_iff)

lemma info_inv:
  assumes "tasks_inv s" "runs s u = Some x" "active (Some y) \<Longrightarrow> active (Some x)"
    "result_ok (is_task_cancelled u (disp s)) (task_db s u) (Some y)"
  shows "tasks_inv (s\<lparr>tcache := update_task_info u st occ sched it failed (tcache s), runs := (runs s)(u := Some y)\<rparr>)"
  using move_inv[OF assms(1,2) _ _ _ assms(4)] info_fut[OF tasks_invD(1)[OF assms(1)]] tasks_invD(4)[OF assms(1), of u] assms(2,3)
  by (simp add: future_ok_def)

lemma finish_inv:
  assumes "tasks_inv s" "runs s u = Some (Stored r)"
  shows "tasks_inv (s\<lparr>tcache := finish_task now u r (tcache s), runs := (runs s)(u := Some Run_done)\<rparr>)"
proof -
  let ?c = "finish_task now u r (tcache s)"
  have f: "fut (tcache s) u = Some None" using tasks_invD(4)[OF assms(1), of u] assms(2) by (simp add: future_ok_def active_def)
  have d: "task_db s u = Some r" "is_task_cancelled u (disp s) \<longrightarrow> r = cancelled_status"
    using tasks_invD(5)[OF assms(1), of u] assms(2) by (simp_all add: result_ok_def)
  have l: "keys_ok ?c" "\<And>v. fut ?c v = (if v = u then Some (Some r) else fut (tcache s) v)"
    using finish_look[OF tasks_invD(1)[OF assms(1)], of now u r] f by (auto simp: fut_def)
  show ?thesis by (rule move_inv[OF assms l(1)]) (use l(2) d in \<open>simp_all add: future_ok_def result_ok_def active_def\<close>)
qed

lemma cancel_inv:
  assumes "tasks_inv s" "runs s u \<in> {None, Some Ready, Some Executing, Some Backing_off}"
  shows "tasks_inv (snd (cancel_task u s))"
proof (cases "map_of (dispatched (disp s)) u = Some False")
  case True
  let ?t = "s\<lparr>disp := (disp s)\<lparr>dispatched := dict_set u True (dispatched (disp s))\<rparr>, interrupted := insert u (interrupted s)\<rparr>"
  have r: "runs s u \<noteq> None" using tasks_invD(3)[OF assms(1), of u] True by simp
  have "tasks_inv ?t"
  proof (rule local_inv[OF assms(1), where u = u])
    show "result_ok (is_task_cancelled u (disp ?t)) (task_db ?t u) (runs ?t u)"
      using tasks_invD(5)[OF assms(1), of u] assms(2) r by (auto simp: result_ok_def)
  qed (use tasks_invD[OF assms(1)] r in \<open>auto simp: dict_set_distinct map_of_dict_set kept_def\<close>)
  then show ?thesis using True by (simp add: cancel_task_def)
next
  case False
  then show ?thesis using assms(1) by (auto simp: cancel_task_def split: option.splits bool.splits)
qed

text \<open>A result that the database has may be put where no coroutine is on its way.\<close>

lemma resolved_inv:
  assumes "tasks_inv s" "evicts c1 c" "\<And>v. v \<noteq> u \<Longrightarrow> fut c1 v = fut (tcache s) v"
    "fut c1 u = fut (tcache s) u \<or> \<not> active (runs s u) \<and> fut c1 u = Some (task_db s u)"
  shows "tasks_inv (s\<lparr>tcache := c\<rparr>)"
proof (rule local_inv[OF assms(1), where u = u])
  show "map_of (dispatched (disp (s\<lparr>tcache := c\<rparr>))) v = map_of (dispatched (disp s)) v \<and> runs (s\<lparr>tcache := c\<rparr>) v = runs s v \<and>
      task_db (s\<lparr>tcache := c\<rparr>) v = task_db s v \<and> kept (fut (tcache s) v) (fut (tcache (s\<lparr>tcache := c\<rparr>)) v)" if "v \<noteq> u" for v
    using evicts_kept[OF assms(2), of v] assms(3)[OF that] by simp
  have "future_ok (fut c1 u) (task_db s u) (runs s u)" using tasks_invD(4)[OF assms(1), of u] assms(4) by (auto simp: future_ok_def)
  then show "future_ok (fut (tcache (s\<lparr>tcache := c\<rparr>)) u) (task_db (s\<lparr>tcache := c\<rparr>) u) (runs (s\<lparr>tcache := c\<rparr>) u)"
    using kept_ok[OF evicts_kept[OF assms(2)]] by simp
qed (use assms(2) tasks_invD(2,3,5)[OF assms(1)] in \<open>auto simp: evicts_def\<close>)

lemma drop_inv:
  assumes "tasks_inv s" "\<not> active (runs s u)"
  shows "tasks_inv (s\<lparr>disp := (disp s)\<lparr>dispatched := dict_del u (dispatched (disp s))\<rparr>, runs := (runs s)(u := None), interrupted := I\<rparr>)"
  by (rule local_inv[OF assms(1), where u = u])
    (use assms(2) tasks_invD(1,2)[OF assms(1)] tasks_invD(4)[OF assms(1), of u] in
      \<open>auto simp: kept_def map_of_dict_del dict_del_distinct future_ok_def result_ok_def active_def is_task_cancelled_def\<close>)

lemma cleanup_done_inv:
  assumes "tasks_inv s" "runs s u = Some Cleaned"
  shows "tasks_inv (cleanup_done now u s)"
proof -
  let ?c = "if is_task_cancelled u (disp s) then resolve_future now u cancelled_status (tcache s) else tcache s"
  have a: "\<not> active (runs s u)" using assms(2) by (simp add: active_def)
  have "tasks_inv (s\<lparr>tcache := ?c\<rparr>)"
  proof (cases "is_task_cancelled u (disp s)")
    case True
    then have d: "task_db s u = Some cancelled_status" using tasks_invD(5)[OF assms(1), of u] assms(2) by (simp add: result_ok_def)
    obtain c1 where c1: "evicts c1 ?c" "fut c1 = (if fut (tcache s) u = Some None then (fut (tcache s))(u \<mapsto> Some cancelled_status) else fut (tcache s))"
      using resolve_evicts[OF tasks_invD(1)[OF assms(1)], of now u cancelled_status] True by auto
    show ?thesis by (rule resolved_inv[OF assms(1) c1(1), where u = u]) (use c1(2) a d in auto)
  qed (use assms(1) in simp)
  from drop_inv[OF this, of u "interrupted s - {u}"] a show ?thesis by (simp add: cleanup_done_def)
qed

lemma put_inv:
  assumes "tasks_inv s" "(u, r) \<in> set (loads s)"
  shows "tasks_inv (s\<lparr>loads := remove1 (u, r) (loads s), tcache := put_with_response_or_error u r ts m it (tcache s)\<rparr>)"
proof -
  let ?c = "put_with_response_or_error u r ts m it (tcache s)"
  have d: "task_db s u = Some r" by (rule tasks_invD(6)[OF assms])
  have a: "\<not> active (runs s u)" if "fut (tcache s) u = None" using tasks_invD(4)[OF assms(1), of u] that by (auto simp: future_ok_def)
  obtain c1 where c1: "evicts c1 ?c" "fut c1 = (if fut (tcache s) u = None then (fut (tcache s))(u \<mapsto> Some r) else fut (tcache s))"
    using put_evicts[OF tasks_invD(1)[OF assms(1)]] by blast
  have i: "tasks_inv (s\<lparr>tcache := ?c\<rparr>)" by (rule resolved_inv[OF assms(1) c1(1), where u = u]) (use c1(2) a d in auto)
  show ?thesis by (rule local_inv[OF i, where u = u]) (use tasks_invD[OF i] set_remove1_subset[of "(u, r)" "loads s"] in \<open>auto simp: kept_def\<close>)
qed

lemma load_inv: "tasks_inv s \<Longrightarrow> task_db s u = Some r \<Longrightarrow> tasks_inv (s\<lparr>loads := (u, r) # loads s\<rparr>)"
  unfolding tasks_inv_def by auto

lemma prepared_inv: "tasks_inv s \<Longrightarrow> tasks_inv (s\<lparr>tcache := (tcache s)\<lparr>prepared_tasks := ps\<rparr>\<rparr>)"
  by (rule cache_inv) (simp_all add: kept_def fut_def look_def keys_ok_def tasks_inv_def)

lemma stop_inv: "tasks_inv s \<Longrightarrow> tasks_inv (stop s)"
proof -
  have "is_task_cancelled u (disp (stop s)) = is_task_cancelled u (disp s)" for u by (simp add: is_task_cancelled_def stop_def)
  then show "tasks_inv s \<Longrightarrow> tasks_inv (stop s)" unfolding tasks_inv_def by (simp add: stop_def)
qed

lemma fold_prepared:
  assumes "\<And>u c. \<exists>ps. f u c = c\<lparr>prepared_tasks := ps\<rparr>"
  shows "\<exists>ps. fold f us c = (c :: 'r tasks_cache)\<lparr>prepared_tasks := ps\<rparr>"
proof (induction us arbitrary: c)
  case Nil
  show ?case by (rule exI[of _ "prepared_tasks c"]) simp
next
  case (Cons u us)
  from assms obtain ps where "f u c = c\<lparr>prepared_tasks := ps\<rparr>" by blast
  with Cons[of "f u c"] show ?case by auto
qed

lemma fold_prepared_task: "\<exists>ps. fold transaction_prepared_task us c = c\<lparr>prepared_tasks := ps\<rparr>"
  by (rule fold_prepared) (auto simp: transaction_prepared_task_def)

lemma fold_aborted_task: "\<exists>ps. fold transaction_aborted_task us c = c\<lparr>prepared_tasks := ps\<rparr>"
  by (rule fold_prepared) (auto simp: transaction_aborted_task_def)

lemma store_inv:
  assumes "tasks_inv s" "runs s u = Some Executing" "is_task_cancelled u (disp s) \<longrightarrow> r = cancelled_status"
  shows "tasks_inv (s\<lparr>runs := (runs s)(u := Some (Stored r)), task_db := (task_db s)(u := Some r)\<rparr>)"
  using run_inv[OF assms(1,2) tasks_invD(1)[OF assms(1)] refl, of "Some r" "Stored r"] tasks_invD(4,5)[OF assms(1), of u] assms(2,3)
  by (simp add: future_ok_def result_ok_def active_def)

lemma complete_cancelled_inv:
  assumes "tasks_inv s" "runs s u = Some Completing"
  shows "tasks_inv (s\<lparr>runs := (runs s)(u := Some Cleaned), task_db := (task_db s)(u := Some cancelled_status)\<rparr>)"
  using run_inv[OF assms(1,2) tasks_invD(1)[OF assms(1)] refl, of "Some cancelled_status" Cleaned] tasks_invD(4,5)[OF assms(1), of u] assms(2)
  by (auto simp: future_ok_def result_ok_def active_def)

lemma interrupt_inv:
  assumes "tasks_inv s" "runs s u = Some x" "active (Some x)"
  shows "tasks_inv (s\<lparr>runs := (runs s)(u := Some Run_done)\<rparr>)"
  by (rule plain_move_inv[OF assms(1,2)])
    (use tasks_invD(5)[OF assms(1), of u] assms(2,3) in \<open>auto simp: active_def result_ok_def split: run.splits\<close>)

lemma cleanup_inv:
  assumes "tasks_inv s" "runs s u = Some Run_done"
  shows "tasks_inv (cleanup_async u s)"
  unfolding cleanup_async_def
  by (rule plain_move_inv[OF assms]) (use tasks_invD(5)[OF assms(1), of u] assms(2) in \<open>auto simp: active_def result_ok_def split: if_splits\<close>)

lemma task_step_inv:
  assumes "tasks_inv s" "task_safe_step s (now, e) t"
  shows "tasks_inv t"
proof -
  note ok = tasks_invD(5)[OF assms(1)]
  have do: "task_do now e s = Some t" and time: "in_time s e" using assms(2) by (auto simp: task_safe_step_def task_step_def)
  show ?thesis
  proof (cases e)
    case (Dispatch ts) then show ?thesis using do time dispatch_inv[OF assms(1)] by auto
  next
    case (Begin u) then show ?thesis using do ok[of u] info_inv[OF assms(1), of u Ready Executing]
      by (auto simp: active_def result_ok_def split: if_splits)
  next
    case (Iterate u i sched) then show ?thesis
      using do cache_inv[OF assms(1)] info_fut[OF tasks_invD(1)[OF assms(1)]] by (auto simp: kept_def split: if_splits)
  next
    case (Store u r) then show ?thesis using do time store_inv[OF assms(1)] by (auto simp: in_time_def split: if_splits)
  next
    case (Return u) then show ?thesis using do finish_inv[OF assms(1)] by (auto split: option.splits run.splits)
  next
    case (Fail u n) then show ?thesis using do ok[of u] info_inv[OF assms(1), of u Executing Backing_off]
      by (auto simp: active_def result_ok_def split: if_splits)
  next
    case (Retry u) then show ?thesis using do ok[of u] plain_move_inv[OF assms(1), of u Backing_off Ready]
      by (auto simp: active_def result_ok_def split: if_splits)
  next
    case (Interrupt u)
    then obtain x where "runs s u = Some x" "active (Some x)" "t = s\<lparr>runs := (runs s)(u := Some Run_done)\<rparr>"
      using do by (auto simp: active_def split: if_splits run.splits)
    then show ?thesis using interrupt_inv[OF assms(1)] by simp
  next
    case (Cancel u) then show ?thesis using do time cancel_inv[OF assms(1)] by (auto simp: in_time_def)
  next
    case Stop then show ?thesis using do stop_inv[OF assms(1)] by auto
  next
    case (Cleanup u) then show ?thesis using do cleanup_inv[OF assms(1)] by (auto split: if_splits)
  next
    case (Complete u) then show ?thesis using do complete_cancelled_inv[OF assms(1)] by (auto split: if_splits)
  next
    case (Complete_failed u) then show ?thesis using time by (simp add: in_time_def)
  next
    case (Cleanup_done u) then show ?thesis using do cleanup_done_inv[OF assms(1)] by (auto split: if_splits)
  next
    case (Prepare_tasks us) then show ?thesis using do prepared_inv[OF assms(1)] fold_prepared_task[of us "tcache s"] by auto
  next
    case (Abort_tasks us) then show ?thesis using do prepared_inv[OF assms(1)] fold_aborted_task[of us "tcache s"] by auto
  next
    case (Wait u)
    have "evicts (tcache s) (snd (cache_get u (tcache s)))" by (rule get_evicts[OF tasks_invD(1)[OF assms(1)]])
    then show ?thesis using do Wait cache_inv[OF assms(1)] evicts_kept by (fastforce simp: evicts_def)
  next
    case (Load u) then show ?thesis using do load_inv[OF assms(1)] by (auto split: option.splits if_splits)
  next
    case (Put u r m it) then show ?thesis using do put_inv[OF assms(1)] by (auto split: if_splits)
  qed
qed

definition tasks_initial :: "'r tasks_sys \<Rightarrow> bool" where
  "tasks_initial s \<longleftrightarrow> (\<exists>db. s = tasks_init db)"

lemma tasks_init_inv: "tasks_inv (tasks_init db)"
  by (simp add: tasks_inv_def tasks_init_def cache_init_def keys_ok_def fut_def look_def future_ok_def result_ok_def active_def
      is_task_cancelled_def)

interpretation tasks: invariant_system tasks_initial task_safe_step tasks_inv
  by unfold_locales (auto simp: tasks_initial_def intro: tasks_init_inv task_step_inv)

section \<open>What trimming leaves\<close>

lemma uuids_to_remove_spec:
  assumes "distinct (map fst d)" "length d \<le> n"
  shows "\<exists>k. filter (\<lambda>e. fst e \<notin> set (uuids_to_remove n d)) d = filter (\<lambda>e. fst (snd e) = None) (take k d) @ drop k d \<and>
    (n - length (uuids_to_remove n d) \<le> TASKS_RESPONSES_CACHE_TARGET_CAPACITY \<or> length d \<le> k) \<and>
    (uuids_to_remove n d \<noteq> [] \<longrightarrow> TASKS_RESPONSES_CACHE_TARGET_CAPACITY \<le> n - length (uuids_to_remove n d))"
  using assms
proof (induction n d rule: uuids_to_remove.induct)
  case (2 n u f i d)
  let ?T = TASKS_RESPONSES_CACHE_TARGET_CAPACITY
  have u: "u \<notin> fst ` set d" "u \<notin> set (uuids_to_remove m d)" for m using "2.prems"(1) removed_distinct[of d m] by auto
  have head: "filter (\<lambda>e. fst e \<noteq> u \<and> P e) d = filter P d" for P by (rule filter_cong) (use u(1) in auto)
  have head1: "filter (\<lambda>e. fst e \<noteq> u) d = d" using head[of "\<lambda>_. True"] by simp
  consider "n \<le> ?T" | "\<not> n \<le> ?T" "f \<noteq> None" | "\<not> n \<le> ?T" "f = None" by blast
  then show ?case
  proof cases
    case 1
    then show ?thesis by (intro exI[of _ 0]) simp
  next
    case 2
    have len: "length d \<le> n - 1" using "2.prems"(2) by simp
    with 2 "2.IH"(1)[OF 2 _ len] "2.prems"(1) obtain k where
      "filter (\<lambda>e. fst e \<notin> set (uuids_to_remove (n - 1) d)) d = filter (\<lambda>e. fst (snd e) = None) (take k d) @ drop k d"
      "n - 1 - length (uuids_to_remove (n - 1) d) \<le> ?T \<or> length d \<le> k"
      "uuids_to_remove (n - 1) d \<noteq> [] \<longrightarrow> ?T \<le> n - 1 - length (uuids_to_remove (n - 1) d)" by auto
    then show ?thesis using 2 by (intro exI[of _ "Suc k"]) (cases "uuids_to_remove (n - 1) d = []", auto simp: head head1)
  next
    case 3
    with "2.IH"(2) "2.prems" obtain k where
      "filter (\<lambda>e. fst e \<notin> set (uuids_to_remove n d)) d = filter (\<lambda>e. fst (snd e) = None) (take k d) @ drop k d"
      "n - length (uuids_to_remove n d) \<le> ?T \<or> length d \<le> k"
      "uuids_to_remove n d \<noteq> [] \<longrightarrow> ?T \<le> n - length (uuids_to_remove n d)" by auto
    then show ?thesis using 3 u(2) by (intro exI[of _ "Suc k"]) simp
  qed
qed simp

lemma removed_length:
  assumes "distinct (map fst d)"
  shows "length (filter (\<lambda>e. fst e \<notin> set (uuids_to_remove n d)) d) = length d - length (uuids_to_remove n d)"
proof -
  let ?R = "set (uuids_to_remove n d)"
  note rd = removed_distinct[OF assms, of n]
  have "length (filter (\<lambda>e. fst e \<notin> ?R) d) = length (filter (\<lambda>u. u \<notin> ?R) (map fst d))"
    by (simp add: filter_map comp_def)
  also have "\<dots> = card (set (filter (\<lambda>u. u \<notin> ?R) (map fst d)))"
    using assms by (intro distinct_card[symmetric] distinct_filter)
  also have "set (filter (\<lambda>u. u \<notin> ?R) (map fst d)) = fst ` set d - ?R" by auto
  also have "card \<dots> = card (fst ` set d) - card ?R" using rd by (simp add: card_Diff_subset)
  also have "card (fst ` set d) = length d" using assms by (metis distinct_card length_map set_map)
  finally show ?thesis using rd by (simp add: distinct_card)
qed

text \<open>
  Trimming drops, of the least recently used entries, exactly those whose task is done: what is left is a
  suffix of the cache and, before it, the pending entries.  It stops as soon as the target capacity is
  reached, and goes beyond it only for pending entries.
\<close>

theorem trim_cache_drops_least_recently_used:
  assumes "distinct (map fst (entries c))"
  shows "\<exists>k. entries (trim_cache c) = filter (\<lambda>e. fst (snd e) = None) (take k (entries c)) @ drop k (entries c) \<and>
    (length (entries (trim_cache c)) \<le> TASKS_RESPONSES_CACHE_TARGET_CAPACITY \<or>
      (\<forall>e \<in> set (entries (trim_cache c)). fst (snd e) = None)) \<and>
    (entries (trim_cache c) = entries c \<or> TASKS_RESPONSES_CACHE_TARGET_CAPACITY \<le> length (entries (trim_cache c)))"
proof -
  let ?n = "length (entries c)" and ?d = "entries c"
  obtain k where k: "filter (\<lambda>e. fst e \<notin> set (uuids_to_remove ?n ?d)) ?d = filter (\<lambda>e. fst (snd e) = None) (take k ?d) @ drop k ?d"
    "?n - length (uuids_to_remove ?n ?d) \<le> TASKS_RESPONSES_CACHE_TARGET_CAPACITY \<or> ?n \<le> k"
    "uuids_to_remove ?n ?d \<noteq> [] \<longrightarrow> TASKS_RESPONSES_CACHE_TARGET_CAPACITY \<le> ?n - length (uuids_to_remove ?n ?d)"
    using uuids_to_remove_spec[OF assms order_refl] by blast
  have e: "entries (trim_cache c) = filter (\<lambda>e. fst e \<notin> set (uuids_to_remove ?n ?d)) ?d" by (simp add: trim_cache_def Let_def)
  have l: "length (entries (trim_cache c)) = ?n - length (uuids_to_remove ?n ?d)" using removed_length[OF assms] e by simp
  have "entries (trim_cache c) = ?d" if "uuids_to_remove ?n ?d = []" using that e by simp
  moreover have "\<forall>e \<in> set (entries (trim_cache c)). fst (snd e) = None" if "?n \<le> k" using that e k(1) by simp
  ultimately show ?thesis using k l e by (intro exI[of _ k]) auto
qed

definition info0 :: task_info where
  "info0 = \<lparr>status = COMPLETED, occurred_at = 0, scheduled_at = None, info_method = [], iterations = 0, num_runs_failed_recently = 0\<rparr>"

definition full_cache :: "nat tasks_cache" where
  "full_cache = \<lparr>entries = (0, None, info0) # map (\<lambda>u. (u, Some (Response u), info0)) [1..<300], prepared_tasks = []\<rparr>"

theorem trim_cache_drops_least_recently_used_witness:
  "(0, None, info0) \<in> set (entries full_cache) \<and> length (entries full_cache) = 300 \<and>
   (\<exists>k. entries (trim_cache full_cache) =
      filter (\<lambda>e. fst (snd e) = None) (take k (entries full_cache)) @ drop k (entries full_cache)) \<and>
   (entries (trim_cache full_cache) = entries full_cache \<or>
      TASKS_RESPONSES_CACHE_TARGET_CAPACITY \<le> length (entries (trim_cache full_cache)))"
proof -
  have "distinct (map fst (entries full_cache))" by (simp add: full_cache_def comp_def del: upt_rec_numeral)
  from trim_cache_drops_least_recently_used[OF this] show ?thesis by (auto simp: full_cache_def simp del: upt_rec_numeral)
qed

lemma dispatch_db: "task_db (fst (dispatch now ts s)) = task_db s"
  by (induction now ts s rule: dispatch.induct) (auto split: sum.splits)

lemma cancel_db: "task_db (snd (cancel_task u s)) = task_db s"
  by (auto simp: cancel_task_def split: option.splits bool.splits)

lemma task_db_final:
  assumes "tasks_inv s" "task_safe_step s e t" "task_db s u = Some r"
  shows "task_db t u = Some r"
proof -
  obtain now ev where e: "e = (now, ev)" by (cases e)
  have do: "task_do now ev s = Some t" using assms(2) e by (simp add: task_safe_step_def task_step_def)
  have r: "result_ok (is_task_cancelled u (disp s)) (task_db s u) (runs s u)" by (rule tasks_invD(5)[OF assms(1)])
  show ?thesis
    using do assms(3) r
    by (cases ev) (auto simp: dispatch_db cancel_db stop_def cleanup_async_def cleanup_done_def result_ok_def
        split: if_splits option.splits run.splits)
qed

section \<open>Cached results\<close>

text \<open>
  (C15) What a waiter finds in the cache is what the database has, and whoever waits for a task that is on
  its way finds its pending future, in every run in which only tasks without a result are dispatched, no task is
  cancelled once its result is on its way, a task that is cancelled stores its cancellation and nothing else, and
  the database call with which the clean-up of a cancelled task stores the cancellation does not fail.
\<close>

theorem cached_results_agree_with_database:
  assumes "reach tasks_initial task_safe_step s"
  shows "(\<forall>u r info. map_of (entries (tcache s)) u = Some (Some r, info) \<longrightarrow> task_db s u = Some r) \<and>
    (\<forall>u. runs s u \<in> {Some Ready, Some Executing, Some Backing_off} \<longrightarrow> (\<exists>info. map_of (entries (tcache s)) u = Some (None, info)))"
proof -
  have "future_ok (map_option fst (map_of (entries (tcache s)) u)) (task_db s u) (runs s u)" for u
    using tasks_invD(4)[OF tasks.reach_inv[OF assms], of u] by (simp add: fut_def look_def)
  then show ?thesis by (fastforce simp: future_ok_def active_def)
qed

text \<open>
  The result of a task is stored once: no later step of such a run, a cancellation included, replaces it.
\<close>

theorem stored_result_is_final:
  assumes "reach tasks_initial task_safe_step s" "steps task_safe_step s es t" "task_db s u = Some r"
  shows "task_db t u = Some r"
  using assms(2,1,3)
proof (induction rule: steps.induct)
  case (steps_Cons s e t es v)
  have i: "tasks_inv s" by (rule tasks.reach_inv[OF steps_Cons.prems(1)])
  have "task_db t u = Some r" using task_db_final[OF i steps_Cons.hyps(1)] steps_Cons.prems(2) by simp
  then show ?case using steps_Cons.IH reach_step[OF steps_Cons.prems(1) steps_Cons.hyps(1)] by simp
qed simp

section \<open>Evicted tasks\<close>

lemma dispatch_keeps_pending:
  "keys_ok (tcache s) \<Longrightarrow> fut (tcache s) u = Some None \<Longrightarrow> fut (tcache (fst (dispatch now ts s))) u \<noteq> None"
proof (induction now ts s rule: dispatch.induct)
  case (2 now e ts s)
  show ?case
  proof (cases "put_pending_task now e (tcache s)")
    case (Inr c)
    note pe = put_pending_effect[OF Inr "2.prems"(1)]
    have "fut c u = Some None" using pe "2.prems"(2) by (cases "u = task_uuid e") (auto simp: fut_def)
    then show ?thesis using 2 Inr pe by auto
  qed (use 2 in auto)
qed simp

lemma evicts_pending: "evicts c c' \<Longrightarrow> fut c u = Some None \<Longrightarrow> fut c' u = Some None"
  by (auto simp: evicts_def) (metis option.distinct(1) option.inject)

lemma put_keeps_pending:
  assumes "keys_ok c" "fut c u = Some None"
  shows "fut (put_with_response_or_error v r ts m it c) u = Some None"
proof -
  obtain c1 where c1: "evicts c1 (put_with_response_or_error v r ts m it c)"
    "fut c1 = (if fut c v = None then (fut c)(v \<mapsto> Some r) else fut c)" using put_evicts[OF assms(1)] by blast
  have "fut c1 u = Some None" using c1(2) assms(2) by auto
  then show ?thesis by (rule evicts_pending[OF c1(1)])
qed

lemma resolve_keeps_pending:
  assumes "keys_ok c" "fut c u = Some None" "v \<noteq> u"
  shows "fut (resolve_future now v r c) u = Some None"
proof -
  obtain c1 where c1: "evicts c1 (resolve_future now v r c)"
    "fut c1 = (if fut c v = Some None then (fut c)(v \<mapsto> Some r) else fut c)" using resolve_evicts[OF assms(1)] by blast
  have "fut c1 u = Some None" using c1(2) assms(2,3) by auto
  then show ?thesis by (rule evicts_pending[OF c1(1)])
qed

lemma cleanup_keeps_pending:
  assumes "tasks_inv s" "fut (tcache s) u = Some None" "task_db s u = None" "runs s v = Some Cleaned"
  shows "fut (tcache (cleanup_done now v s)) u = Some None"
proof (cases "is_task_cancelled v (disp s)")
  case True
  then have "v \<noteq> u" using tasks_invD(5)[OF assms(1), of v] assms(3,4) by (auto simp: result_ok_def)
  then show ?thesis using resolve_keeps_pending[OF tasks_invD(1)[OF assms(1)] assms(2)] True by (simp add: cleanup_done_def)
qed (use assms(2) in \<open>simp add: cleanup_done_def\<close>)

lemma step_keeps_pending:
  assumes "tasks_inv s" "fut (tcache s) u = Some None" "task_db s u = None" "task_do now e s = Some t"
  shows "fut (tcache t) u \<noteq> None"
proof -
  note k = tasks_invD(1)[OF assms(1)]
  have info: "fut (update_task_info v st occ sched it failed (tcache s)) u = Some None" for v st occ sched it failed
    using info_fut[OF k] assms(2) by simp
  have fin: "fut (finish_task now v r (tcache s)) u \<noteq> None" for v r
    using finish_look[OF k, of now v r] assms(2) by (auto simp: fut_def)
  have prep: "fut (fold transaction_prepared_task us (tcache s)) u = Some None" "fut (fold transaction_aborted_task us (tcache s)) u = Some None" for us
    using fold_prepared_task[of us "tcache s"] fold_aborted_task[of us "tcache s"] assms(2) by (auto simp: fut_def look_def)
  show ?thesis
    using assms(4) dispatch_keeps_pending[OF k assms(2)] info fin prep evicts_pending[OF get_evicts[OF k] assms(2)]
      put_keeps_pending[OF k assms(2)] cleanup_keeps_pending[OF assms(1-3)] assms(2)
    by (cases e) (auto simp: cancel_task_def stop_def cleanup_async_def split: if_splits option.splits run.splits bool.splits)
qed

text \<open>
  A waiter who does not find a task that was once in the cache can load its result: only tasks whose
  result the database has are evicted.  This is the invariant on which \<open>Wait\<close> relies when it asserts that what it
  loads is not \<open>None\<close>.
\<close>

theorem evicted_task_has_result:
  assumes "reach tasks_initial task_safe_step s" "u \<in> fst ` set (entries (tcache s))" "steps task_safe_step s es t"
  shows "u \<in> fst ` set (entries (tcache t)) \<or> (\<exists>r. task_db t u = Some r)"
proof -
  have "fut (tcache t) u \<noteq> None \<or> task_db t u \<noteq> None" if "fut (tcache s) u \<noteq> None \<or> task_db s u \<noteq> None"
    using assms(3,1) that
  proof (induction rule: steps.induct)
    case (steps_Cons s e t es v)
    note i = tasks.reach_inv[OF steps_Cons.prems(1)]
    have "fut (tcache t) u \<noteq> None \<or> task_db t u \<noteq> None"
    proof (cases "task_db s u")
      case None
      then have "fut (tcache s) u = Some None" using steps_Cons.prems(2) tasks_invD(4)[OF i, of u] by (auto simp: future_ok_def)
      then show ?thesis using step_keeps_pending[OF i _ None] steps_Cons.hyps(1)
        by (metis prod.collapse task_safe_step_def task_step_def)
    qed (use task_db_final[OF i steps_Cons.hyps(1)] in auto)
    then show ?case using steps_Cons.IH reach_step[OF steps_Cons.prems(1) steps_Cons.hyps(1)] by blast
  qed
  then show ?thesis using assms(2) by (auto simp: keys_look fut_def)
qed

section \<open>Concrete runs\<close>

fun task_run :: "(nat \<times> 'r task_event) list \<Rightarrow> 'r tasks_sys \<Rightarrow> 'r tasks_sys option" where
  "task_run [] s = Some s"
| "task_run ((now, e) # es) s = (case task_do now e s of None \<Rightarrow> None | Some t \<Rightarrow> task_run es t)"

fun run_in_time :: "(nat \<times> 'r task_event) list \<Rightarrow> 'r tasks_sys \<Rightarrow> bool" where
  "run_in_time [] s = True"
| "run_in_time ((now, e) # es) s = (in_time s e \<and> (case task_do now e s of None \<Rightarrow> False | Some t \<Rightarrow> run_in_time es t))"

lemma task_run_steps: "task_run es s = Some t \<Longrightarrow> steps task_step s es t"
  by (induction es s rule: task_run.induct) (auto intro: steps.intros simp: task_step_def split: option.splits)

lemma task_run_safe: "task_run es s = Some t \<Longrightarrow> run_in_time es s \<Longrightarrow> steps task_safe_step s es t"
  by (induction es s rule: task_run.induct) (auto intro: steps.intros simp: task_safe_step_def task_step_def split: option.splits)

lemma init_reach: "reach tasks_initial task_safe_step (tasks_init db)"
  by (rule reach_init) (auto simp: tasks_initial_def)

definition task0 :: task_effect where
  "task0 = \<lparr>task_uuid = 7, method_name = [82, 117, 110], schedule = None, iteration = 0\<rparr>"

text \<open>A task that runs, fails once, is retried and returns; up to its result, and to its end.\<close>

definition run0 :: "(nat \<times> nat task_event) list" where
  "run0 = [(1, Dispatch [task0]), (2, Begin 7), (3, Fail 7 5), (5, Retry 7), (5, Begin 7), (6, Store 7 (Response 42))]"

definition run1 :: "(nat \<times> nat task_event) list" where
  "run1 = [(7, Return 7), (8, Wait 7), (8, Cleanup 7), (8, Cleanup_done 7), (9, Cancel 7)]"

definition end0 :: "nat tasks_sys" where "end0 = the (task_run run0 (tasks_init (\<lambda>_. None)))"

definition end1 :: "nat tasks_sys" where "end1 = the (task_run run1 end0)"

lemmas task_eval = tasks_init_def cache_init_def task0_def put_pending_task_def Let_def move_to_end_def dict_del_def trim_cache_def
  update_task_info_def finish_task_def cache_get_def cleanup_async_def cleanup_done_def is_task_cancelled_def cancel_task_def
  resolve_future_def in_time_def TASKS_RESPONSES_CACHE_TARGET_CAPACITY_def py_assert_def

lemma run0_ok: "task_run run0 (tasks_init (\<lambda>_. None)) = Some end0" "run_in_time run0 (tasks_init (\<lambda>_. None))" "task_db end0 7 = Some (Response 42)"
  by (simp_all add: end0_def run0_def task_eval)

lemma run1_ok: "task_run run1 end0 = Some end1" "run_in_time run1 end0"
  by (simp_all add: end1_def end0_def run0_def run1_def task_eval)

lemma end1_cached: "\<exists>info. map_of (entries (tcache end1)) 7 = Some (Some (Response 42), info)"
  by (simp add: end1_def end0_def run0_def run1_def task_eval)

theorem cached_results_agree_with_database_witness:
  "reach tasks_initial task_safe_step end1 \<and> task_db end1 7 = Some (Response 42)"
proof -
  have r: "reach tasks_initial task_safe_step end1"
    by (rule reach_steps[OF task_run_safe[OF run1_ok] reach_steps[OF task_run_safe[OF run0_ok(1,2)] init_reach]])
  with cached_results_agree_with_database[OF r] end1_cached show ?thesis by blast
qed

theorem stored_result_is_final_witness:
  "reach tasks_initial task_safe_step end0 \<and> steps task_safe_step end0 run1 end1 \<and> task_db end1 7 = Some (Response 42)"
proof -
  have r: "reach tasks_initial task_safe_step end0" by (rule reach_steps[OF task_run_safe[OF run0_ok(1,2)] init_reach])
  have s: "steps task_safe_step end0 run1 end1" by (rule task_run_safe[OF run1_ok])
  from stored_result_is_final[OF r s run0_ok(3)] r s show ?thesis by simp
qed

theorem evicted_task_has_result_witness:
  "reach tasks_initial task_safe_step end0 \<and> steps task_safe_step end0 run1 end1 \<and>
   (7 \<in> fst ` set (entries (tcache end1)) \<or> (\<exists>r. task_db end1 7 = Some r))"
proof -
  have r: "reach tasks_initial task_safe_step end0" by (rule reach_steps[OF task_run_safe[OF run0_ok(1,2)] init_reach])
  have s: "steps task_safe_step end0 run1 end1" by (rule task_run_safe[OF run1_ok])
  have c: "7 \<in> fst ` set (entries (tcache end0))" by (simp add: end0_def run0_def task_eval)
  from evicted_task_has_result[OF r c s] r s show ?thesis by blast
qed

section \<open>A cancellation that comes too late\<close>

text \<open>
  (C16) A task that is cancelled after its result was stored and handed to its waiters is stored as cancelled
  all the same: its clean-up finds it marked as cancelled and overwrites the stored response.  Waiters are
  told the response as long as it is cached, and the cancellation once it has been evicted.
\<close>

theorem late_cancel_overwrites_response:
  "\<exists>s. steps task_step (tasks_init (\<lambda>_. None))
     [(1, Dispatch [task0]), (2, Begin 7), (3, Store 7 (Response (42 :: nat))), (4, Return 7), (5, Cancel 7), (6, Cleanup 7),
      (7, Complete 7), (8, Cleanup_done 7)] s \<and>
     (\<exists>info. map_of (entries (tcache s)) 7 = Some (Some (Response 42), info) \<and> status info = COMPLETED) \<and>
     task_db s 7 = Some cancelled_status"
proof -
  let ?es = "[(1, Dispatch [task0]), (2, Begin 7), (3, Store 7 (Response (42 :: nat))), (4, Return 7), (5, Cancel 7), (6, Cleanup 7),
      (7, Complete 7), (8, Cleanup_done 7)]"
  obtain s where s: "task_run ?es (tasks_init (\<lambda>_. None)) = Some s"
    "\<exists>info. map_of (entries (tcache s)) 7 = Some (Some (Response 42), info) \<and> status info = COMPLETED"
    "task_db s 7 = Some cancelled_status"
    by (simp add: task_eval)
  from task_run_steps[OF s(1)] s(2,3) show ?thesis by blast
qed

end
