(* ===== verification/Placement.thy ===== *)
theory Placement
  imports State_Ref "HOL-Library.AList"
begin

text \<open>
  Where states live: the division of the key space into shards (\<open>reboot/controller/shards.py\<close>), the plan that
  assigns shards to servers and servers to replicas (\<open>PlanMaker\<close>, \<open>reboot/controller/plan_makers.py\<close>), what the
  planner makes of it (\<open>PlacementPlanner.make_plan\<close>), and the clients that look up the server of a state
  (\<open>reboot/aio/placement.py\<close>).

  A Python dictionary is an association list, updated in place or at its end.  SHA-1 is a parameter, and
  so are the names of the system services.
\<close>

datatype place_error = Input_error | Assertion | Key_error | Unknown_application | Time_error

section \<open>Names\<close>

definition zero_padded :: "nat \<Rightarrow> nat \<Rightarrow> pystr" where
  "zero_padded w n = replicate (w - length (digits n)) 48 @ digits n"

definition make_server_id :: "pystr \<Rightarrow> nat \<Rightarrow> pystr" where
  "make_server_id application_id server_index = application_id @ str ''-c'' @ zero_padded 6 server_index"

definition make_shard_id :: "nat \<Rightarrow> pystr" where
  "make_shard_id shard_index = str ''s'' @ zero_padded 9 shard_index"

section \<open>Shards\<close>

definition NUM_SHARDS :: nat where "NUM_SHARDS = 2 ^ 14"

definition NUM_BYTE_VALUES :: nat where "NUM_BYTE_VALUES = 256"

text \<open>The loop that finds how many bytes the first key of a shard has.\<close>

function key_length_from :: "nat \<Rightarrow> nat \<Rightarrow> nat" where
  "key_length_from n k = (if NUM_BYTE_VALUES ^ k < n then key_length_from n (k + 1) else k)"
  by pat_completeness auto
termination
proof (relation "measure (\<lambda>(n, k). n - k)")
  fix n k :: nat
  assume "NUM_BYTE_VALUES ^ k < n"
  moreover have "k < NUM_BYTE_VALUES ^ k" by (rule power_gt_expt) (simp add: NUM_BYTE_VALUES_def)
  ultimately show "((n, k + 1), n, k) \<in> measure (\<lambda>(n, k). n - k)" by simp
qed simp

declare key_length_from.simps [simp del]

text \<open>\<open>n.to_bytes(length, "big")\<close>; a number that does not fit would raise, and none of those below is one.\<close>

fun to_bytes :: "nat \<Rightarrow> nat \<Rightarrow> bytes" where
  "to_bytes 0 n = []"
| "to_bytes (Suc l) n = to_bytes l (n div 256) @ [n mod 256]"

definition shard_first_keys :: "bytes list" where
  "shard_first_keys =
     (let key_length = key_length_from NUM_SHARDS 1;
          total_keys = NUM_BYTE_VALUES ^ key_length;
          chunk_size = total_keys div NUM_SHARDS
      in map (\<lambda>i. if i = 0 then [] else to_bytes key_length (i * chunk_size)) [0..<NUM_SHARDS])"

record shard_info =
  shard_id :: pystr
  shard_first_key :: bytes

definition make_shard_infos :: "shard_info list" where
  "make_shard_infos = map (\<lambda>(i, k). \<lparr>shard_id = make_shard_id i, shard_first_key = k\<rparr>) (enumerate 0 shard_first_keys)"

section \<open>\<open>PlanMaker\<close>\<close>

text \<open>\<open>math.log2(n).is_integer()\<close>.\<close>

fun is_power_of_2 :: "nat \<Rightarrow> bool" where
  "is_power_of_2 n = (if n \<le> 1 then n = 1 else n mod 2 = 0 \<and> is_power_of_2 (n div 2))"

declare is_power_of_2.simps [simp del]

definition validate_num_servers :: "nat \<Rightarrow> place_error + unit" where
  "validate_num_servers num_servers =
     (if num_servers = 0 then Inl Input_error
      else if \<not> is_power_of_2 num_servers then Inl Input_error else Inr ())"

record state_spec =
  state_type_full_name :: pystr
  service_full_names :: "pystr list"

record app_config =
  config_id :: pystr
  replicas :: "nat option"
  servers :: "nat option"
  states :: "state_spec list"
  legacy_grpc_service_full_names :: "pystr list"

record plan_shard =
  ps_id :: pystr
  ps_server_id :: pystr
  ps_replica_index :: nat
  ps_first_key :: bytes

record plan_app =
  pa_id :: pystr
  pa_services :: "(pystr \<times> pystr) list"
  pa_shards :: "plan_shard list"

record plan =
  version :: nat
  applications :: "plan_app list"

text \<open>The pairs of a service and its state type, each service once, in order; system services are left out.\<close>

definition add_service :: "pystr set \<Rightarrow> pystr \<Rightarrow> pystr \<Rightarrow> (pystr \<times> pystr) list \<Rightarrow> (pystr \<times> pystr) list" where
  "add_service system state_type service ps =
     (if service \<in> fst ` set ps then ps else if service \<in> system then ps else ps @ [(service, state_type)])"

definition services_of :: "pystr set \<Rightarrow> app_config \<Rightarrow> (pystr \<times> pystr) list" where
  "services_of system cfg =
     fold (add_service system []) (legacy_grpc_service_full_names cfg)
       (fold (\<lambda>st. fold (add_service system (state_type_full_name st)) (service_full_names st)) (states cfg) [])"

definition server_index_for_shard :: "nat \<Rightarrow> nat \<Rightarrow> nat" where
  "server_index_for_shard num_servers shard_index = shard_index mod num_servers"

definition replica_index_for_shard :: "nat \<Rightarrow> nat \<Rightarrow> nat \<Rightarrow> nat" where
  "replica_index_for_shard num_servers num_replicas shard_index =
     server_index_for_shard num_servers shard_index div (num_servers div num_replicas)"

definition plan_application :: "pystr set \<Rightarrow> app_config \<Rightarrow> place_error + plan_app" where
  "plan_application system cfg =
     (case (replicas cfg, servers cfg) of
        (Some num_replicas, Some servers_per_replica) \<Rightarrow>
          let num_servers = servers_per_replica * num_replicas in
          rbind (validate_num_servers num_servers) (\<lambda>_.
          rbind (py_assert Assertion (length make_shard_infos mod num_servers = 0)) (\<lambda>_.
          rbind (py_assert Assertion (num_servers mod num_replicas = 0)) (\<lambda>_.
            Inr \<lparr>pa_id = config_id cfg, pa_services = services_of system cfg,
              pa_shards = map (\<lambda>(i, shard). \<lparr>ps_id = shard_id shard,
                  ps_server_id = make_server_id (config_id cfg) (server_index_for_shard num_servers i),
                  ps_replica_index = replica_index_for_shard num_servers num_replicas i,
                  ps_first_key = shard_first_key shard\<rparr>) (enumerate 0 make_shard_infos)\<rparr>)))
      | _ \<Rightarrow> Inl Assertion)"

fun plan_applications :: "pystr set \<Rightarrow> app_config list \<Rightarrow> place_error + plan_app list" where
  "plan_applications system [] = Inr []"
| "plan_applications system (cfg # cfgs) =
     rbind (plan_application system cfg) (\<lambda>a. rbind (plan_applications system cfgs) (\<lambda>as. Inr (a # as)))"

text \<open>\<open>get_version\<close>: the state of the plan maker is \<open>last_version\<close>; \<open>now\<close> is \<open>time.time_ns()\<close>.\<close>

definition get_version :: "nat \<Rightarrow> nat option \<Rightarrow> place_error + nat \<times> nat option" where
  "get_version now last_version =
     (case last_version of
        Some v \<Rightarrow> if now \<le> v then Inl Time_error else Inr (now, Some now)
      | None \<Rightarrow> Inr (now, Some now))"

definition make_plan :: "pystr set \<Rightarrow> nat \<Rightarrow> app_config list \<Rightarrow> nat option \<Rightarrow> place_error + plan \<times> nat option" where
  "make_plan system now cfgs last_version =
     rbind (plan_applications system cfgs) (\<lambda>as.
     rbind (get_version now last_version) (\<lambda>(v, last_version').
       Inr (\<lparr>version = v, applications = as\<rparr>, last_version')))"

section \<open>The servers of a plan\<close>

record server_spec =
  ss_id :: pystr
  ss_replica_index :: nat
  ss_shards :: "shard_info list"
  ss_application_id :: pystr

text \<open>
  \<open>PlacementPlanner.make_plan\<close>: a server for each identifier, with the shards that are its own; the replica is
  that of the last shard of the server.
\<close>

definition replica_indexes :: "plan_app \<Rightarrow> (pystr \<times> nat) list" where
  "replica_indexes a = fold (\<lambda>s. AList.update (ps_server_id s) (ps_replica_index s)) (pa_shards a) []"

definition application_servers :: "plan_app \<Rightarrow> server_spec list" where
  "application_servers a =
     map (\<lambda>sid. \<lparr>ss_id = sid, ss_replica_index = the (map_of (replica_indexes a) sid),
           ss_shards = map (\<lambda>s. \<lparr>shard_id = ps_id s, shard_first_key = ps_first_key s\<rparr>) (filter (\<lambda>s. ps_server_id s = sid) (pa_shards a)),
           ss_application_id = pa_id a\<rparr>)
       (remdups (map ps_server_id (pa_shards a)))"

definition plan_servers :: "plan \<Rightarrow> (pystr \<times> server_spec) list" where
  "plan_servers p = fold (\<lambda>a. fold (\<lambda>s. AList.update (ss_id s) s) (application_servers a)) (applications p) []"

section \<open>\<open>PlanOnlyPlacementClient\<close>\<close>

record shard_map_entry =
  me_shard_id :: pystr
  me_first_key :: bytes

record placement_client =
  shard_list_by_application :: "(pystr \<times> shard_map_entry list) list"
  server_by_shard :: "(pystr \<times> pystr) list"
  address_by_server :: "(pystr \<times> pystr) list"
  services_by_application :: "(pystr \<times> pystr list) list"
  state_types_by_application :: "(pystr \<times> pystr set) list"
  client_version :: int

definition client_init :: placement_client where
  "client_init = \<lparr>shard_list_by_application = [], server_by_shard = [], address_by_server = [], services_by_application = [],
     state_types_by_application = [], client_version = - 1\<rparr>"

record server_proto =
  sp_id :: pystr
  sp_host :: pystr
  sp_port :: nat

text \<open>
  \<open>_handle_plan\<close>.  The assertion that the keys increase can fail after the tables were emptied and partly
  filled, so the client is returned also with an error.
\<close>

fun handle_shards :: "plan_shard list \<Rightarrow> shard_map_entry list \<Rightarrow> placement_client \<Rightarrow> (shard_map_entry list \<times> placement_client) \<times> place_error option" where
  "handle_shards [] new_shard_list c = ((new_shard_list, c), None)"
| "handle_shards (s # ss) new_shard_list c =
     (if \<not> (new_shard_list = [] \<or> me_first_key (last new_shard_list) < ps_first_key s) then ((new_shard_list, c), Some Assertion)
      else handle_shards ss (new_shard_list @ [\<lparr>me_shard_id = ps_id s, me_first_key = ps_first_key s\<rparr>])
        (c\<lparr>server_by_shard := AList.update (ps_id s) (ps_server_id s) (server_by_shard c)\<rparr>))"

fun handle_applications :: "plan_app list \<Rightarrow> placement_client \<Rightarrow> placement_client \<times> place_error option" where
  "handle_applications [] c = (c, None)"
| "handle_applications (a # as) c =
     (case handle_shards (pa_shards a) [] c of
        ((_, c'), Some e) \<Rightarrow> (c', Some e)
      | ((new_shard_list, c'), None) \<Rightarrow>
          handle_applications as
            (c'\<lparr>shard_list_by_application := AList.update (pa_id a) new_shard_list (shard_list_by_application c'),
               services_by_application := AList.update (pa_id a) (map fst (pa_services a)) (services_by_application c'),
               state_types_by_application := AList.update (pa_id a) (snd ` set (pa_services a)) (state_types_by_application c')\<rparr>))"

definition handle_plan :: "plan \<Rightarrow> server_proto list \<Rightarrow> placement_client \<Rightarrow> placement_client \<times> place_error option" where
  "handle_plan p svs c =
     (case handle_applications (applications p)
        (c\<lparr>shard_list_by_application := [], server_by_shard := [], address_by_server := [], services_by_application := [],
           state_types_by_application := []\<rparr>) of
        (c', Some e) \<Rightarrow> (c', Some e)
      | (c', None) \<Rightarrow>
          (c'\<lparr>address_by_server := fold (\<lambda>sv. AList.update (sp_id sv) (sp_host sv @ colon # digits (sp_port sv))) svs (address_by_server c'),
              client_version := int (version p)\<rparr>, None))"

definition dict_get :: "'e \<Rightarrow> (pystr \<times> 'a) list \<Rightarrow> pystr \<Rightarrow> 'e + 'a" where
  "dict_get e d k = (case map_of d k of None \<Rightarrow> Inl e | Some v \<Rightarrow> Inr v)"

definition shard_for_actor :: "(pystr \<Rightarrow> bytes) \<Rightarrow> placement_client \<Rightarrow> pystr \<Rightarrow> pystr \<Rightarrow> place_error + pystr" where
  "shard_for_actor sha1 c application_id state_ref =
     (case map_of (shard_list_by_application c) application_id of
        None \<Rightarrow> Inl Unknown_application
      | Some shard_list \<Rightarrow>
          if shard_list = [] then Inl Unknown_application
          else rbind (py_assert Assertion (me_first_key (hd shard_list) = [])) (\<lambda>_.
            let state_ref_hash = sha1 (hd (components state_ref));
                index = bisect_right (map me_first_key shard_list) state_ref_hash
            in rbind (py_assert Assertion (1 \<le> index)) (\<lambda>_. Inr (me_shard_id (shard_list ! (index - 1))))))"

definition server_for_shard :: "placement_client \<Rightarrow> pystr \<Rightarrow> place_error + pystr" where
  "server_for_shard c = dict_get Key_error (server_by_shard c)"

definition address_for_server :: "placement_client \<Rightarrow> pystr \<Rightarrow> place_error + pystr" where
  "address_for_server c = dict_get Key_error (address_by_server c)"

definition known_application_ids :: "placement_client \<Rightarrow> pystr list" where
  "known_application_ids c = map fst (services_by_application c)"

definition known_service_names :: "placement_client \<Rightarrow> pystr \<Rightarrow> place_error + pystr list" where
  "known_service_names c = dict_get Unknown_application (services_by_application c)"

definition known_state_type_names :: "placement_client \<Rightarrow> pystr \<Rightarrow> place_error + pystr set" where
  "known_state_type_names c = dict_get Unknown_application (state_types_by_application c)"

definition known_servers :: "placement_client \<Rightarrow> pystr \<Rightarrow> pystr list" where
  "known_servers c application_id = map fst (address_by_server c)"

section \<open>\<open>StaticPlacementClient\<close>\<close>

record static_client =
  st_application_id :: pystr
  st_server_id :: pystr
  st_address :: pystr
  st_shard_id :: pystr

definition static_shard_for_actor :: "static_client \<Rightarrow> pystr \<Rightarrow> pystr \<Rightarrow> place_error + pystr" where
  "static_shard_for_actor c application_id state_ref =
     rbind (py_assert Assertion (application_id = st_application_id c)) (\<lambda>_. Inr (st_shard_id c))"

definition static_server_for_shard :: "static_client \<Rightarrow> pystr \<Rightarrow> place_error + pystr" where
  "static_server_for_shard c shard = Inr (st_server_id c)"

definition static_address_for_server :: "static_client \<Rightarrow> pystr \<Rightarrow> place_error + pystr" where
  "static_address_for_server c server = rbind (py_assert Assertion (server = st_server_id c)) (\<lambda>_. Inr (st_address c))"

section \<open>\<open>PlacementClient\<close>\<close>

text \<open>What the base class makes of the methods of its implementations.\<close>

definition server_for_actor ::
    "(pystr \<Rightarrow> pystr \<Rightarrow> 'e + 'shard) \<Rightarrow> ('shard \<Rightarrow> 'e + 'server) \<Rightarrow> pystr \<Rightarrow> pystr \<Rightarrow> 'e + 'server" where
  "server_for_actor shard_for server_for application_id state_ref = rbind (shard_for application_id state_ref) server_for"

definition address_for_actor ::
    "(pystr \<Rightarrow> pystr \<Rightarrow> 'e + 'shard) \<Rightarrow> ('shard \<Rightarrow> 'e + 'server) \<Rightarrow> ('server \<Rightarrow> 'e + 'address) \<Rightarrow> pystr \<Rightarrow> pystr \<Rightarrow> 'e + 'address" where
  "address_for_actor shard_for server_for address_for application_id state_ref =
     rbind (server_for_actor shard_for server_for application_id state_ref) address_for"

section \<open>Keys of shards\<close>

lemma key_length: "key_length_from NUM_SHARDS (Suc 0) = 2"
  by (simp add: key_length_from.simps NUM_SHARDS_def NUM_BYTE_VALUES_def)

lemma length_first_keys: "length shard_first_keys = NUM_SHARDS"
  by (simp add: shard_first_keys_def Let_def)

lemma first_key_nth:
  assumes "i < NUM_SHARDS"
  shows "shard_first_keys ! i = (if i = 0 then [] else [i * 4 div 256, i * 4 mod 256])"
proof -
  have c: "(NUM_BYTE_VALUES :: nat) ^ 2 div NUM_SHARDS = 4" by (simp add: NUM_BYTE_VALUES_def NUM_SHARDS_def)
  have "i * 4 div 256 < 256" using assms by (simp add: NUM_SHARDS_def)
  then have "to_bytes 2 (i * 4) = [i * 4 div 256, i * 4 mod 256]" by (simp add: numeral_2_eq_2)
  then show ?thesis using assms by (simp add: shard_first_keys_def Let_def key_length c)
qed

text \<open>Big-endian keys are ordered as the numbers are.\<close>

lemma two_bytes_less: "[a div 256, a mod 256] < [b div 256, b mod 256] \<longleftrightarrow> a < (b :: nat)"
proof -
  have "a = 256 * (a div 256) + a mod 256" "b = 256 * (b div 256) + b mod 256" "a mod 256 < 256" "b mod 256 < 256" by simp_all
  then have "a div 256 < b div 256 \<or> a div 256 = b div 256 \<and> a mod 256 < b mod 256 \<longleftrightarrow> a < b" by linarith
  then show ?thesis by simp
qed

lemma two_bytes_le:
  assumes "h1 < 256"
  shows "[a div 256, a mod 256] \<le> h0 # h1 # h \<longleftrightarrow> a \<le> 256 * h0 + (h1 :: nat)"
proof -
  have "a = 256 * (a div 256) + a mod 256" "a mod 256 < 256" by simp_all
  then have "a div 256 < h0 \<or> a div 256 = h0 \<and> a mod 256 \<le> h1 \<longleftrightarrow> a \<le> 256 * h0 + h1" using assms by linarith
  then show ?thesis by (cases h) (auto simp: le_less)
qed

lemma first_keys_sorted: "strictly_sorted shard_first_keys"
  unfolding sorted_wrt_iff_nth_less
proof (intro allI impI)
  fix i j assume "i < j" "j < length shard_first_keys"
  then show "shard_first_keys ! i < shard_first_keys ! j"
    using two_bytes_less[of "i * 4" "j * 4"] by (simp add: length_first_keys first_key_nth del: Cons_less_Cons)
qed

text \<open>The shard of a hash is told by its first two bytes.\<close>

lemma bisect_first_keys:
  assumes "h0 < 256" "h1 < 256"
  shows "bisect_right shard_first_keys (h0 # h1 # h) = Suc ((256 * h0 + h1) div 4)"
proof -
  let ?x = "h0 # h1 # h" and ?v = "256 * h0 + h1"
  let ?n = "bisect_right shard_first_keys ?x"
  have b: "?n \<le> NUM_SHARDS" "\<forall>i < ?n. shard_first_keys ! i \<le> ?x" "\<forall>i. ?n \<le> i \<and> i < NUM_SHARDS \<longrightarrow> ?x < shard_first_keys ! i"
    using bisect_right_loop_bounds[OF first_keys_sorted order.refl le0, of ?x]
    by (simp_all add: bisect_right_def no_index_past_end length_first_keys)
  have le: "shard_first_keys ! i \<le> ?x \<longleftrightarrow> i * 4 \<le> ?v" if "i < NUM_SHARDS" for i
    using that two_bytes_le[OF assms(2), of "i * 4" h0 h] by (simp add: first_key_nth)
  have v: "?v div 4 < NUM_SHARDS" using assms by (simp add: NUM_SHARDS_def)
  have "\<not> ?n \<le> ?v div 4"
  proof
    assume n: "?n \<le> ?v div 4"
    then have "?n < NUM_SHARDS" using v by simp
    moreover from this have "shard_first_keys ! ?n \<le> ?x" using le[of ?n] n by simp
    ultimately show False using b(3) by auto
  qed
  moreover have "\<not> Suc (?v div 4) < ?n"
  proof
    assume n: "Suc (?v div 4) < ?n"
    then have "shard_first_keys ! Suc (?v div 4) \<le> ?x" "Suc (?v div 4) < NUM_SHARDS" using b(1,2) by auto
    then show False using le[of "Suc (?v div 4)"] by simp
  qed
  ultimately show ?thesis by simp
qed

section \<open>Identifiers\<close>

definition decimal :: "pystr \<Rightarrow> nat" where
  "decimal ds = foldl (\<lambda>n d. 10 * n + (d - 48)) 0 ds"

lemma decimal_digits: "decimal (digits n) = n"
proof (induction n rule: digits.induct)
  case (1 n)
  then show ?case by (cases "n < 10") (simp_all add: digits.simps[of n] decimal_def)
qed

lemma decimal_padded: "decimal (zero_padded w n) = n"
proof -
  have "foldl (\<lambda>n d. 10 * n + (d - 48)) 0 (replicate k 48) = (0 :: nat)" for k by (induction k) simp_all
  then show ?thesis using decimal_digits[of n] by (simp add: zero_padded_def decimal_def)
qed

lemma make_shard_id_inj: "make_shard_id i = make_shard_id j \<longleftrightarrow> i = j"
  using decimal_padded[of 9] by (auto simp: make_shard_id_def) (metis decimal_padded)

lemma make_server_id_inj: "make_server_id a i = make_server_id a j \<longleftrightarrow> i = j"
  by (auto simp: make_server_id_def) (metis decimal_padded)

section \<open>Dictionaries\<close>

lemma map_of_fold_update:
  "map_of (fold (\<lambda>x. AList.update (f x) (g x)) xs d) = map_of d ++ map_of (map (\<lambda>x. (f x, g x)) (rev xs))"
  by (induction xs arbitrary: d) (simp_all add: update_conv' map_add_def fun_eq_iff split: option.splits)

lemma lookup_fold_update:
  assumes "\<And>y. y \<in> set xs \<Longrightarrow> f y = f x \<Longrightarrow> g y = g x" "x \<in> set xs"
  shows "map_of (fold (\<lambda>x. AList.update (f x) (g x)) xs d) (f x) = Some (g x)"
proof -
  have "map_of (map (\<lambda>x. (f x, g x)) (rev xs)) (f x) \<noteq> None" using assms(2) by (auto simp: map_of_eq_None_iff image_iff)
  then obtain v where v: "map_of (map (\<lambda>x. (f x, g x)) (rev xs)) (f x) = Some v" by blast
  then have "v = g x" using map_of_SomeD[OF v] assms(1) by auto
  then show ?thesis using v by (simp add: map_of_fold_update)
qed

section \<open>Plans\<close>

lemma length_shard_infos: "length make_shard_infos = NUM_SHARDS"
  by (simp add: make_shard_infos_def length_first_keys)

lemma shard_infos_nth: "i < NUM_SHARDS \<Longrightarrow> make_shard_infos ! i = \<lparr>shard_id = make_shard_id i, shard_first_key = shard_first_keys ! i\<rparr>"
  by (simp add: make_shard_infos_def length_first_keys nth_enumerate_eq)

lemma power_of_2: "is_power_of_2 n \<longleftrightarrow> (\<exists>k. n = 2 ^ k)"
proof (induction n rule: is_power_of_2.induct)
  case (1 n)
  show ?case
  proof (cases "n \<le> 1")
    case True
    then have "n = 0 \<or> n = 1" by auto
    then show ?thesis by (auto simp: is_power_of_2.simps[of n] intro: exI[of _ 0])
  next
    case False
    have "(\<exists>k. n = 2 ^ k) \<longleftrightarrow> n mod 2 = 0 \<and> (\<exists>k. n div 2 = 2 ^ k)" (is "?l \<longleftrightarrow> ?r")
    proof
      assume ?l
      then obtain k where k: "n = 2 ^ k" by blast
      with False obtain m where "k = Suc m" by (cases k) auto
      then show ?r using k by auto
    next
      assume ?r
      then obtain k where "n = 2 * 2 ^ k" by (metis mult_div_mod_eq add.right_neutral)
      then show ?l by (intro exI[of _ "Suc k"]) simp
    qed
    then show ?thesis using 1 False by (simp add: is_power_of_2.simps[of n])
  qed
qed

text \<open>The number of servers that divide the shards.\<close>

definition good_count :: "nat \<Rightarrow> bool" where
  "good_count n \<longleftrightarrow> is_power_of_2 n \<and> n \<le> NUM_SHARDS"

lemma good_count_dvd: "is_power_of_2 n \<Longrightarrow> n \<le> NUM_SHARDS \<longleftrightarrow> n dvd NUM_SHARDS"
proof -
  assume "is_power_of_2 n"
  then obtain k where k: "n = 2 ^ k" by (auto simp: power_of_2)
  have "(2 :: nat) ^ k \<le> 2 ^ 14 \<longleftrightarrow> k \<le> 14" by (rule power_increasing_iff) simp
  moreover have "(2 :: nat) ^ k dvd 2 ^ 14 \<longleftrightarrow> k \<le> 14" by (metis le_imp_power_dvd dvd_power_iff_le order_refl)
  ultimately show ?thesis unfolding NUM_SHARDS_def k by simp
qed

definition shard_plan :: "pystr \<Rightarrow> nat \<Rightarrow> nat \<Rightarrow> nat \<Rightarrow> plan_shard" where
  "shard_plan app per_replica num_servers i = \<lparr>ps_id = make_shard_id i, ps_server_id = make_server_id app (i mod num_servers),
     ps_replica_index = i mod num_servers div per_replica, ps_first_key = shard_first_keys ! i\<rparr>"

lemma planned_shards:
  "map (\<lambda>(i, shard). \<lparr>ps_id = shard_id shard, ps_server_id = make_server_id app (server_index_for_shard n i),
     ps_replica_index = server_index_for_shard n i div s, ps_first_key = shard_first_key shard\<rparr>) (enumerate 0 make_shard_infos) =
   map (shard_plan app s n) [0..<NUM_SHARDS]"
  by (rule nth_equalityI)
    (simp_all add: length_shard_infos nth_enumerate_eq shard_infos_nth shard_plan_def server_index_for_shard_def)

lemma plan_application_eq:
  "plan_application system cfg =
     (case (replicas cfg, servers cfg) of
        (Some r, Some s) \<Rightarrow>
          if \<not> is_power_of_2 (s * r) then Inl Input_error
          else if NUM_SHARDS < s * r then Inl Assertion
          else Inr \<lparr>pa_id = config_id cfg, pa_services = services_of system cfg,
            pa_shards = map (shard_plan (config_id cfg) s (s * r)) [0..<NUM_SHARDS]\<rparr>
      | _ \<Rightarrow> Inl Assertion)"
proof (cases "\<exists>r s. replicas cfg = Some r \<and> servers cfg = Some s")
  case True
  then obtain r s where rs: "replicas cfg = Some r" "servers cfg = Some s" by blast
  have p0: "\<not> is_power_of_2 0" by (simp add: is_power_of_2.simps)
  show ?thesis
  proof (cases "is_power_of_2 (s * r) \<and> s * r dvd NUM_SHARDS")
    case True
    then have nz: "s * r \<noteq> 0" using p0 by (metis (full_types))
    then have "0 < s" "0 < r" by simp_all
    moreover from this have "s * r div r = s" by simp
    moreover have "s * r \<le> NUM_SHARDS" using True good_count_dvd by blast
    ultimately show ?thesis
      using True \<open>0 < s\<close> planned_shards[of "config_id cfg" "s * r" s]
      by (simp add: rs plan_application_def Let_def validate_num_servers_def length_shard_infos dvd_eq_mod_eq_0 replica_index_for_shard_def
          del: map_map)
  next
    case False
    then show ?thesis
      using good_count_dvd[of "s * r"] p0
      by (auto simp: rs plan_application_def Let_def validate_num_servers_def length_shard_infos dvd_eq_mod_eq_0)
  qed
qed (auto simp: plan_application_def split: option.splits)

lemma plan_application_Inr:
  assumes "plan_application system cfg = Inr a"
  obtains r s where "replicas cfg = Some r" "servers cfg = Some s" "good_count (s * r)" "0 < s * r" "0 < s"
    "a = \<lparr>pa_id = config_id cfg, pa_services = services_of system cfg, pa_shards = map (shard_plan (config_id cfg) s (s * r)) [0..<NUM_SHARDS]\<rparr>"
proof -
  have p0: "\<not> is_power_of_2 0" by (simp add: is_power_of_2.simps)
  from assms obtain r s where rs: "replicas cfg = Some r" "servers cfg = Some s" "good_count (s * r)"
    "a = \<lparr>pa_id = config_id cfg, pa_services = services_of system cfg, pa_shards = map (shard_plan (config_id cfg) s (s * r)) [0..<NUM_SHARDS]\<rparr>"
    by (auto simp: plan_application_eq good_count_def split: option.splits if_splits)
  moreover have "0 < s * r" "0 < s" using rs(3) p0 by (auto simp: good_count_def intro: gr0I)
  ultimately show thesis using that by blast
qed

section \<open>The client\<close>

lemma handle_shards_ok:
  assumes "strictly_sorted (map me_first_key acc @ map ps_first_key ss)"
  shows "handle_shards ss acc c =
    ((acc @ map (\<lambda>s. \<lparr>me_shard_id = ps_id s, me_first_key = ps_first_key s\<rparr>) ss,
      c\<lparr>server_by_shard := fold (\<lambda>s. AList.update (ps_id s) (ps_server_id s)) ss (server_by_shard c)\<rparr>), None)"
  using assms
proof (induction ss arbitrary: acc c)
  case (Cons s ss)
  have "\<forall>x \<in> set acc. me_first_key x < ps_first_key s" using Cons.prems by (auto simp: sorted_wrt_append)
  then have "acc = [] \<or> me_first_key (last acc) < ps_first_key s" using last_in_set by blast
  moreover have "strictly_sorted (map me_first_key (acc @ [\<lparr>me_shard_id = ps_id s, me_first_key = ps_first_key s\<rparr>]) @ map ps_first_key ss)"
    using Cons.prems by simp
  ultimately show ?case using Cons.IH by simp
qed simp

definition entry_of :: "nat \<Rightarrow> shard_map_entry" where
  "entry_of i = \<lparr>me_shard_id = make_shard_id i, me_first_key = shard_first_keys ! i\<rparr>"

lemma planned_keys: "map ps_first_key (map (shard_plan app s n) [0..<NUM_SHARDS]) = shard_first_keys"
  by (rule nth_equalityI) (simp_all add: length_first_keys shard_plan_def)

lemma handle_planned:
  "handle_shards (map (shard_plan app s n) [0..<NUM_SHARDS]) [] c =
     ((map entry_of [0..<NUM_SHARDS],
       c\<lparr>server_by_shard := fold (\<lambda>i. AList.update (make_shard_id i) (make_server_id app (i mod n))) [0..<NUM_SHARDS] (server_by_shard c)\<rparr>), None)"
proof -
  have "strictly_sorted (map me_first_key [] @ map ps_first_key (map (shard_plan app s n) [0..<NUM_SHARDS]))"
    by (simp only: planned_keys list.map append_Nil first_keys_sorted)
  from handle_shards_ok[OF this] show ?thesis by (simp add: entry_of_def shard_plan_def fold_map comp_def)
qed

lemma shard_lookup:
  "i < NUM_SHARDS \<Longrightarrow> map_of (fold (\<lambda>i. AList.update (make_shard_id i) (g i)) [0..<NUM_SHARDS] d) (make_shard_id i) = Some (g i)"
  by (rule lookup_fold_update) (simp_all add: make_shard_id_inj)

text \<open>The reference: the shard of a state is the first fourteen bits of the hash of its first component.\<close>

definition shard_of_hash :: "bytes \<Rightarrow> nat" where
  "shard_of_hash h = (256 * h ! 0 + h ! 1) div 4"

lemma shard_of_hash_bound: "digest20 sha1 \<Longrightarrow> shard_of_hash (sha1 x) < NUM_SHARDS"
proof -
  assume d: "digest20 sha1"
  then have l: "length (sha1 x) = 20" "\<And>b. b \<in> set (sha1 x) \<Longrightarrow> b < 256" by (simp_all add: digest20_def)
  then have "sha1 x ! 0 < 256" "sha1 x ! 1 < 256" by (simp_all add: l(2)[OF nth_mem])
  then show ?thesis by (simp add: shard_of_hash_def NUM_SHARDS_def)
qed

lemma shard_for_actor_planned:
  assumes "digest20 sha1" "map_of (shard_list_by_application c) app = Some (map entry_of [0..<NUM_SHARDS])"
  shows "shard_for_actor sha1 c app ref = Inr (make_shard_id (shard_of_hash (sha1 (hd (components ref)))))"
proof -
  let ?h = "sha1 (hd (components ref))" and ?l = "map entry_of [0..<NUM_SHARDS]"
  have keys: "map me_first_key ?l = shard_first_keys" by (rule nth_equalityI) (simp_all add: length_first_keys entry_of_def)
  have l: "length ?h = 20" "\<forall>b \<in> set ?h. b < 256" using assms(1) by (simp_all add: digest20_def)
  then obtain h0 h1 h where h: "?h = h0 # h1 # h" by (cases ?h; cases "tl ?h") auto
  then have b: "h0 < 256" "h1 < 256" using l(2) by auto
  have i: "bisect_right (map me_first_key ?l) ?h = Suc (shard_of_hash ?h)"
    unfolding keys using bisect_first_keys[OF b, of h] by (simp add: h shard_of_hash_def)
  have n: "0 < NUM_SHARDS" by (simp add: NUM_SHARDS_def)
  then have "hd ?l = entry_of 0" by (simp add: hd_map hd_conv_nth)
  then have f: "?l \<noteq> []" "me_first_key (hd ?l) = []" using n by (simp_all add: entry_of_def first_key_nth)
  have "?l ! shard_of_hash ?h = entry_of (shard_of_hash ?h)" using shard_of_hash_bound[OF assms(1)] by simp
  then show ?thesis using i f by (simp add: shard_for_actor_def assms(2) Let_def entry_of_def del: map_map)
qed

text \<open>What one application of a plan does to the tables.\<close>

definition installed :: "app_config \<Rightarrow> pystr set \<Rightarrow> nat \<Rightarrow> placement_client \<Rightarrow> placement_client" where
  "installed cfg system n c =
     c\<lparr>server_by_shard := fold (\<lambda>i. AList.update (make_shard_id i) (make_server_id (config_id cfg) (i mod n))) [0..<NUM_SHARDS] (server_by_shard c),
       shard_list_by_application := AList.update (config_id cfg) (map entry_of [0..<NUM_SHARDS]) (shard_list_by_application c),
       services_by_application := AList.update (config_id cfg) (map fst (services_of system cfg)) (services_by_application c),
       state_types_by_application := AList.update (config_id cfg) (snd ` set (services_of system cfg)) (state_types_by_application c)\<rparr>"

lemma handle_application:
  assumes "plan_application system cfg = Inr a"
  shows "\<exists>r s. replicas cfg = Some r \<and> servers cfg = Some s \<and>
    (\<forall>as c. handle_applications (a # as) c = handle_applications as (installed cfg system (s * r) c))"
  using assms by (rule plan_application_Inr) (auto simp: handle_planned installed_def)

lemma make_plan_Inr:
  assumes "make_plan system now cfgs last_version = Inr (p, last_version')"
  shows "plan_applications system cfgs = Inr (applications p) \<and> version p = now \<and> last_version' = Some now \<and>
    (\<forall>v. last_version = Some v \<longrightarrow> v < now)"
  using assms by (auto simp: make_plan_def rbind_eq_Inr_iff get_version_def split: option.splits if_splits)

lemma installed_tables:
  "map_of (shard_list_by_application (installed cfg system n c)) app =
     (if app = config_id cfg then Some (map entry_of [0..<NUM_SHARDS]) else map_of (shard_list_by_application c) app)"
  "i < NUM_SHARDS \<Longrightarrow> map_of (server_by_shard (installed cfg system n c)) (make_shard_id i) = Some (make_server_id (config_id cfg) (i mod n))"
  by (simp_all add: installed_def update_conv' shard_lookup)

lemma server_for_planned:
  assumes "digest20 sha1" "map_of (shard_list_by_application c) app = Some (map entry_of [0..<NUM_SHARDS])"
    "\<And>i. i < NUM_SHARDS \<Longrightarrow> map_of (server_by_shard c) (make_shard_id i) = Some (make_server_id app' (i mod n))"
  shows "server_for_actor (shard_for_actor sha1 c) (server_for_shard c) app ref =
    Inr (make_server_id app' (shard_of_hash (sha1 (hd (components ref))) mod n))"
  using assms(3)[OF shard_of_hash_bound[OF assms(1)]]
  by (simp add: server_for_actor_def shard_for_actor_planned[OF assms(1,2)] server_for_shard_def dict_get_def)

section \<open>The server of a state\<close>

text \<open>
  (C27) A client that was handed the plan of an application finds for every state the server to which the
  plan assigns its shard, where the shard is what the first fourteen bits of the hash of the first
  component of its reference say: the search in the list of keys computes this reference definition, and
  none of the assertions on the way fails.
\<close>

theorem actor_served_by_planned_server:
  assumes "digest20 sha1" "make_plan system now [cfg] last_version = Inr (p, last_version')"
  shows "\<exists>c' r s. handle_plan p svs c = (c', None) \<and> client_version c' = int now \<and> replicas cfg = Some r \<and> servers cfg = Some s \<and>
    (\<forall>ref. server_for_actor (shard_for_actor sha1 c') (server_for_shard c') (config_id cfg) ref =
       Inr (make_server_id (config_id cfg) (shard_of_hash (sha1 (hd (components ref))) mod (s * r))))"
proof -
  note p = make_plan_Inr[OF assms(2)]
  then obtain a where a: "applications p = [a]" "plan_application system cfg = Inr a"
    by (auto simp: rbind_eq_Inr_iff dest!: sym[of _ "applications p"])
  from handle_application[OF a(2)] obtain r s where rs: "replicas cfg = Some r" "servers cfg = Some s"
    and h: "\<And>c. handle_applications [a] c = (installed cfg system (s * r) c, None)" by auto
  let ?c0 = "c\<lparr>shard_list_by_application := [], server_by_shard := [], address_by_server := [], services_by_application := [],
    state_types_by_application := []\<rparr>"
  let ?c1 = "installed cfg system (s * r) ?c0"
  obtain c' where c': "handle_plan p svs c = (c', None)" "client_version c' = int now"
    "shard_list_by_application c' = shard_list_by_application ?c1" "server_by_shard c' = server_by_shard ?c1"
    using p by (simp add: handle_plan_def a(1) h del: handle_applications.simps)
  have "server_for_actor (shard_for_actor sha1 c') (server_for_shard c') (config_id cfg) ref =
      Inr (make_server_id (config_id cfg) (shard_of_hash (sha1 (hd (components ref))) mod (s * r)))" for ref
    by (rule server_for_planned[OF assms(1)]) (simp_all add: c'(3,4) installed_tables)
  then show ?thesis using c'(1,2) rs by blast
qed

definition cfg0 :: app_config where
  "cfg0 = \<lparr>config_id = str ''aone'', replicas = Some 2, servers = Some 4, states = [], legacy_grpc_service_full_names = []\<rparr>"

definition cfg1 :: app_config where
  "cfg1 = \<lparr>config_id = str ''atwo'', replicas = Some 1, servers = Some 1, states = [], legacy_grpc_service_full_names = []\<rparr>"

lemma powers: "is_power_of_2 8" "is_power_of_2 (Suc 0)"
  by (simp_all add: is_power_of_2.simps)

lemma cfg_plans: "\<exists>a. plan_application {} cfg0 = Inr a" "\<exists>a. plan_application {} cfg1 = Inr a"
  by (simp_all add: plan_application_eq cfg0_def cfg1_def powers NUM_SHARDS_def)

lemma digest7: "digest20 (\<lambda>_. replicate 20 7)"
  by (simp add: digest20_def)

theorem actor_served_by_planned_server_witness:
  "\<exists>p last' c'. make_plan {} 5 [cfg0] (Some 3) = Inr (p, last') \<and> handle_plan p [] client_init = (c', None) \<and>
     server_for_actor (shard_for_actor (\<lambda>_. replicate 20 7) c') (server_for_shard c') (str ''aone'') (str ''ref'') =
       Inr (make_server_id (str ''aone'') 1)"
proof -
  from cfg_plans obtain a where "plan_application {} cfg0 = Inr a" by blast
  then have m: "make_plan {} 5 [cfg0] (Some 3) = Inr (\<lparr>version = 5, applications = [a]\<rparr>, Some 5)" by (simp add: make_plan_def get_version_def)
  have i: "shard_of_hash (replicate 20 7) mod 8 = 1" by (simp add: shard_of_hash_def)
  from actor_served_by_planned_server[OF digest7 m, of "[]" client_init] i m show ?thesis by (auto simp: cfg0_def)
qed

section \<open>Two applications\<close>

text \<open>
  Shard identifiers do not carry the application, and the client keeps one table of the servers of all
  shards: where a plan has two applications, a state of the first is looked up on a server of the second.
\<close>

theorem second_application_takes_over_shards:
  assumes "digest20 sha1" "make_plan system now [cfg, cfg'] last_version = Inr (p, last_version')" "config_id cfg \<noteq> config_id cfg'"
  shows "\<exists>c' r s. handle_plan p svs c = (c', None) \<and> replicas cfg' = Some r \<and> servers cfg' = Some s \<and>
    (\<forall>ref. server_for_actor (shard_for_actor sha1 c') (server_for_shard c') (config_id cfg) ref =
       Inr (make_server_id (config_id cfg') (shard_of_hash (sha1 (hd (components ref))) mod (s * r))))"
proof -
  note p = make_plan_Inr[OF assms(2)]
  then obtain a a' where a: "applications p = [a, a']" "plan_application system cfg = Inr a" "plan_application system cfg' = Inr a'"
    by (auto simp: rbind_eq_Inr_iff dest!: sym[of _ "applications p"])
  from handle_application[OF a(2)] obtain n where h: "\<And>as c. handle_applications (a # as) c = handle_applications as (installed cfg system n c)" by blast
  from handle_application[OF a(3)] obtain r s where rs: "replicas cfg' = Some r" "servers cfg' = Some s"
    and h': "\<And>c. handle_applications [a'] c = (installed cfg' system (s * r) c, None)" by auto
  let ?c0 = "c\<lparr>shard_list_by_application := [], server_by_shard := [], address_by_server := [], services_by_application := [],
    state_types_by_application := []\<rparr>"
  let ?c1 = "installed cfg' system (s * r) (installed cfg system n ?c0)"
  obtain c' where c': "handle_plan p svs c = (c', None)"
    "shard_list_by_application c' = shard_list_by_application ?c1" "server_by_shard c' = server_by_shard ?c1"
    by (simp add: handle_plan_def a(1) h h' del: handle_applications.simps)
  have "server_for_actor (shard_for_actor sha1 c') (server_for_shard c') (config_id cfg) ref =
      Inr (make_server_id (config_id cfg') (shard_of_hash (sha1 (hd (components ref))) mod (s * r)))" for ref
    by (rule server_for_planned[OF assms(1)]) (simp_all add: c'(2,3) installed_tables assms(3))
  then show ?thesis using c'(1) rs by blast
qed

theorem second_application_takes_over_shards_witness:
  "\<exists>p last' c'. make_plan {} 5 [cfg0, cfg1] (Some 3) = Inr (p, last') \<and> handle_plan p [] client_init = (c', None) \<and>
     server_for_actor (shard_for_actor (\<lambda>_. replicate 20 7) c') (server_for_shard c') (str ''aone'') (str ''ref'') =
       Inr (make_server_id (str ''atwo'') 0)"
proof -
  from cfg_plans obtain a a' where "plan_application {} cfg0 = Inr a" "plan_application {} cfg1 = Inr a'" by blast
  then have m: "make_plan {} 5 [cfg0, cfg1] (Some 3) = Inr (\<lparr>version = 5, applications = [a, a']\<rparr>, Some 5)"
    by (simp add: make_plan_def get_version_def)
  have d: "config_id cfg0 \<noteq> config_id cfg1" by (simp add: cfg0_def cfg1_def str_def)
  from second_application_takes_over_shards[OF digest7 m d, of "[]" client_init] m show ?thesis by (auto simp: cfg0_def cfg1_def)
qed

section \<open>The share of each server\<close>

lemma filter_one: "distinct xs \<Longrightarrow> x \<in> set xs \<Longrightarrow> filter (\<lambda>y. y = x) xs = [x]"
  by (induction xs) (auto simp: filter_empty_conv)

lemma residue_count:
  assumes "j < n"
  shows "length (filter (\<lambda>i. i mod n = j) [0..<n * m]) = m"
proof (induction m)
  case (Suc m)
  have "filter (\<lambda>i. i mod n = j) [n * m..<n * m + n] = [n * m + j]"
  proof -
    have e: "i mod n = j \<longleftrightarrow> i = n * m + j" if "i \<in> set [n * m..<n * m + n]" for i
    proof -
      from that obtain k where k: "i = n * m + k" "k < n" by (auto simp: nat_le_iff_add)
      then show ?thesis using assms by simp
    qed
    have "filter (\<lambda>i. i mod n = j) [n * m..<n * m + n] = filter (\<lambda>i. i = n * m + j) [n * m..<n * m + n]" using e by (rule filter_cong[OF refl])
    also have "\<dots> = [n * m + j]" by (rule filter_one) (use assms in auto)
    finally show ?thesis .
  qed
  then show ?case using Suc upt_add_eq_append[of 0 "n * m" n] by (simp add: add.commute)
qed simp

lemma planned_application:
  assumes "plan_application system cfg = Inr a" "replicas cfg = Some r" "servers cfg = Some s"
  shows "pa_shards a = map (shard_plan (config_id cfg) s (s * r)) [0..<NUM_SHARDS] \<and> good_count (s * r) \<and> 0 < s * r \<and> 0 < s"
  using assms(1) by (rule plan_application_Inr) (use assms(2,3) in simp)

lemma replica_lookup:
  assumes "pa_shards a = map (shard_plan app s n) [0..<NUM_SHARDS]" "i < NUM_SHARDS"
  shows "map_of (replica_indexes a) (make_server_id app (i mod n)) = Some (i mod n div s)"
proof -
  have "map_of (fold (\<lambda>x. AList.update (ps_server_id x) (ps_replica_index x)) (pa_shards a) []) (ps_server_id (shard_plan app s n i)) =
      Some (ps_replica_index (shard_plan app s n i))"
    by (rule lookup_fold_update) (use assms in \<open>auto simp: shard_plan_def make_server_id_inj\<close>)
  then show ?thesis by (simp add: replica_indexes_def shard_plan_def)
qed

text \<open>
  The servers that the planner sets up for an application are as many as configured, and they divide the
  shards evenly: each has the same number of shards, those whose index leaves its own as remainder, and
  each replica gets the configured number of servers, in order.
\<close>

theorem servers_share_shards_evenly:
  assumes "plan_application system cfg = Inr a" "replicas cfg = Some r" "servers cfg = Some s"
  shows "distinct (map ss_id (application_servers a)) \<and>
    set (map ss_id (application_servers a)) = make_server_id (config_id cfg) ` {..<s * r} \<and>
    (\<forall>sp \<in> set (application_servers a). length (ss_shards sp) * (s * r) = NUM_SHARDS \<and>
      (\<exists>j < s * r. ss_id sp = make_server_id (config_id cfg) j \<and> ss_replica_index sp = j div s \<and>
        map shard_id (ss_shards sp) = map make_shard_id (filter (\<lambda>i. i mod (s * r) = j) [0..<NUM_SHARDS])))"
proof -
  let ?n = "s * r" and ?id = "make_server_id (config_id cfg)"
  have a: "pa_shards a = map (shard_plan (config_id cfg) s ?n) [0..<NUM_SHARDS]" and n: "0 < ?n" "?n dvd NUM_SHARDS" "?n \<le> NUM_SHARDS"
    using planned_application[OF assms] good_count_dvd[of ?n] by (auto simp: good_count_def)
  have ids: "set (map ps_server_id (pa_shards a)) = ?id ` {..<?n}"
  proof -
    have "(\<lambda>i. i mod ?n) ` {..<NUM_SHARDS} = {..<?n}" 
    proof
      show "{..<?n} \<subseteq> (\<lambda>i. i mod ?n) ` {..<NUM_SHARDS}"
      proof
        fix j assume "j \<in> {..<?n}"
        then have "j = j mod ?n" "j \<in> {..<NUM_SHARDS}" using n(3) by simp_all
        then show "j \<in> (\<lambda>i. i mod ?n) ` {..<NUM_SHARDS}" by (rule image_eqI)
      qed
    qed (use n(1) in auto)
    then have "?id ` {..<?n} = ?id ` ((\<lambda>i. i mod ?n) ` {..<NUM_SHARDS})" by simp
    also have "\<dots> = set (map ps_server_id (pa_shards a))" by (auto simp: a shard_plan_def)
    finally show ?thesis by simp
  qed
  have each: "length (ss_shards sp) * ?n = NUM_SHARDS \<and> (\<exists>j < ?n. ss_id sp = ?id j \<and> ss_replica_index sp = j div s \<and>
        map shard_id (ss_shards sp) = map make_shard_id (filter (\<lambda>i. i mod ?n = j) [0..<NUM_SHARDS]))"
    if "sp \<in> set (application_servers a)" for sp
  proof -
    from that ids obtain j where j: "j < ?n" "ss_id sp = ?id j"
      "ss_replica_index sp = the (map_of (replica_indexes a) (?id j))"
      "ss_shards sp = map (\<lambda>s. \<lparr>shard_id = ps_id s, shard_first_key = ps_first_key s\<rparr>) (filter (\<lambda>s. ps_server_id s = ?id j) (pa_shards a))"
      by (auto simp: application_servers_def)
    have f: "filter (\<lambda>x. ps_server_id x = ?id j) (pa_shards a) =
        map (shard_plan (config_id cfg) s ?n) (filter (\<lambda>i. i mod ?n = j) [0..<NUM_SHARDS])"
      by (simp add: a filter_map comp_def shard_plan_def make_server_id_inj)
    have m: "map shard_id (ss_shards sp) = map make_shard_id (filter (\<lambda>i. i mod ?n = j) [0..<NUM_SHARDS])"
      by (simp add: j(4) f shard_plan_def comp_def)
    have "length (filter (\<lambda>i. i mod ?n = j) [0..<?n * (NUM_SHARDS div ?n)]) = NUM_SHARDS div ?n" by (rule residue_count[OF j(1)])
    then have "length (ss_shards sp) = NUM_SHARDS div ?n" using n(2) by (simp add: j(4) f)
    moreover have "ss_replica_index sp = j div s" using replica_lookup[OF a, of j] j(1,3) n(3) by simp
    ultimately show ?thesis using j(1,2) m n(2) by auto
  qed
  have "map ss_id (application_servers a) = remdups (map ps_server_id (pa_shards a))" by (simp add: application_servers_def comp_def)
  then show ?thesis using ids each by simp
qed

theorem servers_share_shards_evenly_witness:
  "\<exists>a. plan_application {} cfg0 = Inr a \<and> set (map ss_id (application_servers a)) = make_server_id (str ''aone'') ` {..<8} \<and>
     (\<forall>sp \<in> set (application_servers a). length (ss_shards sp) = 2048)"
proof -
  from cfg_plans obtain a where a: "plan_application {} cfg0 = Inr a" by blast
  have "replicas cfg0 = Some 2" "servers cfg0 = Some 4" "config_id cfg0 = str ''aone''" by (simp_all add: cfg0_def)
  with servers_share_shards_evenly[OF a, of 2 4] a show ?thesis by (auto simp: NUM_SHARDS_def)
qed

section \<open>Scaling\<close>

lemma power_of_2_dvd: "is_power_of_2 m \<Longrightarrow> is_power_of_2 n \<Longrightarrow> m \<le> n \<Longrightarrow> m dvd n"
  by (auto simp: power_of_2 le_imp_power_dvd)

text \<open>
  When an application gets more replicas, every shard keeps its keys and either stays on its server and
  replica or moves to one of the new servers, on a new replica: nothing moves between servers that were
  there before.
\<close>

theorem scaling_moves_only_to_new_servers:
  assumes "plan_application system cfg = Inr a" "plan_application system (cfg\<lparr>replicas := Some r'\<rparr>) = Inr a'"
    "replicas cfg = Some r" "r \<le> r'" "i < NUM_SHARDS"
  shows "ps_id (pa_shards a' ! i) = ps_id (pa_shards a ! i) \<and> ps_first_key (pa_shards a' ! i) = ps_first_key (pa_shards a ! i) \<and>
    (ps_server_id (pa_shards a' ! i) = ps_server_id (pa_shards a ! i) \<and>
       ps_replica_index (pa_shards a' ! i) = ps_replica_index (pa_shards a ! i) \<or>
     ps_server_id (pa_shards a' ! i) \<notin> ps_server_id ` set (pa_shards a) \<and> r \<le> ps_replica_index (pa_shards a' ! i))"
proof -
  obtain s where cs: "servers cfg = Some s" using assms(1) by (rule plan_application_Inr)
  have s: "0 < s" "is_power_of_2 (s * r)" "0 < s * r" and a: "pa_shards a = map (shard_plan (config_id cfg) s (s * r)) [0..<NUM_SHARDS]"
    using planned_application[OF assms(1,3) cs] by (simp_all add: good_count_def)
  have a': "pa_shards a' = map (shard_plan (config_id cfg) s (s * r')) [0..<NUM_SHARDS]" "is_power_of_2 (s * r')"
    using planned_application[OF assms(2), of r' s] cs by (simp_all add: good_count_def)
  let ?j = "i mod (s * r')"
  have "s * r dvd s * r'" using power_of_2_dvd[OF s(2) a'(2)] assms(4) by simp
  then have m: "?j mod (s * r) = i mod (s * r)" by (rule mod_mod_cancel)
  have old: "ps_server_id ` set (pa_shards a) \<subseteq> make_server_id (config_id cfg) ` {..<s * r}"
    using s(3) by (auto simp: a shard_plan_def)
  show ?thesis
  proof (cases "?j < s * r")
    case True
    then show ?thesis using m assms(5) by (simp add: a a'(1) shard_plan_def)
  next
    case False
    then have "make_server_id (config_id cfg) ?j \<notin> make_server_id (config_id cfg) ` {..<s * r}" by (auto simp: make_server_id_inj)
    moreover have "r \<le> ?j div s" using False s(1) by (simp add: less_eq_div_iff_mult_less_eq mult.commute)
    ultimately show ?thesis using old assms(5) by (auto simp: a a'(1) shard_plan_def)
  qed
qed

theorem scaling_moves_only_to_new_servers_witness:
  "\<exists>a a'. plan_application {} cfg0 = Inr a \<and> plan_application {} (cfg0\<lparr>replicas := Some 4\<rparr>) = Inr a' \<and>
     ps_id (pa_shards a' ! 9) = ps_id (pa_shards a ! 9)"
proof -
  from cfg_plans obtain a where a: "plan_application {} cfg0 = Inr a" by blast
  have "is_power_of_2 16" by (simp add: is_power_of_2.simps)
  then obtain a' where a': "plan_application {} (cfg0\<lparr>replicas := Some 4\<rparr>) = Inr a'"
    by (simp add: plan_application_eq cfg0_def NUM_SHARDS_def)
  have r: "replicas cfg0 = Some 2" by (simp add: cfg0_def)
  from scaling_moves_only_to_new_servers[OF a a' r, of 9] a a' show ?thesis by (simp add: NUM_SHARDS_def)
qed

section \<open>What all placement clients promise\<close>

text \<open>
  A placement client may look at nothing of a reference but its first component, so that a state and all
  that is colocated with it have the same shard, server and address.
\<close>

locale colocating =
  fixes shard_for :: "pystr \<Rightarrow> pystr \<Rightarrow> 'e + 'shard"
  assumes same_shard: "hd (components ref) = hd (components ref') \<Longrightarrow> shard_for app ref = shard_for app ref'"
begin

lemma same_server:
  "hd (components ref) = hd (components ref') \<Longrightarrow> server_for_actor shard_for server_for app ref = server_for_actor shard_for server_for app ref'"
  using same_shard[of ref ref'] by (simp add: server_for_actor_def)

lemma same_address:
  "hd (components ref) = hd (components ref') \<Longrightarrow>
   address_for_actor shard_for server_for address_for app ref = address_for_actor shard_for server_for address_for app ref'"
  unfolding address_for_actor_def by (simp only: same_server[of ref ref'])

end

interpretation plan_client: colocating "shard_for_actor sha1 c" for sha1 c
  by unfold_locales (simp only: shard_for_actor_def)

interpretation static: colocating "static_shard_for_actor c" for c
  by unfold_locales (simp add: static_shard_for_actor_def)

lemma colocate_first_component:
  assumes "colocate sha1 t i p = Inr ref"
  shows "hd (components ref) = hd (components p)"
proof -
  obtain child where "ref = p @ slash # child" using assms by (auto simp: colocate_def rbind_eq_Inr_iff)
  moreover have "split slash p \<noteq> []" by (induction p) (auto split: list.splits)
  ultimately show ?thesis by (simp add: components_def split_append)
qed

text \<open>
  A state that is colocated with another is served by the same server, at the same address, whatever the
  plan and whichever client looks.
\<close>

theorem colocated_states_share_server:
  assumes "colocate sha1 t i p = Inr ref"
  shows "server_for_actor (shard_for_actor sha1 c) (server_for_shard c) app ref =
      server_for_actor (shard_for_actor sha1 c) (server_for_shard c) app p \<and>
    address_for_actor (shard_for_actor sha1 c) (server_for_shard c) (address_for_server c) app ref =
      address_for_actor (shard_for_actor sha1 c) (server_for_shard c) (address_for_server c) app p \<and>
    address_for_actor (static_shard_for_actor c') (static_server_for_shard c') (static_address_for_server c') app ref =
      address_for_actor (static_shard_for_actor c') (static_server_for_shard c') (static_address_for_server c') app p"
  using plan_client.same_server[OF colocate_first_component[OF assms]] plan_client.same_address[OF colocate_first_component[OF assms]]
    static.same_address[OF colocate_first_component[OF assms]]
  by blast

theorem colocated_states_share_server_witness:
  "\<exists>ref. colocate (\<lambda>_. replicate 20 7) (str ''Kid'') (str ''k'') (str ''p'') = Inr ref \<and>
     server_for_actor (shard_for_actor (\<lambda>_. replicate 20 7) client_init) (server_for_shard client_init) [] ref =
     server_for_actor (shard_for_actor (\<lambda>_. replicate 20 7) client_init) (server_for_shard client_init) [] (str ''p'')"
proof -
  have "valid_id (str ''k'')" by (simp add: valid_id_def str_def)
  then have "\<exists>x. from_id (\<lambda>_. replicate 20 7) (str ''Kid'') (str ''k'') = Inr x" by (rule from_id_ok[OF digest7]) (erule exI)
  then obtain ref where r: "colocate (\<lambda>_. replicate 20 7) (str ''Kid'') (str ''k'') (str ''p'') = Inr ref" by (auto simp: colocate_def)
  from colocated_states_share_server[OF r] r show ?thesis by blast
qed

end
