(* ===== verification/Planner.thy ===== *)
theory Planner
  imports Placement
begin

text \<open>
  \<open>PlacementPlanner\<close> (\<open>reboot/controller/placement_planner.py\<close>): plans are made, their servers are set up, which
  takes time, and then the plan is published to all listeners, each of which has a queue.

  The server manager is outside: an event says what it answered.  A listener is named by a number, and
  \<open>seen\<close> records what was yielded to it.
\<close>

type_synonym response = "plan \<times> server_proto list"

record planner =
  pl_last_version :: "nat option"
  making :: "plan list"
  current :: "response option"
  listener_queues :: "nat \<Rightarrow> response list option"
  seen :: "nat \<Rightarrow> response list"

definition planner_init :: planner where
  "planner_init = \<lparr>pl_last_version = None, making = [], current = None, listener_queues = (\<lambda>_. None), seen = (\<lambda>_. [])\<rparr>"

text \<open>\<open>make_plan\<close>, up to the call of \<open>set_servers\<close>; what raises changes nothing.\<close>

definition make_plan_begin :: "pystr set \<Rightarrow> nat \<Rightarrow> app_config list \<Rightarrow> planner \<Rightarrow> planner" where
  "make_plan_begin system now cfgs s =
     (case make_plan system now cfgs (pl_last_version s) of
        Inl _ \<Rightarrow> s
      | Inr (p, v) \<Rightarrow> s\<lparr>pl_last_version := v, making := making s @ [p]\<rparr>)"

text \<open>\<open>make_plan\<close>, from the answer of \<open>set_servers\<close> on.\<close>

definition drop_nth :: "nat \<Rightarrow> 'a list \<Rightarrow> 'a list" where
  "drop_nth k xs = take k xs @ drop (Suc k) xs"

definition make_plan_publish :: "nat \<Rightarrow> server_proto list \<Rightarrow> planner \<Rightarrow> planner" where
  "make_plan_publish k protos s =
     (let p = making s ! k; s' = s\<lparr>making := drop_nth k (making s)\<rparr>
      in if \<not> length protos \<le> length (plan_servers p) then s'
         else s'\<lparr>current := Some (p, protos),
           listener_queues := (\<lambda>l. map_option (\<lambda>q. q @ [(p, protos)]) (listener_queues s l))\<rparr>)"

definition listen_for_plan :: "nat \<Rightarrow> planner \<Rightarrow> planner" where
  "listen_for_plan l s =
     s\<lparr>listener_queues := (listener_queues s)(l \<mapsto> (case current s of None \<Rightarrow> [] | Some r \<Rightarrow> [r])), seen := (seen s)(l := [])\<rparr>"

datatype planner_event =
    Make nat "app_config list"
  | Servers_set nat "server_proto list"
  | Servers_failed nat
  | Listen nat
  | Yield_plan nat
  | Disconnect nat

fun planner_do :: "pystr set \<Rightarrow> planner_event \<Rightarrow> planner \<Rightarrow> planner option" where
  "planner_do system (Make now cfgs) s = Some (make_plan_begin system now cfgs s)"
| "planner_do system (Servers_set k protos) s = (if k < length (making s) then Some (make_plan_publish k protos s) else None)"
| "planner_do system (Servers_failed k) s = (if k < length (making s) then Some (s\<lparr>making := drop_nth k (making s)\<rparr>) else None)"
| "planner_do system (Listen l) s = (if listener_queues s l = None then Some (listen_for_plan l s) else None)"
| "planner_do system (Yield_plan l) s =
     (case listener_queues s l of
        Some (r # q) \<Rightarrow> Some (s\<lparr>listener_queues := (listener_queues s)(l \<mapsto> q), seen := (seen s)(l := seen s l @ [r])\<rparr>)
      | _ \<Rightarrow> None)"
| "planner_do system (Disconnect l) s =
     (if listener_queues s l \<noteq> None then Some (s\<lparr>listener_queues := (listener_queues s)(l := None)\<rparr>) else None)"

definition planner_step :: "pystr set \<Rightarrow> planner \<Rightarrow> planner_event \<Rightarrow> planner \<Rightarrow> bool" where
  "planner_step system s e t \<longleftrightarrow> planner_do system e s = Some t"

text \<open>Runs in which no plan is made while another is on its way.\<close>

definition planner_serial_step :: "pystr set \<Rightarrow> planner \<Rightarrow> planner_event \<Rightarrow> planner \<Rightarrow> bool" where
  "planner_serial_step system s e t \<longleftrightarrow> planner_step system s e t \<and> (\<forall>now cfgs. e = Make now cfgs \<longrightarrow> making s = [])"

section \<open>Order of plans\<close>

definition versions :: "response list \<Rightarrow> nat list" where
  "versions rs = map (version \<circ> fst) rs"

definition newer :: "planner \<Rightarrow> plan \<Rightarrow> bool" where
  "newer s p \<longleftrightarrow> (\<exists>v. pl_last_version s = Some v \<and> version p \<le> v) \<and> (\<forall>r. current s = Some r \<longrightarrow> version (fst r) < version p)"

text \<open>What a listener has been handed and what is in its queue.\<close>

definition queue_ok :: "response option \<Rightarrow> response list \<Rightarrow> bool" where
  "queue_ok cur rs \<longleftrightarrow> strictly_sorted (versions rs) \<and> (case cur of None \<Rightarrow> rs = [] | Some r \<Rightarrow> rs \<noteq> [] \<and> last rs = r)"

definition listener_ok :: "planner \<Rightarrow> nat \<Rightarrow> bool" where
  "listener_ok s l \<longleftrightarrow> (\<forall>q. listener_queues s l = Some q \<longrightarrow> queue_ok (current s) (seen s l @ q))"

definition planner_inv :: "planner \<Rightarrow> bool" where
  "planner_inv s \<longleftrightarrow> length (making s) \<le> 1 \<and> (\<forall>p \<in> set (making s). newer s p) \<and>
     (\<forall>r. current s = Some r \<longrightarrow> (\<exists>v. pl_last_version s = Some v \<and> version (fst r) \<le> v)) \<and> (\<forall>l. listener_ok s l)"

lemma sorted_snoc: "strictly_sorted (xs :: 'a :: linorder list) \<Longrightarrow> (xs \<noteq> [] \<Longrightarrow> last xs < x) \<Longrightarrow> strictly_sorted (xs @ [x])"
  by (cases xs rule: rev_cases) (auto simp: sorted_wrt_append intro: less_trans)

lemma make_begin_inv:
  assumes "planner_inv s" "making s = []"
  shows "planner_inv (make_plan_begin system now cfgs s)"
proof (cases "make_plan system now cfgs (pl_last_version s)")
  case (Inr pv)
  obtain p v where pv: "pv = (p, v)" by (cases pv)
  note m = make_plan_Inr[OF Inr[unfolded pv]]
  let ?t = "s\<lparr>pl_last_version := Some now, making := [p]\<rparr>"
  have "make_plan_begin system now cfgs s = ?t" using Inr m assms(2) by (simp add: make_plan_begin_def pv)
  moreover have "newer ?t p" using m assms(1) by (auto simp: newer_def planner_inv_def)
  moreover have "\<exists>w. pl_last_version ?t = Some w \<and> version (fst r) \<le> w" if "current s = Some r" for r
    using that m assms(1) by (auto simp: planner_inv_def)
  moreover have "listener_ok ?t l = listener_ok s l" for l by (simp add: listener_ok_def)
  ultimately show ?thesis using assms(1) by (simp add: planner_inv_def)
qed (use assms in \<open>simp add: make_plan_begin_def\<close>)

lemma dropped_inv: "planner_inv s \<Longrightarrow> planner_inv (s\<lparr>making := drop_nth k (making s)\<rparr>)"
  by (auto simp: planner_inv_def drop_nth_def newer_def listener_ok_def dest: in_set_takeD in_set_dropD)

lemma publish_plan_inv:
  assumes "planner_inv s" "k < length (making s)"
  shows "planner_inv (make_plan_publish k protos s)"
proof (cases "length protos \<le> length (plan_servers (making s ! k))")
  case True
  let ?p = "making s ! k"
  let ?r = "(?p, protos)"
  let ?t = "make_plan_publish k protos s"
  have one: "length (making s) = 1" "k = 0" using assms by (auto simp: planner_inv_def)
  have n: "newer s ?p" using assms by (auto simp: planner_inv_def)
  have t: "making ?t = []" "current ?t = Some ?r" "pl_last_version ?t = pl_last_version s" "seen ?t = seen s"
    "listener_queues ?t l = map_option (\<lambda>q. q @ [?r]) (listener_queues s l)" for l
    using True one by (simp_all add: make_plan_publish_def Let_def drop_nth_def) 
  have "queue_ok (Some ?r) (seen s l @ q @ [?r])" if "listener_queues s l = Some q" for l q
  proof -
    have q: "queue_ok (current s) (seen s l @ q)" using assms(1) that by (simp add: planner_inv_def listener_ok_def)
    have "strictly_sorted (versions (seen s l @ q) @ [version ?p])"
    proof (rule sorted_snoc)
      show "strictly_sorted (versions (seen s l @ q))" using q by (simp add: queue_ok_def)
      assume ne: "versions (seen s l @ q) \<noteq> []"
      then obtain r where "current s = Some r" "last (seen s l @ q) = r"
        using q by (cases "current s") (auto simp: queue_ok_def versions_def)
      moreover have "last (versions (seen s l @ q)) = version (fst (last (seen s l @ q)))"
        using ne last_map[of "seen s l @ q" "version \<circ> fst"] by (simp add: versions_def del: map_append)
      ultimately show "last (versions (seen s l @ q)) < version ?p" using n by (simp add: newer_def)
    qed
    then show ?thesis by (simp add: queue_ok_def versions_def)
  qed
  then have "listener_ok ?t l" for l by (auto simp: listener_ok_def t)
  then show ?thesis using n by (auto simp: planner_inv_def t newer_def)
next
  case False
  then show ?thesis using dropped_inv[OF assms(1)] by (simp add: make_plan_publish_def Let_def)
qed

lemma listen_inv: "planner_inv s \<Longrightarrow> planner_inv (listen_for_plan l s)"
  by (auto simp: planner_inv_def listen_for_plan_def listener_ok_def queue_ok_def newer_def versions_def split: option.splits)

lemma yield_inv:
  "planner_inv s \<Longrightarrow> listener_queues s l = Some (r # q) \<Longrightarrow>
   planner_inv (s\<lparr>listener_queues := (listener_queues s)(l \<mapsto> q), seen := (seen s)(l := seen s l @ [r])\<rparr>)"
  by (auto simp: planner_inv_def listener_ok_def newer_def)

lemma disconnect_inv: "planner_inv s \<Longrightarrow> planner_inv (s\<lparr>listener_queues := (listener_queues s)(l := None)\<rparr>)"
  by (auto simp: planner_inv_def listener_ok_def newer_def)

lemma planner_step_inv: "planner_inv s \<Longrightarrow> planner_serial_step system s e t \<Longrightarrow> planner_inv t"
  by (cases e) (auto simp: planner_serial_step_def planner_step_def make_begin_inv publish_plan_inv dropped_inv listen_inv yield_inv disconnect_inv
      split: if_splits option.splits list.splits)

interpretation planner: invariant_system "\<lambda>s. s = planner_init" "planner_serial_step system" planner_inv for system
  by unfold_locales (simp add: planner_inv_def planner_init_def listener_ok_def, rule planner_step_inv)

text \<open>
  (C28) Where plans are made one at a time, every listener is handed plans of strictly increasing version,
  and one whose queue is empty has the current plan as the last.
\<close>

theorem listeners_see_plans_in_order:
  assumes "reach (\<lambda>s. s = planner_init) (planner_serial_step system) s" "listener_queues s l = Some q"
  shows "strictly_sorted (map (version \<circ> fst) (seen s l @ q)) \<and>
    (q = [] \<longrightarrow> (\<forall>r. current s = Some r \<longrightarrow> seen s l \<noteq> [] \<and> last (seen s l) = r))"
proof -
  have "listener_ok s l" using planner.reach_inv[OF assms(1)] by (simp add: planner_inv_def)
  then show ?thesis using assms(2) by (auto simp: listener_ok_def queue_ok_def versions_def)
qed

fun planner_run :: "pystr set \<Rightarrow> planner_event list \<Rightarrow> planner \<Rightarrow> planner option" where
  "planner_run system [] s = Some s"
| "planner_run system (e # es) s = (case planner_do system e s of None \<Rightarrow> None | Some t \<Rightarrow> planner_run system es t)"

lemma planner_run_steps: "planner_run system es s = Some t \<Longrightarrow> steps (planner_step system) s es t"
  by (induction es arbitrary: s) (auto intro: steps.intros simp: planner_step_def split: option.splits)

definition empty_plan :: "nat \<Rightarrow> plan" where
  "empty_plan v = \<lparr>version = v, applications = []\<rparr>"

lemma make_empty: "make_plan system now [] lv = (case get_version now lv of Inl e \<Rightarrow> Inl e | Inr (v, l) \<Rightarrow> Inr (empty_plan v, l))"
  by (auto simp: make_plan_def empty_plan_def rbind_def split: sum.splits)

fun run_serial :: "pystr set \<Rightarrow> planner_event list \<Rightarrow> planner \<Rightarrow> bool" where
  "run_serial system [] s = True"
| "run_serial system (e # es) s =
     ((case e of Make _ _ \<Rightarrow> making s = [] | _ \<Rightarrow> True) \<and> (case planner_do system e s of None \<Rightarrow> True | Some t \<Rightarrow> run_serial system es t))"

lemma planner_run_serial: "planner_run system es s = Some t \<Longrightarrow> run_serial system es s \<Longrightarrow> steps (planner_serial_step system) s es t"
  by (induction es arbitrary: s)
    (auto intro!: steps.intros simp: planner_step_def planner_serial_step_def split: option.splits)

lemmas planner_eval = planner_init_def make_plan_begin_def listen_for_plan_def make_empty get_version_def make_plan_publish_def drop_nth_def
  empty_plan_def Let_def

theorem listeners_see_plans_in_order_witness:
  "\<exists>s. reach (\<lambda>s. s = planner_init) (planner_serial_step {}) s \<and> map_option fst (current s) = Some (empty_plan 2) \<and>
     seen s 4 \<noteq> [] \<and> fst (last (seen s 4)) = empty_plan 2"
proof -
  let ?es = "[Listen 4, Make 1 [], Servers_set 0 [], Make 2 [], Servers_set 0 [], Yield_plan 4, Yield_plan 4]"
  obtain s where s: "planner_run {} ?es planner_init = Some s" "listener_queues s 4 = Some []" "map_option fst (current s) = Some (empty_plan 2)"
    and ser: "run_serial {} ?es planner_init"
    by (simp add: planner_eval)
  have r: "reach (\<lambda>s. s = planner_init) (planner_serial_step {}) s"
    by (rule reach_steps[OF planner_run_serial[OF s(1) ser]]) (rule reach_init, rule refl)
  from listeners_see_plans_in_order[OF r s(2)] r s(3) show ?thesis by auto
qed

text \<open>
  Nothing keeps two plans from being made at a time: where the servers of the later one are ready first,
  the earlier plan is published last, and a listener ends up with the older version.
\<close>

theorem overlapping_plans_go_backwards:
  "\<exists>s. steps (planner_step {}) planner_init
     [Listen 4, Make 1 [], Make 2 [], Servers_set 1 [], Servers_set 0 [], Yield_plan 4, Yield_plan 4] s \<and>
     map (version \<circ> fst) (seen s 4) = [2, 1] \<and> listener_queues s 4 = Some [] \<and>
     map_option (version \<circ> fst) (current s) = Some 1"
proof -
  let ?es = "[Listen 4, Make 1 [], Make 2 [], Servers_set 1 [], Servers_set 0 [], Yield_plan 4, Yield_plan 4]"
  obtain s where s: "planner_run {} ?es planner_init = Some s" "map (version \<circ> fst) (seen s 4) = [2, 1]" "listener_queues s 4 = Some []"
    "map_option (version \<circ> fst) (current s) = Some 1"
    by (simp add: planner_eval)
  show ?thesis by (rule exI[of _ s]) (intro conjI planner_run_steps s)
qed

end
