(* ===== verification/Memoize.thy ===== *)
theory Memoize
  imports Prelude
begin

text \<open>
  Memoised blocks of workflows: \<open>memoize\<close> and \<open>MemoizeServicer\<close> (\<open>reboot/aio/memoize.py\<close>), on which \<open>at_least_once\<close>,
  \<open>at_most_once\<close> and \<open>until\<close> (\<open>reboot/aio/workflows.py\<close>) are built.

  One block of one workflow is followed through all attempts of the workflow.  Its memory is a state of its
  own, called through RPCs that are idempotent under a key or made anew each time.  An attempt may crash
  between any two calls, also after a call took effect and before its answer arrived; another attempt
  follows.  Pickling and the check of the result's type are parameters.
\<close>

section \<open>\<open>MemoizeServicer\<close>\<close>

record 'd memo_state =
  started :: bool
  stored :: bool
  failed :: bool
  data :: "'d option"
  failure :: "pystr option"

definition fresh :: "'d memo_state" where
  "fresh = \<lparr>started = False, stored = False, failed = False, data = None, failure = None\<rparr>"

datatype memo_error = Memo_assertion

definition memo_reset :: "'d memo_state \<Rightarrow> memo_error + 'd memo_state" where
  "memo_reset m = rbind (py_assert Memo_assertion (\<not> stored m)) (\<lambda>_. Inr fresh)"

definition memo_start :: "'d memo_state \<Rightarrow> memo_error + 'd memo_state" where
  "memo_start m = rbind (py_assert Memo_assertion (\<not> started m)) (\<lambda>_. Inr (m\<lparr>started := True\<rparr>))"

definition memo_store :: "'d \<Rightarrow> 'd memo_state \<Rightarrow> memo_error + 'd memo_state" where
  "memo_store d m = rbind (py_assert Memo_assertion (\<not> stored m)) (\<lambda>_. Inr (m\<lparr>stored := True, data := Some d\<rparr>))"

definition memo_fail :: "pystr \<Rightarrow> 'd memo_state \<Rightarrow> memo_error + 'd memo_state" where
  "memo_fail text m = rbind (py_assert Memo_assertion (\<not> stored m)) (\<lambda>_. Inr (m\<lparr>failed := True, failure := Some text\<rparr>))"

section \<open>\<open>memoize\<close>\<close>

text \<open>
  The arguments of the call.  \<open>always\<close>: the alias says \<open>ALWAYS\<close>.  \<open>validate\<close>: effect validation is enabled in the
  context and not disabled for the call.  \<open>retryable\<close>: \<open>retryable_exceptions\<close>.
\<close>

record ('v, 'e, 'd) memo_call =
  always :: bool
  at_most_once :: bool
  until :: bool
  validate :: bool
  retryable :: "('e \<Rightarrow> bool) option"
  describe :: "'e \<Rightarrow> pystr"
  is_type :: "'v \<Rightarrow> bool"
  dumps :: "'v \<Rightarrow> 'd"
  loads :: "'d \<Rightarrow> 'v"

datatype 'e memo_exception = At_most_once_failed "pystr option" | Type_error | Raised_by_callable 'e | Assertion_failed

text \<open>
  Where an attempt is: before the initial reset, before it asks for the status, before \<open>Start\<close>, before and in
  the callable (for the first time, or again to validate effects), in the handler of an exception, before
  \<open>Store\<close>, or done.
\<close>

datatype ('v, 'e) attempt =
    No_attempt
  | At_reset
  | At_status
  | At_start
  | At_callable bool
  | In_callable bool
  | At_handler 'e
  | At_store 'v
  | Returned 'v
  | Raised "'e memo_exception"

datatype memo_key = Initial_reset | Fail_key | Store_key

text \<open>
  \<open>applied\<close>: the keys under which a call has taken effect.  \<open>calls\<close> counts the calls of the callable, \<open>retries\<close> the
  resets after a retryable exception, and \<open>results\<close> is what attempts have returned.
\<close>

record ('v, 'e, 'd) memo_sys =
  memo :: "'d memo_state"
  applied :: "memo_key set"
  attempt :: "('v, 'e) attempt"
  calls :: nat
  retries :: nat
  results :: "'v list"

definition memo_init :: "('v, 'e, 'd) memo_sys" where
  "memo_init = \<lparr>memo = fresh, applied = {}, attempt = No_attempt, calls = 0, retries = 0, results = []\<rparr>"

text \<open>A call that is idempotent under a key, and one that is not.  An assertion of the servicer ends the attempt.\<close>

definition call_always ::
    "('d memo_state \<Rightarrow> memo_error + 'd memo_state) \<Rightarrow> ('v, 'e) attempt \<Rightarrow> ('v, 'e, 'd) memo_sys \<Rightarrow> ('v, 'e, 'd) memo_sys" where
  "call_always f next s =
     (case f (memo s) of
        Inl _ \<Rightarrow> s\<lparr>attempt := Raised Assertion_failed\<rparr>
      | Inr m \<Rightarrow> s\<lparr>memo := m, attempt := next\<rparr>)"

definition call_idempotently ::
    "memo_key \<Rightarrow> ('d memo_state \<Rightarrow> memo_error + 'd memo_state) \<Rightarrow> ('v, 'e) attempt \<Rightarrow> ('v, 'e, 'd) memo_sys \<Rightarrow> ('v, 'e, 'd) memo_sys" where
  "call_idempotently k f next s =
     (if k \<in> applied s then s\<lparr>attempt := next\<rparr>
      else case f (memo s) of
          Inl _ \<Rightarrow> s\<lparr>attempt := Raised Assertion_failed\<rparr>
        | Inr m \<Rightarrow> s\<lparr>memo := m, applied := insert k (applied s), attempt := next\<rparr>)"

definition finish :: "'v \<Rightarrow> ('v, 'e, 'd) memo_sys \<Rightarrow> ('v, 'e, 'd) memo_sys" where
  "finish v s = s\<lparr>attempt := Returned v, results := results s @ [v]\<rparr>"

text \<open>The decision after \<open>Status\<close>.\<close>

definition after_status :: "('v, 'e, 'd) memo_call \<Rightarrow> ('v, 'e, 'd) memo_sys \<Rightarrow> ('v, 'e, 'd) memo_sys" where
  "after_status C s =
     (if at_most_once C \<and> started (memo s) \<and> \<not> stored (memo s)
      then s\<lparr>attempt := Raised (At_most_once_failed (if failed (memo s) then failure (memo s) else None))\<rparr>
      else if stored (memo s)
      then (case data (memo s) of
              None \<Rightarrow> s\<lparr>attempt := Raised Type_error\<rparr>
            | Some d \<Rightarrow> if is_type C (loads C d) then finish (loads C d) s else s\<lparr>attempt := Raised Type_error\<rparr>)
      else if at_most_once C
      then (if started (memo s) then s\<lparr>attempt := Raised Assertion_failed\<rparr> else s\<lparr>attempt := At_start\<rparr>)
      else s\<lparr>attempt := At_callable False\<rparr>)"

text \<open>The callable is done: \<open>callable_validating_effects\<close>, and then the handler or the \<open>else\<close> branch.\<close>

definition after_callable :: "('v, 'e, 'd) memo_call \<Rightarrow> bool \<Rightarrow> 'e + 'v \<Rightarrow> ('v, 'e, 'd) memo_sys \<Rightarrow> ('v, 'e, 'd) memo_sys" where
  "after_callable C again r s =
     (case r of
        Inl e \<Rightarrow> if always C then s\<lparr>attempt := Raised (Raised_by_callable e)\<rparr> else s\<lparr>attempt := At_handler e\<rparr>
      | Inr v \<Rightarrow>
          if always C then finish v s
          else if \<not> again \<and> \<not> (at_most_once C \<or> until C \<or> \<not> validate C) then s\<lparr>attempt := At_callable True\<rparr>
          else if is_type C v then s\<lparr>attempt := At_store v\<rparr> else s\<lparr>attempt := Raised Type_error\<rparr>)"

definition handle_exception :: "('v, 'e, 'd) memo_call \<Rightarrow> 'e \<Rightarrow> ('v, 'e, 'd) memo_sys \<Rightarrow> ('v, 'e, 'd) memo_sys" where
  "handle_exception C e s =
     (if at_most_once C \<and> (case retryable C of None \<Rightarrow> False | Some p \<Rightarrow> p e)
      then call_always memo_reset (Raised (Raised_by_callable e)) (s\<lparr>retries := retries s + 1\<rparr>)
      else if at_most_once C
      then call_idempotently Fail_key (memo_fail (describe C e)) (Raised (Raised_by_callable e)) s
      else s\<lparr>attempt := Raised (Raised_by_callable e)\<rparr>)"

datatype ('v, 'e) memo_event = Attempt | Proceed | Outcome "'e + 'v" | Crash

text \<open>
  \<open>Attempt\<close> begins an attempt when none is under way; \<open>Proceed\<close> makes its next call; \<open>Outcome\<close> is what the
  callable does.
\<close>

fun proceed :: "('v, 'e, 'd) memo_call \<Rightarrow> ('v, 'e, 'd) memo_sys \<Rightarrow> ('v, 'e, 'd) memo_sys option" where
  "proceed C s =
     (case attempt s of
        At_reset \<Rightarrow> Some (call_idempotently Initial_reset memo_reset At_status s)
      | At_status \<Rightarrow> Some (after_status C s)
      | At_start \<Rightarrow> Some (call_always memo_start (At_callable False) s)
      | At_callable again \<Rightarrow> Some (s\<lparr>attempt := In_callable again, calls := calls s + 1\<rparr>)
      | At_handler e \<Rightarrow> Some (handle_exception C e s)
      | At_store v \<Rightarrow>
          let t = call_idempotently Store_key (memo_store (dumps C v)) (Returned v) s
          in Some (if attempt t = Returned v then finish v t else t)
      | _ \<Rightarrow> None)"

fun memo_do :: "('v, 'e, 'd) memo_call \<Rightarrow> ('v, 'e) memo_event \<Rightarrow> ('v, 'e, 'd) memo_sys \<Rightarrow> ('v, 'e, 'd) memo_sys option" where
  "memo_do C Attempt s =
     (case attempt s of
        No_attempt \<Rightarrow> Some (s\<lparr>attempt := (if always C then At_callable False else At_reset)\<rparr>)
      | Returned _ \<Rightarrow> Some (s\<lparr>attempt := (if always C then At_callable False else At_reset)\<rparr>)
      | Raised _ \<Rightarrow> Some (s\<lparr>attempt := (if always C then At_callable False else At_reset)\<rparr>)
      | _ \<Rightarrow> None)"
| "memo_do C Proceed s = proceed C s"
| "memo_do C (Outcome r) s = (case attempt s of In_callable again \<Rightarrow> Some (after_callable C again r s) | _ \<Rightarrow> None)"
| "memo_do C Crash s = Some (s\<lparr>attempt := No_attempt\<rparr>)"

definition memo_step :: "('v, 'e, 'd) memo_call \<Rightarrow> ('v, 'e, 'd) memo_sys \<Rightarrow> ('v, 'e) memo_event \<Rightarrow> ('v, 'e, 'd) memo_sys \<Rightarrow> bool" where
  "memo_step C s e t \<longleftrightarrow> memo_do C e s = Some t"

section \<open>Invariant\<close>

text \<open>What holds at each place of an attempt, of a call that is memoised.\<close>

definition place_ok :: "('v, 'e, 'd) memo_call \<Rightarrow> ('v, 'e, 'd) memo_sys \<Rightarrow> bool" where
  "place_ok C s =
     (case attempt s of
        At_status \<Rightarrow> Initial_reset \<in> applied s
      | At_start \<Rightarrow> \<not> stored (memo s) \<and> \<not> started (memo s) \<and> at_most_once C \<and> Initial_reset \<in> applied s
      | At_callable again \<Rightarrow> \<not> stored (memo s) \<and> (at_most_once C \<longrightarrow> started (memo s) \<and> calls s \<le> retries s \<and> \<not> again) \<and> Initial_reset \<in> applied s
      | In_callable again \<Rightarrow> \<not> stored (memo s) \<and> (at_most_once C \<longrightarrow> started (memo s)) \<and> Initial_reset \<in> applied s
      | At_handler e \<Rightarrow> \<not> stored (memo s) \<and> (at_most_once C \<longrightarrow> started (memo s)) \<and> Initial_reset \<in> applied s
      | At_store v \<Rightarrow> \<not> stored (memo s) \<and> (at_most_once C \<longrightarrow> started (memo s)) \<and> is_type C v \<and> Initial_reset \<in> applied s
      | Raised x \<Rightarrow> x \<noteq> Assertion_failed
      | _ \<Rightarrow> True)"

definition memo_inv :: "('v, 'e, 'd) memo_call \<Rightarrow> ('v, 'e, 'd) memo_sys \<Rightarrow> bool" where
  "memo_inv C s \<longleftrightarrow> place_ok C s \<and>
     (Initial_reset \<notin> applied s \<longrightarrow> memo s = fresh) \<and>
     (stored (memo s) \<longleftrightarrow> Store_key \<in> applied s) \<and>
     (stored (memo s) \<longrightarrow> (\<exists>v. data (memo s) = Some (dumps C v) \<and> is_type C v \<and> set (results s) \<subseteq> {v})) \<and>
     (\<not> stored (memo s) \<longrightarrow> results s = []) \<and>
     (at_most_once C \<longrightarrow> calls s \<le> retries s + 1 \<and> (\<not> started (memo s) \<longrightarrow> calls s \<le> retries s)) \<and>
     (retryable C = None \<longrightarrow> retries s = 0)"

text \<open>The call is memoised, and pickling can be undone.\<close>

definition memoised :: "('v, 'e, 'd) memo_call \<Rightarrow> bool" where
  "memoised C \<longleftrightarrow> \<not> always C \<and> (\<forall>v. loads C (dumps C v) = v)"

lemmas memo_ops = memo_reset_def memo_start_def memo_store_def memo_fail_def fresh_def

lemma reset_inv: "memo_inv C s \<Longrightarrow> attempt s = At_reset \<Longrightarrow> memo_inv C (call_idempotently Initial_reset memo_reset At_status s)"
  by (auto simp: memo_inv_def place_ok_def call_idempotently_def memo_ops split: sum.splits)

lemma status_inv:
  "memoised C \<Longrightarrow> memo_inv C s \<Longrightarrow> attempt s = At_status \<Longrightarrow> memo_inv C (after_status C s)"
  by (auto simp: memo_inv_def place_ok_def after_status_def finish_def memoised_def)

lemma memo_start_inv: "memo_inv C s \<Longrightarrow> attempt s = At_start \<Longrightarrow> memo_inv C (call_always memo_start (At_callable False) s)"
  by (auto simp: memo_inv_def place_ok_def call_always_def memo_start_def)

lemma invoke_inv:
  "memo_inv C s \<Longrightarrow> attempt s = At_callable again \<Longrightarrow> memo_inv C (s\<lparr>attempt := In_callable again, calls := calls s + 1\<rparr>)"
  by (auto simp: memo_inv_def place_ok_def)

lemma outcome_inv: "memoised C \<Longrightarrow> memo_inv C s \<Longrightarrow> attempt s = In_callable again \<Longrightarrow> memo_inv C (after_callable C again r s)"
  by (auto simp: memo_inv_def place_ok_def after_callable_def memoised_def split: sum.splits)

lemma handler_inv: "memo_inv C s \<Longrightarrow> attempt s = At_handler e \<Longrightarrow> memo_inv C (handle_exception C e s)"
  by (auto simp: memo_inv_def place_ok_def handle_exception_def call_always_def call_idempotently_def memo_ops split: option.splits)

lemma memo_store_inv:
  "memoised C \<Longrightarrow> memo_inv C s \<Longrightarrow> attempt s = At_store v \<Longrightarrow>
   memo_inv C (finish v (call_idempotently Store_key (memo_store (dumps C v)) (Returned v) s)) \<and>
   attempt (call_idempotently Store_key (memo_store (dumps C v)) (Returned v) s) = Returned v"
  by (auto simp: memo_inv_def place_ok_def call_idempotently_def memo_store_def finish_def)

lemma begin_inv: "memo_inv C s \<Longrightarrow> memo_inv C (s\<lparr>attempt := At_reset\<rparr>) \<and> memo_inv C (s\<lparr>attempt := No_attempt\<rparr>)"
  by (auto simp: memo_inv_def place_ok_def)

lemma memo_step_inv:
  assumes "memoised C" "memo_inv C s" "memo_step C s e t"
  shows "memo_inv C t"
proof (cases e)
  case Attempt
  then show ?thesis using assms begin_inv[OF assms(2)] by (auto simp: memo_step_def memoised_def split: attempt.splits)
next
  case Proceed
  then have "proceed C s = Some t" using assms(3) by (simp add: memo_step_def)
  then show ?thesis
    using reset_inv[OF assms(2)] status_inv[OF assms(1,2)] memo_start_inv[OF assms(2)] invoke_inv[OF assms(2)] handler_inv[OF assms(2)]
      memo_store_inv[OF assms(1,2)]
    by (auto simp: Let_def split: attempt.splits)
next
  case (Outcome r)
  then show ?thesis using assms outcome_inv by (auto simp: memo_step_def split: attempt.splits)
next
  case Crash
  then show ?thesis using assms begin_inv[OF assms(2)] by (auto simp: memo_step_def)
qed

lemma memo_init_inv: "memo_inv C memo_init"
  by (simp add: memo_inv_def memo_init_def place_ok_def fresh_def)

definition memo_initial :: "('v, 'e, 'd) memo_call \<Rightarrow> ('v, 'e, 'd) memo_sys \<Rightarrow> bool" where
  "memo_initial C s \<longleftrightarrow> memoised C \<and> s = memo_init"

interpretation memo_run: invariant_system "memo_initial C" "memo_step C" "\<lambda>s. memoised C \<and> memo_inv C s" for C
  by unfold_locales (auto simp: memo_initial_def intro: memo_init_inv memo_step_inv)

section \<open>At most once\<close>

text \<open>
  (C17) Under \<open>at_most_once\<close> the callable is called at most once more than it was reset after a retryable exception,
  through any number of attempts and crashes; without retryable exceptions it is called at most once.
\<close>

theorem at_most_once_is_at_most_once:
  assumes "reach (memo_initial C) (memo_step C) s" "at_most_once C"
  shows "calls s \<le> retries s + 1 \<and> (retryable C = None \<longrightarrow> calls s \<le> 1)"
  using memo_run.reach_inv[OF assms(1)] assms(2) by (auto simp: memo_inv_def)

definition given_up :: "('v, 'e, 'd) memo_sys \<Rightarrow> bool" where
  "given_up s \<longleftrightarrow> started (memo s) \<and> \<not> stored (memo s) \<and> Initial_reset \<in> applied s \<and>
     (case attempt s of No_attempt \<Rightarrow> True | At_reset \<Rightarrow> True | At_status \<Rightarrow> True | Raised _ \<Rightarrow> True | _ \<Rightarrow> False)"

lemma given_up_step:
  assumes "\<not> always C" "at_most_once C" "given_up s" "memo_step C s e t"
  shows "given_up t \<and> calls t = calls s \<and> results t = results s"
  using assms
  by (cases e; cases "attempt s") (auto simp: given_up_def memo_step_def call_idempotently_def after_status_def split: if_splits)

text \<open>
  An attempt under \<open>at_most_once\<close> that started and was cut off before its result was stored is given up: no
  later step calls the callable, stores a result or returns one.
\<close>

theorem cut_off_call_is_given_up:
  assumes "reach (memo_initial C) (memo_step C) s" "at_most_once C" "started (memo s)" "\<not> stored (memo s)"
    "attempt s = No_attempt" "steps (memo_step C) s es t"
  shows "calls t = calls s \<and> \<not> stored (memo t) \<and> results t = [] \<and>
    (\<forall>v. attempt t \<noteq> Returned v) \<and> (attempt t = At_status \<longrightarrow>
      (\<exists>u f. memo_do C Proceed t = Some u \<and> attempt u = Raised (At_most_once_failed f)))"
proof -
  note i = memo_run.reach_inv[OF assms(1)]
  have c: "\<not> always C" using i by (simp add: memoised_def)
  have g: "given_up s" using i assms(3-5) by (auto simp: given_up_def memo_inv_def fresh_def)
  have "given_up t \<and> calls t = calls s \<and> results t = results s" using assms(6) g
  proof (induction rule: steps.induct)
    case (steps_Cons s e t es u)
    then show ?case using given_up_step[OF c assms(2)] by metis
  qed simp
  moreover have "results s = []" using i assms(4) by (simp add: memo_inv_def)
  ultimately show ?thesis using assms(2) by (auto simp: given_up_def after_status_def)
qed

section \<open>Memoised results\<close>

text \<open>
  (C18) All attempts that return, return the same value, no assertion of the servicer ever fails, and once the
  value is stored an attempt returns it without calling the callable.
\<close>

theorem memoised_result_is_stable:
  assumes "reach (memo_initial C) (memo_step C) s"
  shows "(\<forall>v w. v \<in> set (results s) \<longrightarrow> w \<in> set (results s) \<longrightarrow> v = w) \<and> attempt s \<noteq> Raised Assertion_failed \<and>
    (stored (memo s) \<and> attempt s = At_status \<longrightarrow>
      (\<exists>t v. memo_do C Proceed s = Some t \<and> attempt t = Returned v \<and> set (results s) \<subseteq> {v} \<and> data (memo s) = Some (dumps C v) \<and> calls t = calls s))"
proof -
  note i = memo_run.reach_inv[OF assms]
  have "attempt s \<noteq> Raised Assertion_failed" using i by (auto simp: memo_inv_def place_ok_def)
  moreover have "v = w" if "v \<in> set (results s)" "w \<in> set (results s)" for v w
    using i that by (cases "stored (memo s)") (auto simp: memo_inv_def)
  moreover have "\<exists>t v. memo_do C Proceed s = Some t \<and> attempt t = Returned v \<and> set (results s) \<subseteq> {v} \<and> data (memo s) = Some (dumps C v) \<and> calls t = calls s"
    if st: "stored (memo s)" "attempt s = At_status"
  proof -
    from i st(1) obtain v where v: "data (memo s) = Some (dumps C v)" "is_type C v" "set (results s) \<subseteq> {v}" by (auto simp: memo_inv_def)
    then show ?thesis using i st by (simp add: after_status_def finish_def memoised_def)
  qed
  ultimately show ?thesis by blast
qed

section \<open>Concrete runs\<close>

fun memo_exec :: "('v, 'e, 'd) memo_call \<Rightarrow> ('v, 'e) memo_event list \<Rightarrow> ('v, 'e, 'd) memo_sys \<Rightarrow> ('v, 'e, 'd) memo_sys option" where
  "memo_exec C [] s = Some s"
| "memo_exec C (e # es) s = (case memo_do C e s of None \<Rightarrow> None | Some t \<Rightarrow> memo_exec C es t)"

lemma memo_exec_steps: "memo_exec C es s = Some t \<Longrightarrow> steps (memo_step C) s es t"
  by (induction es arbitrary: s) (auto intro: steps.intros simp: memo_step_def split: option.splits)

definition call0 :: "bool \<Rightarrow> (nat, nat, nat) memo_call" where
  "call0 once = \<lparr>always = False, at_most_once = once, until = False, validate = True, retryable = None, describe = (\<lambda>e. [e]),
     is_type = (\<lambda>_. True), dumps = id, loads = id\<rparr>"

lemma call0_reach: "memo_exec (call0 b) es memo_init = Some s \<Longrightarrow> reach (memo_initial (call0 b)) (memo_step (call0 b)) s"
  by (rule reach_steps[OF memo_exec_steps]) (auto intro!: reach_init simp: memo_initial_def memoised_def call0_def)

lemmas memo_eval = memo_init_def memo_ops call_idempotently_def call_always_def after_status_def after_callable_def finish_def
  handle_exception_def call0_def Let_def

text \<open>Started, and cut off in the callable; and a call that is validated, stored, and attempted again.\<close>

definition cut_off :: "(nat, nat, nat) memo_sys" where
  "cut_off = \<lparr>memo = fresh\<lparr>started := True\<rparr>, applied = {Initial_reset}, attempt = No_attempt, calls = 1, retries = 0, results = []\<rparr>"

definition repeated :: "(nat, nat, nat) memo_sys" where
  "repeated = \<lparr>memo = fresh\<lparr>stored := True, data := Some 9\<rparr>, applied = {Initial_reset, Store_key}, attempt = At_status, calls = 2, retries = 0,
     results = [9]\<rparr>"

lemma cut_off_exec: "memo_exec (call0 True) [Attempt, Proceed, Proceed, Proceed, Proceed, Crash] memo_init = Some cut_off"
  by (simp add: memo_eval cut_off_def)

lemma repeated_exec:
  "memo_exec (call0 False) [Attempt, Proceed, Proceed, Proceed, Outcome (Inr 8), Proceed, Outcome (Inr 9), Proceed, Attempt, Proceed] memo_init = Some repeated"
  by (simp add: memo_eval repeated_def insert_commute)

theorem at_most_once_is_at_most_once_witness:
  "reach (memo_initial (call0 True)) (memo_step (call0 True)) cut_off \<and> started (memo cut_off) \<and> calls cut_off \<le> 1"
  using at_most_once_is_at_most_once[OF call0_reach[OF cut_off_exec]] call0_reach[OF cut_off_exec] by (simp add: call0_def cut_off_def)

theorem cut_off_call_is_given_up_witness:
  "\<exists>t. steps (memo_step (call0 True)) cut_off [Attempt, Proceed, Proceed] t \<and> calls t = calls cut_off \<and> results t = []"
proof -
  obtain t where "memo_exec (call0 True) [Attempt, Proceed, Proceed] cut_off = Some t" by (simp add: memo_eval cut_off_def)
  note s = memo_exec_steps[OF this]
  have "at_most_once (call0 True)" "started (memo cut_off)" "\<not> stored (memo cut_off)" "attempt cut_off = No_attempt"
    by (simp_all add: call0_def cut_off_def fresh_def)
  from cut_off_call_is_given_up[OF call0_reach[OF cut_off_exec] this s] s show ?thesis by blast
qed

theorem memoised_result_is_stable_witness:
  "\<exists>t. memo_do (call0 False) Proceed repeated = Some t \<and> attempt t = Returned 9 \<and> calls t = 2"
proof -
  have "stored (memo repeated) \<and> attempt repeated = At_status" by (simp add: repeated_def)
  with memoised_result_is_stable[OF call0_reach[OF repeated_exec]] show ?thesis by (auto simp: repeated_def call0_def)
qed

end
