(* ===== verification/Sorted_Map.thy ===== *)
theory Sorted_Map
  imports State_Ref
begin

text \<open>
  \<open>SortedMapServicer\<close> (\<open>reboot/std/collections/v1/sorted_map.py\<close>) and the part of the state manager that stores
  and scans the entries of sorted maps as states colocated with the map.

  The entries of all maps are kept by the database in one table ordered by reference, byte by byte; its
  scans are those of \<open>database.cc\<close>.  A call within a transaction sees that transaction's view of the table,
  which is a table as well.
\<close>

datatype sm_error = Invalid_range | Bad_ref ref_error | Wrong_type | Decode_assertion

definition SORTED_MAP_TYPE_NAME :: pystr where
  "SORTED_MAP_TYPE_NAME = str ''rbt.std.collections.v1.SortedMap''"

definition SORTED_MAP_ENTRY_TYPE_NAME :: pystr where
  "SORTED_MAP_ENTRY_TYPE_NAME = str ''rbt.std.collections.v1.SortedMapEntry''"

section \<open>The table\<close>

type_synonym table = "(pystr \<times> bytes) list"

fun upsert :: "pystr \<Rightarrow> bytes \<Rightarrow> table \<Rightarrow> table" where
  "upsert k v [] = [(k, v)]"
| "upsert k v ((k', v') # t) =
     (if k < k' then (k, v) # (k', v') # t else if k = k' then (k, v) # t else (k', v') # upsert k v t)"

text \<open>An upsert without a value deletes.\<close>

definition apply_upsert :: "pystr \<times> bytes option \<Rightarrow> table \<Rightarrow> table" where
  "apply_upsert u t = (case snd u of Some v \<Rightarrow> upsert (fst u) v t | None \<Rightarrow> filter (\<lambda>e. fst e \<noteq> fst u) t)"

definition db_colocated_range :: "pystr \<Rightarrow> pystr option \<Rightarrow> pystr option \<Rightarrow> nat \<Rightarrow> table \<Rightarrow> table" where
  "db_colocated_range parent start end_key limit t =
     (let lo = parent @ slash # (case start of Some s \<Rightarrow> s | None \<Rightarrow> []);
          hi = (case end_key of Some e \<Rightarrow> parent @ slash # e | None \<Rightarrow> parent @ [48])
      in take limit (filter (\<lambda>e. lo \<le> fst e \<and> fst e < hi) t))"

definition db_colocated_reverse_range :: "pystr \<Rightarrow> pystr option \<Rightarrow> pystr option \<Rightarrow> nat \<Rightarrow> table \<Rightarrow> table" where
  "db_colocated_reverse_range parent start end_key limit t =
     (let lo = parent @ slash # (case end_key of Some e \<Rightarrow> e @ [0] | None \<Rightarrow> []);
          hi = (case start of Some s \<Rightarrow> parent @ slash # s | None \<Rightarrow> parent @ [48])
      in take limit (rev (filter (\<lambda>e. lo \<le> fst e \<and> fst e \<le> hi) t)))"

section \<open>The state manager\<close>

definition lift_ref :: "ref_error + 'a \<Rightarrow> sm_error + 'a" where
  "lift_ref r = (case r of Inl e \<Rightarrow> Inl (Bad_ref e) | Inr x \<Rightarrow> Inr x)"

definition maybe_ref :: "(pystr \<Rightarrow> bytes) \<Rightarrow> pystr option \<Rightarrow> sm_error + pystr option" where
  "maybe_ref sha1 k =
     (case k of None \<Rightarrow> Inr None
      | Some s \<Rightarrow> rbind (lift_ref (from_id sha1 SORTED_MAP_ENTRY_TYPE_NAME s)) (\<lambda>r. Inr (Some r)))"

definition decode_key :: "(pystr \<Rightarrow> bytes) \<Rightarrow> pystr \<Rightarrow> sm_error + pystr" where
  "decode_key sha1 ref =
     rbind (lift_ref (matches_state_type sha1 SORTED_MAP_ENTRY_TYPE_NAME ref)) (\<lambda>b.
     rbind (py_assert Decode_assertion b) (\<lambda>_. Inr (ref_id ref)))"

fun decode_page :: "(pystr \<Rightarrow> bytes) \<Rightarrow> table \<Rightarrow> sm_error + table" where
  "decode_page sha1 [] = Inr []"
| "decode_page sha1 ((k, v) # page) =
     rbind (decode_key sha1 k) (\<lambda>k'. rbind (decode_page sha1 page) (\<lambda>page'. Inr ((k', v) # page')))"

definition colocated_omnidirectional_range ::
    "(pystr \<Rightarrow> bytes) \<Rightarrow> pystr \<Rightarrow> pystr \<Rightarrow> pystr option \<Rightarrow> pystr option \<Rightarrow> nat \<Rightarrow> bool \<Rightarrow> table \<Rightarrow> sm_error + table" where
  "colocated_omnidirectional_range sha1 state_type parent start end_key limit reverse t =
     rbind (py_assert Wrong_type (state_type = SORTED_MAP_TYPE_NAME)) (\<lambda>_.
     rbind (maybe_ref sha1 start) (\<lambda>start_ref.
     rbind (maybe_ref sha1 end_key) (\<lambda>end_ref.
       decode_page sha1
         (if reverse then db_colocated_reverse_range parent start_ref end_ref limit t
          else db_colocated_range parent start_ref end_ref limit t))))"

text \<open>The colocated upserts of \<open>_store\<close>: all references are made before anything is stored.\<close>

fun upsert_refs :: "(pystr \<Rightarrow> bytes) \<Rightarrow> pystr \<Rightarrow> (pystr \<times> bytes option) list \<Rightarrow> sm_error + (pystr \<times> bytes option) list" where
  "upsert_refs sha1 parent [] = Inr []"
| "upsert_refs sha1 parent ((k, v) # us) =
     rbind (lift_ref (colocate sha1 SORTED_MAP_ENTRY_TYPE_NAME k parent)) (\<lambda>r.
     rbind (upsert_refs sha1 parent us) (\<lambda>rs. Inr ((r, v) # rs)))"

definition store_colocated :: "(pystr \<Rightarrow> bytes) \<Rightarrow> pystr \<Rightarrow> pystr \<Rightarrow> (pystr \<times> bytes option) list \<Rightarrow> table \<Rightarrow> sm_error + table" where
  "store_colocated sha1 state_type parent us t =
     rbind (py_assert Wrong_type (state_type = SORTED_MAP_TYPE_NAME)) (\<lambda>_.
     rbind (upsert_refs sha1 parent us) (\<lambda>rs. Inr (fold apply_upsert rs t)))"

section \<open>\<open>SortedMapServicer\<close>\<close>

definition sm_insert :: "(pystr \<Rightarrow> bytes) \<Rightarrow> pystr \<Rightarrow> (pystr \<times> bytes) list \<Rightarrow> table \<Rightarrow> sm_error + table" where
  "sm_insert sha1 parent entries = store_colocated sha1 SORTED_MAP_TYPE_NAME parent (map (\<lambda>(k, v). (k, Some v)) entries)"

definition sm_remove :: "(pystr \<Rightarrow> bytes) \<Rightarrow> pystr \<Rightarrow> pystr list \<Rightarrow> table \<Rightarrow> sm_error + table" where
  "sm_remove sha1 parent keys = store_colocated sha1 SORTED_MAP_TYPE_NAME parent (map (\<lambda>k. (k, None)) keys)"

definition sm_range :: "(pystr \<Rightarrow> bytes) \<Rightarrow> pystr \<Rightarrow> pystr option \<Rightarrow> pystr option \<Rightarrow> nat \<Rightarrow> table \<Rightarrow> sm_error + table" where
  "sm_range sha1 parent start_key end_key limit t =
     (if limit = 0 then Inl Invalid_range
      else if (case (start_key, end_key) of (Some s, Some e) \<Rightarrow> e \<le> s | _ \<Rightarrow> False) then Inl Invalid_range
      else colocated_omnidirectional_range sha1 SORTED_MAP_TYPE_NAME parent start_key end_key limit False t)"

definition sm_reverse_range :: "(pystr \<Rightarrow> bytes) \<Rightarrow> pystr \<Rightarrow> pystr option \<Rightarrow> pystr option \<Rightarrow> nat \<Rightarrow> table \<Rightarrow> sm_error + table" where
  "sm_reverse_range sha1 parent start_key end_key limit t =
     (if limit = 0 then Inl Invalid_range
      else if (case (start_key, end_key) of (Some s, Some e) \<Rightarrow> s \<le> e | _ \<Rightarrow> False) then Inl Invalid_range
      else colocated_omnidirectional_range sha1 SORTED_MAP_TYPE_NAME parent start_key end_key limit True t)"

definition sm_get :: "(pystr \<Rightarrow> bytes) \<Rightarrow> pystr \<Rightarrow> pystr \<Rightarrow> table \<Rightarrow> sm_error + bytes option" where
  "sm_get sha1 parent key t =
     rbind (colocated_omnidirectional_range sha1 SORTED_MAP_TYPE_NAME parent (Some key) (Some (key @ [1])) 1 False t) (\<lambda>page.
     rbind (py_assert Decode_assertion (length page \<le> 1)) (\<lambda>_.
       Inr (case page of [] \<Rightarrow> None | (_, value) # _ \<Rightarrow> Some value)))"

section \<open>Lexicographic order\<close>

lemma append_less_append [simp]: "p @ a < p @ b \<longleftrightarrow> a < (b :: nat list)"
  by (induction p) auto

lemma append_le_append [simp]: "p @ a \<le> p @ b \<longleftrightarrow> a \<le> (b :: nat list)"
  by (auto simp: le_less)

lemma Nil_less_iff [simp]: "[] < (xs :: nat list) \<longleftrightarrow> xs \<noteq> []"
  by (cases xs) auto

text \<open>Between a prefix with a slash and the prefix with what comes after a slash are just the extensions of the former.\<close>

lemma prefix_interval: "p @ [c] \<le> s \<and> s < p @ [Suc c] \<longleftrightarrow> (\<exists>t. s = p @ c # t)" for p s :: "nat list"
proof (induction p arbitrary: s)
  case Nil
  show ?case by (cases s) (auto simp: le_less less_Suc_eq)
next
  case (Cons a p)
  then show ?case by (cases s) (auto simp: le_less)
qed

lemma less_snoc_one:
  assumes "0 \<notin> set k"
  shows "s \<le> k \<and> k < s @ [1] \<longleftrightarrow> k = (s :: nat list)"
  using assms
proof (induction s arbitrary: k)
  case Nil
  then show ?case by (cases k) auto
next
  case (Cons a s)
  then show ?case by (cases k) (auto simp: le_less)
qed

lemma upsert_keys: "fst ` set (upsert k v t) = insert k (fst ` set t)"
  by (induction k v t rule: upsert.induct) auto

lemma upsert_sorted: "strictly_sorted (map fst t) \<Longrightarrow> strictly_sorted (map fst (upsert k v t))"
proof (induction k v t rule: upsert.induct)
  case (2 k v k' v' t)
  have "x \<in> insert k (fst ` set t)" if "x \<in> fst ` set (upsert k v t)" for x using that by (simp add: upsert_keys)
  then show ?case using 2 by (fastforce simp: neq_iff)
qed simp

lemma map_of_upsert: "strictly_sorted (map fst t) \<Longrightarrow> map_of (upsert k v t) = (map_of t)(k \<mapsto> v)"
proof (induction k v t rule: upsert.induct)
  case (2 k v k' v' t)
  have "k \<notin> fst ` set t" if "k < k'" using 2(2) that by (auto dest: less_trans)
  then have "map_of t k = None" if "k < k'" using that by (simp add: map_of_eq_None_iff)
  then show ?case using 2 by (auto simp: fun_eq_iff)
qed simp

lemma apply_upsert_ok:
  assumes "strictly_sorted (map fst t)"
  shows "strictly_sorted (map fst (apply_upsert u t)) \<and> map_of (apply_upsert u t) = (map_of t)(fst u := snd u)"
proof (cases "snd u")
  case None
  have "map_of (filter (\<lambda>e. fst e \<noteq> k) t) = (map_of t)(k := None)" for k by (induction t) (auto simp: fun_eq_iff)
  moreover have "strictly_sorted (map fst (filter (\<lambda>e. fst e \<noteq> k) t))" for k
    using assms sorted_wrt_filter[of "(<)" "map fst t" "\<lambda>x. x \<noteq> k"] by (simp add: filter_map comp_def)
  ultimately show ?thesis using None by (simp add: apply_upsert_def)
qed (use assms upsert_sorted map_of_upsert in \<open>simp add: apply_upsert_def\<close>)

lemma fold_upsert_ok:
  "strictly_sorted (map fst t) \<Longrightarrow>
   strictly_sorted (map fst (fold apply_upsert us t)) \<and> map_of (fold apply_upsert us t) = fold (\<lambda>u m. m(fst u := snd u)) us (map_of t)"
  by (induction us arbitrary: t) (auto simp: apply_upsert_ok)

section \<open>References of entries\<close>

definition entry_prefix :: "(pystr \<Rightarrow> bytes) \<Rightarrow> pystr" where
  "entry_prefix sha1 = (case compute_tag sha1 SORTED_MAP_ENTRY_TYPE_NAME of Inr tag \<Rightarrow> tag @ [colon] | Inl _ \<Rightarrow> [])"

definition entry_ref :: "(pystr \<Rightarrow> bytes) \<Rightarrow> pystr \<Rightarrow> pystr \<Rightarrow> pystr" where
  "entry_ref sha1 parent k = parent @ slash # entry_prefix sha1 @ state_id_encode k"

lemma entry_from_id:
  assumes "digest20 sha1"
  shows "from_id sha1 SORTED_MAP_ENTRY_TYPE_NAME k =
    (if valid_id k then Inr (entry_prefix sha1 @ state_id_encode k) else Inl InvalidStateRefError)"
proof -
  obtain tag where "compute_tag sha1 SORTED_MAP_ENTRY_TYPE_NAME = Inr tag" using assms by (rule compute_tag_ok)
  then show ?thesis by (simp add: from_id_def validate_id entry_prefix_def)
qed

lemma entry_colocate:
  assumes "digest20 sha1"
  shows "colocate sha1 SORTED_MAP_ENTRY_TYPE_NAME k parent = (if valid_id k then Inr (entry_ref sha1 parent k) else Inl InvalidStateRefError)"
  by (simp add: colocate_def entry_from_id[OF assms] entry_ref_def)

lemma entry_decode:
  assumes "digest20 sha1" "valid_id k"
  shows "decode_key sha1 (entry_ref sha1 parent k) = Inr k" "ref_id (entry_ref sha1 parent k) = k"
proof -
  obtain tag bs where t: "from_id sha1 SORTED_MAP_ENTRY_TYPE_NAME k = Inr (tag @ colon # state_id_encode k)"
    "compute_tag sha1 SORTED_MAP_ENTRY_TYPE_NAME = Inr tag" "length tag = STATE_TYPE_TAG_LENGTH"
    "slash \<notin> set (tag @ colon # state_id_encode k)" "colon \<notin> set tag" "b64decode (tag @ [61, 61]) = Some (0 # bs)"
    by (rule from_id_ok[OF assms])
  have e: "entry_ref sha1 parent k = parent @ slash # tag @ colon # state_id_encode k" using t(2) by (simp add: entry_ref_def entry_prefix_def)
  note r = encoded_readings[OF t(3,5,6) assms(2) t(4), of "parent @ slash # tag @ colon # state_id_encode k" parent]
  show "ref_id (entry_ref sha1 parent k) = k" using r(1) e by simp
  then show "decode_key sha1 (entry_ref sha1 parent k) = Inr k" using r(2) e t(2) by (simp add: decode_key_def lift_ref_def matches_state_type_def)
qed

lemma encode_inj: "valid_id k \<Longrightarrow> valid_id k' \<Longrightarrow> state_id_encode k = state_id_encode k' \<longleftrightarrow> k = k'"
proof -
  assume "valid_id k" "valid_id k'"
  then have "backslash \<notin> set k" "backslash \<notin> set k'" by (auto simp: valid_id_def backslash_def)
  then show ?thesis using decode_encode by metis
qed

lemma first_slash: "slash \<notin> set p \<Longrightarrow> slash \<notin> set p' \<Longrightarrow> p @ slash # a = p' @ slash # b \<longleftrightarrow> p = p' \<and> a = b"
proof (induction p arbitrary: p')
  case Nil
  then show ?case by (cases p') auto
next
  case (Cons c p)
  then show ?case by (cases p') auto
qed

lemma entry_ref_inj:
  "slash \<notin> set p \<Longrightarrow> slash \<notin> set p' \<Longrightarrow> valid_id k \<Longrightarrow> valid_id k' \<Longrightarrow> entry_ref sha1 p k = entry_ref sha1 p' k' \<longleftrightarrow> p = p' \<and> k = k'"
  by (auto simp: entry_ref_def first_slash encode_inj)

section \<open>Tables of entries\<close>

definition table_ok :: "(pystr \<Rightarrow> bytes) \<Rightarrow> table \<Rightarrow> bool" where
  "table_ok sha1 t \<longleftrightarrow> strictly_sorted (map fst t) \<and>
     (\<forall>e \<in> set t. \<exists>p k. slash \<notin> set p \<and> valid_id k \<and> fst e = entry_ref sha1 p k)"

definition is_entry_of :: "pystr \<Rightarrow> pystr \<Rightarrow> bool" where
  "is_entry_of parent ref = (take (Suc (length parent)) ref = parent @ [slash])"

text \<open>The reference: a map as the list of its entries, and as a function.\<close>

definition entries_of :: "pystr \<Rightarrow> table \<Rightarrow> table" where
  "entries_of parent t = map (\<lambda>(r, v). (ref_id r, v)) (filter (\<lambda>e. is_entry_of parent (fst e)) t)"

definition sm_map :: "(pystr \<Rightarrow> bytes) \<Rightarrow> pystr \<Rightarrow> table \<Rightarrow> pystr \<Rightarrow> bytes option" where
  "sm_map sha1 parent t k = (if valid_id k then map_of t (entry_ref sha1 parent k) else None)"

definition in_bounds :: "pystr option \<Rightarrow> pystr option \<Rightarrow> pystr \<Rightarrow> bool" where
  "in_bounds start end_key k =
     ((case start of None \<Rightarrow> True | Some s \<Rightarrow> state_id_encode s \<le> state_id_encode k) \<and>
      (case end_key of None \<Rightarrow> True | Some e \<Rightarrow> state_id_encode k < state_id_encode e))"

lemma is_entry_of_ref: "slash \<notin> set p \<Longrightarrow> slash \<notin> set parent \<Longrightarrow> is_entry_of parent (entry_ref sha1 p k) \<longleftrightarrow> p = parent"
proof -
  assume p: "slash \<notin> set p" "slash \<notin> set parent"
  have "is_entry_of parent s \<longleftrightarrow> (\<exists>t. s = parent @ slash # t)" for s
  proof
    assume a: "is_entry_of parent s"
    have "s = take (Suc (length parent)) s @ drop (Suc (length parent)) s" by (rule append_take_drop_id[symmetric])
    then have "s = (parent @ [slash]) @ drop (Suc (length parent)) s" using a by (simp only: is_entry_of_def)
    then show "\<exists>t. s = parent @ slash # t" by auto
  qed (auto simp: is_entry_of_def)
  then show ?thesis using p by (auto simp: entry_ref_def first_slash)
qed

lemma scan_bounds:
  assumes "slash \<notin> set parent" "slash \<notin> set p"
  shows "parent @ slash # (case start of Some s \<Rightarrow> entry_prefix sha1 @ state_id_encode s | None \<Rightarrow> []) \<le> entry_ref sha1 p k \<and>
    entry_ref sha1 p k < (case end_key of Some e \<Rightarrow> parent @ slash # entry_prefix sha1 @ state_id_encode e | None \<Rightarrow> parent @ [48]) \<longleftrightarrow>
    p = parent \<and> in_bounds start end_key k" (is "?lo \<le> ?r \<and> ?r < ?hi \<longleftrightarrow> _")
proof (cases "p = parent")
  case True
  show ?thesis by (cases start; cases end_key) (auto simp: True entry_ref_def in_bounds_def slash_def)
next
  case False
  have "parent @ [slash] \<le> ?lo" "?hi \<le> parent @ [Suc slash]" by (auto simp: slash_def le_less split: option.splits)
  then have "?lo \<le> ?r \<and> ?r < ?hi \<longrightarrow> (\<exists>t. ?r = parent @ slash # t)" using prefix_interval[of parent slash ?r] by (meson le_less_trans less_le_trans order_trans)
  then show ?thesis using False assms by (auto simp: entry_ref_def first_slash)
qed

lemma decode_page_ok:
  "digest20 sha1 \<Longrightarrow> (\<forall>e \<in> set page. \<exists>p k. valid_id k \<and> fst e = entry_ref sha1 p k) \<Longrightarrow>
   decode_page sha1 page = Inr (map (\<lambda>(r, v). (ref_id r, v)) page)"
  by (induction sha1 page rule: decode_page.induct) (auto simp: entry_decode)

section \<open>Storing\<close>

definition upd_all :: "(pystr \<times> bytes option) list \<Rightarrow> (pystr \<Rightarrow> bytes option) \<Rightarrow> pystr \<Rightarrow> bytes option" where
  "upd_all us m = fold (\<lambda>u m. m(fst u := snd u)) us m"

lemma upsert_refs_ok:
  assumes "digest20 sha1"
  shows "upsert_refs sha1 parent us =
    (if list_all (\<lambda>u. valid_id (fst u)) us then Inr (map (\<lambda>u. (entry_ref sha1 parent (fst u), snd u)) us) else Inl (Bad_ref InvalidStateRefError))"
  by (induction us) (auto simp: entry_colocate[OF assms] lift_ref_def)

lemma apply_upsert_keys: "fst ` set (apply_upsert u t) \<subseteq> insert (fst u) (fst ` set t)"
  using upsert_keys by (auto simp: apply_upsert_def split: option.splits)

lemma table_ok_upsert:
  assumes "table_ok sha1 t" "slash \<notin> set parent" "valid_id k"
  shows "table_ok sha1 (apply_upsert (entry_ref sha1 parent k, v) t)"
proof -
  let ?u = "(entry_ref sha1 parent k, v)"
  have "\<exists>p k. slash \<notin> set p \<and> valid_id k \<and> r = entry_ref sha1 p k" if "r \<in> insert (entry_ref sha1 parent k) (fst ` set t)" for r
    using that assms by (auto simp: table_ok_def)
  moreover have "fst e \<in> insert (entry_ref sha1 parent k) (fst ` set t)" if "e \<in> set (apply_upsert ?u t)" for e
    using apply_upsert_keys[of ?u t] that by (metis fst_conv image_eqI subsetD)
  moreover have "strictly_sorted (map fst (apply_upsert ?u t))" using apply_upsert_ok[of t ?u] assms(1) by (simp add: table_ok_def)
  ultimately show ?thesis unfolding table_ok_def by blast
qed

lemma sm_map_upsert:
  assumes "table_ok sha1 t" "slash \<notin> set parent" "slash \<notin> set p" "valid_id k"
  shows "sm_map sha1 p (apply_upsert (entry_ref sha1 parent k, v) t) = (if p = parent then (sm_map sha1 p t)(k := v) else sm_map sha1 p t)"
proof -
  have m: "map_of (apply_upsert (entry_ref sha1 parent k, v) t) = (map_of t)(entry_ref sha1 parent k := v)"
    using apply_upsert_ok[of t "(entry_ref sha1 parent k, v)"] assms(1) by (simp add: table_ok_def)
  show ?thesis using assms(2-4) by (auto simp: sm_map_def m entry_ref_inj fun_eq_iff)
qed

lemma store_effect:
  assumes "digest20 sha1" "table_ok sha1 t" "slash \<notin> set parent" "list_all (\<lambda>u. valid_id (fst u)) us"
  shows "\<exists>t'. store_colocated sha1 SORTED_MAP_TYPE_NAME parent us t = Inr t' \<and> table_ok sha1 t' \<and>
    (\<forall>p. slash \<notin> set p \<longrightarrow> sm_map sha1 p t' = (if p = parent then upd_all us (sm_map sha1 p t) else sm_map sha1 p t))"
proof -
  let ?rs = "map (\<lambda>u. (entry_ref sha1 parent (fst u), snd u))"
  have "table_ok sha1 (fold apply_upsert (?rs us) t) \<and>
    (\<forall>p. slash \<notin> set p \<longrightarrow> sm_map sha1 p (fold apply_upsert (?rs us) t) = (if p = parent then upd_all us (sm_map sha1 p t) else sm_map sha1 p t))"
    using assms(2,4)
  proof (induction us arbitrary: t)
    case (Cons u us)
    have v: "valid_id (fst u)" "list_all (\<lambda>u. valid_id (fst u)) us" using Cons.prems(2) by simp_all
    show ?case
      using Cons.IH[OF table_ok_upsert[OF Cons.prems(1) assms(3) v(1), of "snd u"] v(2)] sm_map_upsert[OF Cons.prems(1) assms(3) _ v(1), of _ "snd u"]
      by (simp add: upd_all_def)
  qed (simp add: upd_all_def)
  then show ?thesis using assms(1,4) by (simp add: store_colocated_def upsert_refs_ok)
qed

section \<open>Scanning\<close>

lemma range_eq:
  assumes "digest20 sha1" "table_ok sha1 t" "slash \<notin> set parent"
    "case start of None \<Rightarrow> True | Some s \<Rightarrow> valid_id s" "case end_key of None \<Rightarrow> True | Some e \<Rightarrow> valid_id e"
  shows "colocated_omnidirectional_range sha1 SORTED_MAP_TYPE_NAME parent start end_key limit False t =
    Inr (take limit (filter (\<lambda>e. in_bounds start end_key (fst e)) (entries_of parent t)))"
proof -
  let ?f = "\<lambda>(r, v). (ref_id r, v)" and ?x = "map_option (\<lambda>s. entry_prefix sha1 @ state_id_encode s)"
  have m: "maybe_ref sha1 start = Inr (?x start)" "maybe_ref sha1 end_key = Inr (?x end_key)"
    using assms(4,5) by (auto simp: maybe_ref_def entry_from_id[OF assms(1)] lift_ref_def split: option.splits)
  have "db_colocated_range parent (?x start) (?x end_key) limit t =
      take limit (filter (\<lambda>e. is_entry_of parent (fst e) \<and> in_bounds start end_key (ref_id (fst e))) t)"
  proof -
    have "(parent @ slash # (case ?x start of Some s \<Rightarrow> s | None \<Rightarrow> []) \<le> fst e \<and>
        fst e < (case ?x end_key of Some e \<Rightarrow> parent @ slash # e | None \<Rightarrow> parent @ [48])) \<longleftrightarrow>
        is_entry_of parent (fst e) \<and> in_bounds start end_key (ref_id (fst e))" if "e \<in> set t" for e
    proof -
      from that assms(2) obtain p k where e: "slash \<notin> set p" "valid_id k" "fst e = entry_ref sha1 p k" by (auto simp: table_ok_def)
      show ?thesis using scan_bounds[OF assms(3) e(1), where start = start and ?sha1.0 = sha1 and k = k and end_key = end_key] entry_decode(2)[OF assms(1) e(2)] is_entry_of_ref[OF e(1) assms(3)]
        by (auto simp: e(3) split: option.splits)
    qed
    then show ?thesis by (simp add: db_colocated_range_def Let_def cong: filter_cong)
  qed
  moreover have "decode_page sha1 (take limit (filter P t)) = Inr (map ?f (take limit (filter P t)))" for P
    by (rule decode_page_ok[OF assms(1)]) (use assms(2) in \<open>simp add: table_ok_def; metis (no_types, lifting) filter_is_subset in_set_takeD subsetD\<close>)
  moreover have "filter (\<lambda>e. in_bounds start end_key (fst e)) (entries_of parent t) =
      map ?f (filter (\<lambda>e. is_entry_of parent (fst e) \<and> in_bounds start end_key (ref_id (fst e))) t)"
    by (simp add: entries_of_def filter_map comp_def case_prod_beta conj_commute)
  ultimately show ?thesis by (simp add: colocated_omnidirectional_range_def m take_map)
qed

lemma entries_lookup:
  assumes "digest20 sha1" "table_ok sha1 t" "slash \<notin> set parent"
  shows "map_of (entries_of parent t) k = sm_map sha1 parent t k"
proof -
  have "\<forall>e \<in> set t. \<exists>p k. slash \<notin> set p \<and> valid_id k \<and> fst e = entry_ref sha1 p k" using assms(2) by (simp add: table_ok_def)
  then show ?thesis
  proof (induction t)
    case (Cons e t)
    from Cons.prems obtain p k' where e: "slash \<notin> set p" "valid_id k'" "fst e = entry_ref sha1 p k'" by auto
    then have "is_entry_of parent (fst e) \<longleftrightarrow> p = parent" "ref_id (fst e) = k'"
      using is_entry_of_ref[OF e(1) assms(3)] entry_decode(2)[OF assms(1) e(2)] by simp_all
    then have es: "entries_of parent (e # t) = (if p = parent then (k', snd e) # entries_of parent t else entries_of parent t)"
      by (cases e) (simp add: entries_of_def)
    have sm: "sm_map sha1 parent (e # t) k = (if p = parent \<and> k' = k then Some (snd e) else sm_map sha1 parent t k)"
      using entry_ref_inj[OF e(1) assms(3) e(2), of k sha1] e(2,3) by (cases e) (auto simp: sm_map_def)
    have "map_of (entries_of parent t) k = sm_map sha1 parent t k" using Cons by simp
    then show ?case by (simp add: es sm)
  qed (simp add: entries_of_def sm_map_def)
qed

lemma first_match: "(case filter (\<lambda>e. fst e = k) xs of [] \<Rightarrow> None | (_, v) # _ \<Rightarrow> Some v) = map_of xs k"
  by (induction xs) auto

lemma get_eq:
  assumes "digest20 sha1" "table_ok sha1 t" "slash \<notin> set parent" "valid_id k" "length k < 128"
  shows "sm_get sha1 parent k t = Inr (sm_map sha1 parent t k)"
proof -
  let ?es = "entries_of parent t"
  have valid: "valid_id (fst e)" if "e \<in> set ?es" for e
  proof -
    from that have "map_of ?es (fst e) \<noteq> None" by (auto simp: map_of_eq_None_iff)
    then show ?thesis using entries_lookup[OF assms(1-3)] by (auto simp: sm_map_def split: if_splits)
  qed
  have "in_bounds (Some k) (Some (k @ [1])) k' \<longleftrightarrow> k' = k" if "valid_id k'" for k'
  proof -
    have "0 \<notin> set (state_id_encode k')" using that by (auto simp: valid_id_def state_id_encode_def backslash_def)
    moreover have "state_id_encode (k @ [1]) = state_id_encode k @ [1]" by (simp add: state_id_encode_def slash_def)
    ultimately show ?thesis using less_snoc_one[of "state_id_encode k'" "state_id_encode k"] encode_inj[OF that assms(4)] by (simp add: in_bounds_def)
  qed
  then have f: "filter (\<lambda>e. in_bounds (Some k) (Some (k @ [1])) (fst e)) ?es = filter (\<lambda>e. fst e = k) ?es"
    using valid by (auto intro: filter_cong)
  have v: "valid_id (k @ [1])" using assms(4,5) by (auto simp: valid_id_def)
  have "colocated_omnidirectional_range sha1 SORTED_MAP_TYPE_NAME parent (Some k) (Some (k @ [1])) 1 False t =
      Inr (take 1 (filter (\<lambda>e. fst e = k) ?es))"
    using range_eq[OF assms(1-3), of "Some k" "Some (k @ [1])" 1] assms(4) v f by simp
  moreover have "(case take 1 xs of [] \<Rightarrow> None | (_, v) # _ \<Rightarrow> Some v) = (case xs of [] \<Rightarrow> None | (_, v) # _ \<Rightarrow> Some v)" for xs :: table
    by (cases xs) auto
  ultimately show ?thesis using first_match[of k ?es] entries_lookup[OF assms(1-3), of k] by (simp add: sm_get_def)
qed

section \<open>Reverse scans\<close>

definition in_reverse_bounds :: "pystr option \<Rightarrow> pystr option \<Rightarrow> pystr \<Rightarrow> bool" where
  "in_reverse_bounds start end_key k =
     ((case start of None \<Rightarrow> True | Some s \<Rightarrow> state_id_encode k \<le> state_id_encode s) \<and>
      (case end_key of None \<Rightarrow> True | Some e \<Rightarrow> state_id_encode e < state_id_encode k))"

lemma snoc_zero_le: "e @ [0] \<le> k \<longleftrightarrow> e < (k :: nat list)"
proof (induction e arbitrary: k)
  case Nil
  show ?case by (cases k) (auto simp: le_less)
next
  case (Cons a e)
  then show ?case by (cases k) (auto simp: le_less)
qed

lemma reverse_scan_bounds:
  assumes "slash \<notin> set parent" "slash \<notin> set p"
  shows "parent @ slash # (case end_key of Some e \<Rightarrow> entry_prefix sha1 @ state_id_encode e @ [0] | None \<Rightarrow> []) \<le> entry_ref sha1 p k \<and>
    entry_ref sha1 p k \<le> (case start of Some s \<Rightarrow> parent @ slash # entry_prefix sha1 @ state_id_encode s | None \<Rightarrow> parent @ [48]) \<longleftrightarrow>
    p = parent \<and> in_reverse_bounds start end_key k" (is "?lo \<le> ?r \<and> ?r \<le> ?hi \<longleftrightarrow> _")
proof (cases "p = parent")
  case True
  show ?thesis by (cases start; cases end_key) (auto simp: True entry_ref_def in_reverse_bounds_def slash_def snoc_zero_le)
next
  case False
  have "?r \<noteq> parent @ [48]"
  proof
    assume "?r = parent @ [48]"
    then have "slash \<in> set (parent @ [48])" by (metis entry_ref_def in_set_conv_decomp)
    then show False using assms(1) by (simp add: slash_def)
  qed
  moreover have "start \<noteq> None \<Longrightarrow> ?hi < parent @ [48]" by (auto simp: slash_def)
  ultimately have lt: "?r \<le> ?hi \<Longrightarrow> ?r < parent @ [Suc slash]"
    by (cases start) (auto simp: slash_def simp del: append_less_append intro: le_less_trans le_neq_trans)
  have "parent @ [slash] \<le> ?lo" by (auto simp: le_less split: option.splits)
  then have "?lo \<le> ?r \<and> ?r \<le> ?hi \<longrightarrow> (\<exists>t. ?r = parent @ slash # t)" using lt prefix_interval[of parent slash ?r] by (meson order_trans)
  then show ?thesis using False assms by (auto simp: entry_ref_def first_slash)
qed

lemma decode_entries:
  assumes "digest20 sha1" "table_ok sha1 t" "set page \<subseteq> set t"
  shows "decode_page sha1 page = Inr (map (\<lambda>(r, v). (ref_id r, v)) page)"
  by (rule decode_page_ok[OF assms(1)]) (use assms(2,3) in \<open>simp add: table_ok_def; metis subsetD\<close>)

lemma maybe_ref_ok:
  assumes "digest20 sha1" "case x of None \<Rightarrow> True | Some s \<Rightarrow> valid_id s"
  shows "maybe_ref sha1 x = Inr (map_option (\<lambda>s. entry_prefix sha1 @ state_id_encode s) x)"
  using assms(2) by (auto simp: maybe_ref_def entry_from_id[OF assms(1)] lift_ref_def split: option.splits)

lemma reverse_range_eq:
  assumes "digest20 sha1" "table_ok sha1 t" "slash \<notin> set parent"
    "case start of None \<Rightarrow> True | Some s \<Rightarrow> valid_id s" "case end_key of None \<Rightarrow> True | Some e \<Rightarrow> valid_id e"
  shows "colocated_omnidirectional_range sha1 SORTED_MAP_TYPE_NAME parent start end_key limit True t =
    Inr (take limit (rev (filter (\<lambda>e. in_reverse_bounds start end_key (fst e)) (entries_of parent t))))"
proof -
  let ?f = "\<lambda>(r, v). (ref_id r, v)" and ?x = "map_option (\<lambda>s. entry_prefix sha1 @ state_id_encode s)"
  let ?P = "\<lambda>e. is_entry_of parent (fst e) \<and> in_reverse_bounds start end_key (ref_id (fst e))"
  have "(parent @ slash # (case ?x end_key of Some e \<Rightarrow> e @ [0] | None \<Rightarrow> []) \<le> fst e \<and>
      fst e \<le> (case ?x start of Some s \<Rightarrow> parent @ slash # s | None \<Rightarrow> parent @ [48])) \<longleftrightarrow> ?P e" if "e \<in> set t" for e
  proof -
    from that assms(2) obtain p k where e: "slash \<notin> set p" "valid_id k" "fst e = entry_ref sha1 p k" by (auto simp: table_ok_def)
    show ?thesis
      using reverse_scan_bounds[OF assms(3) e(1), where start = start and ?sha1.0 = sha1 and k = k and end_key = end_key]
        entry_decode(2)[OF assms(1) e(2)] is_entry_of_ref[OF e(1) assms(3)]
      by (auto simp: e(3) split: option.splits)
  qed
  then have "db_colocated_reverse_range parent (?x start) (?x end_key) limit t = take limit (rev (filter ?P t))"
    by (simp add: db_colocated_reverse_range_def Let_def cong: filter_cong)
  moreover have "decode_page sha1 (take limit (rev (filter ?P t))) = Inr (map ?f (take limit (rev (filter ?P t))))"
    by (rule decode_entries[OF assms(1,2)]) (auto dest!: in_set_takeD)
  moreover have "filter (\<lambda>e. in_reverse_bounds start end_key (fst e)) (entries_of parent t) = map ?f (filter ?P t)"
    by (simp add: entries_of_def filter_map comp_def case_prod_beta conj_commute)
  ultimately show ?thesis
    by (simp add: colocated_omnidirectional_range_def maybe_ref_ok[OF assms(1,4)] maybe_ref_ok[OF assms(1,5)] take_map rev_map)
qed

section \<open>Runs of the servicer\<close>

text \<open>The mutations of any number of maps; one that fails stores nothing.\<close>

datatype sm_cmd = Sm_insert pystr "(pystr \<times> bytes) list" | Sm_remove pystr "pystr list"

fun sm_parent :: "sm_cmd \<Rightarrow> pystr" where
  "sm_parent (Sm_insert p _) = p"
| "sm_parent (Sm_remove p _) = p"

fun sm_upserts :: "sm_cmd \<Rightarrow> (pystr \<times> bytes option) list" where
  "sm_upserts (Sm_insert _ es) = map (\<lambda>(k, v). (k, Some v)) es"
| "sm_upserts (Sm_remove _ ks) = map (\<lambda>k. (k, None)) ks"

fun sm_call :: "(pystr \<Rightarrow> bytes) \<Rightarrow> sm_cmd \<Rightarrow> table \<Rightarrow> sm_error + table" where
  "sm_call sha1 (Sm_insert p es) t = sm_insert sha1 p es t"
| "sm_call sha1 (Sm_remove p ks) t = sm_remove sha1 p ks t"

definition sm_exec :: "(pystr \<Rightarrow> bytes) \<Rightarrow> sm_cmd \<Rightarrow> table \<Rightarrow> table" where
  "sm_exec sha1 c t = (case sm_call sha1 c t of Inr t' \<Rightarrow> t' | Inl _ \<Rightarrow> t)"

text \<open>The specification: a finite map for each name.\<close>

type_synonym maps = "pystr \<Rightarrow> pystr \<Rightarrow> bytes option"

definition sm_spec :: "sm_cmd \<Rightarrow> maps \<Rightarrow> maps" where
  "sm_spec c M = (if list_all (\<lambda>u. valid_id (fst u)) (sm_upserts c) then M(sm_parent c := upd_all (sm_upserts c) (M (sm_parent c))) else M)"

definition sm_abs :: "(pystr \<Rightarrow> bytes) \<Rightarrow> table \<Rightarrow> maps \<Rightarrow> bool" where
  "sm_abs sha1 t M \<longleftrightarrow> table_ok sha1 t \<and> (\<forall>p. slash \<notin> set p \<longrightarrow> sm_map sha1 p t = M p)"

lemma sm_call_store: "sm_call sha1 c t = store_colocated sha1 SORTED_MAP_TYPE_NAME (sm_parent c) (sm_upserts c) t"
  by (cases c) (simp_all add: sm_insert_def sm_remove_def)

lemma sm_exec_refines:
  assumes "digest20 sha1" "sm_abs sha1 t M" "slash \<notin> set (sm_parent c)"
  shows "sm_abs sha1 (sm_exec sha1 c t) (sm_spec c M)"
proof (cases "list_all (\<lambda>u. valid_id (fst u)) (sm_upserts c)")
  case True
  then show ?thesis
    using store_effect[OF assms(1) _ assms(3) True, of t] assms(2) by (auto simp: sm_abs_def sm_exec_def sm_spec_def sm_call_store)
next
  case False
  then show ?thesis using assms(2) by (simp add: sm_exec_def sm_spec_def sm_call_store store_colocated_def upsert_refs_ok[OF assms(1)])
qed

lemma sm_run_refines:
  assumes "digest20 sha1" "sm_abs sha1 t M" "list_all (\<lambda>c. slash \<notin> set (sm_parent c)) cs"
  shows "sm_abs sha1 (fold (sm_exec sha1) cs t) (fold sm_spec cs M)"
  using assms(2,3) by (induction cs arbitrary: t M) (auto intro: sm_exec_refines[OF assms(1)])

lemma sm_abs_empty: "sm_abs sha1 [] (\<lambda>_ _. None)"
  by (auto simp: sm_abs_def table_ok_def sm_map_def)

lemmas sm_run = sm_run_refines[OF _ sm_abs_empty]

section \<open>Order of the entries\<close>

definition between :: "pystr option \<Rightarrow> pystr option \<Rightarrow> pystr \<Rightarrow> bool" where
  "between lo hi k = ((case lo of None \<Rightarrow> True | Some s \<Rightarrow> s \<le> k) \<and> (case hi of None \<Rightarrow> True | Some e \<Rightarrow> k < e))"

definition between_above :: "pystr option \<Rightarrow> pystr option \<Rightarrow> pystr \<Rightarrow> bool" where
  "between_above hi lo k = ((case hi of None \<Rightarrow> True | Some s \<Rightarrow> k \<le> s) \<and> (case lo of None \<Rightarrow> True | Some e \<Rightarrow> e < k))"

definition slash_free :: "pystr option \<Rightarrow> bool" where
  "slash_free x = (case x of None \<Rightarrow> True | Some s \<Rightarrow> valid_id s \<and> slash \<notin> set s)"

lemma encode_id: "slash \<notin> set k \<Longrightarrow> state_id_encode k = k"
  by (auto simp: state_id_encode_def intro: map_idI)

lemma entries_encoded_sorted:
  assumes "digest20 sha1" "table_ok sha1 t" "slash \<notin> set parent"
  shows "sorted_wrt (\<lambda>a b. state_id_encode (fst a) < state_id_encode (fst b)) (entries_of parent t)"
proof -
  let ?es = "filter (\<lambda>e. is_entry_of parent (fst e)) t"
  have "sorted_wrt (\<lambda>a b. fst a < fst b) ?es" using assms(2) by (simp add: table_ok_def sorted_wrt_map sorted_wrt_filter)
  moreover have "\<exists>k. valid_id k \<and> fst e = entry_ref sha1 parent k" if "e \<in> set ?es" for e
  proof -
    have e: "e \<in> set t" "is_entry_of parent (fst e)" using that by simp_all
    then obtain p k where "slash \<notin> set p" "valid_id k" "fst e = entry_ref sha1 p k" using assms(2) unfolding table_ok_def by blast
    then show ?thesis using e(2) is_entry_of_ref[OF _ assms(3), of p sha1 k] by auto
  qed
  moreover have "state_id_encode (ref_id r) < state_id_encode (ref_id r')"
    if "r < r'" "\<exists>k. valid_id k \<and> r = entry_ref sha1 parent k" "\<exists>k. valid_id k \<and> r' = entry_ref sha1 parent k" for r r'
  proof -
    from that(2,3) obtain k k' where "valid_id k" "valid_id k'" "r = entry_ref sha1 parent k" "r' = entry_ref sha1 parent k'" by blast
    then show ?thesis using that(1) entry_decode(2)[OF assms(1)] by (simp add: entry_ref_def)
  qed
  ultimately have "sorted_wrt (\<lambda>a b. state_id_encode (ref_id (fst a)) < state_id_encode (ref_id (fst b))) ?es"
    by (blast intro: sorted_wrt_mono_rel[rotated])
  then show ?thesis by (simp add: entries_of_def sorted_wrt_map case_prod_beta)
qed

definition sm_plain :: "sm_cmd \<Rightarrow> bool" where
  "sm_plain c = (slash \<notin> set (sm_parent c) \<and> list_all (\<lambda>u. slash \<notin> set (fst u)) (sm_upserts c))"

lemma upd_all_keys: "upd_all us m k \<noteq> None \<Longrightarrow> m k \<noteq> None \<or> k \<in> fst ` set us"
  by (induction us arbitrary: m) (fastforce simp: upd_all_def split: if_splits)+

lemma plain_keys:
  assumes "list_all sm_plain cs" "\<forall>p k. M p k \<noteq> None \<longrightarrow> slash \<notin> set k"
  shows "\<forall>p k. fold sm_spec cs M p k \<noteq> None \<longrightarrow> slash \<notin> set k"
  using assms
proof (induction cs arbitrary: M)
  case (Cons c cs)
  have "slash \<notin> set k" if "sm_spec c M p k \<noteq> None" for p k
    using that Cons.prems upd_all_keys[of "sm_upserts c" "M (sm_parent c)" k]
    by (auto simp: sm_spec_def sm_plain_def list_all_iff split: if_splits)
  then show ?case using Cons.IH[of "sm_spec c M"] Cons.prems(1) by simp
qed simp

text \<open>A list of entries in order is determined by the map it stands for.\<close>

lemma sorted_entries_filter:
  assumes "strictly_sorted (map fst es)"
  shows "filter (\<lambda>e. P (fst e)) es = map (\<lambda>k. (k, the (map_of es k))) (sorted_list_of_set {k. map_of es k \<noteq> None \<and> P k})"
proof -
  let ?ks = "map fst (filter (\<lambda>e. P (fst e)) es)"
  have d: "distinct (map fst es)" using assms by (simp add: strict_sorted_iff)
  have "strictly_sorted ?ks" using assms by (simp add: sorted_wrt_map sorted_wrt_filter)
  then have "sorted_list_of_set (set ?ks) = ?ks" by (metis strict_sorted_iff sorted_list_of_set.idem_if_sorted_distinct)
  moreover have "set ?ks = {k. map_of es k \<noteq> None \<and> P k}" by (force simp: map_of_eq_None_iff)
  moreover have "map (\<lambda>k. (k, the (map_of es k))) ?ks = filter (\<lambda>e. P (fst e)) es"
    using d by (auto simp: comp_def intro!: map_idI)
  ultimately show ?thesis by simp
qed

lemma plain_entries:
  assumes "digest20 sha1" "list_all sm_plain cs" "slash \<notin> set p"
  defines "t \<equiv> fold (sm_exec sha1) cs []" and "M \<equiv> fold sm_spec cs (\<lambda>_ _. None)"
  shows "table_ok sha1 t" "strictly_sorted (map fst (entries_of p t))" "map_of (entries_of p t) = M p"
    "\<And>e. e \<in> set (entries_of p t) \<Longrightarrow> slash \<notin> set (fst e)"
proof -
  have a: "sm_abs sha1 t M" unfolding t_def M_def by (rule sm_run[OF assms(1)]) (use assms(2) in \<open>auto simp: list_all_iff sm_plain_def\<close>)
  then show t: "table_ok sha1 t" by (simp add: sm_abs_def)
  show m: "map_of (entries_of p t) = M p" using a assms(3) entries_lookup[OF assms(1) t assms(3)] by (auto simp: sm_abs_def)
  show free: "slash \<notin> set (fst e)" if "e \<in> set (entries_of p t)" for e
  proof -
    have "M p (fst e) \<noteq> None" using that by (simp add: m[symmetric] map_of_eq_None_iff)
    then show ?thesis using plain_keys[OF assms(2), of "\<lambda>_ _. None"] by (simp add: M_def)
  qed
  show "strictly_sorted (map fst (entries_of p t))"
    unfolding sorted_wrt_map by (rule sorted_wrt_mono_rel[OF _ entries_encoded_sorted[OF assms(1) t assms(3)]]) (simp add: encode_id free)
qed

lemma plain_bounds:
  assumes "slash_free start" "slash_free end_key" "slash \<notin> set k"
  shows "in_bounds start end_key k = between start end_key k" "in_reverse_bounds start end_key k = between_above start end_key k"
  using assms by (auto simp: in_bounds_def between_def in_reverse_bounds_def between_above_def slash_free_def encode_id split: option.splits)

text \<open>
  (C19) Sorted maps are maps: after any sequence of \<open>Insert\<close> and \<open>Remove\<close> on any number of maps, of which those
  with an invalid key store nothing, \<open>Get\<close> of a key of at most 127 characters answers what the map of that name
  holds for it, and no other map has any influence.
\<close>

theorem sorted_map_implements_map:
  assumes "digest20 sha1" "list_all (\<lambda>c. slash \<notin> set (sm_parent c)) cs" "slash \<notin> set p" "valid_id k" "length k < 128"
  shows "sm_get sha1 p k (fold (sm_exec sha1) cs []) = Inr (fold sm_spec cs (\<lambda>_ _. None) p k)"
  using sm_run[OF assms(1,2)] get_eq[OF assms(1) _ assms(3-5)] assms(3) by (auto simp: sm_abs_def)

theorem sorted_map_implements_map_witness:
  "sm_get (\<lambda>_. replicate 20 7) (str ''m'') (str ''a/b'')
     (fold (sm_exec (\<lambda>_. replicate 20 7)) [Sm_insert (str ''m'') [(str ''a/b'', [1]), (str ''c'', [2])], Sm_remove (str ''m'') [str ''c'']] []) = Inr (Some [1])"
proof -
  have "digest20 (\<lambda>_. replicate 20 7)" by (simp add: digest20_def)
  then show ?thesis
    using sorted_map_implements_map[of "\<lambda>_. replicate 20 7" "[Sm_insert (str ''m'') [(str ''a/b'', [1]), (str ''c'', [2])], Sm_remove (str ''m'') [str ''c'']]" "str ''m''" "str ''a/b''"]
    by (simp add: str_def slash_def valid_id_def sm_spec_def upd_all_def)
qed

text \<open>
  (C20) When no key has a slash, \<open>Range\<close> answers with the first \<open>limit\<close> entries of the map with keys from the start key to
  before the end key, in the order of the keys, and \<open>ReverseRange\<close> with the last \<open>limit\<close> of them down from the start key to
  after the end key; both refuse the limit zero and bounds in the wrong order.
\<close>

theorem sorted_map_ranges_are_ordered:
  assumes "digest20 sha1" "list_all sm_plain cs" "slash \<notin> set p" "slash_free start" "slash_free end_key"
    "t = fold (sm_exec sha1) cs []" "m = fold sm_spec cs (\<lambda>_ _. None) p"
  shows "sm_range sha1 p start end_key limit t =
      (if limit = 0 \<or> (\<exists>s e. start = Some s \<and> end_key = Some e \<and> e \<le> s) then Inl Invalid_range
       else Inr (take limit (map (\<lambda>k. (k, the (m k))) (sorted_list_of_set {k. m k \<noteq> None \<and> between start end_key k})))) \<and>
    sm_reverse_range sha1 p start end_key limit t =
      (if limit = 0 \<or> (\<exists>s e. start = Some s \<and> end_key = Some e \<and> s \<le> e) then Inl Invalid_range
       else Inr (take limit (rev (map (\<lambda>k. (k, the (m k))) (sorted_list_of_set {k. m k \<noteq> None \<and> between_above start end_key k})))))"
    (is "?forward \<and> ?backward")
proof
  note es = plain_entries[OF assms(1-3), folded assms(6,7)]
  have v: "case start of None \<Rightarrow> True | Some s \<Rightarrow> valid_id s" "case end_key of None \<Rightarrow> True | Some e \<Rightarrow> valid_id e"
    using assms(4,5) by (auto simp: slash_free_def split: option.splits)
  have f: "filter (\<lambda>e. in_bounds start end_key (fst e)) (entries_of p t) = filter (\<lambda>e. between start end_key (fst e)) (entries_of p t)"
    "filter (\<lambda>e. in_reverse_bounds start end_key (fst e)) (entries_of p t) = filter (\<lambda>e. between_above start end_key (fst e)) (entries_of p t)"
    using es(4) plain_bounds[OF assms(4,5)] by (auto intro!: filter_cong)
  show ?forward
    unfolding sm_range_def range_eq[OF assms(1) es(1) assms(3) v] f sorted_entries_filter[OF es(2)] es(3) by (auto split: option.splits)
  show ?backward
    unfolding sm_reverse_range_def reverse_range_eq[OF assms(1) es(1) assms(3) v] f sorted_entries_filter[OF es(2)] es(3) by (auto split: option.splits)
qed

theorem sorted_map_ranges_are_ordered_witness:
  "sm_range (\<lambda>_. replicate 20 7) (str ''m'') (Some (str ''a'')) None 1
      (fold (sm_exec (\<lambda>_. replicate 20 7)) [Sm_insert (str ''m'') [(str ''c'', [2]), (str ''b'', [1])]] []) = Inr [(str ''b'', [1])]"
proof -
  let ?h = "\<lambda>_ :: pystr. replicate 20 (7 :: nat)" and ?cs = "[Sm_insert (str ''m'') [(str ''c'', [2]), (str ''b'', [1])]]"
  let ?m = "fold sm_spec ?cs (\<lambda>_ _. None) (str ''m'')"
  have m: "?m = [str ''b'' \<mapsto> [1], str ''c'' \<mapsto> [2]]"
    by (simp add: str_def valid_id_def sm_spec_def upd_all_def fun_eq_iff)
  have ks: "{k. ?m k \<noteq> None \<and> between (Some (str ''a'')) None k} = {str ''b'', str ''c''}"
    unfolding m by (auto simp: between_def str_def split: if_splits)
  have p: "digest20 ?h" "list_all sm_plain ?cs" "slash \<notin> set (str ''m'')" "slash_free (Some (str ''a''))" "slash_free None"
    by (simp_all add: digest20_def sm_plain_def slash_def str_def slash_free_def valid_id_def)
  note r = conjunct1[OF sorted_map_ranges_are_ordered[OF p refl refl, of 1]]
  show ?thesis unfolding r unfolding ks unfolding m by (simp add: str_def)
qed

text \<open>A slash is encoded as a backslash, which comes after the digits and capital letters that a slash comes before.\<close>

lemma encode_slash_order:
  assumes "slash < x" "x < backslash"
  shows "u @ slash # v < u @ x # w" "state_id_encode (u @ x # w) < state_id_encode (u @ slash # v)"
  using assms by (simp_all add: state_id_encode_def)

lemma map_entries:
  assumes "digest20 sha1" "table_ok sha1 t" "slash \<notin> set p"
  shows "length (entries_of p t) = card {k. sm_map sha1 p t k \<noteq> None}"
proof -
  have "strictly_sorted (map (\<lambda>e. state_id_encode (fst e)) (entries_of p t))"
    using entries_encoded_sorted[OF assms] by (simp add: sorted_wrt_map)
  then have "distinct (map (\<lambda>e. state_id_encode (fst e)) (entries_of p t))" by (simp add: strict_sorted_iff)
  then have "distinct (map fst (entries_of p t))" by (auto simp: distinct_map inj_on_def)
  moreover have "{k. sm_map sha1 p t k \<noteq> None} = fst ` set (entries_of p t)"
    by (auto simp: entries_lookup[OF assms, symmetric] map_of_eq_None_iff)
  ultimately show ?thesis by (metis distinct_card length_map set_map)
qed

lemma sorted_wrt_before:
  assumes "sorted_wrt (\<lambda>a b. f a < (f b :: nat list)) es" "a \<in> set es" "b \<in> set es" "f a < f b"
  shows "\<exists>xs ys zs. es = xs @ a # ys @ b # zs"
proof -
  obtain xs rest where es: "es = xs @ a # rest" using assms(2) by (meson split_list)
  then have "\<forall>c \<in> set xs. f c < f a" using assms(1) by (auto simp: sorted_wrt_append)
  then have "b \<in> set rest" using assms(3,4) es by auto
  then obtain ys zs where "rest = ys @ b # zs" by (meson split_list)
  with es show ?thesis by blast
qed

text \<open>
  (C21) Keys with a slash are out of order.  The scans compare references, in which a slash is a backslash.  For
  every two keys in a map that agree up to a slash in the first and a character between slash and backslash
  (a digit or a capital letter, say) in the second, the first is before the second, but \<open>Range\<close> lists it
  after it, and the range from the first to the second is empty although it starts at a key of the map.
\<close>

theorem slashes_break_sorted_map_order:
  assumes "digest20 sha1" "list_all (\<lambda>c. slash \<notin> set (sm_parent c)) cs" "slash \<notin> set p"
    "t = fold (sm_exec sha1) cs []" "m = fold sm_spec cs (\<lambda>_ _. None) p"
    "k = u @ slash # v" "k' = u @ x # w" "slash < x" "x < backslash" "m k = Some a" "m k' = Some b"
  shows "k < k' \<and>
    (card {k. m k \<noteq> None} \<le> limit \<longrightarrow> (\<exists>xs ys zs. sm_range sha1 p None None limit t = Inr (xs @ (k', b) # ys @ (k, a) # zs))) \<and>
    (0 < limit \<longrightarrow> sm_range sha1 p (Some k) (Some k') limit t = Inr [])"
proof (intro conjI impI)
  have t: "table_ok sha1 t" "sm_map sha1 p t = m"
    using sm_run[OF assms(1,2)] assms(3) by (auto simp: sm_abs_def assms(4,5))
  have o: "k < k'" "state_id_encode k' < state_id_encode k" using encode_slash_order[OF assms(8,9)] by (simp_all add: assms(6,7))
  show "k < k'" by (rule o(1))
  have v: "valid_id k" "valid_id k'" using assms(10,11) unfolding t(2)[symmetric] by (auto simp: sm_map_def split: if_splits)
  {
    assume "card {k. m k \<noteq> None} \<le> limit"
    then have l: "length (entries_of p t) \<le> limit" using map_entries[OF assms(1) t(1) assms(3)] by (simp add: t(2))
    have e: "(k', b) \<in> set (entries_of p t)" "(k, a) \<in> set (entries_of p t)"
      using assms(10,11) entries_lookup[OF assms(1) t(1) assms(3)] by (simp_all add: t(2) map_of_SomeD)
    then have "limit \<noteq> 0" using l by (cases "entries_of p t") auto
    then have "sm_range sha1 p None None limit t = Inr (entries_of p t)"
      using l range_eq[OF assms(1) t(1) assms(3), of None None limit] by (simp add: sm_range_def in_bounds_def)
    with sorted_wrt_before[OF entries_encoded_sorted[OF assms(1) t(1) assms(3)] e] o
    show "\<exists>xs ys zs. sm_range sha1 p None None limit t = Inr (xs @ (k', b) # ys @ (k, a) # zs)" by auto
  }
  assume "0 < limit"
  moreover have "\<not> in_bounds (Some k) (Some k') i" for i using o(2) by (auto simp: in_bounds_def)
  ultimately show "sm_range sha1 p (Some k) (Some k') limit t = Inr []"
    using range_eq[OF assms(1) t(1) assms(3), of "Some k" "Some k'" limit] v o(1) by (simp add: sm_range_def not_le)
qed

theorem slashes_break_sorted_map_order_witness:
  "str ''a/b'' < str ''aZ'' \<and>
   sm_range (\<lambda>_. replicate 20 7) (str ''m'') (Some (str ''a/b'')) (Some (str ''aZ'')) 10
     (fold (sm_exec (\<lambda>_. replicate 20 7)) [Sm_insert (str ''m'') [(str ''a/b'', [1]), (str ''aZ'', [2])]] []) = Inr []"
proof -
  have "digest20 (\<lambda>_. replicate 20 7)" by (simp add: digest20_def)
  then show ?thesis
    using slashes_break_sorted_map_order[where ?sha1.0 = "\<lambda>_. replicate 20 7" and cs = "[Sm_insert (str ''m'') [(str ''a/b'', [1]), (str ''aZ'', [2])]]"
        and p = "str ''m''" and u = "str ''a''" and v = "str ''b''" and x = 90 and w = "[]" and k = "str ''a/b''" and k' = "str ''aZ''"
        and a = "[1]" and b = "[2]" and limit = 10, OF _ _ _ refl refl]
    by (simp add: str_def slash_def backslash_def valid_id_def sm_spec_def upd_all_def)
qed

text \<open>
  A key of 128 characters can be inserted into every map, and \<open>Get\<close> of it fails with an \<open>InvalidStateRefError\<close>:
  the end of its range has one character more than a key may have.
\<close>

theorem longest_keys_cannot_be_read:
  assumes "digest20 sha1" "table_ok sha1 t" "slash \<notin> set p" "valid_id k" "length k = 128"
  shows "\<exists>t'. sm_insert sha1 p [(k, v)] t = Inr t' \<and> sm_map sha1 p t' k = Some v \<and>
    sm_get sha1 p k t' = Inl (Bad_ref InvalidStateRefError)"
proof -
  obtain t' where t': "sm_insert sha1 p [(k, v)] t = Inr t'" "sm_map sha1 p t' = upd_all [(k, Some v)] (sm_map sha1 p t)"
    using store_effect[OF assms(1-3), of "[(k, Some v)]"] assms(3,4) by (auto simp: sm_insert_def)
  have "\<not> valid_id (k @ [1])" using assms(5) by (simp add: valid_id_def)
  then have "sm_get sha1 p k t' = Inl (Bad_ref InvalidStateRefError)"
    using assms(4) by (simp add: sm_get_def colocated_omnidirectional_range_def maybe_ref_def entry_from_id[OF assms(1)] lift_ref_def)
  then show ?thesis using t' by (simp add: upd_all_def)
qed

theorem longest_keys_cannot_be_read_witness:
  "\<exists>t'. sm_insert (\<lambda>_. replicate 20 7) (str ''m'') [(replicate 128 97, [1])] [] = Inr t' \<and>
    sm_map (\<lambda>_. replicate 20 7) (str ''m'') t' (replicate 128 97) = Some [1] \<and>
    sm_get (\<lambda>_. replicate 20 7) (str ''m'') (replicate 128 97) t' = Inl (Bad_ref InvalidStateRefError)"
  by (rule longest_keys_cannot_be_read) (simp_all add: digest20_def table_ok_def str_def slash_def valid_id_def)

end
