(* ===== verification/Queue.thy ===== *)
theory Queue
  imports Sorted_Map Uuid7
begin

text \<open>
  \<open>QueueServicer\<close> (\<open>reboot/std/collections/queue/v1/queue.py\<close>): a queue keeps its items in a sorted map, under the
  texts of time-ordered identifiers.

  The world of a queue is its state, the table of the entries of all sorted maps, and the variables of
  \<open>uuidv7.py\<close> of the process it runs in.  A call returns its result or its exception, and the world after it: an
  aborted transaction stores nothing, while identifiers stay drawn.  The clock and the random bytes of each
  identifier, and the \<open>uuid4\<close> a new queue takes for its map, are arguments; items are serialised by the
  parameters \<open>ser\<close> and \<open>deser\<close>.
\<close>

section \<open>The text of a UUID\<close>

definition hex_char :: "nat \<Rightarrow> nat" where
  "hex_char d = (if d < 10 then 48 + d else 87 + d)"

fun hexd :: "nat \<Rightarrow> nat \<Rightarrow> pystr" where
  "hexd 0 n = []"
| "hexd (Suc w) n = hexd w (n div 16) @ [hex_char (n mod 16)]"

definition uuid_text :: "nat \<Rightarrow> pystr" where
  "uuid_text u =
     (let h = hexd 32 u
      in take 8 h @ 45 # take 4 (drop 8 h) @ 45 # take 4 (drop 12 h) @ 45 # take 4 (drop 16 h) @ 45 # drop 20 h)"

section \<open>Items, requests and the servicer\<close>

record 'v item =
  item_value :: "'v option"
  item_bytes :: "bytes option"
  item_any :: "'v option"

datatype queue_error = Type_error | Uuid_error uuid7_error | Map_error sm_error | Queue_assertion | Parse_error

record 'v enqueue_request =
  enq_value :: "'v option"
  enq_bytes :: "bytes option"
  enq_any :: "'v option"
  enq_items :: "'v item list"

record 'v dequeue_response =
  deq_item :: "'v item"
  deq_items :: "'v item list"

record queue_world =
  sorted_map_id :: pystr
  q_table :: table
  q_uuid :: uuid7_globals

definition DEFAULT_BULK_COUNT :: nat where "DEFAULT_BULK_COUNT = 64"

definition no_item :: "'v item" where
  "no_item = \<lparr>item_value = None, item_bytes = None, item_any = None\<rparr>"

definition empty_response :: "'v dequeue_response" where
  "empty_response = \<lparr>deq_item = no_item, deq_items = []\<rparr>"

text \<open>The reference of the map; \<open>_map\<close> takes an identifier for it when there is none.\<close>

definition map_ref :: "(pystr \<Rightarrow> bytes) \<Rightarrow> pystr \<Rightarrow> queue_error + pystr" where
  "map_ref sha1 i = (case from_id sha1 SORTED_MAP_TYPE_NAME i of Inl e \<Rightarrow> Inl (Map_error (Bad_ref e)) | Inr r \<Rightarrow> Inr r)"

definition lift_map :: "sm_error + 'a \<Rightarrow> queue_error + 'a" where
  "lift_map r = (case r of Inl e \<Rightarrow> Inl (Map_error e) | Inr x \<Rightarrow> Inr x)"

fun draw_keys :: "(nat \<times> nat \<times> nat) list \<Rightarrow> uuid7_globals \<Rightarrow> (uuid7_error + pystr list) \<times> uuid7_globals" where
  "draw_keys [] g = (Inr [], g)"
| "draw_keys ((time_ns, rand, rand4) # rest) g =
     (case uuid7 None time_ns rand rand4 g of Inl e \<Rightarrow> (Inl e, g)
      | Inr (u, g') \<Rightarrow> (case draw_keys rest g' of (Inl e, g'') \<Rightarrow> (Inl e, g'') | (Inr ks, g'') \<Rightarrow> (Inr (uuid_text u # ks), g'')))"

definition request_items :: "'v enqueue_request \<Rightarrow> 'v item list" where
  "request_items r = (if length (enq_items r) > 0 then enq_items r
     else [\<lparr>item_value = enq_value r, item_bytes = enq_bytes r, item_any = enq_any r\<rparr>])"

text \<open>\<open>inputs\<close> has one entry per item.\<close>

definition enqueue :: "(pystr \<Rightarrow> bytes) \<Rightarrow> ('v item \<Rightarrow> bytes) \<Rightarrow> pystr \<Rightarrow> (nat \<times> nat \<times> nat) list \<Rightarrow> 'v enqueue_request \<Rightarrow> queue_world \<Rightarrow>
    (queue_error + unit) \<times> queue_world" where
  "enqueue sha1 ser fresh inputs r w =
     (if of_bool (enq_value r \<noteq> None) + of_bool (enq_bytes r \<noteq> None) + of_bool (enq_any r \<noteq> None) + of_bool (length (enq_items r) > 0) \<noteq> (1 :: nat)
      then (Inl Type_error, w)
      else
        let i = (if sorted_map_id w = [] then fresh else sorted_map_id w)
        in case map_ref sha1 i of Inl e \<Rightarrow> (Inl e, w)
         | Inr parent \<Rightarrow>
           (case draw_keys inputs (q_uuid w) of
              (Inl e, g) \<Rightarrow> (Inl (Uuid_error e), w\<lparr>q_uuid := g\<rparr>)
            | (Inr ks, g) \<Rightarrow>
              (case sm_insert sha1 parent (zip ks (map ser (request_items r))) (q_table w) of
                 Inl e \<Rightarrow> (Inl (Map_error e), w\<lparr>q_uuid := g\<rparr>)
               | Inr t \<Rightarrow> (Inr (), \<lparr>sorted_map_id = i, q_table = t, q_uuid = g\<rparr>))))"

fun parse_items :: "(bytes \<Rightarrow> 'v item option) \<Rightarrow> bytes list \<Rightarrow> queue_error + 'v item list" where
  "parse_items deser [] = Inr []"
| "parse_items deser (b # bs) =
     (case deser b of None \<Rightarrow> Inl Parse_error | Some i \<Rightarrow> rbind (parse_items deser bs) (\<lambda>is. Inr (i # is)))"

definition try_dequeue :: "(pystr \<Rightarrow> bytes) \<Rightarrow> (bytes \<Rightarrow> 'v item option) \<Rightarrow> bool \<Rightarrow> nat option \<Rightarrow> queue_world \<Rightarrow>
    (queue_error + 'v dequeue_response) \<times> queue_world" where
  "try_dequeue sha1 deser bulk at_most w =
     (if sorted_map_id w = [] then (Inr empty_response, w)
      else
        let limit = (if bulk then (case at_most of Some n \<Rightarrow> n | None \<Rightarrow> DEFAULT_BULK_COUNT) else 1)
        in case rbind (map_ref sha1 (sorted_map_id w)) (\<lambda>parent.
                rbind (lift_map (sm_range sha1 parent None None limit (q_table w))) (\<lambda>entries.
                if length entries = 0 then Inr (empty_response, q_table w)
                else
                  rbind (parse_items deser (map snd entries)) (\<lambda>items.
                  rbind (lift_map (sm_remove sha1 parent (map fst entries) (q_table w))) (\<lambda>t.
                  if \<not> bulk
                  then rbind (py_assert Queue_assertion (length items = 1)) (\<lambda>_. Inr (\<lparr>deq_item = items ! 0, deq_items = []\<rparr>, t))
                  else Inr (\<lparr>deq_item = no_item, deq_items = items\<rparr>, t))))) of
             Inl e \<Rightarrow> (Inl e, w)
           | Inr (response, t) \<Rightarrow> (Inr response, w\<lparr>q_table := t\<rparr>))"

definition queue_empty :: "(pystr \<Rightarrow> bytes) \<Rightarrow> queue_world \<Rightarrow> queue_error + bool" where
  "queue_empty sha1 w =
     (if sorted_map_id w = [] then Inr True
      else rbind (map_ref sha1 (sorted_map_id w)) (\<lambda>parent.
           rbind (lift_map (sm_range sha1 parent None None 1 (q_table w))) (\<lambda>entries. Inr (length entries = 0))))"

text \<open>
  \<open>have_items\<close> of \<open>dequeue\<close>, which the workflow repeats until it gives a response: the world \<open>w\<close> when it asks
  whether the queue is empty, and \<open>w'\<close> when it dequeues.  \<open>None\<close> is \<open>False\<close>.
\<close>

definition have_items :: "(pystr \<Rightarrow> bytes) \<Rightarrow> (bytes \<Rightarrow> 'v item option) \<Rightarrow> bool \<Rightarrow> nat option \<Rightarrow> queue_world \<Rightarrow> queue_world \<Rightarrow>
    (queue_error + 'v dequeue_response option) \<times> queue_world" where
  "have_items sha1 deser bulk at_most w w' =
     (case queue_empty sha1 w of Inl e \<Rightarrow> (Inl e, w')
      | Inr True \<Rightarrow> (Inr None, w')
      | Inr False \<Rightarrow>
        (case try_dequeue sha1 deser bulk at_most w' of (Inl e, w'') \<Rightarrow> (Inl e, w'')
         | (Inr response, w'') \<Rightarrow> (Inr (if response = empty_response then None else Some response), w'')))"

section \<open>Texts of UUIDs are ordered\<close>

lemma same_length_less: "length x = length y \<Longrightarrow> x @ r < y @ s \<longleftrightarrow> x < y \<or> x = y \<and> r < (s :: nat list)"
  by (induction x y rule: list_induct2) auto

lemma hexd_length [simp]: "length (hexd w n) = w"
  by (induction w n rule: hexd.induct) auto

lemma hex_char_less: "d < d' \<Longrightarrow> d' < 16 \<Longrightarrow> hex_char d < hex_char d'"
  by (auto simp: hex_char_def)

lemma hexd_less: "n < m \<Longrightarrow> m < 16 ^ w \<Longrightarrow> hexd w n < hexd w m"
proof (induction w arbitrary: n m)
  case (Suc w)
  have "n div 16 < m div 16 \<or> n div 16 = m div 16 \<and> n mod 16 < m mod 16"
    using Suc.prems(1) by (metis div_le_mono div_mult_mod_eq le_neq_implies_less less_imp_le nat_add_left_cancel_less)
  moreover have "m div 16 < 16 ^ w" using Suc.prems(2) by (simp add: div_less_iff_less_mult mult.commute)
  ultimately show ?case using Suc.IH[of "n div 16" "m div 16"] hex_char_less[of "n mod 16" "m mod 16"] by (auto simp: same_length_less)
qed simp

lemma dashed_less:
  fixes h h' :: pystr
  assumes "h < h'" "length h = 32" "length h' = 32"
  shows "take 8 h @ 45 # take 4 (drop 8 h) @ 45 # take 4 (drop 12 h) @ 45 # take 4 (drop 16 h) @ 45 # drop 20 h <
    take 8 h' @ 45 # take 4 (drop 8 h') @ 45 # take 4 (drop 12 h') @ 45 # take 4 (drop 16 h') @ 45 # drop 20 h'"
proof -
  have split: "x = take 8 x @ take 4 (drop 8 x) @ take 4 (drop 12 x) @ take 4 (drop 16 x) @ drop 20 x" for x :: pystr
    using append_take_drop_id[of 8 x] append_take_drop_id[of 4 "drop 8 x"] append_take_drop_id[of 4 "drop 12 x"] append_take_drop_id[of 4 "drop 16 x"]
    by simp
  have "take 8 h @ take 4 (drop 8 h) @ take 4 (drop 12 h) @ take 4 (drop 16 h) @ drop 20 h <
      take 8 h' @ take 4 (drop 8 h') @ take 4 (drop 12 h') @ take 4 (drop 16 h') @ drop 20 h'"
    using assms(1) split[of h] split[of h'] by simp
  then show ?thesis using assms(2,3) by (simp add: same_length_less)
qed

lemma uuid_text_less: "u < v \<Longrightarrow> v < 2 ^ 128 \<Longrightarrow> uuid_text u < uuid_text v"
proof -
  assume "u < v" "v < 2 ^ 128"
  then have "hexd 32 u < hexd 32 v" by (intro hexd_less) simp_all
  then show ?thesis unfolding uuid_text_def Let_def by (rule dashed_less) simp_all
qed

lemma hexd_chars: "c \<in> set (hexd w n) \<Longrightarrow> 48 \<le> c \<and> c \<le> 102 \<and> c \<noteq> 92"
  by (induction w n rule: hexd.induct) (auto simp: hex_char_def split: if_splits)

lemma uuid_text_valid: "valid_id (uuid_text u)" "slash \<notin> set (uuid_text u)"
proof -
  have c: "c = 45 \<or> c \<in> set (hexd 32 u)" if "c \<in> set (uuid_text u)" for c
    using that by (auto simp: uuid_text_def Let_def dest: in_set_takeD in_set_dropD)
  have "length (uuid_text u) = 36" by (simp add: uuid_text_def Let_def)
  then show "valid_id (uuid_text u)" using c hexd_chars by (force simp: valid_id_def)
  show "slash \<notin> set (uuid_text u)" using c hexd_chars by (force simp: slash_def)
qed

section \<open>Keys are drawn in order\<close>

text \<open>A key is below the generator when it was drawn from its present or an earlier state; \<open>n\<close> identifiers can still be drawn.\<close>

definition below :: "uuid7_globals \<Rightarrow> pystr \<Rightarrow> bool" where
  "below g k \<longleftrightarrow> (\<exists>ts c r t. k = uuid_text (uuid7_int ts c r) \<and> last_timestamp_v7 g = Some t \<and> (ts < t \<or> ts = t \<and> c \<le> last_counter_v7 g))"

definition gen_ok :: "nat \<Rightarrow> uuid7_globals \<Rightarrow> bool" where
  "gen_ok n g = (case last_timestamp_v7 g of None \<Rightarrow> True | Some t \<Rightarrow> last_counter_v7 g < 2 ^ 42 \<and> t + 2 * n < 2 ^ 48)"

definition clock_ok :: "nat \<Rightarrow> nat \<times> nat \<times> nat \<Rightarrow> bool" where
  "clock_ok n i = (fst i div 1000000 + 2 * n < 2 ^ 48)"

lemma below_text: "below g k \<Longrightarrow> valid_id k \<and> slash \<notin> set k"
  by (auto simp: below_def uuid_text_valid)

lemma advance_fields:
  assumes "gen_ok (Suc n) g" "ns div 1000000 + 2 * Suc n < 2 ^ 48" "uuid7_advance (ns div 1000000) rand rand4 g = (ts, c, r)"
  shows "c < 2 ^ 42" "ts + 2 * n < 2 ^ 48" "\<And>t. last_timestamp_v7 g = Some t \<Longrightarrow> t < ts \<or> t = ts \<and> last_counter_v7 g < c"
proof -
  have "c < 2 ^ 42 \<and> ts + 2 * n < 2 ^ 48"
  proof (cases "last_timestamp_v7 g")
    case None
    then have "ts = ns div 1000000" "c = fst (uuid7_get_counter_and_tail rand)" using assms(3) by (auto simp: uuid7_advance_def)
    then show ?thesis using assms(2) counter_and_tail_bound[of rand] by simp
  next
    case (Some t)
    then have g: "last_counter_v7 g < 2 ^ 42" "t + 2 * Suc n < 2 ^ 48" using assms(1) by (auto simp: gen_ok_def)
    then show ?thesis using uuid7_advance_increases[OF assms(3) Some g(1)] assms(2) by auto
  qed
  then show "c < 2 ^ 42" "ts + 2 * n < 2 ^ 48" by auto
  show "t < ts \<or> t = ts \<and> last_counter_v7 g < c" if "last_timestamp_v7 g = Some t" for t
    using uuid7_advance_increases[OF assms(3) that] assms(1) that by (auto simp: gen_ok_def)
qed

lemma draw_one:
  assumes "gen_ok (Suc n) g" "clock_ok (Suc n) (ns, rand, rand4)"
  obtains u g' where "uuid7 None ns rand rand4 g = Inr (u, g')" "gen_ok n g'" "below g' (uuid_text u)"
    "\<And>k. below g k \<Longrightarrow> k < uuid_text u \<and> below g' k"
proof -
  obtain ts c r where a: "uuid7_advance (ns div 1000000) rand rand4 g = (ts, c, r)" by (metis prod_cases3)
  have "ns div 1000000 + 2 * Suc n < 2 ^ 48" using assms(2) by (simp add: clock_ok_def)
  note f = advance_fields[OF assms(1) this a]
  let ?u = "uuid7_int ts c r" and ?g = "\<lparr>last_timestamp_v7 = Some ts, last_counter_v7 = c\<rparr>"
  have "?u < 2 ^ 128" using uuid7_int_fits[of ts c r] by (simp add: UINT_128_MAX_def push_bit_eq_mult)
  then have lt: "uuid_text (uuid7_int ts' c' r') < uuid_text ?u" if "ts' < ts \<or> ts' = ts \<and> c' < c" for ts' c' r'
    using that uuid_text_less uuid7_int_less[of ts' ts c' c r' r] f(1,2) by auto
  have "k < uuid_text ?u \<and> below ?g k" if "below g k" for k
  proof -
    from that obtain ts' c' r' t where k: "k = uuid_text (uuid7_int ts' c' r')" "last_timestamp_v7 g = Some t"
      "ts' < t \<or> ts' = t \<and> c' \<le> last_counter_v7 g" by (auto simp: below_def)
    then have "ts' < ts \<or> ts' = ts \<and> c' < c" using f(3)[OF k(2)] by auto
    then show ?thesis using lt k(1) by (auto simp: below_def intro: less_imp_le)
  qed
  moreover have "below ?g (uuid_text ?u)" "gen_ok n ?g" using f(1,2) by (auto simp: below_def gen_ok_def)
  moreover have "uuid7 None ns rand rand4 g = Inr (?u, ?g)" by (simp add: uuid7_auto a)
  ultimately show ?thesis using that by blast
qed

lemma draw_keys_ok:
  assumes "gen_ok (length inputs + n) g" "list_all (clock_ok (length inputs + n)) inputs"
  shows "\<exists>ks g'. draw_keys inputs g = (Inr ks, g') \<and> length ks = length inputs \<and> strictly_sorted ks \<and> gen_ok n g' \<and>
    (\<forall>k \<in> set ks. below g' k) \<and> (\<forall>k. below g k \<longrightarrow> below g' k \<and> (\<forall>k' \<in> set ks. k < k'))"
  using assms
proof (induction inputs arbitrary: g)
  case (Cons i rest)
  obtain ns rand rand4 where i: "i = (ns, rand, rand4)" by (metis prod_cases3)
  have p: "gen_ok (Suc (length rest + n)) g" "clock_ok (Suc (length rest + n)) (ns, rand, rand4)"
    "list_all (clock_ok (length rest + n)) rest"
    using Cons.prems by (auto simp: i list_all_iff clock_ok_def)
  obtain u g1 where u: "uuid7 None ns rand rand4 g = Inr (u, g1)" "gen_ok (length rest + n) g1" "below g1 (uuid_text u)"
    "\<And>k. below g k \<Longrightarrow> k < uuid_text u \<and> below g1 k" by (rule draw_one[OF p(1,2)]) blast
  obtain ks g' where ks: "draw_keys rest g1 = (Inr ks, g')" "length ks = length rest" "strictly_sorted ks" "gen_ok n g'"
    "\<forall>k \<in> set ks. below g' k" "\<forall>k. below g1 k \<longrightarrow> below g' k \<and> (\<forall>k' \<in> set ks. k < k')"
    using Cons.IH[OF u(2) p(3)] by auto
  have "draw_keys (i # rest) g = (Inr (uuid_text u # ks), g')" by (simp add: i u(1) ks(1))
  then show ?case using ks(2-6) u(3,4) by (intro exI[of _ "uuid_text u # ks"] exI[of _ g']) auto
qed simp

section \<open>Entries of the map\<close>

lemma entries_sorted:
  assumes "digest20 sha1" "table_ok sha1 t" "slash \<notin> set parent" "\<forall>e \<in> set (entries_of parent t). slash \<notin> set (fst e)"
  shows "strictly_sorted (map fst (entries_of parent t))"
  unfolding sorted_wrt_map
  by (rule sorted_wrt_mono_rel[OF _ entries_encoded_sorted[OF assms(1-3)]]) (use assms(4) in \<open>simp add: encode_id\<close>)

lemma sorted_alist_eq:
  assumes "strictly_sorted (map fst a)" "strictly_sorted (map fst b)" "map_of a = map_of b"
  shows "a = (b :: table)"
  using sorted_entries_filter[OF assms(1), of "\<lambda>_. True"] sorted_entries_filter[OF assms(2), of "\<lambda>_. True"] assms(3) by simp

lemma upd_all_insert:
  "distinct (map fst (es @ kvs)) \<Longrightarrow> upd_all (map (\<lambda>(k, v). (k, Some v)) kvs) (map_of es) = map_of (es @ kvs)"
proof (induction kvs arbitrary: es)
  case (Cons kv kvs)
  obtain k v where kv: "kv = (k, v)" by (cases kv)
  have "(map_of es)(k \<mapsto> v) = map_of (es @ [(k, v)])" using Cons.prems by (auto simp: kv map_add_def fun_eq_iff map_of_eq_None_iff image_iff split: option.splits)
  then show ?case using Cons.IH[of "es @ [(k, v)]"] Cons.prems by (simp add: kv upd_all_def)
qed (simp add: upd_all_def)

lemma upd_all_remove:
  "distinct (map fst (xs @ ys)) \<Longrightarrow> upd_all (map (\<lambda>k. (k, None)) (map fst xs)) (map_of (xs @ ys)) = map_of ys"
proof (induction xs)
  case (Cons kv xs)
  obtain k v where kv: "kv = (k, v)" by (cases kv)
  have "map_of (xs @ ys) k = None" using Cons.prems by (simp add: kv map_of_eq_None_iff)
  then have "(map_of (kv # xs @ ys))(k := None) = map_of (xs @ ys)" by (auto simp: kv fun_eq_iff map_add_def split: option.splits)
  moreover have "upd_all (map (\<lambda>k. (k, None)) (map fst (kv # xs))) m = upd_all (map (\<lambda>k. (k, None)) (map fst xs)) (m(k := None))" for m
    by (simp add: kv upd_all_def)
  ultimately show ?case using Cons by (simp only: append_Cons list.map distinct.simps)
qed (simp add: upd_all_def)

section \<open>What a queue needs of a map\<close>

text \<open>
  Entries in the order of their keys, upserts that give them new values, and the first of them.  Whoever upserts keys
  beyond all others appends, and whoever deletes the first entries is left with the rest.
\<close>

definition key_ok :: "pystr \<Rightarrow> bool" where
  "key_ok k = (valid_id k \<and> slash \<notin> set k)"

locale entry_map =
  fixes ok :: "'t \<Rightarrow> bool" and entries :: "'t \<Rightarrow> table" and put :: "(pystr \<times> bytes option) list \<Rightarrow> 't \<Rightarrow> 'e + 't"
    and first :: "nat \<Rightarrow> 't \<Rightarrow> 'e + table"
  assumes entries_in_order: "ok t \<Longrightarrow> strictly_sorted (map fst (entries t))"
    and entries_keys: "ok t \<Longrightarrow> e \<in> set (entries t) \<Longrightarrow> key_ok (fst e)"
    and put_law: "ok t \<Longrightarrow> list_all (\<lambda>u. key_ok (fst u)) us \<Longrightarrow> strictly_sorted (map fst es) \<Longrightarrow> list_all (\<lambda>e. key_ok (fst e)) es \<Longrightarrow>
      upd_all us (map_of (entries t)) = map_of es \<Longrightarrow> \<exists>t'. put us t = Inr t' \<and> ok t' \<and> entries t' = es"
    and first_law: "ok t \<Longrightarrow> n \<noteq> 0 \<Longrightarrow> first n t = Inr (take n (entries t))"
begin

lemma append_entries:
  assumes "ok t" "strictly_sorted (map fst kvs)" "\<forall>k \<in> set (map fst kvs). key_ok k"
    "\<forall>e \<in> set (entries t). \<forall>k \<in> set (map fst kvs). fst e < k"
  shows "\<exists>t'. put (map (\<lambda>(k, v). (k, Some v)) kvs) t = Inr t' \<and> ok t' \<and> entries t' = entries t @ kvs"
proof (rule put_law[OF assms(1)])
  show sorted: "strictly_sorted (map fst (entries t @ kvs))"
    using entries_in_order[OF assms(1)] assms(2,4) by (simp add: sorted_wrt_append)
  show "list_all (\<lambda>u. key_ok (fst u)) (map (\<lambda>(k, v). (k, Some v)) kvs)" using assms(3) by (simp add: list_all_iff case_prod_beta)
  show "list_all (\<lambda>e. key_ok (fst e)) (entries t @ kvs)" using assms(3) entries_keys[OF assms(1)] by (simp add: list_all_iff ball_Un)
  show "upd_all (map (\<lambda>(k, v). (k, Some v)) kvs) (map_of (entries t)) = map_of (entries t @ kvs)"
    by (rule upd_all_insert) (use sorted in \<open>simp only: strict_sorted_iff\<close>)
qed

lemma drop_entries:
  assumes "ok t"
  shows "\<exists>t'. put (map (\<lambda>k. (k, None)) (map fst (take n (entries t)))) t = Inr t' \<and> ok t' \<and> entries t' = drop n (entries t)"
proof (rule put_law[OF assms])
  note sorted = entries_in_order[OF assms]
  show "strictly_sorted (map fst (drop n (entries t)))" using sorted by (simp add: drop_map[symmetric] sorted_wrt_drop)
  show "list_all (\<lambda>u. key_ok (fst u)) (map (\<lambda>k. (k, None)) (map fst (take n (entries t))))"
    using entries_keys[OF assms] by (auto simp: list_all_iff dest: in_set_takeD)
  show "list_all (\<lambda>e. key_ok (fst e)) (drop n (entries t))" using entries_keys[OF assms] by (auto simp: list_all_iff dest: in_set_dropD)
  have "distinct (map fst (take n (entries t) @ drop n (entries t)))" using sorted by (simp add: strict_sorted_iff)
  then show "upd_all (map (\<lambda>k. (k, None)) (map fst (take n (entries t)))) (map_of (entries t)) = map_of (drop n (entries t))"
    using upd_all_remove[of "take n (entries t)" "drop n (entries t)"] by simp
qed

end

text \<open>After upserts of valid keys the map has a given list of entries, if that is in order and has the right values.\<close>

lemma store_entries:
  assumes "digest20 sha1" "table_ok sha1 t" "slash \<notin> set parent" "list_all (\<lambda>u. valid_id (fst u)) us"
    "upd_all us (sm_map sha1 parent t) = map_of es" "strictly_sorted (map fst es)" "\<forall>e \<in> set es. slash \<notin> set (fst e)"
  obtains t' where "store_colocated sha1 SORTED_MAP_TYPE_NAME parent us t = Inr t'" "table_ok sha1 t'" "entries_of parent t' = es"
proof -
  obtain t' where t': "store_colocated sha1 SORTED_MAP_TYPE_NAME parent us t = Inr t'" "table_ok sha1 t'"
    "sm_map sha1 parent t' = map_of es"
    using store_effect[OF assms(1-4)] assms(3,5) by auto
  have m: "map_of (entries_of parent t') = map_of es" using entries_lookup[OF assms(1) t'(2) assms(3)] t'(3) by auto
  then have "dom (map_of (entries_of parent t')) = dom (map_of es)" by simp
  then have "fst ` set (entries_of parent t') = fst ` set es" by (simp add: dom_map_of_conv_image_fst)
  then have "\<forall>e \<in> set (entries_of parent t'). slash \<notin> set (fst e)" using assms(7) by (metis imageE imageI)
  then have "strictly_sorted (map fst (entries_of parent t'))" by (rule entries_sorted[OF assms(1) t'(2) assms(3)])
  then have "entries_of parent t' = es" using assms(6) m by (rule sorted_alist_eq)
  then show ?thesis using t' that by blast
qed

lemma range_all:
  assumes "digest20 sha1" "table_ok sha1 t" "slash \<notin> set parent" "limit \<noteq> 0"
  shows "sm_range sha1 parent None None limit t = Inr (take limit (entries_of parent t))"
  using range_eq[OF assms(1-3), of None None limit] assms(4) by (simp add: sm_range_def in_bounds_def)

text \<open>The sorted map of a reference, of which all keys are without slashes, is such a map.\<close>

definition map_ok :: "(pystr \<Rightarrow> bytes) \<Rightarrow> pystr \<Rightarrow> table \<Rightarrow> bool" where
  "map_ok sha1 parent t \<longleftrightarrow> digest20 sha1 \<and> slash \<notin> set parent \<and> table_ok sha1 t \<and> (\<forall>e \<in> set (entries_of parent t). slash \<notin> set (fst e))"

lemma map_ok_keys:
  assumes "map_ok sha1 parent t" "e \<in> set (entries_of parent t)"
  shows "key_ok (fst e)"
proof -
  have "map_of (entries_of parent t) (fst e) \<noteq> None" using assms(2) by (auto simp: map_of_eq_None_iff)
  then have "valid_id (fst e)" using assms(1) entries_lookup[of sha1 t parent "fst e"] by (auto simp: map_ok_def sm_map_def split: if_splits)
  then show ?thesis using assms by (simp add: key_ok_def map_ok_def)
qed

interpretation sorted_entries: entry_map "map_ok sha1 parent" "entries_of parent" "store_colocated sha1 SORTED_MAP_TYPE_NAME parent"
  "sm_range sha1 parent None None" for sha1 parent
proof
  fix t n and us :: "(pystr \<times> bytes option) list" and es
  assume ok: "map_ok sha1 parent t"
  then have t: "digest20 sha1" "slash \<notin> set parent" "table_ok sha1 t" by (simp_all add: map_ok_def)
  show "strictly_sorted (map fst (entries_of parent t))" using entries_sorted[OF t(1,3,2)] ok by (simp add: map_ok_def)
  show "key_ok (fst e)" if "e \<in> set (entries_of parent t)" for e using ok that by (rule map_ok_keys)
  show "sm_range sha1 parent None None n t = Inr (take n (entries_of parent t))" if "n \<noteq> 0" using range_all[OF t(1,3,2) that] .
  have m: "sm_map sha1 parent t = map_of (entries_of parent t)" using entries_lookup[OF t(1,3,2)] by auto
  assume u: "list_all (\<lambda>u. key_ok (fst u)) us" "strictly_sorted (map fst es)" "list_all (\<lambda>e. key_ok (fst e)) es"
    "upd_all us (map_of (entries_of parent t)) = map_of es"
  have v: "list_all (\<lambda>u. valid_id (fst u)) us" "\<forall>e \<in> set es. slash \<notin> set (fst e)" using u(1,3) by (simp_all add: list_all_iff key_ok_def)
  obtain t' where "store_colocated sha1 SORTED_MAP_TYPE_NAME parent us t = Inr t'" "table_ok sha1 t'" "entries_of parent t' = es"
    using u(4) unfolding m[symmetric] by (rule store_entries[OF t(1,3,2) v(1) _ u(2) v(2)])
  then show "\<exists>t'. store_colocated sha1 SORTED_MAP_TYPE_NAME parent us t = Inr t' \<and> map_ok sha1 parent t' \<and> entries_of parent t' = es"
    using t v(2) by (simp add: map_ok_def)
qed

section \<open>A queue is a list\<close>

lemma map_ref_ok:
  assumes "digest20 sha1" "valid_id i"
  obtains parent where "map_ref sha1 i = Inr parent" "slash \<notin> set parent"
proof -
  obtain tag bs where "from_id sha1 SORTED_MAP_TYPE_NAME i = Inr (tag @ colon # state_id_encode i)"
    "slash \<notin> set (tag @ colon # state_id_encode i)" by (rule from_id_ok[OF assms]) blast
  then show ?thesis using that by (simp add: map_ref_def)
qed

definition queue_inv :: "(pystr \<Rightarrow> bytes) \<Rightarrow> (bytes \<Rightarrow> 'v item option) \<Rightarrow> pystr \<Rightarrow> pystr \<Rightarrow> nat \<Rightarrow> queue_world \<Rightarrow> 'v item list \<Rightarrow> bool" where
  "queue_inv sha1 deser fresh parent n w q \<longleftrightarrow>
     table_ok sha1 (q_table w) \<and> gen_ok n (q_uuid w) \<and> (sorted_map_id w = fresh \<or> sorted_map_id w = [] \<and> q = []) \<and>
     (\<forall>e \<in> set (entries_of parent (q_table w)). below (q_uuid w) (fst e)) \<and>
     map (deser \<circ> snd) (entries_of parent (q_table w)) = map Some q"

lemma queue_inv_map:
  assumes "queue_inv sha1 deser fresh parent n w q" "digest20 sha1" "slash \<notin> set parent"
  shows "map_ok sha1 parent (q_table w)" "length (entries_of parent (q_table w)) = length q"
proof -
  show "map_ok sha1 parent (q_table w)" using assms below_text by (simp add: queue_inv_def map_ok_def) blast
  have "length (map (deser \<circ> snd) (entries_of parent (q_table w))) = length (map Some q)" using assms(1) by (simp only: queue_inv_def)
  then show "length (entries_of parent (q_table w)) = length q" by simp
qed

lemma parse_items_ok: "map deser bs = map Some q \<Longrightarrow> parse_items deser bs = Inr q"
proof (induction bs arbitrary: q)
  case (Cons b bs)
  then show ?case by (cases q) auto
qed simp

definition request_ok :: "'v enqueue_request \<Rightarrow> bool" where
  "request_ok r = (of_bool (enq_value r \<noteq> None) + of_bool (enq_bytes r \<noteq> None) + of_bool (enq_any r \<noteq> None) + of_bool (length (enq_items r) > 0) = (1 :: nat))"

lemma enqueue_appends:
  assumes "digest20 sha1" "valid_id fresh" "map_ref sha1 fresh = Inr parent" "slash \<notin> set parent" "\<forall>i. deser (ser i) = Some i"
    "request_ok r" "length inputs = length (request_items r)" "list_all (clock_ok (length inputs + n)) inputs"
    "queue_inv sha1 deser fresh parent (length inputs + n) w q"
  shows "\<exists>w'. enqueue sha1 ser fresh inputs r w = (Inr (), w') \<and> queue_inv sha1 deser fresh parent n w' (q @ request_items r)"
proof -
  let ?es = "entries_of parent (q_table w)"
  note ok = queue_inv_map(1)[OF assms(9,1,4)]
  have "gen_ok (length inputs + n) (q_uuid w)" using assms(9) by (simp add: queue_inv_def)
  then obtain ks g' where ks: "draw_keys inputs (q_uuid w) = (Inr ks, g')" "length ks = length inputs" "strictly_sorted ks" "gen_ok n g'"
    "\<forall>k \<in> set ks. below g' k" "\<forall>k. below (q_uuid w) k \<longrightarrow> below g' k \<and> (\<forall>k' \<in> set ks. k < k')"
    using draw_keys_ok[OF _ assms(8)] by blast
  let ?kvs = "zip ks (map ser (request_items r))"
  have kvs: "map fst ?kvs = ks" "map snd ?kvs = map ser (request_items r)" using ks(2) assms(7) by simp_all
  have es: "\<forall>e \<in> set ?es. below g' (fst e) \<and> (\<forall>k' \<in> set ks. fst e < k')" using assms(9) ks(6) by (simp add: queue_inv_def)
  have "strictly_sorted (map fst ?kvs)" "\<forall>k \<in> set (map fst ?kvs). key_ok k" "\<forall>e \<in> set ?es. \<forall>k \<in> set (map fst ?kvs). fst e < k"
    unfolding kvs using ks(3,5) es below_text by (auto simp: key_ok_def)
  then obtain t where t: "sm_insert sha1 parent ?kvs (q_table w) = Inr t" "map_ok sha1 parent t" "entries_of parent t = ?es @ ?kvs"
    using sorted_entries.append_entries[OF ok] unfolding sm_insert_def by blast
  have new: "\<forall>e \<in> set (?es @ ?kvs). below g' (fst e)"
  proof
    fix e assume "e \<in> set (?es @ ?kvs)"
    then have "e \<in> set ?es \<or> fst e \<in> set (map fst ?kvs)" by auto
    then show "below g' (fst e)" using es ks(5) by (auto simp only: kvs)
  qed
  have "fresh \<noteq> []" using assms(2) by (auto simp: valid_id_def)
  then have i: "(if sorted_map_id w = [] then fresh else sorted_map_id w) = fresh" using assms(9) by (auto simp: queue_inv_def)
  have "enqueue sha1 ser fresh inputs r w = (Inr (), \<lparr>sorted_map_id = fresh, q_table = t, q_uuid = g'\<rparr>)"
    using assms(6) by (simp add: enqueue_def request_ok_def Let_def i assms(3) ks(1) t(1))
  moreover have "map (deser \<circ> snd) (?es @ ?kvs) = map Some (q @ request_items r)"
  proof -
    have "map deser (map ser xs) = map Some xs" for xs using assms(5) by simp
    then show ?thesis using assms(9) kvs(2) by (simp add: queue_inv_def flip: map_map)
  qed
  ultimately show ?thesis using t new ks(4) by (simp add: queue_inv_def map_ok_def)
qed

definition dequeue_limit :: "bool \<Rightarrow> nat option \<Rightarrow> nat" where
  "dequeue_limit bulk at_most = (if bulk then (case at_most of Some n \<Rightarrow> n | None \<Rightarrow> DEFAULT_BULK_COUNT) else 1)"

definition list_response :: "bool \<Rightarrow> nat option \<Rightarrow> 'v item list \<Rightarrow> 'v dequeue_response" where
  "list_response bulk at_most q =
     (if q = [] then empty_response
      else if bulk then \<lparr>deq_item = no_item, deq_items = take (dequeue_limit bulk at_most) q\<rparr> else \<lparr>deq_item = hd q, deq_items = []\<rparr>)"

lemma dequeue_takes:
  assumes "digest20 sha1" "map_ref sha1 fresh = Inr parent" "slash \<notin> set parent" "dequeue_limit bulk at_most \<noteq> 0"
    "queue_inv sha1 deser fresh parent n w q"
  shows "\<exists>w'. try_dequeue sha1 deser bulk at_most w = (Inr (list_response bulk at_most q), w') \<and>
    queue_inv sha1 deser fresh parent n w' (drop (dequeue_limit bulk at_most) q)"
proof (cases "q = []")
  case True
  have "entries_of parent (q_table w) = []" using queue_inv_map(2)[OF assms(5,1,3)] True by simp
  then have "try_dequeue sha1 deser bulk at_most w = (Inr empty_response, w)"
    using assms(2,4,5) sorted_entries.first_law[OF queue_inv_map(1)[OF assms(5,1,3)] assms(4)]
    by (auto simp: try_dequeue_def Let_def queue_inv_def lift_map_def simp flip: dequeue_limit_def)
  then show ?thesis using True assms(5) by (simp add: list_response_def)
next
  case False
  let ?l = "dequeue_limit bulk at_most" and ?es = "entries_of parent (q_table w)"
  note inv = queue_inv_map[OF assms(5,1,3)]
  have d: "map (deser \<circ> snd) ?es = map Some q" and b: "\<forall>e \<in> set ?es. below (q_uuid w) (fst e)" and i: "sorted_map_id w = fresh"
    using assms(5) False by (auto simp: queue_inv_def)
  obtain t where t: "sm_remove sha1 parent (map fst (take ?l ?es)) (q_table w) = Inr t" "map_ok sha1 parent t" "entries_of parent t = drop ?l ?es"
    using sorted_entries.drop_entries[OF inv(1), of ?l] unfolding sm_remove_def by blast
  have ne: "take ?l ?es \<noteq> []" using False inv(2) assms(4) by auto
  have p: "parse_items deser (map snd (take ?l ?es)) = Inr (take ?l q)"
    by (rule parse_items_ok) (use d in \<open>simp add: take_map[symmetric] flip: map_map\<close>)
  have one: "\<not> bulk \<Longrightarrow> take ?l q = [hd q]" using False by (cases q) (simp_all add: dequeue_limit_def)
  have f: "fresh \<noteq> []" using assms(2) by (auto simp: map_ref_def from_id_def validate_ascii_def MIN_ACTOR_ID_LENGTH_def)
  have "try_dequeue sha1 deser bulk at_most w = (Inr (list_response bulk at_most q), w\<lparr>q_table := t\<rparr>)"
    using ne one f
    by (auto simp: try_dequeue_def Let_def i assms(2) lift_map_def sorted_entries.first_law[OF inv(1) assms(4)] p t(1) list_response_def False
      simp flip: dequeue_limit_def)
  moreover have "map (deser \<circ> snd) (drop ?l ?es) = map Some (drop ?l q)" using d by (simp only: drop_map[symmetric])
  moreover have "\<forall>e \<in> set (drop ?l ?es). below (q_uuid w) (fst e)" using b by (metis in_set_dropD)
  ultimately show ?thesis using t assms(5) i by (simp add: queue_inv_def map_ok_def)
qed

section \<open>Runs\<close>

datatype 'v q_cmd = Enqueue "'v enqueue_request" "(nat \<times> nat \<times> nat) list" | TryDequeue bool "nat option"

fun q_exec :: "(pystr \<Rightarrow> bytes) \<Rightarrow> ('v item \<Rightarrow> bytes) \<Rightarrow> (bytes \<Rightarrow> 'v item option) \<Rightarrow> pystr \<Rightarrow> 'v q_cmd \<Rightarrow> queue_world \<Rightarrow>
    (queue_error + 'v dequeue_response option) \<times> queue_world" where
  "q_exec sha1 ser deser fresh (Enqueue r inputs) w = apfst (map_sum id (\<lambda>_. None)) (enqueue sha1 ser fresh inputs r w)"
| "q_exec sha1 ser deser fresh (TryDequeue bulk at_most) w = apfst (map_sum id Some) (try_dequeue sha1 deser bulk at_most w)"

fun q_spec :: "'v q_cmd \<Rightarrow> 'v item list \<Rightarrow> (queue_error + 'v dequeue_response option) \<times> 'v item list" where
  "q_spec (Enqueue r inputs) q = (if request_ok r then (Inr None, q @ request_items r) else (Inl Type_error, q))"
| "q_spec (TryDequeue bulk at_most) q = (Inr (Some (list_response bulk at_most q)), drop (dequeue_limit bulk at_most) q)"

fun run_all :: "('c \<Rightarrow> 's \<Rightarrow> 'o \<times> 's) \<Rightarrow> 'c list \<Rightarrow> 's \<Rightarrow> 'o list \<times> 's" where
  "run_all f [] s = ([], s)"
| "run_all f (c # cs) s = (case f c s of (out, s') \<Rightarrow> (case run_all f cs s' of (outs, s'') \<Rightarrow> (out # outs, s'')))"

fun draws :: "'v q_cmd list \<Rightarrow> nat" where
  "draws [] = 0"
| "draws (Enqueue r inputs # cs) = length inputs + draws cs"
| "draws (TryDequeue _ _ # cs) = draws cs"

fun cmds_ok :: "'v q_cmd list \<Rightarrow> bool" where
  "cmds_ok [] = True"
| "cmds_ok (Enqueue r inputs # cs) = (length inputs = length (request_items r) \<and> list_all (clock_ok (length inputs + draws cs)) inputs \<and> cmds_ok cs)"
| "cmds_ok (TryDequeue bulk at_most # cs) = (dequeue_limit bulk at_most \<noteq> 0 \<and> cmds_ok cs)"

lemma gen_ok_mono: "gen_ok n g \<Longrightarrow> m \<le> n \<Longrightarrow> gen_ok m g"
  by (auto simp: gen_ok_def split: option.splits)

lemma run_refines:
  assumes "digest20 sha1" "valid_id fresh" "map_ref sha1 fresh = Inr parent" "slash \<notin> set parent" "\<forall>i. deser (ser i) = Some i"
    "cmds_ok cs" "queue_inv sha1 deser fresh parent (draws cs) w q"
  shows "fst (run_all (q_exec sha1 ser deser fresh) cs w) = fst (run_all q_spec cs q) \<and>
    queue_inv sha1 deser fresh parent 0 (snd (run_all (q_exec sha1 ser deser fresh) cs w)) (snd (run_all q_spec cs q))"
  using assms(6,7)
proof (induction cs arbitrary: w q)
  case (Cons c cs)
  show ?case
  proof (cases c)
    case (Enqueue r inputs)
    show ?thesis
    proof (cases "request_ok r")
      case True
      have "length inputs = length (request_items r)" "list_all (clock_ok (length inputs + draws cs)) inputs" "cmds_ok cs"
        "queue_inv sha1 deser fresh parent (length inputs + draws cs) w q"
        using Cons.prems unfolding Enqueue cmds_ok.simps draws.simps by blast+
      then obtain w' where "enqueue sha1 ser fresh inputs r w = (Inr (), w')" "queue_inv sha1 deser fresh parent (draws cs) w' (q @ request_items r)"
        using enqueue_appends[OF assms(1-5) True] by blast
      then show ?thesis using Cons.IH[of w' "q @ request_items r"] Cons.prems(1) True Enqueue by (simp add: case_prod_beta)
    next
      case False
      then have "enqueue sha1 ser fresh inputs r w = (Inl Type_error, w)" by (simp add: enqueue_def request_ok_def)
      moreover have "queue_inv sha1 deser fresh parent (draws cs) w q"
        using Cons.prems(2) gen_ok_mono[of "length inputs + draws cs" _ "draws cs"] Enqueue by (simp add: queue_inv_def)
      ultimately show ?thesis using Cons.IH[of w q] Cons.prems(1) False Enqueue by (simp add: case_prod_beta)
    qed
  next
    case (TryDequeue bulk at_most)
    then have "dequeue_limit bulk at_most \<noteq> 0" "queue_inv sha1 deser fresh parent (draws cs) w q" using Cons.prems by simp_all
    then obtain w' where "try_dequeue sha1 deser bulk at_most w = (Inr (list_response bulk at_most q), w')"
      "queue_inv sha1 deser fresh parent (draws cs) w' (drop (dequeue_limit bulk at_most) q)" using dequeue_takes[OF assms(1,3,4)] by blast
    then show ?thesis using Cons.IH[of w' "drop (dequeue_limit bulk at_most) q"] Cons.prems(1) TryDequeue by (simp add: case_prod_beta)
  qed
qed simp

definition queue_init :: "table \<Rightarrow> uuid7_globals \<Rightarrow> queue_world" where
  "queue_init t g = \<lparr>sorted_map_id = [], q_table = t, q_uuid = g\<rparr>"

lemma queue_init_inv:
  "table_ok sha1 t \<Longrightarrow> gen_ok n g \<Longrightarrow> entries_of parent t = [] \<Longrightarrow> queue_inv sha1 deser fresh parent n (queue_init t g) []"
  by (simp add: queue_inv_def queue_init_def)

text \<open>
  (C22) Queues are first in, first out: the responses to any sequence of \<open>enqueue\<close> and \<open>try_dequeue\<close>, single or in bulk, are
  those of a list to which items are appended at the end and from which they are taken at the front, while the
  clock, which may stand still or go back, is below the end of its range.  The map of the new queue has to be new.
\<close>

theorem queue_is_fifo:
  assumes "digest20 sha1" "valid_id fresh" "\<forall>i. deser (ser i) = Some i" "cmds_ok cs" "table_ok sha1 t" "gen_ok (draws cs) g"
    "map_ref sha1 fresh = Inr parent" "entries_of parent t = []"
  shows "fst (run_all (q_exec sha1 ser deser fresh) cs (queue_init t g)) = fst (run_all q_spec cs [])"
proof -
  have "slash \<notin> set parent" using map_ref_ok[OF assms(1,2)] assms(7) by (metis sum.inject(2))
  then show ?thesis using run_refines[OF assms(1,2,7) _ assms(3,4) queue_init_inv[OF assms(5,6,8)]] by blast
qed

text \<open>Numbers as values, for examples.\<close>

definition ser0 :: "nat item \<Rightarrow> bytes" where
  "ser0 i = (case item_value i of None \<Rightarrow> [0, 0] | Some v \<Rightarrow> [1, v]) @ (case item_any i of None \<Rightarrow> [0, 0] | Some v \<Rightarrow> [1, v]) @
     (case item_bytes i of None \<Rightarrow> [0] | Some b \<Rightarrow> 1 # b)"

definition deser0 :: "bytes \<Rightarrow> nat item option" where
  "deser0 b = (case b of a # v # c # x # d # bs \<Rightarrow>
       Some \<lparr>item_value = if a = 0 then None else Some v, item_bytes = if d = 0 then None else Some bs, item_any = if c = 0 then None else Some x\<rparr>
     | _ \<Rightarrow> None)"

lemma deser0_ser0: "\<forall>i. deser0 (ser0 i) = Some i"
  by (auto simp: ser0_def deser0_def split: option.splits)

definition number :: "nat \<Rightarrow> nat item" where
  "number n = \<lparr>item_value = Some n, item_bytes = None, item_any = None\<rparr>"

definition enqueue_items :: "nat item list \<Rightarrow> nat q_cmd" where
  "enqueue_items is = Enqueue \<lparr>enq_value = None, enq_bytes = None, enq_any = None, enq_items = is\<rparr> (replicate (length is) (5000000, 7, 1))"

lemma example_premises:
  obtains parent where "digest20 (\<lambda>_. replicate 20 7)" "valid_id (str ''q'')" "table_ok (\<lambda>_. replicate 20 7) []"
    "gen_ok n uuid7_globals_init" "map_ref (\<lambda>_. replicate 20 7) (str ''q'') = Inr parent" "entries_of parent [] = []"
proof -
  have d: "digest20 (\<lambda>_. replicate 20 7)" "valid_id (str ''q'')" by (simp_all add: digest20_def valid_id_def str_def)
  obtain parent where "map_ref (\<lambda>_. replicate 20 7) (str ''q'') = Inr parent" by (rule map_ref_ok[OF d])
  then show ?thesis using that d by (simp add: table_ok_def gen_ok_def uuid7_globals_init_def entries_of_def)
qed

theorem queue_is_fifo_witness:
  "fst (run_all (q_exec (\<lambda>_. replicate 20 7) ser0 deser0 (str ''q'')) [enqueue_items [number 1, number 2], TryDequeue False None] (queue_init [] uuid7_globals_init)) =
     [Inr None, Inr (Some \<lparr>deq_item = number 1, deq_items = []\<rparr>)]"
proof -
  have c: "cmds_ok [enqueue_items [number 1, number 2], TryDequeue False None]"
    by (simp add: enqueue_items_def request_items_def clock_ok_def dequeue_limit_def)
  obtain parent where p: "digest20 (\<lambda>_. replicate 20 7)" "valid_id (str ''q'')" "table_ok (\<lambda>_. replicate 20 7) []"
    "gen_ok (draws [enqueue_items [number 1, number 2], TryDequeue False None]) uuid7_globals_init"
    "map_ref (\<lambda>_. replicate 20 7) (str ''q'') = Inr parent" "entries_of parent [] = []" by (rule example_premises)
  show ?thesis unfolding queue_is_fifo[OF p(1,2) deser0_ser0 c p(3-6)]
    by (simp add: enqueue_items_def request_ok_def request_items_def list_response_def)
qed

text \<open>
  (C23) An item without any field can be enqueued as one of \<open>items\<close> and is lost when items are dequeued singly (\<open>bulk=False\<close>): when it is at the front, \<open>have_items\<close> takes it
  off the queue and answers that there are no items, because its response equals the one for an empty queue.
\<close>

theorem empty_item_is_lost:
  assumes "digest20 sha1" "valid_id fresh" "\<forall>i. deser (ser i) = Some i" "cmds_ok cs" "table_ok sha1 t" "gen_ok (draws cs) g"
    "map_ref sha1 fresh = Inr parent" "entries_of parent t = []" "snd (run_all q_spec cs []) = no_item # q"
    "w = snd (run_all (q_exec sha1 ser deser fresh) cs (queue_init t g))"
  shows "\<exists>w'. have_items sha1 deser False at_most w w = (Inr None, w') \<and>
    fst (try_dequeue sha1 deser False None w') = Inr (list_response False None q)"
proof -
  have s: "slash \<notin> set parent" using map_ref_ok[OF assms(1,2)] assms(7) by (metis sum.inject(2))
  then have inv: "queue_inv sha1 deser fresh parent 0 w (no_item # q)"
    using run_refines[OF assms(1,2,7) _ assms(3,4) queue_init_inv[OF assms(5,6,8)]] assms(9,10) by simp
  have l: "dequeue_limit False a = 1" for a by (simp add: dequeue_limit_def)
  obtain w' where w': "try_dequeue sha1 deser False at_most w = (Inr (list_response False at_most (no_item # q)), w')"
    "queue_inv sha1 deser fresh parent 0 w' q" using dequeue_takes[OF assms(1,7) s _ inv, of False at_most] by (auto simp: l)
  have "length (entries_of parent (q_table w)) = Suc (length q)" "sorted_map_id w = fresh"
    using queue_inv_map(2)[OF inv assms(1) s] inv by (auto simp: queue_inv_def)
  moreover have "fresh \<noteq> []" using assms(2) by (auto simp: valid_id_def)
  ultimately have "queue_empty sha1 w = Inr False"
    using sorted_entries.first_law[OF queue_inv_map(1)[OF inv assms(1) s], of 1] by (auto simp: queue_empty_def assms(7) lift_map_def)
  then have "have_items sha1 deser False at_most w w = (Inr None, w')"
    by (simp add: have_items_def w'(1) list_response_def empty_response_def)
  moreover have "fst (try_dequeue sha1 deser False None w') = Inr (list_response False None q)"
    using dequeue_takes[OF assms(1,7) s _ w'(2), of False None] by (auto simp: l)
  ultimately show ?thesis by blast
qed

theorem empty_item_is_lost_witness:
  "\<exists>w'. have_items (\<lambda>_. replicate 20 7) deser0 False None
      (snd (run_all (q_exec (\<lambda>_. replicate 20 7) ser0 deser0 (str ''q'')) [enqueue_items [no_item, number 2]] (queue_init [] uuid7_globals_init)))
      (snd (run_all (q_exec (\<lambda>_. replicate 20 7) ser0 deser0 (str ''q'')) [enqueue_items [no_item, number 2]] (queue_init [] uuid7_globals_init))) = (Inr None, w') \<and>
    fst (try_dequeue (\<lambda>_. replicate 20 7) deser0 False None w') = Inr \<lparr>deq_item = number 2, deq_items = []\<rparr>"
proof -
  have c: "cmds_ok [enqueue_items [no_item, number 2]]" by (simp add: enqueue_items_def request_items_def clock_ok_def)
  have q: "snd (run_all q_spec [enqueue_items [no_item, number 2]] []) = no_item # [number 2]"
    by (simp add: enqueue_items_def request_ok_def request_items_def)
  have r: "list_response False None [number 2] = \<lparr>deq_item = number 2, deq_items = []\<rparr>" by (simp add: list_response_def)
  obtain parent where p: "digest20 (\<lambda>_. replicate 20 7)" "valid_id (str ''q'')" "table_ok (\<lambda>_. replicate 20 7) []"
    "gen_ok (draws [enqueue_items [no_item, number 2]]) uuid7_globals_init"
    "map_ref (\<lambda>_. replicate 20 7) (str ''q'') = Inr parent" "entries_of parent [] = []" by (rule example_premises)
  show ?thesis using empty_item_is_lost[OF p(1,2) deser0_ser0 c p(3-6) q refl, of None] unfolding r .
qed

end
