(* ===== verification/Calls.thy ===== *)
theory Calls
  imports State_Ref
begin

text \<open>
  What a call says of itself, and whether it is let through: the headers of \<open>reboot/aio/headers.py\<close> as they
  are sent and received, the caller's identity (\<open>aio/caller_id.py\<close>, the identifiers of \<open>naming.py\<close>), and the
  authorizers of \<open>aio/auth/authorizers.py\<close> and \<open>aio/caller_id_auth.py\<close>.

  Metadata is the sequence of its names and values.  UUIDs, timestamps, JSON lists of strings, decimal
  numbers and the protobuf of an \<open>Auth\<close> are read and printed by a \<open>codec\<close>; the theorems assume only that it reads
  what it prints, for an \<open>Auth\<close> only of the one that is sent.  The tracing context that OpenTelemetry injects is part of it.
\<close>

datatype call_error = Value_error | Ref_error ref_error | Assertion_error

section \<open>Identifiers\<close>

definition SPACE_ID_SUFFIX_LENGTH :: nat where "SPACE_ID_SUFFIX_LENGTH = 10"
definition APPLICATION_ID_SUFFIX_LENGTH :: nat where "APPLICATION_ID_SUFFIX_LENGTH = 10"

definition CLOUD_APPLICATION_ID :: pystr where "CLOUD_APPLICATION_ID = str ''cloud''"

definition is_valid_id_suffix :: "pystr \<Rightarrow> bool" where
  "is_valid_id_suffix s = list_all (\<lambda>c. 48 \<le> c \<and> c \<le> 57 \<or> 97 \<le> c \<and> c \<le> 122) s"

definition is_valid_space_id :: "pystr \<Rightarrow> bool" where
  "is_valid_space_id s = (take 1 s = str ''s'' \<and> length s = 1 + SPACE_ID_SUFFIX_LENGTH \<and> is_valid_id_suffix (drop 1 s))"

definition facilitator :: pystr where "facilitator = str ''-facilitator''"

definition is_facilitator_application_id :: "pystr \<Rightarrow> bool" where
  "is_facilitator_application_id s = (length facilitator \<le> length s \<and> drop (length s - length facilitator) s = facilitator)"

definition make_facilitator_application_id :: "pystr \<Rightarrow> call_error + pystr" where
  "make_facilitator_application_id s = (if is_facilitator_application_id s then Inl Value_error else Inr (s @ facilitator))"

definition facilitated_application_id :: "pystr \<Rightarrow> call_error + pystr" where
  "facilitated_application_id s =
     (if is_facilitator_application_id s then Inr (take (length s - length facilitator) s) else Inl Value_error)"

function is_valid_application_id :: "pystr \<Rightarrow> bool" where
  "is_valid_application_id s =
     (take 1 s = str ''a'' \<and> length s = 1 + APPLICATION_ID_SUFFIX_LENGTH \<and> is_valid_id_suffix (drop 1 s) \<or>
      s = CLOUD_APPLICATION_ID \<or>
      (if is_facilitator_application_id s then is_valid_application_id (take (length s - length facilitator) s) else False))"
  by pat_completeness auto
termination
  by (relation "measure length") (auto simp: is_facilitator_application_id_def facilitator_def str_def)

declare is_valid_application_id.simps [simp del]

definition ensure_valid_space_id :: "pystr \<Rightarrow> call_error + pystr" where
  "ensure_valid_space_id s = (if is_valid_space_id s then Inr s else Inl Value_error)"

definition ensure_valid_application_id :: "pystr \<Rightarrow> call_error + pystr" where
  "ensure_valid_application_id s = (if is_valid_application_id s then Inr s else Inl Value_error)"

section \<open>Standard base64\<close>

text \<open>\<open>b64encode\<close> with \<open>+\<close> and \<open>/\<close>, and \<open>b64decode(..., validate=True)\<close>.\<close>

definition to_std :: "nat \<Rightarrow> nat" where
  "to_std c = (if c = 45 then 43 else if c = 95 then 47 else c)"

definition b64encode_std :: "bytes \<Rightarrow> pystr" where
  "b64encode_std bs = map to_std (b64encode bs)"

definition b64decode_validate :: "pystr \<Rightarrow> bytes option" where
  "b64decode_validate s =
     (let body = rev (dropWhile (\<lambda>c. c = 61) (rev s))
      in if list_all (\<lambda>c. b64_value c \<noteq> None \<and> c \<noteq> 45 \<and> c \<noteq> 95) body \<and> length s - length body \<le> 2 \<and> length s mod 4 = 0
         then b64decode s else None)"

section \<open>The codec\<close>

record ('u, 'a, 't) codec =
  uuid_str :: "'u \<Rightarrow> pystr"
  uuid_parse :: "pystr \<Rightarrow> 'u option"
  list_dumps :: "pystr list \<Rightarrow> pystr"
  list_loads :: "pystr \<Rightarrow> pystr list option"
  int_str :: "int \<Rightarrow> pystr"
  int_parse :: "pystr \<Rightarrow> int option"
  auth_bytes :: "'a \<Rightarrow> bytes"
  auth_parse :: "bytes \<Rightarrow> 'a option"
  schedule_parse :: "pystr \<Rightarrow> 't option"
  schedule_now :: 't
  injected_traceparent :: "pystr option"
  injected_tracestate :: "pystr option"

definition codec_ok :: "('u, 'a, 't) codec \<Rightarrow> bool" where
  "codec_ok C \<longleftrightarrow> (\<forall>u. uuid_parse C (uuid_str C u) = Some u) \<and> (\<forall>l. list_loads C (list_dumps C l) = Some l) \<and>
     (\<forall>n. int_parse C (int_str C n) = Some n)"

text \<open>Protobuf keeps an \<open>Auth\<close> unless, for example, a property is an integer, which comes back as a float.\<close>

definition auth_survives :: "('u, 'a, 't) codec \<Rightarrow> 'a \<Rightarrow> bool" where
  "auth_survives C a \<longleftrightarrow> auth_parse C (auth_bytes C a) = Some a \<and> (\<forall>b \<in> set (auth_bytes C a). b < 256)"

definition orValueError :: "'x option \<Rightarrow> call_error + 'x" where
  "orValueError x = (case x of None \<Rightarrow> Inl Value_error | Some v \<Rightarrow> Inr v)"

section \<open>Caller IDs\<close>

record 'a caller_id =
  cid_application :: pystr
  cid_space :: "pystr option"
  cid_auth :: "'a option"

definition comma :: nat where "comma = 44"
definition equals :: nat where "equals = 61"

definition SPACE_ID_KEY :: pystr where "SPACE_ID_KEY = str ''space_id''"
definition APPLICATION_ID_KEY :: pystr where "APPLICATION_ID_KEY = str ''application_id''"
definition AUTH_KEY :: pystr where "AUTH_KEY = str ''auth''"

definition caller_id_str :: "('u, 'a, 't) codec \<Rightarrow> 'a caller_id \<Rightarrow> pystr" where
  "caller_id_str C c =
     (case cid_space c of Some s \<Rightarrow> SPACE_ID_KEY @ equals # s @ [comma] | None \<Rightarrow> []) @
     APPLICATION_ID_KEY @ equals # cid_application c @
     (case cid_auth c of Some a \<Rightarrow> comma # AUTH_KEY @ equals # b64encode_std (auth_bytes C a) | None \<Rightarrow> [])"

fun caller_id_values :: "pystr list \<Rightarrow> (pystr \<times> pystr) list \<Rightarrow> call_error + (pystr \<times> pystr) list" where
  "caller_id_values [] values = Inr values"
| "caller_id_values (part # parts) values =
     (if part = [] then caller_id_values parts values
      else (case split1 equals part of [k, v] \<Rightarrow> caller_id_values parts ((k, v) # values) | _ \<Rightarrow> Inl Value_error))"

definition caller_id_parse :: "('u, 'a, 't) codec \<Rightarrow> pystr \<Rightarrow> call_error + 'a caller_id" where
  "caller_id_parse C s =
     rbind (caller_id_values (split comma s) []) (\<lambda>values.
     (case map_of values APPLICATION_ID_KEY of
        None \<Rightarrow> Inl Value_error
      | Some a \<Rightarrow>
        rbind (case map_of values SPACE_ID_KEY of None \<Rightarrow> Inr None | Some sp \<Rightarrow> rbind (ensure_valid_space_id sp) (\<lambda>x. Inr (Some x))) (\<lambda>space.
        rbind (ensure_valid_application_id a) (\<lambda>application.
        rbind (case map_of values AUTH_KEY of None \<Rightarrow> Inr None
               | Some b \<Rightarrow> rbind (orValueError (b64decode_validate b)) (\<lambda>bs. rbind (orValueError (auth_parse C bs)) (\<lambda>x. Inr (Some x)))) (\<lambda>auth.
          Inr \<lparr>cid_application = application, cid_space = space, cid_auth = auth\<rparr>)))))"

section \<open>Headers\<close>

definition APPLICATION_ID_HEADER :: pystr where "APPLICATION_ID_HEADER = str ''x-reboot-application-id''"
definition STATE_REF_HEADER :: pystr where "STATE_REF_HEADER = str ''x-reboot-state-ref''"
definition SERVER_ID_HEADER :: pystr where "SERVER_ID_HEADER = str ''x-reboot-server-id''"
definition WORKFLOW_ID_HEADER :: pystr where "WORKFLOW_ID_HEADER = str ''x-reboot-workflow-id''"
definition WORKFLOW_ITERATION_HEADER :: pystr where "WORKFLOW_ITERATION_HEADER = str ''x-reboot-workflow-iteration''"
definition TRANSACTION_IDS_HEADER :: pystr where "TRANSACTION_IDS_HEADER = str ''x-reboot-transaction-ids''"
definition TRANSACTION_COORDINATOR_STATE_TYPE_HEADER :: pystr where
  "TRANSACTION_COORDINATOR_STATE_TYPE_HEADER = str ''x-reboot-transaction-coordinator-state-type''"
definition TRANSACTION_COORDINATOR_STATE_REF_HEADER :: pystr where
  "TRANSACTION_COORDINATOR_STATE_REF_HEADER = str ''x-reboot-transaction-coordinator-state-ref''"
definition TRANSACTION_COORDINATOR_READ_ONLY_AWARE_HEADER :: pystr where
  "TRANSACTION_COORDINATOR_READ_ONLY_AWARE_HEADER = str ''x-reboot-transaction-coordinator-read-only-aware''"
definition TRANSACTION_RETRY_AGE_HEADER :: pystr where "TRANSACTION_RETRY_AGE_HEADER = str ''x-reboot-transaction-retry-age''"
definition IDEMPOTENCY_KEY_HEADER :: pystr where "IDEMPOTENCY_KEY_HEADER = str ''x-reboot-idempotency-key''"
definition CALLER_ID_HEADER :: pystr where "CALLER_ID_HEADER = str ''x-reboot-caller-id''"
definition AUTHORIZATION_HEADER :: pystr where "AUTHORIZATION_HEADER = str ''authorization''"
definition TASK_SCHEDULE :: pystr where "TASK_SCHEDULE = str ''x-reboot-task-schedule''"
definition TRACEPARENT_HEADER :: pystr where "TRACEPARENT_HEADER = str ''traceparent''"
definition TRACESTATE_HEADER :: pystr where "TRACESTATE_HEADER = str ''tracestate''"
definition INTERNAL_CALL_HEADER :: pystr where "INTERNAL_CALL_HEADER = str ''x-reboot-internal-call''"

definition MAX_BEARER_TOKEN_LENGTH :: nat where "MAX_BEARER_TOKEN_LENGTH = 4096"

text \<open>A reference is its encoded string and, of a \<open>ReadableStateRef\<close>, the readable one.\<close>

record ('u, 'a, 't) headers =
  application_id :: "pystr option"
  state_ref :: "pystr \<times> pystr option"
  workflow_id :: "'u option"
  workflow_iteration :: "int option"
  transaction_ids :: "'u list option"
  transaction_coordinator_state_type :: "pystr option"
  transaction_coordinator_state_ref :: "pystr option"
  transaction_retry_age :: "'u option"
  idempotency_key :: "'u option"
  bearer_token :: "pystr option"
  task_schedule :: "'t option"
  server_id :: "pystr option"
  caller :: "'a caller_id option"
  traceparent :: "pystr option"
  tracestate :: "pystr option"
  internal_call :: bool
  coordinator_read_only_aware :: bool

definition post_init :: "('u, 'a, 't) codec \<Rightarrow> ('u, 'a, 't) headers \<Rightarrow> call_error + ('u, 'a, 't) headers" where
  "post_init C h =
     rbind (case bearer_token h of None \<Rightarrow> Inr () | Some b \<Rightarrow> validate_ascii b MAX_BEARER_TOKEN_LENGTH 0 [10] Value_error) (\<lambda>_.
       Inr (if traceparent h = None \<and> tracestate h = None
            then h\<lparr>traceparent := injected_traceparent C, tracestate := injected_tracestate C\<rparr> else h))"

definition copy_for_token_verification_and_authorization ::
    "('u, 'a, 't) codec \<Rightarrow> ('u, 'a, 't) headers \<Rightarrow> call_error + ('u, 'a, 't) headers" where
  "copy_for_token_verification_and_authorization C h = post_init C
     \<lparr>application_id = application_id h, state_ref = state_ref h, workflow_id = None, workflow_iteration = None,
      transaction_ids = None, transaction_coordinator_state_type = None, transaction_coordinator_state_ref = None,
      transaction_retry_age = None, idempotency_key = None, bearer_token = bearer_token h, task_schedule = None,
      server_id = server_id h, caller = caller h, traceparent = traceparent h, tracestate = tracestate h,
      internal_call = False, coordinator_read_only_aware = False\<rparr>"

subsection \<open>Sending\<close>

type_synonym metadata = "(pystr \<times> pystr) list"

definition maybe_add :: "pystr \<Rightarrow> pystr option \<Rightarrow> metadata" where
  "maybe_add name v = (case v of None \<Rightarrow> [] | Some x \<Rightarrow> [(name, x)])"

definition maybe_add_transaction_headers :: "('u, 'a, 't) codec \<Rightarrow> ('u, 'a, 't) headers \<Rightarrow> call_error + metadata" where
  "maybe_add_transaction_headers C h =
     (case transaction_ids h of None \<Rightarrow> Inr []
      | Some ids \<Rightarrow>
        rbind (py_assert Assertion_error (length ids > 0)) (\<lambda>_.
        (case (transaction_coordinator_state_type h, transaction_coordinator_state_ref h) of
           (Some t, Some r) \<Rightarrow>
             Inr [(TRANSACTION_IDS_HEADER, list_dumps C (map (uuid_str C) ids)),
                  (TRANSACTION_COORDINATOR_STATE_TYPE_HEADER, t), (TRANSACTION_COORDINATOR_STATE_REF_HEADER, r)]
         | _ \<Rightarrow> Inl Assertion_error)))"

definition sent_caller_id :: "('u, 'a, 't) headers \<Rightarrow> 'a caller_id option" where
  "sent_caller_id h =
     map_option (\<lambda>c. if bearer_token h \<noteq> None \<and> cid_auth c \<noteq> None then c\<lparr>cid_auth := None\<rparr> else c) (caller h)"

definition headers_to_metadata :: "('u, 'a, 't) codec \<Rightarrow> ('u, 'a, 't) headers \<Rightarrow> call_error + metadata" where
  "headers_to_metadata C h =
     rbind (maybe_add_transaction_headers C h) (\<lambda>transaction_headers.
     Inr ([(STATE_REF_HEADER, fst (state_ref h))] @
       maybe_add APPLICATION_ID_HEADER (application_id h) @ maybe_add SERVER_ID_HEADER (server_id h) @
       maybe_add AUTHORIZATION_HEADER (map_option (\<lambda>b. str ''Bearer '' @ b) (bearer_token h)) @
       transaction_headers @
       maybe_add TRANSACTION_RETRY_AGE_HEADER (map_option (uuid_str C) (transaction_retry_age h)) @
       maybe_add WORKFLOW_ID_HEADER (map_option (uuid_str C) (workflow_id h)) @
       maybe_add WORKFLOW_ITERATION_HEADER (map_option (int_str C) (workflow_iteration h)) @
       maybe_add IDEMPOTENCY_KEY_HEADER (map_option (uuid_str C) (idempotency_key h)) @
       maybe_add TRACEPARENT_HEADER (traceparent h) @ maybe_add TRACESTATE_HEADER (tracestate h) @
       maybe_add CALLER_ID_HEADER (map_option (caller_id_str C) (sent_caller_id h)) @
       (if internal_call h then [(INTERNAL_CALL_HEADER, str ''true'')] else []) @
       (if coordinator_read_only_aware h then [(TRANSACTION_COORDINATOR_READ_ONLY_AWARE_HEADER, str ''true'')] else [])))"

subsection \<open>Receiving\<close>

definition removeprefix :: "pystr \<Rightarrow> pystr \<Rightarrow> pystr" where
  "removeprefix p s = (if take (length p) s = p then drop (length p) s else s)"

definition extract_maybe :: "(pystr \<rightharpoonup> pystr) \<Rightarrow> pystr \<Rightarrow> bool \<Rightarrow> (pystr \<Rightarrow> call_error + 'x) \<Rightarrow> call_error + 'x option" where
  "extract_maybe raw name required convert =
     (case raw name of Some v \<Rightarrow> rbind (convert v) (\<lambda>x. Inr (Some x))
      | None \<Rightarrow> if required then Inl Value_error else Inr None)"

fun parse_ids :: "('u, 'a, 't) codec \<Rightarrow> pystr list \<Rightarrow> call_error + 'u list" where
  "parse_ids C [] = Inr []"
| "parse_ids C (s # ss) = rbind (orValueError (uuid_parse C s)) (\<lambda>u. rbind (parse_ids C ss) (\<lambda>us. Inr (u # us)))"

definition headers_from_metadata ::
    "('u, 'a, 't) codec \<Rightarrow> (pystr \<Rightarrow> bytes) \<Rightarrow> pystr option \<Rightarrow> metadata \<Rightarrow> call_error + ('u, 'a, 't) headers" where
  "headers_from_metadata C sha1 current_application_id md =
     (let raw = map_of (rev md) in
      rbind (py_assert Assertion_error (current_application_id \<noteq> None)) (\<lambda>_.
      rbind (extract_maybe raw SERVER_ID_HEADER False Inr) (\<lambda>server.
      rbind (extract_maybe raw STATE_REF_HEADER True Inr) (\<lambda>ref.
      rbind (case from_maybe_readable sha1 (the ref) of Inl e \<Rightarrow> Inl (Ref_error e) | Inr r \<Rightarrow> Inr r) (\<lambda>ref.
      rbind (extract_maybe raw WORKFLOW_ID_HEADER False (\<lambda>v. orValueError (uuid_parse C v))) (\<lambda>wid.
      rbind (extract_maybe raw WORKFLOW_ITERATION_HEADER False (\<lambda>v. orValueError (int_parse C v))) (\<lambda>wit.
      rbind (extract_maybe raw TRANSACTION_IDS_HEADER False
               (\<lambda>v. rbind (orValueError (list_loads C v)) (parse_ids C))) (\<lambda>ids.
      rbind (extract_maybe raw TRANSACTION_COORDINATOR_STATE_TYPE_HEADER (ids \<noteq> None) Inr) (\<lambda>ctype.
      rbind (extract_maybe raw TRANSACTION_COORDINATOR_STATE_REF_HEADER (ids \<noteq> None) Inr) (\<lambda>cref.
      rbind (extract_maybe raw TRANSACTION_RETRY_AGE_HEADER False (\<lambda>v. orValueError (uuid_parse C v))) (\<lambda>age.
      rbind (extract_maybe raw IDEMPOTENCY_KEY_HEADER False (\<lambda>v. orValueError (uuid_parse C v))) (\<lambda>ikey.
      rbind (extract_maybe raw AUTHORIZATION_HEADER False (\<lambda>v. Inr (removeprefix (str ''Bearer '') v))) (\<lambda>bearer.
      rbind (extract_maybe raw TASK_SCHEDULE False
               (\<lambda>v. if length v > 0 then orValueError (schedule_parse C v) else Inr (schedule_now C))) (\<lambda>schedule.
      rbind (extract_maybe raw CALLER_ID_HEADER False (caller_id_parse C)) (\<lambda>cid.
      rbind (extract_maybe raw TRACEPARENT_HEADER False Inr) (\<lambda>tp.
      rbind (extract_maybe raw TRACESTATE_HEADER False Inr) (\<lambda>ts.
      rbind (extract_maybe raw INTERNAL_CALL_HEADER False (\<lambda>v. Inr (v = str ''true''))) (\<lambda>internal.
        post_init C
          \<lparr>application_id = current_application_id, state_ref = ref, workflow_id = wid, workflow_iteration = wit,
           transaction_ids = ids, transaction_coordinator_state_type = ctype, transaction_coordinator_state_ref = cref,
           transaction_retry_age = age, idempotency_key = ikey, bearer_token = bearer, task_schedule = schedule,
           server_id = server, caller = cid, traceparent = tp, tracestate = ts,
           internal_call = (internal = Some True),
           coordinator_read_only_aware = (raw TRANSACTION_COORDINATOR_READ_ONLY_AWARE_HEADER \<noteq> None)\<rparr>))))))))))))))))))"

section \<open>Authorization\<close>

record auth =
  user_id :: "pystr option"
  properties :: "(pystr \<times> pystr option) list"

text \<open>
  A decision; a callable can return any other object too, as nothing checks it.  The context of an
  authorizer is the copied headers, the application called and the verified \<open>Auth\<close>.
\<close>

datatype decision = Ok | Unauthenticated | PermissionDenied | Other_object

record ('u, 't) reader_context =
  ctx_headers :: "('u, auth, 't) headers"
  ctx_application :: pystr
  ctx_auth :: "auth option"

type_synonym ('u, 't) authorizer_callable = "('u, 't) reader_context \<Rightarrow> call_error + decision"

definition is_app_internal_call :: "('u, 'a, 't) headers \<Rightarrow> pystr \<Rightarrow> bool" where
  "is_app_internal_call h application = (case caller h of None \<Rightarrow> False | Some c \<Rightarrow> cid_application c = application)"

definition app_internal :: "('u, 't) reader_context \<Rightarrow> bool" where
  "app_internal c = is_app_internal_call (ctx_headers c) (ctx_application c)"

datatype ('u, 't) authorizer_rule = DenyRule | AllowRule | AllowIfRule "('u, 't) authorizer_callable list" bool

fun allow_if_loop :: "('u, 't) authorizer_callable list \<Rightarrow> bool \<Rightarrow> bool \<Rightarrow> ('u, 't) authorizer_callable" where
  "allow_if_loop [] requires_all denied ctx =
     (if requires_all then rbind (py_assert Assertion_error (\<not> denied)) (\<lambda>_. Inr Ok)
      else if denied then Inr PermissionDenied else Inr Unauthenticated)"
| "allow_if_loop (c # cs) requires_all denied ctx =
     rbind (c ctx) (\<lambda>d. case d of
         Ok \<Rightarrow> if requires_all then allow_if_loop cs requires_all denied ctx else Inr d
       | Unauthenticated \<Rightarrow> if requires_all then Inr d else allow_if_loop cs requires_all denied ctx
       | PermissionDenied \<Rightarrow> if requires_all then Inr d else allow_if_loop cs requires_all True ctx
       | Other_object \<Rightarrow> allow_if_loop cs requires_all denied ctx)"

fun rule_execute :: "('u, 't) authorizer_rule \<Rightarrow> ('u, 't) authorizer_callable" where
  "rule_execute DenyRule ctx = Inr PermissionDenied"
| "rule_execute AllowRule ctx = Inr Ok"
| "rule_execute (AllowIfRule cs requires_all) ctx = allow_if_loop cs requires_all False ctx"

definition allow_if :: "('u, 't) authorizer_callable list option \<Rightarrow> ('u, 't) authorizer_callable list option \<Rightarrow>
    call_error + ('u, 't) authorizer_rule" where
  "allow_if all_of any_of =
     rbind (py_assert Assertion_error ((all_of \<noteq> None) \<noteq> (any_of \<noteq> None))) (\<lambda>_.
     (case (case all_of of Some (c # cs) \<Rightarrow> Some (c # cs) | _ \<Rightarrow> any_of) of
        None \<Rightarrow> Inl Assertion_error
      | Some callables \<Rightarrow> Inr (AllowIfRule callables (all_of \<noteq> None))))"

definition has_verified_token :: "('u, 't) authorizer_callable" where
  "has_verified_token c = Inr (if ctx_auth c = None then Unauthenticated else Ok)"

definition is_app_internal :: "('u, 't) authorizer_callable" where
  "is_app_internal c = Inr (if app_internal c then Ok else PermissionDenied)"

definition state_id_is_user_id_decision :: "('u, 't) reader_context \<Rightarrow> decision" where
  "state_id_is_user_id_decision c =
     (case ctx_auth c of None \<Rightarrow> Unauthenticated
      | Some a \<Rightarrow> (case user_id a of None \<Rightarrow> Unauthenticated
          | Some u \<Rightarrow> if u = ref_id (fst (state_ref (ctx_headers c))) then Ok else PermissionDenied))"

definition state_id_is_user_id :: "('u, 't) authorizer_callable" where
  "state_id_is_user_id c = Inr (state_id_is_user_id_decision c)"

definition caller_id_auth :: "('u, 'a, 't) headers \<Rightarrow> auth option" where
  "caller_id_auth h = map_option (\<lambda>c. \<lparr>user_id = None,
     properties = [(SPACE_ID_KEY, cid_space c), (APPLICATION_ID_KEY, Some (cid_application c))]\<rparr>) (caller h)"

definition star :: pystr where "star = str ''*''"

definition is_from_permitted_applications_by_space :: "(pystr \<rightharpoonup> pystr set) \<Rightarrow> ('u, 't) authorizer_callable" where
  "is_from_permitted_applications_by_space permitted c =
     Inr (case ctx_auth c of None \<Rightarrow> Unauthenticated
      | Some a \<Rightarrow>
        (case (map_of (properties a) SPACE_ID_KEY, map_of (properties a) APPLICATION_ID_KEY) of
           (Some (Some space), Some (Some application)) \<Rightarrow>
             (if list_ex (\<lambda>s. case permitted s of None \<Rightarrow> False | Some apps \<Rightarrow> application \<in> apps \<or> star \<in> apps) [space, star]
              then Ok else PermissionDenied)
         | _ \<Rightarrow> Unauthenticated))"

subsection \<open>Where the program runs\<close>

datatype run_environment = RBT_DEV | RBT_SERVE | RBT_CLOUD

record environ =
  env_cloud_version :: "pystr option"
  env_rbt_dev :: "pystr option"
  env_rbt_serve :: "pystr option"

definition lower :: "pystr \<Rightarrow> pystr" where
  "lower s = map (\<lambda>c. if 65 \<le> c \<and> c \<le> 90 then c + 32 else c) s"

definition env_true :: "pystr option \<Rightarrow> bool" where
  "env_true v = (lower (case v of None \<Rightarrow> str ''false'' | Some s \<Rightarrow> s) = str ''true'')"

definition detect_run_environment :: "environ \<Rightarrow> run_environment option" where
  "detect_run_environment e =
     (if env_cloud_version e \<noteq> None then Some RBT_CLOUD
      else if env_true (env_rbt_dev e) then Some RBT_DEV
      else if env_true (env_rbt_serve e) then Some RBT_SERVE else None)"

definition on_cloud :: "environ \<Rightarrow> bool" where "on_cloud e = (detect_run_environment e = Some RBT_CLOUD)"
definition running_rbt_dev :: "environ \<Rightarrow> bool" where "running_rbt_dev e = (detect_run_environment e = Some RBT_DEV)"
definition running_rbt_serve :: "environ \<Rightarrow> bool" where "running_rbt_serve e = (detect_run_environment e = Some RBT_SERVE)"

subsection \<open>The default authorizer, and the check of a call\<close>

definition default_authorize :: "environ \<Rightarrow> bool \<Rightarrow> ('u, 't) authorizer_callable" where
  "default_authorize e is_user_type c =
     (if is_user_type then
        (let decision = state_id_is_user_id_decision c
         in if decision = Ok then Inr decision else if app_internal c then Inr Ok else Inr decision)
      else if app_internal c then Inr Ok
      else if on_cloud e \<or> running_rbt_serve e \<or> \<not> running_rbt_dev e then Inr PermissionDenied
      else Inr Ok)"

datatype verification = Verified auth | Not_verified | Verification_failed

datatype call_outcome = Admitted | Aborted_with decision | Raised call_error | Type_error

definition maybe_verify_token ::
    "('u, auth, 't) codec \<Rightarrow> pystr \<Rightarrow> pystr \<Rightarrow> (('u, auth, 't) headers \<Rightarrow> pystr option \<Rightarrow> verification) option \<Rightarrow>
     ('u, auth, 't) headers \<Rightarrow> call_outcome + auth option" where
  "maybe_verify_token C magic application verifier h =
     (let passed_on = (case caller h of None \<Rightarrow> None
          | Some c \<Rightarrow> if bearer_token h = None \<and> is_app_internal_call h application then cid_auth c else None)
      in case verifier of None \<Rightarrow> Inr passed_on
       | Some verify \<Rightarrow>
         if bearer_token h = Some magic then Inr None
         else (case copy_for_token_verification_and_authorization C h of Inl e \<Rightarrow> Inl (Raised e)
           | Inr h' \<Rightarrow> (case verify h' (bearer_token h) of
               Verification_failed \<Rightarrow> Inl (Aborted_with Unauthenticated)
             | Verified a \<Rightarrow> Inr (Some a)
             | Not_verified \<Rightarrow> Inr passed_on)))"

text \<open>
  What a state type is annotated with, and the framework's method that even the owning user may not call: the check comes
  before any authorizer.
\<close>

datatype auto_construct = AUTO_CONSTRUCT_UNSPECIFIED | AUTO_CONSTRUCT_PER_USER_ID

definition SET_CLAIMS_PROTO_METHOD :: pystr where "SET_CLAIMS_PROTO_METHOD = str ''SetClaims''"

definition last_dotted :: "pystr \<Rightarrow> pystr" where
  "last_dotted s = rev (takeWhile (\<lambda>c. c \<noteq> 46) (rev s))"

definition maybe_authorize ::
    "('u, auth, 't) codec \<Rightarrow> pystr \<Rightarrow> pystr \<Rightarrow> auto_construct \<Rightarrow> pystr \<Rightarrow> ('u, 't) authorizer_callable \<Rightarrow>
     ('u, auth, 't) headers \<Rightarrow> auth option \<Rightarrow> call_outcome" where
  "maybe_authorize C magic application auto method_name authorizer h auth =
     (if bearer_token h = Some magic then Admitted
      else (case copy_for_token_verification_and_authorization C h of Inl e \<Rightarrow> Raised e
        | Inr h' \<Rightarrow>
          (let context = \<lparr>ctx_headers = h', ctx_application = application, ctx_auth = auth\<rparr> in
           if auto \<noteq> AUTO_CONSTRUCT_UNSPECIFIED \<and> last_dotted method_name = SET_CLAIMS_PROTO_METHOD \<and> \<not> app_internal context
           then Aborted_with PermissionDenied
           else
             (case authorizer context of
                Inl e \<Rightarrow> Raised e
              | Inr Other_object \<Rightarrow> Type_error
              | Inr Ok \<Rightarrow> Admitted
              | Inr d \<Rightarrow> Aborted_with d))))"

definition check_call where
  "check_call C magic application auto method_name verifier authorizer h =
     (case maybe_verify_token C magic application verifier h of Inl out \<Rightarrow> out
      | Inr auth \<Rightarrow> maybe_authorize C magic application auto method_name authorizer h auth)"

text \<open>A servicer without an authorizer of its own gets the default one.\<close>

definition servicer_authorizer :: "environ \<Rightarrow> auto_construct \<Rightarrow> ('u, 't) authorizer_callable" where
  "servicer_authorizer e auto = default_authorize e (auto = AUTO_CONSTRUCT_PER_USER_ID)"

section \<open>Reading what was printed\<close>

lemma to_std_value: "b64_value (to_std c) = b64_value c" "to_std c = 61 \<longleftrightarrow> c = 61"
  by (auto simp: to_std_def b64_value_def)

lemma decode_to_std: "b64decode_from q l p (map to_std s) = b64decode_from q l p s"
proof (induction q l p s rule: b64decode_from.induct)
  case (2 q l p c cs)
  then show ?case by (cases "b64_value c"; cases "c = 61") (simp_all add: to_std_value)
qed simp

lemma std_char: "n < 64 \<Longrightarrow> b64_value (to_std (b64_char n)) \<noteq> None \<and> to_std (b64_char n) \<noteq> 45 \<and> to_std (b64_char n) \<noteq> 95 \<and> to_std (b64_char n) \<noteq> 61"
  using b64_char_clean[of n] by (auto simp: to_std_value(1)) (auto simp: to_std_def split: if_splits)

lemma std_pad: "to_std 61 = 61"
  by (simp add: to_std_def)

lemma b64_shape:
  "\<forall>b \<in> set bs. b < 256 \<Longrightarrow> \<exists>body n. b64encode_std bs = body @ replicate n 61 \<and> n \<le> 2 \<and> length (b64encode_std bs) mod 4 = 0 \<and>
     (\<forall>c \<in> set body. b64_value c \<noteq> None \<and> c \<noteq> 45 \<and> c \<noteq> 95 \<and> c \<noteq> 61)"
proof (induction bs rule: b64encode.induct)
  case 1
  show ?case by (rule exI[of _ "[]"], rule exI[of _ 0]) (simp add: b64encode_std_def)
next
  case (2 a)
  then have n: "a div 4 < 64" "a mod 4 * 16 < 64" by (auto intro: six_bits)
  show ?case
    by (rule exI[of _ "map to_std [b64_char (a div 4), b64_char (a mod 4 * 16)]"], rule exI[of _ 2])
      (use std_char[OF n(1)] std_char[OF n(2)] in \<open>simp add: b64encode_std_def std_pad numeral_2_eq_2\<close>)
next
  case (3 a b)
  then have n: "a div 4 < 64" "a mod 4 * 16 + b div 16 < 64" "b mod 16 * 4 < 64" by (auto intro: six_bits)
  show ?case
    by (rule exI[of _ "map to_std [b64_char (a div 4), b64_char (a mod 4 * 16 + b div 16), b64_char (b mod 16 * 4)]"], rule exI[of _ 1])
      (use std_char[OF n(1)] std_char[OF n(2)] std_char[OF n(3)] in \<open>simp add: b64encode_std_def std_pad\<close>)
next
  case (4 a b c rest)
  then obtain body n where ih: "b64encode_std rest = body @ replicate n 61" "n \<le> 2" "length (b64encode_std rest) mod 4 = 0"
    "\<forall>c \<in> set body. b64_value c \<noteq> None \<and> c \<noteq> 45 \<and> c \<noteq> 95 \<and> c \<noteq> 61" by auto
  have n: "a div 4 < 64" "a mod 4 * 16 + b div 16 < 64" "b mod 16 * 4 + c div 64 < 64" "c mod 64 < 64" using 4(2) by (auto intro: six_bits)
  let ?g = "map to_std [b64_char (a div 4), b64_char (a mod 4 * 16 + b div 16), b64_char (b mod 16 * 4 + c div 64), b64_char (c mod 64)]"
  have e: "b64encode_std (a # b # c # rest) = ?g @ b64encode_std rest" by (simp add: b64encode_std_def)
  have "\<forall>x \<in> set ?g. b64_value x \<noteq> None \<and> x \<noteq> 45 \<and> x \<noteq> 95 \<and> x \<noteq> 61" using std_char[OF n(1)] std_char[OF n(2)] std_char[OF n(3)] std_char[OF n(4)] by simp
  then have "\<forall>x \<in> set (?g @ body). b64_value x \<noteq> None \<and> x \<noteq> 45 \<and> x \<noteq> 95 \<and> x \<noteq> 61" using ih(4) by (metis Un_iff set_append)
  moreover have "length (b64encode_std (a # b # c # rest)) mod 4 = 0" using ih(3) by (simp add: e)
  ultimately show ?case using ih(1,2) e by (metis append.assoc)
qed

lemma b64_std_roundtrip:
  assumes "\<forall>b \<in> set bs. b < 256"
  shows "b64decode_validate (b64encode_std bs) = Some bs" "comma \<notin> set (b64encode_std bs)"
proof -
  obtain body n where b: "b64encode_std bs = body @ replicate n 61" "n \<le> 2" "length (b64encode_std bs) mod 4 = 0"
    "\<forall>c \<in> set body. b64_value c \<noteq> None \<and> c \<noteq> 45 \<and> c \<noteq> 95 \<and> c \<noteq> 61" using b64_shape[OF assms] by auto
  have "body \<noteq> [] \<Longrightarrow> last body \<noteq> 61" using b(4) last_in_set by blast
  then have "dropWhile (\<lambda>c. c = 61) (rev body) = rev body" by (auto simp: dropWhile_eq_self_iff hd_rev)
  then have body: "rev (dropWhile (\<lambda>c. c = 61) (rev (body @ replicate n 61))) = body" by (simp add: dropWhile_append)
  have "list_all (\<lambda>c. b64_value c \<noteq> None \<and> c \<noteq> 45 \<and> c \<noteq> 95) body" using b(4) by (simp add: list_all_iff)
  then have "b64decode_validate (b64encode_std bs) = b64decode (b64encode_std bs)"
    using b(2,3) unfolding b64decode_validate_def Let_def b(1) body by simp
  then show "b64decode_validate (b64encode_std bs) = Some bs" using b64decode_encode[OF assms] by (simp add: b64decode_def b64encode_std_def decode_to_std)
  have "b64_value comma = None" "comma \<noteq> 61" by (simp_all add: comma_def b64_value_def)
  then show "comma \<notin> set (b64encode_std bs)" using b(4) by (auto simp: b(1))
qed

text \<open>Valid identifiers have neither commas nor equals signs.\<close>

definition ident_char :: "nat \<Rightarrow> bool" where
  "ident_char c = (c = 45 \<or> 48 \<le> c \<and> c \<le> 57 \<or> 97 \<le> c \<and> c \<le> 122)"

lemma suffix_chars: "is_valid_id_suffix s \<Longrightarrow> c \<in> set s \<Longrightarrow> ident_char c"
  by (auto simp: is_valid_id_suffix_def list_all_iff ident_char_def)

lemma head_suffix_chars: "take 1 s = [x] \<Longrightarrow> ident_char x \<Longrightarrow> is_valid_id_suffix (drop 1 s) \<Longrightarrow> c \<in> set s \<Longrightarrow> ident_char c"
  by (cases s) (auto dest: suffix_chars)

lemma space_id_chars: "is_valid_space_id s \<Longrightarrow> c \<in> set s \<Longrightarrow> ident_char c"
  using head_suffix_chars[of s 115] by (auto simp: is_valid_space_id_def str_def ident_char_def)

lemma application_id_chars: "is_valid_application_id s \<Longrightarrow> c \<in> set s \<Longrightarrow> ident_char c"
proof (induction s rule: is_valid_application_id.induct)
  case (1 s)
  consider "take 1 s = str ''a''" "is_valid_id_suffix (drop 1 s)" | "s = CLOUD_APPLICATION_ID"
    | "is_facilitator_application_id s" "is_valid_application_id (take (length s - length facilitator) s)"
    using 1(2) by (auto simp: is_valid_application_id.simps[of s] split: if_splits)
  then show ?case
  proof cases
    case 1
    then show ?thesis using head_suffix_chars[of s 97] \<open>c \<in> set s\<close> by (simp add: str_def ident_char_def)
  next
    case 2
    then show ?thesis using \<open>c \<in> set s\<close> by (auto simp: CLOUD_APPLICATION_ID_def str_def ident_char_def)
  next
    case 3
    have "s = take (length s - length facilitator) s @ facilitator"
      using 3(1) append_take_drop_id[of "length s - length facilitator" s] by (simp only: is_facilitator_application_id_def)
    then have "c \<in> set (take (length s - length facilitator) s) \<or> c \<in> set facilitator"
      using 1(3) by (metis Un_iff set_append)
    then show ?thesis using "1.IH"[OF 3(1,2)] by (auto simp: facilitator_def str_def ident_char_def)
  qed
qed

lemma comma_free:
  "is_valid_space_id s \<Longrightarrow> comma \<notin> set s" "is_valid_application_id s \<Longrightarrow> comma \<notin> set s"
  using space_id_chars[of s comma] application_id_chars[of s comma] by (auto simp: comma_def ident_char_def)

definition caller_id_ok :: "('u, 'a, 't) codec \<Rightarrow> 'a caller_id \<Rightarrow> bool" where
  "caller_id_ok C c = (is_valid_application_id (cid_application c) \<and> (case cid_space c of None \<Rightarrow> True | Some s \<Rightarrow> is_valid_space_id s) \<and>
     (case cid_auth c of None \<Rightarrow> True | Some a \<Rightarrow> auth_survives C a))"

lemma key_chars:
  "comma \<notin> set SPACE_ID_KEY" "comma \<notin> set APPLICATION_ID_KEY" "comma \<notin> set AUTH_KEY"
  "equals \<notin> set SPACE_ID_KEY" "equals \<notin> set APPLICATION_ID_KEY" "equals \<notin> set AUTH_KEY" "comma \<noteq> equals"
  by (simp_all add: SPACE_ID_KEY_def APPLICATION_ID_KEY_def AUTH_KEY_def comma_def equals_def str_def)

lemma keys_distinct:
  "SPACE_ID_KEY \<noteq> APPLICATION_ID_KEY" "AUTH_KEY \<noteq> APPLICATION_ID_KEY" "SPACE_ID_KEY \<noteq> AUTH_KEY"
  "APPLICATION_ID_KEY \<noteq> SPACE_ID_KEY" "APPLICATION_ID_KEY \<noteq> AUTH_KEY" "AUTH_KEY \<noteq> SPACE_ID_KEY"
  by (simp_all add: SPACE_ID_KEY_def APPLICATION_ID_KEY_def AUTH_KEY_def str_def)

lemma caller_id_parts:
  assumes "caller_id_ok C c"
  shows "split comma (caller_id_str C c) =
    (case cid_space c of Some s \<Rightarrow> [SPACE_ID_KEY @ equals # s] | None \<Rightarrow> []) @ [APPLICATION_ID_KEY @ equals # cid_application c] @
    (case cid_auth c of Some a \<Rightarrow> [AUTH_KEY @ equals # b64encode_std (auth_bytes C a)] | None \<Rightarrow> [])"
proof -
  let ?app = "APPLICATION_ID_KEY @ equals # cid_application c"
  have app: "comma \<notin> set ?app" using assms comma_free(2) key_chars by (auto simp: caller_id_ok_def)
  have sp: "comma \<notin> set (SPACE_ID_KEY @ equals # s)" if "cid_space c = Some s" for s
    using assms that comma_free(1) key_chars by (auto simp: caller_id_ok_def)
  have au: "comma \<notin> set (AUTH_KEY @ equals # b64encode_std (auth_bytes C a))" if "cid_auth c = Some a" for a
    using assms that b64_std_roundtrip(2)[of "auth_bytes C a"] key_chars by (auto simp: caller_id_ok_def auth_survives_def)
  have tail: "split comma (?app @ (case cid_auth c of Some a \<Rightarrow> comma # AUTH_KEY @ equals # b64encode_std (auth_bytes C a) | None \<Rightarrow> [])) =
      ?app # (case cid_auth c of Some a \<Rightarrow> [AUTH_KEY @ equals # b64encode_std (auth_bytes C a)] | None \<Rightarrow> [])"
  proof (cases "cid_auth c")
    case None
    then show ?thesis by (simp only: option.case split_simple[OF app] append_Nil2)
  next
    case (Some a)
    show ?thesis by (simp only: Some option.case split_append split_simple[OF app] split_simple[OF au[OF Some]] append_Cons append_Nil)
  qed
  show ?thesis
  proof (cases "cid_space c")
    case None
    then show ?thesis using tail by (simp add: caller_id_str_def)
  next
    case (Some s)
    then show ?thesis using tail split_append[of comma "SPACE_ID_KEY @ equals # s"] split_simple[OF sp[OF Some]] by (simp add: caller_id_str_def)
  qed
qed

lemma caller_id_roundtrip:
  assumes "caller_id_ok C c"
  shows "caller_id_parse C (caller_id_str C c) = Inr c"
proof -
  have s1: "split1 equals (k @ equals # v) = [k, v]" if "equals \<notin> set k" for k v using that by (rule split1_append)
  have au: "b64decode_validate (b64encode_std (auth_bytes C a)) = Some (auth_bytes C a)" "auth_parse C (auth_bytes C a) = Some a"
    if "cid_auth c = Some a" for a
    using assms that b64_std_roundtrip(1)[of "auth_bytes C a"] by (auto simp: caller_id_ok_def auth_survives_def)
  have "caller_id_parse C (caller_id_str C c) = Inr \<lparr>cid_application = cid_application c, cid_space = cid_space c, cid_auth = cid_auth c\<rparr>"
    using assms
    by (cases "cid_space c"; cases "cid_auth c")
      (simp_all add: caller_id_parse_def caller_id_parts[OF assms] s1 key_chars keys_distinct au orValueError_def caller_id_ok_def
        ensure_valid_space_id_def ensure_valid_application_id_def)
  then show ?thesis by simp
qed

section \<open>Receiving what was sent\<close>

definition flatten :: "(pystr \<times> pystr option) list \<Rightarrow> metadata" where
  "flatten t = concat (map (\<lambda>(n, v). maybe_add n v) t)"

lemma flatten_lookup:
  "distinct (map fst t) \<Longrightarrow> map_of (rev (flatten t)) n = (case map_of t n of None \<Rightarrow> None | Some v \<Rightarrow> v)"
proof (induction t)
  case (Cons e t)
  obtain m v where e: "e = (m, v)" by (cases e)
  have "rev (flatten (e # t)) = rev (flatten t) @ maybe_add m v" by (cases v) (simp_all add: flatten_def e maybe_add_def)
  moreover have "map_of t n = None" if "n = m" using Cons.prems that by (simp add: e map_of_eq_None_iff)
  ultimately show ?case using Cons by (cases v) (auto simp: e maybe_add_def map_add_def split: option.splits)
qed (simp add: flatten_def)

definition header_table :: "('u, 'a, 't) codec \<Rightarrow> ('u, 'a, 't) headers \<Rightarrow> (pystr \<times> pystr option) list" where
  "header_table C h =
     [(STATE_REF_HEADER, Some (fst (state_ref h))), (APPLICATION_ID_HEADER, application_id h), (SERVER_ID_HEADER, server_id h),
      (AUTHORIZATION_HEADER, map_option (\<lambda>b. str ''Bearer '' @ b) (bearer_token h)),
      (TRANSACTION_IDS_HEADER, map_option (\<lambda>ids. list_dumps C (map (uuid_str C) ids)) (transaction_ids h)),
      (TRANSACTION_COORDINATOR_STATE_TYPE_HEADER, if transaction_ids h = None then None else transaction_coordinator_state_type h),
      (TRANSACTION_COORDINATOR_STATE_REF_HEADER, if transaction_ids h = None then None else transaction_coordinator_state_ref h),
      (TRANSACTION_RETRY_AGE_HEADER, map_option (uuid_str C) (transaction_retry_age h)),
      (WORKFLOW_ID_HEADER, map_option (uuid_str C) (workflow_id h)),
      (WORKFLOW_ITERATION_HEADER, map_option (int_str C) (workflow_iteration h)),
      (IDEMPOTENCY_KEY_HEADER, map_option (uuid_str C) (idempotency_key h)),
      (TRACEPARENT_HEADER, traceparent h), (TRACESTATE_HEADER, tracestate h),
      (CALLER_ID_HEADER, map_option (caller_id_str C) (sent_caller_id h)),
      (INTERNAL_CALL_HEADER, if internal_call h then Some (str ''true'') else None),
      (TRANSACTION_COORDINATOR_READ_ONLY_AWARE_HEADER, if coordinator_read_only_aware h then Some (str ''true'') else None),
      (TASK_SCHEDULE, None)]"

text \<open>What a caller has to see to, and what the callee then has.\<close>

definition sendable :: "('u, 'a, 't) codec \<Rightarrow> ('u, 'a, 't) headers \<Rightarrow> bool" where
  "sendable C h = (is_state_ref (fst (state_ref h)) = Inr True \<and>
     (case bearer_token h of None \<Rightarrow> True | Some b \<Rightarrow> validate_ascii b MAX_BEARER_TOKEN_LENGTH 0 [10] Value_error = Inr ()) \<and>
     (case caller h of None \<Rightarrow> True | Some c \<Rightarrow> caller_id_ok C c) \<and>
     (case transaction_ids h of None \<Rightarrow> True
      | Some ids \<Rightarrow> ids \<noteq> [] \<and> transaction_coordinator_state_type h \<noteq> None \<and> transaction_coordinator_state_ref h \<noteq> None))"

definition received :: "('u, 'a, 't) codec \<Rightarrow> pystr \<Rightarrow> ('u, 'a, 't) headers \<Rightarrow> ('u, 'a, 't) headers" where
  "received C application h = h\<lparr>application_id := Some application, state_ref := (fst (state_ref h), None),
     transaction_coordinator_state_type := (if transaction_ids h = None then None else transaction_coordinator_state_type h),
     transaction_coordinator_state_ref := (if transaction_ids h = None then None else transaction_coordinator_state_ref h),
     task_schedule := None, caller := map_option (\<lambda>c. c\<lparr>cid_auth := (if bearer_token h = None then cid_auth c else None)\<rparr>) (caller h),
     traceparent := (if traceparent h = None \<and> tracestate h = None then injected_traceparent C else traceparent h),
     tracestate := (if traceparent h = None \<and> tracestate h = None then injected_tracestate C else tracestate h)\<rparr>"

lemma sent_caller_id_eq: "sent_caller_id h = map_option (\<lambda>c. c\<lparr>cid_auth := (if bearer_token h = None then cid_auth c else None)\<rparr>) (caller h)"
  by (cases "caller h"; cases "cid_auth (the (caller h))") (auto simp: sent_caller_id_def)

lemmas header_names = APPLICATION_ID_HEADER_def STATE_REF_HEADER_def SERVER_ID_HEADER_def WORKFLOW_ID_HEADER_def
  WORKFLOW_ITERATION_HEADER_def TRANSACTION_IDS_HEADER_def TRANSACTION_COORDINATOR_STATE_TYPE_HEADER_def
  TRANSACTION_COORDINATOR_STATE_REF_HEADER_def TRANSACTION_COORDINATOR_READ_ONLY_AWARE_HEADER_def
  TRANSACTION_RETRY_AGE_HEADER_def IDEMPOTENCY_KEY_HEADER_def CALLER_ID_HEADER_def AUTHORIZATION_HEADER_def
  TASK_SCHEDULE_def TRACEPARENT_HEADER_def TRACESTATE_HEADER_def INTERNAL_CALL_HEADER_def

lemma header_table_distinct: "distinct (map fst (header_table C h))"
  by (simp add: header_table_def header_names str_def)

lemma header_value:
  assumes "(n, v) \<in> set (header_table C h)"
  shows "map_of (rev (flatten (header_table C h))) n = v"
  using assms map_of_is_SomeI[OF header_table_distinct assms] by (simp add: flatten_lookup[OF header_table_distinct])

lemma to_metadata_flatten:
  assumes "sendable C h"
  shows "headers_to_metadata C h = Inr (flatten (header_table C h))"
  using assms by (cases "transaction_ids h")
    (auto simp: headers_to_metadata_def header_table_def flatten_def maybe_add_transaction_headers_def sendable_def maybe_add_def)

lemma parse_ids_ok: "codec_ok C \<Longrightarrow> parse_ids C (map (uuid_str C) ids) = Inr ids"
  by (induction ids) (simp_all add: codec_ok_def orValueError_def)

lemma extract_value: "raw n = v \<Longrightarrow> extract_maybe raw n required conv =
    (case v of Some s \<Rightarrow> rbind (conv s) (\<lambda>x. Inr (Some x)) | None \<Rightarrow> if required then Inl Value_error else Inr None)"
  by (simp add: extract_maybe_def)

lemma extract_printed:
  assumes "raw n = map_option f x" "\<And>y. x = Some y \<Longrightarrow> conv (f y) = Inr y" "required \<Longrightarrow> x \<noteq> None"
  shows "extract_maybe raw n required conv = Inr x"
  using assms by (cases x) (auto simp: extract_maybe_def)

lemma extract_plain: "raw n = x \<Longrightarrow> (required \<Longrightarrow> x \<noteq> None) \<Longrightarrow> extract_maybe raw n required Inr = Inr x"
  by (cases x) (auto simp: extract_maybe_def)

lemma from_metadata_fields:
  assumes "codec_ok C" "sendable C h"
  defines "raw \<equiv> map_of (rev (flatten (header_table C h)))"
  shows "extract_maybe raw SERVER_ID_HEADER False Inr = Inr (server_id h)"
    "extract_maybe raw STATE_REF_HEADER True Inr = Inr (Some (fst (state_ref h)))"
    "extract_maybe raw WORKFLOW_ID_HEADER False (\<lambda>v. orValueError (uuid_parse C v)) = Inr (workflow_id h)"
    "extract_maybe raw WORKFLOW_ITERATION_HEADER False (\<lambda>v. orValueError (int_parse C v)) = Inr (workflow_iteration h)"
    "extract_maybe raw TRANSACTION_IDS_HEADER False (\<lambda>v. rbind (orValueError (list_loads C v)) (parse_ids C)) = Inr (transaction_ids h)"
    "extract_maybe raw TRANSACTION_COORDINATOR_STATE_TYPE_HEADER (transaction_ids h \<noteq> None) Inr =
       Inr (if transaction_ids h = None then None else transaction_coordinator_state_type h)"
    "extract_maybe raw TRANSACTION_COORDINATOR_STATE_REF_HEADER (transaction_ids h \<noteq> None) Inr =
       Inr (if transaction_ids h = None then None else transaction_coordinator_state_ref h)"
    "extract_maybe raw TRANSACTION_RETRY_AGE_HEADER False (\<lambda>v. orValueError (uuid_parse C v)) = Inr (transaction_retry_age h)"
    "extract_maybe raw IDEMPOTENCY_KEY_HEADER False (\<lambda>v. orValueError (uuid_parse C v)) = Inr (idempotency_key h)"
    "extract_maybe raw AUTHORIZATION_HEADER False (\<lambda>v. Inr (removeprefix (str ''Bearer '') v)) = Inr (bearer_token h)"
    "extract_maybe raw TASK_SCHEDULE False conv = Inr None"
    "extract_maybe raw CALLER_ID_HEADER False (caller_id_parse C) = Inr (sent_caller_id h)"
    "extract_maybe raw TRACEPARENT_HEADER False Inr = Inr (traceparent h)"
    "extract_maybe raw TRACESTATE_HEADER False Inr = Inr (tracestate h)"
    "extract_maybe raw INTERNAL_CALL_HEADER False (\<lambda>v. Inr (v = str ''true'')) = Inr (if internal_call h then Some True else None)"
    "raw TRANSACTION_COORDINATOR_READ_ONLY_AWARE_HEADER \<noteq> None \<longleftrightarrow> coordinator_read_only_aware h"
proof -
  have raw: "raw n = v" if "(n, v) \<in> set (header_table C h)" for n v unfolding raw_def using that by (rule header_value)
  note mem = header_table_def list.set insert_iff
  have u: "orValueError (uuid_parse C (uuid_str C u)) = Inr u" "orValueError (int_parse C (int_str C n)) = Inr n"
    "rbind (orValueError (list_loads C (list_dumps C (map (uuid_str C) ids)))) (parse_ids C) = Inr ids" for u n ids
    using assms(1) parse_ids_ok[OF assms(1)] by (simp_all add: codec_ok_def orValueError_def)
  have cid: "caller_id_parse C (caller_id_str C c) = Inr c" if "sent_caller_id h = Some c" for c
    using that assms by (intro caller_id_roundtrip) (auto simp: sent_caller_id_def sendable_def caller_id_ok_def split: if_splits)
  have ro: "raw TRANSACTION_COORDINATOR_READ_ONLY_AWARE_HEADER = (if coordinator_read_only_aware h then Some (str ''true'') else None)"
    by (rule raw) (simp add: mem)
  have ic: "raw INTERNAL_CALL_HEADER = (if internal_call h then Some (str ''true'') else None)" by (rule raw) (simp add: mem)
  show "extract_maybe raw SERVER_ID_HEADER False Inr = Inr (server_id h)" by (rule extract_plain) (simp_all add: mem raw)
  show "extract_maybe raw STATE_REF_HEADER True Inr = Inr (Some (fst (state_ref h)))" by (rule extract_plain) (simp_all add: mem raw)
  show "extract_maybe raw WORKFLOW_ID_HEADER False (\<lambda>v. orValueError (uuid_parse C v)) = Inr (workflow_id h)"
    by (rule extract_printed[where f = "uuid_str C"]) (simp_all add: mem raw u)
  show "extract_maybe raw WORKFLOW_ITERATION_HEADER False (\<lambda>v. orValueError (int_parse C v)) = Inr (workflow_iteration h)"
    by (rule extract_printed[where f = "int_str C"]) (simp_all add: mem raw u)
  show "extract_maybe raw TRANSACTION_IDS_HEADER False (\<lambda>v. rbind (orValueError (list_loads C v)) (parse_ids C)) = Inr (transaction_ids h)"
    by (rule extract_printed[where f = "\<lambda>ids. list_dumps C (map (uuid_str C) ids)"]) (simp_all add: mem raw u)
  show "extract_maybe raw TRANSACTION_COORDINATOR_STATE_TYPE_HEADER (transaction_ids h \<noteq> None) Inr =
       Inr (if transaction_ids h = None then None else transaction_coordinator_state_type h)"
    by (rule extract_plain, rule raw) (use assms(2) in \<open>auto simp: mem sendable_def split: option.splits\<close>)
  show "extract_maybe raw TRANSACTION_COORDINATOR_STATE_REF_HEADER (transaction_ids h \<noteq> None) Inr =
       Inr (if transaction_ids h = None then None else transaction_coordinator_state_ref h)"
    by (rule extract_plain, rule raw) (use assms(2) in \<open>auto simp: mem sendable_def split: option.splits\<close>)
  show "extract_maybe raw TRANSACTION_RETRY_AGE_HEADER False (\<lambda>v. orValueError (uuid_parse C v)) = Inr (transaction_retry_age h)"
    by (rule extract_printed[where f = "uuid_str C"]) (simp_all add: mem raw u)
  show "extract_maybe raw IDEMPOTENCY_KEY_HEADER False (\<lambda>v. orValueError (uuid_parse C v)) = Inr (idempotency_key h)"
    by (rule extract_printed[where f = "uuid_str C"]) (simp_all add: mem raw u)
  show "extract_maybe raw AUTHORIZATION_HEADER False (\<lambda>v. Inr (removeprefix (str ''Bearer '') v)) = Inr (bearer_token h)"
    by (rule extract_printed[where f = "\<lambda>b. str ''Bearer '' @ b"]) (simp_all add: mem raw removeprefix_def)
  show "extract_maybe raw TASK_SCHEDULE False conv = Inr None"
    using raw[of TASK_SCHEDULE None] by (simp add: mem extract_maybe_def)
  show "extract_maybe raw CALLER_ID_HEADER False (caller_id_parse C) = Inr (sent_caller_id h)"
    by (rule extract_printed[where f = "caller_id_str C"]) (simp_all add: mem raw cid)
  show "extract_maybe raw TRACEPARENT_HEADER False Inr = Inr (traceparent h)" by (rule extract_plain) (simp_all add: mem raw)
  show "extract_maybe raw TRACESTATE_HEADER False Inr = Inr (tracestate h)" by (rule extract_plain) (simp_all add: mem raw)
  show "extract_maybe raw INTERNAL_CALL_HEADER False (\<lambda>v. Inr (v = str ''true'')) = Inr (if internal_call h then Some True else None)"
    by (simp add: ic extract_maybe_def)
  show "raw TRANSACTION_COORDINATOR_READ_ONLY_AWARE_HEADER \<noteq> None \<longleftrightarrow> coordinator_read_only_aware h" by (simp add: ro)
qed

lemma received_headers:
  assumes "codec_ok C" "sendable C h"
  shows "rbind (headers_to_metadata C h) (headers_from_metadata C sha1 (Some application)) = Inr (received C application h)"
proof -
  have ref: "from_maybe_readable sha1 (fst (state_ref h)) = Inr (fst (state_ref h), None)"
    using assms(2) by (simp add: from_maybe_readable_def sendable_def)
  have bt: "(case bearer_token h of None \<Rightarrow> Inr () | Some b \<Rightarrow> validate_ascii b MAX_BEARER_TOKEN_LENGTH 0 [10] Value_error) = Inr ()"
    using assms(2) by (auto simp: sendable_def split: option.splits)
  show ?thesis unfolding to_metadata_flatten[OF assms(2)] rbind_simps headers_from_metadata_def Let_def
    by (simp add: from_metadata_fields[OF assms, simplified] from_metadata_fields[OF assms] ref post_init_def bt received_def sent_caller_id_eq)
qed

text \<open>A codec for examples, over texts as UUIDs, with lists as their texts preceded by lengths.\<close>

function loads0 :: "pystr \<Rightarrow> pystr list option" where
  "loads0 [] = Some []"
| "loads0 (n # s) = (if n \<le> length s then map_option (Cons (take n s)) (loads0 (drop n s)) else None)"
  by pat_completeness auto
termination
  by (relation "measure length") auto

definition codec0 :: "(pystr, auth, unit) codec" where
  "codec0 = \<lparr>uuid_str = (\<lambda>u. u), uuid_parse = Some, list_dumps = (\<lambda>l. concat (map (\<lambda>s. length s # s) l)), list_loads = loads0,
     int_str = (\<lambda>n. if n < 0 then [1, nat (- n)] else [0, nat n]),
     int_parse = (\<lambda>s. case s of [0, m] \<Rightarrow> Some (int m) | [Suc 0, m] \<Rightarrow> Some (- int m) | _ \<Rightarrow> None),
     auth_bytes = (\<lambda>a. []), auth_parse = (\<lambda>_. None),
     schedule_parse = (\<lambda>_. Some ()), schedule_now = (), injected_traceparent = None, injected_tracestate = None\<rparr>"

lemma codec0_ok: "codec_ok codec0"
proof -
  have "loads0 (concat (map (\<lambda>s. length s # s) l)) = Some l" for l by (induction l) simp_all
  then show ?thesis by (simp add: codec_ok_def codec0_def)
qed

definition headers0 :: "(pystr, auth, unit) headers" where
  "headers0 = \<lparr>application_id = None, state_ref = (replicate 14 65 @ str '':s'', None), workflow_id = None, workflow_iteration = Some 3,
     transaction_ids = Some [[1], [2]], transaction_coordinator_state_type = Some (str ''T''), transaction_coordinator_state_ref = Some (str ''r''),
     transaction_retry_age = None, idempotency_key = Some [9], bearer_token = Some (str ''tok''), task_schedule = Some (), server_id = None,
     caller = Some \<lparr>cid_application = CLOUD_APPLICATION_ID, cid_space = None, cid_auth = None\<rparr>, traceparent = None, tracestate = None,
     internal_call = True, coordinator_read_only_aware = True\<rparr>"

lemma headers0_sendable: "sendable codec0 headers0"
proof -
  have "is_state_ref (replicate 14 65 @ str '':s'') = Inr True" by code_simp
  moreover have "validate_ascii (str ''tok'') MAX_BEARER_TOKEN_LENGTH 0 [10] Value_error = Inr ()" by code_simp
  moreover have "is_valid_application_id CLOUD_APPLICATION_ID" by (simp add: is_valid_application_id.simps)
  ultimately show ?thesis by (simp add: sendable_def headers0_def caller_id_ok_def)
qed

text \<open>
  (C25) Headers survive the wire: what a callee reads from the metadata of a call is what the caller meant, with the application
  it runs in as the application, without the \<open>Auth\<close> in the caller ID when there is a bearer token, without the coordinator when
  there is no transaction, without a schedule, and with the callee's own tracing context when none was sent.
\<close>

theorem headers_roundtrip:
  assumes "codec_ok C" "sendable C h"
  shows "rbind (headers_to_metadata C h) (headers_from_metadata C sha1 (Some application)) = Inr (received C application h)"
  using assms by (rule received_headers)

theorem headers_roundtrip_witness:
  "\<exists>h. rbind (headers_to_metadata codec0 headers0) (headers_from_metadata codec0 (\<lambda>_. []) (Some (str ''cloud''))) = Inr h \<and>
     transaction_ids h = Some [[1], [2]] \<and> idempotency_key h = Some [9] \<and> task_schedule h = None \<and> workflow_iteration h = Some 3"
  using headers_roundtrip[OF codec0_ok headers0_sendable, of "\<lambda>_. []" "str ''cloud''"] by (simp add: received_def headers0_def)

section \<open>Decisions\<close>

lemma app_internal_received: "is_app_internal_call (received C a h) application = is_app_internal_call h application"
  by (auto simp: is_app_internal_call_def received_def split: option.splits)

lemma copy_ok:
  assumes "sendable C h"
  shows "\<exists>hc. copy_for_token_verification_and_authorization C (received C a h) = Inr hc \<and> caller hc = caller (received C a h) \<and>
    state_ref hc = (fst (state_ref h), None) \<and> transaction_ids hc = None \<and> idempotency_key hc = None"
  using assms by (auto simp: copy_for_token_verification_and_authorization_def post_init_def received_def sendable_def split: option.splits)

text \<open>
  (C24) Who is let in by default: outside of \<open>rbt dev\<close> and with a token verifier, a call without the magic token that arrives over the wire is
  admitted by the default authorizer just if its token is not refused and it comes from within the application,
  or the state is that of a user, the token is verified as that user's and the method is not \<open>SetClaims\<close>.  The token verifier and the authorizer
  see headers without the transaction and the idempotency key.
\<close>

theorem default_authorizer_admits:
  assumes "codec_ok C" "sendable C h" "\<not> running_rbt_dev e" "bearer_token h \<noteq> Some magic"
    "rbind (headers_to_metadata C h) (headers_from_metadata C sha1 (Some application)) = Inr h'"
  shows "\<exists>hc. copy_for_token_verification_and_authorization C h' = Inr hc \<and> transaction_ids hc = None \<and> idempotency_key hc = None \<and>
    (check_call C magic application auto method_name (Some verify) (servicer_authorizer e auto) h' = Admitted \<longleftrightarrow>
      verify hc (bearer_token h) \<noteq> Verification_failed \<and>
      (is_app_internal_call h application \<or>
       auto = AUTO_CONSTRUCT_PER_USER_ID \<and> last_dotted method_name \<noteq> SET_CLAIMS_PROTO_METHOD \<and>
         (\<exists>a. verify hc (bearer_token h) = Verified a \<and> user_id a = Some (ref_id (fst (state_ref h))))))"
proof -
  have h': "h' = received C application h" using assms(5) received_headers[OF assms(1,2)] by simp
  obtain hc where hc: "copy_for_token_verification_and_authorization C h' = Inr hc" "caller hc = caller h'"
    "state_ref hc = (fst (state_ref h), None)" "transaction_ids hc = None" "idempotency_key hc = None"
    using copy_ok[OF assms(2), of application] h' by auto
  have b: "bearer_token h' = bearer_token h" by (simp add: h' received_def)
  have i: "is_app_internal_call h' application = is_app_internal_call h application" by (simp add: h' app_internal_received)
  have ic: "is_app_internal_call hc application = is_app_internal_call h application"
    using hc(2) i by (simp add: is_app_internal_call_def)
  have "check_call C magic application auto method_name (Some verify) (servicer_authorizer e auto) h' = Admitted \<longleftrightarrow>
      verify hc (bearer_token h) \<noteq> Verification_failed \<and>
      (is_app_internal_call h application \<or>
       auto = AUTO_CONSTRUCT_PER_USER_ID \<and> last_dotted method_name \<noteq> SET_CLAIMS_PROTO_METHOD \<and>
         (\<exists>a. verify hc (bearer_token h) = Verified a \<and> user_id a = Some (ref_id (fst (state_ref h)))))"
    using assms(3,4) hc(3) b i ic
    by (cases "verify hc (bearer_token h)"; cases "caller h'"; cases auto)
      (auto simp: check_call_def servicer_authorizer_def maybe_verify_token_def maybe_authorize_def hc(1) default_authorize_def state_id_is_user_id_decision_def
        app_internal_def Let_def is_app_internal_call_def[of h'] split: option.splits if_splits)
  then show ?thesis using hc by blast
qed

theorem default_authorizer_admits_witness:
  "\<exists>h' hc. headers_from_metadata codec0 (\<lambda>_. []) (Some CLOUD_APPLICATION_ID) (flatten (header_table codec0 headers0)) = Inr h' \<and>
     copy_for_token_verification_and_authorization codec0 h' = Inr hc \<and> idempotency_key hc = None \<and>
     check_call codec0 [1] CLOUD_APPLICATION_ID AUTO_CONSTRUCT_PER_USER_ID (str ''User.SetClaims'') (Some (\<lambda>_ _. Not_verified))
       (servicer_authorizer \<lparr>env_cloud_version = None, env_rbt_dev = None, env_rbt_serve = None\<rparr> AUTO_CONSTRUCT_PER_USER_ID) h' = Admitted"
proof -
  let ?e = "\<lparr>env_cloud_version = None, env_rbt_dev = None, env_rbt_serve = None\<rparr>"
  have m: "rbind (headers_to_metadata codec0 headers0) (headers_from_metadata codec0 (\<lambda>_. []) (Some CLOUD_APPLICATION_ID)) =
      Inr (received codec0 CLOUD_APPLICATION_ID headers0)" by (rule received_headers[OF codec0_ok headers0_sendable])
  have e: "\<not> running_rbt_dev ?e" by (simp add: running_rbt_dev_def detect_run_environment_def env_true_def lower_def str_def)
  have b: "bearer_token headers0 \<noteq> Some [1]" by (simp add: headers0_def str_def)
  have i: "is_app_internal_call headers0 CLOUD_APPLICATION_ID" by (simp add: is_app_internal_call_def headers0_def)
  show ?thesis
    using default_authorizer_admits[OF codec0_ok headers0_sendable e b m, of AUTO_CONSTRUCT_PER_USER_ID "str ''User.SetClaims''" "\<lambda>_ _. Not_verified"] i m
    by (auto simp: to_metadata_flatten[OF headers0_sendable])
qed

text \<open>
  Rules combine decisions: where all callables decide, \<open>allow_if(all=...)\<close> decides as the first that does not
  answer \<open>Ok\<close>, whatever the later ones, and \<open>Ok\<close> if there is none; \<open>allow_if(any=...)\<close> answers \<open>Ok\<close> if one of them does, otherwise
  \<open>PermissionDenied\<close> if one of them does, and otherwise \<open>Unauthenticated\<close>.  Empty \<open>all\<close> is refused.
\<close>

theorem allow_if_combines:
  assumes "\<forall>c \<in> set cs. c ctx \<in> {Inr Ok, Inr Unauthenticated, Inr PermissionDenied}" "cs \<noteq> []"
  shows "(\<exists>r. allow_if (Some cs) None = Inr r \<and>
      rule_execute r ctx = (case find (\<lambda>c. c ctx \<noteq> Inr Ok) cs of None \<Rightarrow> Inr Ok | Some c \<Rightarrow> c ctx)) \<and>
    (\<exists>r. allow_if None (Some cs) = Inr r \<and>
      rule_execute r ctx = (if \<exists>c \<in> set cs. c ctx = Inr Ok then Inr Ok
        else if \<exists>c \<in> set cs. c ctx = Inr PermissionDenied then Inr PermissionDenied else Inr Unauthenticated)) \<and>
    allow_if (Some []) None = Inl Assertion_error \<and> allow_if (Some cs) (Some ds) = Inl Assertion_error"
proof -
  have a: "allow_if_loop cs True False ctx = (case find (\<lambda>c. c ctx \<noteq> Inr Ok) cs of None \<Rightarrow> Inr Ok | Some c \<Rightarrow> c ctx)"
    using assms(1) by (induction cs) (auto split: option.splits)
  have b: "allow_if_loop cs False denied ctx = (if \<exists>c \<in> set cs. c ctx = Inr Ok then Inr Ok
      else if denied \<or> (\<exists>c \<in> set cs. c ctx = Inr PermissionDenied) then Inr PermissionDenied else Inr Unauthenticated)" for denied
    using assms(1) by (induction cs arbitrary: denied) auto
  show ?thesis using assms(2) a b[of False] by (cases cs) (auto simp: allow_if_def)
qed

theorem allow_if_combines_witness:
  "\<exists>r. allow_if None (Some [\<lambda>_. Inr PermissionDenied, \<lambda>_. Inr Unauthenticated]) = Inr r \<and>
     rule_execute r \<lparr>ctx_headers = headers0, ctx_application = [], ctx_auth = None\<rparr> = Inr PermissionDenied"
  using allow_if_combines[of "[\<lambda>_. Inr PermissionDenied, \<lambda>_. Inr Unauthenticated]" "\<lparr>ctx_headers = headers0, ctx_application = [], ctx_auth = None\<rparr>" "[]"]
  by auto

text \<open>
  (C26) \<open>allow_if(all=...)\<close> lets a call through when callables return something that is not a decision, such as \<open>False\<close> or
  nothing at all, and so does the check of the call, but for a \<open>SetClaims\<close> from outside the application (without the magic
  token) on a state type that is constructed automatically, which is denied whatever the authorizer.
\<close>

theorem undecided_callables_admit:
  assumes "\<forall>c \<in> set cs. \<forall>x. c x \<in> {Inr Ok, Inr Other_object}" "cs \<noteq> []" "sendable C h"
  shows "\<exists>r. allow_if (Some cs) None = Inr r \<and>
    maybe_authorize C magic application auto method_name (rule_execute r) (received C application h) auth =
      (if bearer_token h \<noteq> Some magic \<and> auto \<noteq> AUTO_CONSTRUCT_UNSPECIFIED \<and> last_dotted method_name = SET_CLAIMS_PROTO_METHOD \<and>
           \<not> is_app_internal_call h application
       then Aborted_with PermissionDenied else Admitted)"
proof -
  have l: "allow_if_loop cs True False x = Inr Ok" for x using assms(1)
  proof (induction cs)
    case (Cons c cs)
    then have ih: "allow_if_loop cs True False x = Inr Ok" and "c x = Inr Ok \<or> c x = Inr Other_object" by simp_all
    from this(2) show ?case by (elim disjE) (simp_all add: ih)
  qed simp
  obtain hc where hc: "copy_for_token_verification_and_authorization C (received C application h) = Inr hc"
    "caller hc = caller (received C application h)" using copy_ok[OF assms(3), of application] by auto
  have "is_app_internal_call hc application = is_app_internal_call h application"
    using hc(2) app_internal_received[of C application h application] by (simp add: is_app_internal_call_def)
  moreover have "bearer_token (received C application h) = bearer_token h" by (simp add: received_def)
  ultimately have "maybe_authorize C magic application auto method_name (rule_execute (AllowIfRule cs True)) (received C application h) auth =
      (if bearer_token h \<noteq> Some magic \<and> auto \<noteq> AUTO_CONSTRUCT_UNSPECIFIED \<and> last_dotted method_name = SET_CLAIMS_PROTO_METHOD \<and>
           \<not> is_app_internal_call h application
       then Aborted_with PermissionDenied else Admitted)"
    by (simp add: maybe_authorize_def hc(1) app_internal_def l Let_def)
  moreover have "allow_if (Some cs) None = Inr (AllowIfRule cs True)" using assms(2) by (cases cs) (simp_all add: allow_if_def)
  ultimately show ?thesis by blast
qed

theorem undecided_callables_admit_witness:
  "\<exists>r. allow_if (Some [\<lambda>_. Inr Other_object]) None = Inr r \<and>
     maybe_authorize codec0 [1] [2] AUTO_CONSTRUCT_UNSPECIFIED (str ''Account.Withdraw'') (rule_execute r) (received codec0 [2] headers0) None = Admitted"
  using undecided_callables_admit[OF _ _ headers0_sendable,
      of "[\<lambda>_. Inr Other_object]" "[1]" "[2]" AUTO_CONSTRUCT_UNSPECIFIED "str ''Account.Withdraw''" None]
  by simp

end
