(* ===== verification/Spec2Isabelle.thy ===== *)
theory Spec2Isabelle
  imports Prelude Txn_Lock Ordered_Map_Claims Idempotency_Claims Nested_Claims Uuid7 Two_Phase_Claims Concurrently Mutations Tasks Planner Memoize Queue Calls
begin

text \<open>
  A verification development for the core of reboot, a framework for durable, transactional
  microservices in Python (\<open>src/reboot\<close>).

  \<^bold>\<open>The program.\<close>  An application is a set of states, each with a type and an id.  A state reference
  (\<open>aio/types.py\<close>) names a state and routes calls to the server that owns it.  On that server the state
  manager (\<open>aio/state_managers.py\<close>) serialises access to the state with a lock, keeps the parts that
  transactions have in the state, and talks to a database next to it.  A transaction spans states on
  several servers; calls carry its participants back to the caller in metadata (\<open>aio/contexts.py\<close>), and
  the server of the state on which it began coordinates a two-phase commit.  Transactions nest.  Every
  mutation can carry an idempotency key (\<open>aio/idempotency.py\<close>), by which the state manager recognises a
  mutation that was made already.  Identifiers of transactions are time-ordered (\<open>uuidv7.py\<close>), which lets a
  participant tell whether its server has restarted since.  Fan-out of calls is bounded
  (\<open>aio/concurrently.py\<close>).  The ordered map (\<open>std/collections/ordered_map/v1/ordered_map.py\<close>) is a B+-tree
  whose nodes are states of their own, an application shipped with the framework; the sorted map
  (\<open>std/collections/v1/sorted_map.py\<close>) keeps its entries as states colocated with it.  Workflows make calls
  through memoised blocks (\<open>aio/memoize.py\<close>).  A controller plans which server has which states
  (\<open>controller/plan_makers.py\<close>, \<open>controller/placement_planner.py\<close>), and clients follow its plans
  (\<open>aio/placement.py\<close>).

  \<^bold>\<open>The theories.\<close>

  \<^item> \<open>Prelude\<close>: code that may raise as a sum (\<open>Inl\<close> the exception), reachability, the locales
    \<open>invariant_system\<close> and \<open>refinement_system\<close> through which every component's runs are reasoned about,
    Python strings and the module \<open>bisect\<close>.

  \<^item> \<open>Txn_Lock\<close>: the class \<open>Lock\<close> and \<open>_abort_if_presumed_deadlock\<close>.  Callers are coroutines that step
    between the \<open>await\<close>s.  Mutual exclusion, FIFO order, no lost wake-up, no failing assertion, and that a
    cycle of waiting transactions is broken, never by the oldest.

  \<^item> \<open>Nested_Txn\<close>, \<open>Nested_Spec\<close>, \<open>Nested_Claims\<close>: the class \<open>StateManager.Transaction\<close>: ownership by nested
    transactions, snapshots, rollback, effects.  The specification keeps one savepoint per nested
    transaction; every run of the class refines it, and an abort undoes exactly the nested transaction.

  \<^item> \<open>Participants\<close>: the class of the same name, its merge and its encodings in headers and database.

  \<^item> \<open>Two_Phase\<close>, \<open>Two_Phase_Inv\<close>, \<open>Two_Phase_Atomic\<close>, \<open>Two_Phase_Steps\<close>, \<open>Two_Phase_Claims\<close>: the handlers
    \<open>Prepare\<close>, \<open>Commit\<close>, \<open>Abort\<close>, \<open>Watch\<close>, the coordinator's \<open>_transaction_coordinator_*\<close>, the commit control
    loop, and recovery of both sides, of one transaction over any number of states (\<open>Two_Phase\<close>); all of it
    as one transition system in which messages are lost, delayed and repeated and servers restart
    (\<open>Two_Phase_Inv\<close>); its invariant (\<open>Two_Phase_Atomic\<close>, \<open>Two_Phase_Steps\<close>); atomicity, finality, no
    orphans, and the runs in which a restart breaks them (\<open>Two_Phase_Claims\<close>).

  \<^item> \<open>Uuid7\<close>: \<open>uuidv7.py\<close>; identifiers increase, and carry their time.

  \<^item> \<open>Idempotency\<close>, \<open>Idempotency_Claims\<close>: \<open>IdempotencyManager\<close> on the caller's side, with its dictionaries as
    heap objects, because checkpoints share them: keys are stable, name one call, and uncertainty blocks
    further mutations.

  \<^item> \<open>Bloom\<close>, \<open>Mutations\<close>: the callee's side: Bloom filters, \<open>IdempotentMutations\<close> in front of the database, and
    how \<open>preload\<close>, \<open>check_for_idempotent_mutation\<close>, \<open>_store\<close> and a commit fill it.  The locale \<open>approx_set\<close> is what
    the filter promises its client.  Lookups agree with the database, but for a preload that is overtaken
    by a commit, and a load that ends after another.

  \<^item> \<open>State_Ref\<close>: references: encoding, decoding, colocation, readable references.

  \<^item> \<open>Tasks\<close>: \<open>TasksCache\<close>, \<open>TasksDispatcher\<close>, and \<open>Wait\<close> and \<open>CancelTask\<close> of \<open>TasksServicer\<close>: cached results agree
    with the database, evicted tasks have a result, results are final, but for a cancellation that comes
    too late; what trimming the cache leaves.

  \<^item> \<open>Concurrently\<close>: the adaptive limiter and the generator behind \<open>concurrently\<close>: each awaitable once, never
    more than the limit, termination.

  \<^item> \<open>Btree_Node\<close>, \<open>Btree_Tree\<close>, \<open>Btree_Insert\<close>, \<open>Btree_Query\<close>: \<open>NodeServicer\<close> over a store of nodes, the
    search-tree invariant, and what each operation does to a tree.  \<open>Ordered_Map\<close>, \<open>Ordered_Map_Claims\<close>:
    \<open>OrderedMapServicer\<close> refines finite maps; \<open>ReverseRange\<close> after a split does not.

  \<^item> \<open>Sorted_Map\<close>: \<open>SortedMapServicer\<close>, the colocated upserts and ranges of the state manager and the scans of the
    database: sorted maps refine finite maps, their ranges are in order for keys without slashes and not
    for others, and the longest keys cannot be read.

  \<^item> \<open>Queue\<close>: \<open>QueueServicer\<close> over sorted maps and time-ordered identifiers, whose texts are in the order of the
    identifiers: queues are first in, first out; an item without fields is lost.  What a queue needs of a map is
    the locale \<open>entry_map\<close>.

  \<^item> \<open>Calls\<close>: \<open>Headers\<close> as they are sent and received, \<open>CallerID\<close>, and the authorizers: headers survive the wire, who is
    admitted by default, how \<open>allow_if\<close> combines decisions, and that it admits what is no decision.

  \<^item> \<open>Placement\<close>: shards, \<open>PlanMaker\<close>, the servers a plan asks for, and the placement clients, whose promise that
    colocated states are on one server is the locale \<open>colocating\<close>: clients find the planned server, scaling
    moves shards to new servers only, servers share the shards evenly; two applications in one plan are
    confused.

  \<^item> \<open>Planner\<close>: \<open>PlacementPlanner\<close> and its listeners: they see plans in order, unless plans are made concurrently.

  \<^item> \<open>Memoize\<close>: \<open>memoize\<close> and \<open>MemoizeServicer\<close> through attempts and crashes of a workflow: what runs at most once,
    that results are stable, and what happens to a call that was cut off.

  \<^bold>\<open>How code becomes definitions.\<close>  A class is a record and its methods are functions on it; a call that
  raises returns \<open>Inl\<close>.  A coroutine is cut at the \<open>await\<close>s where another step can be observed, and the
  pieces are the steps of a transition system; what the event loop, the network and the callers choose
  are the events.  Strings and bytes are lists of numbers, dictionaries association lists where their
  order is seen.

  \<^bold>\<open>Bounds.\<close>  Recursion over the nodes of a tree takes fuel; the servicer gives it \<open>2 * draws w + 2\<close>, where
  \<open>draws\<close> counts the identifiers drawn so far: a tree is never higher than the number of its nodes plus
  one, and a scan along the leaves visits each once, so the theorems show that this is enough and every
  operation returns.  All other recursion terminates as written; the loops of the transition systems are
  unbounded.

  \<^bold>\<open>Parameters and assumptions.\<close>  SHA-1 and the other digests, \<open>uuid5\<close>, pickling, protobuf serialisation and
  the validation of tasks are parameters; of digests only their length is used.  Floats are rationals or
  reals.  In two-phase commit a database call that fails has had no effect, and a write of the coordinator
  that is on its way at a crash has either been applied before or is lost; one transaction is followed,
  and each state has a server of its own.  The atomicity theorems are about runs in which the coordinator
  does not restart while its record and the outcome it has made known disagree, and in which the database handles no
  prepare left behind by a restarted participant (or by one that completed as read-only); theorems show that the
  restrictions on restarts are needed.  A prepare the database has received is otherwise handled at any later time.  In the same way the theorems on lookups of mutations and on cached results of tasks
  exclude the orders of events that other theorems show to be harmful, and those on tasks also a clean-up
  whose database call fails.

  \<^bold>\<open>Not modelled.\<close>  Of the state manager: streaming and reactive readers beyond the queues a commit fills, loading
  and caching of state values.  The listing of tasks across servers, contexts, gRPC channels, the
  OAuth exchanges, the React endpoint, topics and presence, and the control loops of workflows beyond memoised
  blocks: they are mostly wiring around the parts above.  Starting and stopping of servers by the controller.
  Code generators, the command line, the dashboard, tests' helpers and the storage
  engine of the database print text, manage processes or call libraries, and are left out.
\<close>

end
